(* ===== verification/Prelude.thy ===== *)
theory Prelude
  imports Main
begin

text \<open>
  Shared vocabulary of the development: the results of C++ functions (a value, an uncaught
  exception or crash, or a call that does not return), the arithmetic of \<open>size_t\<close>, and the
  collections of simplification rules the component theories fill.
\<close>

section \<open>Results\<close>

text \<open>
  \<open>exn\<close> lists what ends the process: the exceptions of \<open>std::string::substr\<close> and
  \<open>std::stol\<close>, which nobody in the repository catches (so \<open>std::terminate\<close> runs), the
  dereference of a null pointer or of one to a freed object (\<open>Dangling\<close>), an out-of-range index, and
  the signal a server raises on itself.
\<close>

datatype exn = Out_of_range | Invalid_argument | Null_deref | Dangling | Bad_index | Killed

datatype 'a res = Ok 'a | Throw exn | Block

text \<open>
  \<open>Block\<close> is a call that never returns: a \<open>read\<close> for which no more data arrives,
  or a retry loop whose condition never changes.
\<close>

primrec and_then :: "'a res \<Rightarrow> ('a \<Rightarrow> 'b res) \<Rightarrow> 'b res" where
  "and_then (Ok x) f = f x"
| "and_then (Throw e) f = Throw e"
| "and_then Block f = Block"

lemma and_then_eq_Ok [simp]:
  "(and_then m f = Ok y) = (\<exists>x. m = Ok x \<and> f x = Ok y)"
  by (cases m) auto

lemma and_then_assoc: "and_then (and_then m f) g = and_then m (\<lambda>x. and_then (f x) g)"
  by (cases m) auto

lemma and_then_cong [fundef_cong]:
  "m = m' \<Longrightarrow> (\<And>x. m' = Ok x \<Longrightarrow> f x = f' x) \<Longrightarrow> and_then m f = and_then m' f'"
  by (cases m') auto

definition is_Ok :: "'a res \<Rightarrow> bool" where
  "is_Ok r = (case r of Ok _ \<Rightarrow> True | _ \<Rightarrow> False)"

lemma is_Ok_simps [simp]: "is_Ok (Ok x)" "\<not> is_Ok (Throw e)" "\<not> is_Ok Block"
  by (simp_all add: is_Ok_def)

lemma is_Ok_iff: "is_Ok r \<longleftrightarrow> (\<exists>x. r = Ok x)"
  by (cases r) auto

lemma if_elim:
  "(if b then x else y) = z \<Longrightarrow> (b \<Longrightarrow> x = z \<Longrightarrow> R) \<Longrightarrow> (\<not> b \<Longrightarrow> y = z \<Longrightarrow> R) \<Longrightarrow> R"
  by (cases b) simp_all

text \<open>A loop that calls a function on every element and stops at the first failure.\<close>

fun map_res :: "('a \<Rightarrow> 'b res) \<Rightarrow> 'a list \<Rightarrow> 'b list res" where
  "map_res f [] = Ok []"
| "map_res f (x # xs) = and_then (f x) (\<lambda>y. and_then (map_res f xs) (\<lambda>ys. Ok (y # ys)))"

lemma map_res_cong [fundef_cong]:
  "xs = ys \<Longrightarrow> (\<And>x. x \<in> set ys \<Longrightarrow> f x = g x) \<Longrightarrow> map_res f xs = map_res g ys"
  by (induction ys arbitrary: xs) auto

lemma map_res_Ok: "(\<And>x. x \<in> set xs \<Longrightarrow> f x = Ok (g x)) \<Longrightarrow> map_res f xs = Ok (map g xs)"
  by (induction xs) auto

lemma map_res_all2: "map_res f xs = Ok ys \<longleftrightarrow> list_all2 (\<lambda>x y. f x = Ok y) xs ys"
  by (induction xs arbitrary: ys) (auto simp: list_all2_Cons1)

text \<open>A property of the result, if there is one: rules that follow the structure of the code.\<close>

definition on_Ok :: "('a \<Rightarrow> bool) \<Rightarrow> 'a res \<Rightarrow> bool" where
  "on_Ok P m \<longleftrightarrow> (\<forall>x. m = Ok x \<longrightarrow> P x)"

lemma on_Ok_simps [simp]: "on_Ok P (Ok x) \<longleftrightarrow> P x" "on_Ok P (Throw e)" "on_Ok P Block"
  by (simp_all add: on_Ok_def)

lemma on_Ok_bind: "on_Ok Q m \<Longrightarrow> (\<And>x. Q x \<Longrightarrow> on_Ok P (f x)) \<Longrightarrow> on_Ok P (and_then m f)"
  by (cases m) (simp_all add: on_Ok_def)

lemma on_Ok_bind2:
  "on_Ok (\<lambda>(x, y). Q x y) m \<Longrightarrow> (\<And>x y. Q x y \<Longrightarrow> on_Ok P (f x y)) \<Longrightarrow> on_Ok P (and_then m (\<lambda>(x, y). f x y))"
  by (cases m) (auto simp: on_Ok_def)

lemma on_Ok_bind3:
  "on_Ok (\<lambda>(x, y, z). Q x y z) m \<Longrightarrow> (\<And>x y z. Q x y z \<Longrightarrow> on_Ok P (f x y z)) \<Longrightarrow>
     on_Ok P (and_then m (\<lambda>(x, y, z). f x y z))"
  by (cases m) (auto simp: on_Ok_def)

lemma on_Ok_if: "(b \<Longrightarrow> on_Ok P x) \<Longrightarrow> (\<not> b \<Longrightarrow> on_Ok P y) \<Longrightarrow> on_Ok P (if b then x else y)"
  by simp

lemma on_Ok_any: "on_Ok (\<lambda>_. True) m"
  by (simp add: on_Ok_def)

section \<open>The arithmetic of size\_t\<close>

text \<open>
  \<open>size_t\<close> is a 64-bit unsigned integer. A position is a natural number, \<open>npos\<close> is the
  largest one, and the additions and subtractions the code does on positions wrap around. The
  code relies on it: \<open>s.find("<") + 1\<close> is 0 when there is no bracket.
\<close>

definition size_mod :: nat where
  "size_mod = 18446744073709551616"

definition npos :: nat where
  "npos = 18446744073709551615"

definition szadd :: "nat \<Rightarrow> nat \<Rightarrow> nat" where
  "szadd a b = (a + b) mod size_mod"

definition szsub :: "nat \<Rightarrow> nat \<Rightarrow> nat" where
  "szsub a b = (a + size_mod - b mod size_mod) mod size_mod"

lemmas size_defs = size_mod_def npos_def szadd_def szsub_def

lemma szadd_exact [simp]: "a + b < npos \<Longrightarrow> szadd a b = a + b"
  by (simp add: size_defs)

lemma szsub_exact [simp]:
  assumes "b \<le> a" "a < npos"
  shows "szsub a b = a - b"
proof -
  have b: "b mod size_mod = b" using assms by (simp add: size_defs)
  have "a + size_mod - b = (a - b) + size_mod" using assms(1) by simp
  then have "szsub a b = (a - b) mod size_mod"
    by (simp add: szsub_def b)
  also have "\<dots> = a - b"
    by (rule mod_less) (use assms in \<open>simp add: size_defs\<close>)
  finally show ?thesis .
qed

text \<open>A negative difference comes back into range when enough is added.\<close>

lemma szsub_szadd:
  assumes "b \<le> a + k" "a + k < npos"
  shows "szadd (szsub a b) k = a + k - b"
proof -
  have b: "b mod size_mod = b" using assms by (simp add: size_defs)
  have "szadd (szsub a b) k = (a + size_mod - b + k) mod size_mod"
    by (simp add: szadd_def szsub_def b mod_add_left_eq)
  also have "a + size_mod - b + k = (a + k - b) + size_mod"
    using assms by (simp add: size_defs)
  also have "\<dots> mod size_mod = (a + k - b) mod size_mod"
    by (rule mod_add_self2)
  also have "\<dots> = a + k - b"
    by (rule mod_less) (use assms in \<open>simp add: size_defs\<close>)
  finally show ?thesis .
qed

lemma szadd_npos [simp]: "0 < k \<Longrightarrow> k \<le> npos \<Longrightarrow> szadd npos k = k - 1"
  by (simp add: size_defs mod_if)

text \<open>Signed 64-bit values (\<open>long\<close>): what the compilers the Makefiles name do on overflow.\<close>

definition wrap_long :: "int \<Rightarrow> int" where
  "wrap_long i = (i + 9223372036854775808) mod 18446744073709551616 - 9223372036854775808"

definition long_max :: int where
  "long_max = 9223372036854775807"

definition long_min :: int where
  "long_min = - 9223372036854775808"

lemma wrap_long_id [simp]: "long_min \<le> i \<Longrightarrow> i \<le> long_max \<Longrightarrow> wrap_long i = i"
  by (simp add: wrap_long_def long_max_def long_min_def)

lemma wrap_long_range: "long_min \<le> wrap_long i \<and> wrap_long i \<le> long_max"
  by (simp add: wrap_long_def long_max_def long_min_def)

section \<open>Collections of rules\<close>

text \<open>
  \<open>str_simps\<close>: positions and pieces of strings built by the code. \<open>frame_simps\<close>: fields an
  operation leaves alone. \<open>wf_intros\<close>: preservation of the components' invariants.
\<close>

named_theorems str_simps
named_theorems frame_simps
named_theorems wf_intros

end
