(* ===== verification/Cpp_String.thy ===== *)
theory Cpp_String
  imports Prelude "HOL-Library.Sublist"
begin

text \<open>
  The part of \<open>std::string\<close>, C strings and string streams the repository uses. A string is a
  list of bytes (\<open>char\<close>). \<open>find\<close> and \<open>rfind\<close> return \<open>npos\<close> when there is no match,
  \<open>substr\<close> throws \<open>std::out_of_range\<close> when the start lies behind the end, and
  \<open>stol\<close> throws when there is no number or it does not fit.
\<close>

section \<open>Searching\<close>

fun sfind :: "string \<Rightarrow> string \<Rightarrow> nat option" where
  "sfind pat [] = (if pat = [] then Some 0 else None)"
| "sfind pat (c # cs) =
     (if prefix pat (c # cs) then Some 0 else map_option Suc (sfind pat cs))"

definition find :: "string \<Rightarrow> string \<Rightarrow> nat \<Rightarrow> nat" where
  "find s pat pos =
     (if pos \<le> length s
      then (case sfind pat (drop pos s) of None \<Rightarrow> npos | Some i \<Rightarrow> pos + i)
      else npos)"

fun srfind :: "string \<Rightarrow> string \<Rightarrow> nat \<Rightarrow> nat option" where
  "srfind pat s 0 = (if prefix pat s then Some 0 else None)"
| "srfind pat s (Suc i) =
     (if prefix pat (drop (Suc i) s) \<and> Suc i \<le> length s then Some (Suc i) else srfind pat s i)"

definition rfind :: "string \<Rightarrow> string \<Rightarrow> nat \<Rightarrow> nat" where
  "rfind s pat pos =
     (case srfind pat s (min pos (length s)) of None \<Rightarrow> npos | Some i \<Rightarrow> i)"

text \<open>\<open>strstr(s, pat) != NULL\<close>, on a string without a zero byte.\<close>

definition contains :: "string \<Rightarrow> string \<Rightarrow> bool" where
  "contains s pat \<longleftrightarrow> sfind pat s \<noteq> None"

definition substr :: "string \<Rightarrow> nat \<Rightarrow> nat \<Rightarrow> string res" where
  "substr s pos n = (if pos \<le> length s then Ok (take n (drop pos s)) else Throw Out_of_range)"

text \<open>Strings that fit a C++ string object: what \<open>max_size()\<close> guarantees.\<close>

definition fits :: "string \<Rightarrow> bool" where
  "fits s \<longleftrightarrow> length s + 64 < npos"

text \<open>A C string in a zeroed buffer: what is before the first zero byte.\<close>

definition cstr :: "string \<Rightarrow> string" where
  "cstr s = takeWhile (\<lambda>c. c \<noteq> CHR 0x00) s"

abbreviation CR :: char where "CR \<equiv> CHR 0x0D"
abbreviation LF :: char where "LF \<equiv> CHR 0x0A"

definition crlf :: string where
  "crlf = [CR, LF]"

text \<open>The end of a value on the wire: \<open>"\\r\\n.\\r\\n"\<close>.\<close>

definition terminator :: string where
  "terminator = [CR, LF, CHR ''.'', CR, LF]"

subsection \<open>Facts on searching\<close>

lemma sfind_Some_iff:
  "sfind pat s = Some i \<longleftrightarrow>
     i \<le> length s \<and> prefix pat (drop i s) \<and> (\<forall>j < i. \<not> prefix pat (drop j s))"
proof (induction s arbitrary: i)
  case Nil
  then show ?case by auto
next
  case (Cons c cs)
  show ?case
  proof (cases "prefix pat (c # cs)")
    case True
    then show ?thesis by (cases i) auto
  next
    case False
    then show ?thesis
      by (cases i) (auto simp: Cons.IH less_Suc_eq_0_disj)
  qed
qed

lemma sfind_None_iff: "sfind pat s = None \<longleftrightarrow> (\<forall>i \<le> length s. \<not> prefix pat (drop i s))"
proof
  assume none: "sfind pat s = None"
  show "\<forall>i \<le> length s. \<not> prefix pat (drop i s)"
  proof (rule ccontr)
    assume "\<not> (\<forall>i \<le> length s. \<not> prefix pat (drop i s))"
    then have "\<exists>i. i \<le> length s \<and> prefix pat (drop i s)" by blast
    then obtain i where "i \<le> length s \<and> prefix pat (drop i s)"
        and "\<forall>j < i. \<not> (j \<le> length s \<and> prefix pat (drop j s))"
      using exists_least_iff [of "\<lambda>i. i \<le> length s \<and> prefix pat (drop i s)"] by blast
    then have "sfind pat s = Some i" by (auto simp: sfind_Some_iff)
    with none show False by simp
  qed
next
  assume "\<forall>i \<le> length s. \<not> prefix pat (drop i s)"
  then show "sfind pat s = None" by (cases "sfind pat s") (auto simp: sfind_Some_iff)
qed

lemma sfind_length: "sfind pat s = Some i \<Longrightarrow> i + length pat \<le> length s"
  using prefix_length_le [of pat "drop i s"] by (fastforce simp: sfind_Some_iff)

lemma sfind_append [simp]:
  assumes "sfind pat s = Some i"
  shows "sfind pat (s @ t) = Some i"
proof -
  have i: "i + length pat \<le> length s" using assms by (rule sfind_length)
  have "\<not> prefix pat (drop j (s @ t))" if "j < i" for j
  proof
    assume "prefix pat (drop j (s @ t))"
    moreover have "length pat \<le> length (drop j s)" using i that by simp
    ultimately have "prefix pat (drop j s)"
      using i that by (auto intro: prefix_length_prefix)
    with assms that show False by (auto simp: sfind_Some_iff)
  qed
  with assms i show ?thesis by (auto simp: sfind_Some_iff intro: prefix_prefix)
qed

lemma sfind_middle: "sfind pat (a @ pat @ b) \<noteq> None"
proof -
  have "prefix pat (drop (length a) (a @ pat @ b))" by simp
  moreover have "length a \<le> length (a @ pat @ b)" by simp
  ultimately show ?thesis unfolding sfind_None_iff by blast
qed

lemma sfind_skip:
  "c \<notin> set a \<Longrightarrow> sfind (c # pat) (a @ s) = map_option ((+) (length a)) (sfind (c # pat) s)"
  by (cases "sfind (c # pat) s"; induction a) auto

text \<open>A character that the pattern does not have separates the matches.\<close>

lemma prefix_barrier: "c \<notin> set pat \<Longrightarrow> prefix pat (a @ c # b) \<longleftrightarrow> prefix pat a"
proof (induction a arbitrary: pat)
  case Nil
  then show ?case by (cases pat) auto
next
  case (Cons x a)
  then show ?case by (cases pat) auto
qed

lemma sfind_barrier:
  "c \<notin> set pat \<Longrightarrow> pat \<noteq> [] \<Longrightarrow> sfind pat a = None \<Longrightarrow>
     sfind pat (a @ c # b) = map_option (\<lambda>i. Suc (length a + i)) (sfind pat b)"
proof (induction a)
  case Nil
  then show ?case by (cases pat) auto
next
  case (Cons x a)
  have "\<not> prefix pat (x # a)" "sfind pat a = None" using Cons.prems(3) by (auto split: if_splits)
  moreover have "\<not> prefix pat (x # a @ c # b)"
    using prefix_barrier [OF Cons.prems(1), of "x # a" b] \<open>\<not> prefix pat (x # a)\<close> by simp
  ultimately show ?case using Cons.IH [OF Cons.prems(1,2)]
    by (simp add: option.map_comp comp_def)
qed

lemma sfind_prefix: "sfind pat s = None \<Longrightarrow> sfind (pat @ q) s = None"
  unfolding sfind_None_iff by (auto dest: append_prefixD)

lemma sfind_here [simp]: "prefix pat s \<Longrightarrow> sfind pat s = Some 0"
  by (cases s) auto

lemma sfind_char [simp]: "c \<notin> set a \<Longrightarrow> sfind [c] (a @ c # s) = Some (length a)"
  by (simp add: sfind_skip)

lemma sfind_char_None [simp]: "sfind [c] s = None \<longleftrightarrow> c \<notin> set s"
  by (induction s) auto

lemma sfind_absent: "c \<notin> set s \<Longrightarrow> sfind (c # pat) s = None"
  by (induction s) auto

lemma find_start: "find s pat 0 = (case sfind pat s of None \<Rightarrow> npos | Some i \<Rightarrow> i)"
  by (simp add: find_def split: option.split)

lemma find_Some: "sfind pat s = Some i \<Longrightarrow> find s pat 0 = i"
  by (simp add: find_start)

lemma find_char [str_simps]: "c \<notin> set a \<Longrightarrow> find (a @ c # s) [c] 0 = length a"
  by (simp add: find_start)

lemma find_from: "c \<notin> set x \<Longrightarrow> find (p @ x @ c # r) [c] (length p) = length p + length x"
  by (simp add: find_def)

lemma substr_middle: "substr (p @ x @ r) (length p) (length x) = Ok x"
  by (simp add: substr_def)

lemma find_npos [str_simps]: "c \<notin> set s \<Longrightarrow> find s [c] 0 = npos"
  using sfind_char_None [of c s] by (simp add: find_start del: sfind_char_None)

lemma find_cases:
  obtains "find s pat pos = npos" | "pos \<le> find s pat pos" "find s pat pos + length pat \<le> length s"
proof (cases "pos \<le> length s")
  case True
  show ?thesis
  proof (cases "sfind pat (drop pos s)")
    case None
    then show ?thesis using that(1) by (simp add: find_def)
  next
    case (Some i)
    with True sfind_length [OF Some] show ?thesis
      using that(2) by (simp add: find_def)
  qed
qed (simp add: that(1) find_def)

lemma find_succ_le: "fits s \<Longrightarrow> pat \<noteq> [] \<Longrightarrow> szadd (find s pat pos) 1 \<le> length s"
  by (rule find_cases [of s pat pos])
     (auto simp: fits_def npos_def szadd_def size_mod_def Suc_le_eq length_greater_0_conv [symmetric]
        simp del: length_greater_0_conv)

lemma substr_Ok [simp]: "pos \<le> length s \<Longrightarrow> substr s pos n = Ok (take n (drop pos s))"
  by (simp add: substr_def)

lemma substr_npos: "pos \<le> length s \<Longrightarrow> fits s \<Longrightarrow> substr s pos npos = Ok (drop pos s)"
  by (simp add: fits_def)

lemma cstr_id [simp]: "CHR 0x00 \<notin> set s \<Longrightarrow> cstr s = s"
  unfolding cstr_def by (rule takeWhile_eq_all_conv [THEN iffD2]) auto

subsection \<open>Names in angle brackets\<close>

text \<open>
  The expression \<open>s.substr(s.find("<") + 1, s.find(">") - s.find("<") - 1)\<close>, which the worker and
  the checkpoint code use to read a row or a column name.
\<close>

definition bracketed :: "string \<Rightarrow> string res" where
  "bracketed s =
     substr s (szadd (find s ''<'' 0) 1)
       (szsub (szsub (find s ''>'' 0) (find s ''<'' 0)) 1)"

text \<open>The expression \<open>s.substr(s.find(">") + 1)\<close>.\<close>

definition after_bracket :: "string \<Rightarrow> string res" where
  "after_bracket s = substr s (szadd (find s ''>'' 0) 1) npos"

lemma bracketed_name [str_simps]:
  assumes "CHR ''<'' \<notin> set a" "CHR ''>'' \<notin> set a" "CHR ''>'' \<notin> set k"
    and "fits (a @ CHR ''<'' # k @ CHR ''>'' # b)"
  shows "bracketed (a @ CHR ''<'' # k @ CHR ''>'' # b) = Ok k"
proof -
  let ?s = "a @ CHR ''<'' # k @ CHR ''>'' # b"
  have lt: "find ?s ''<'' 0 = length a"
    using assms(1) by (rule find_char)
  have "find ((a @ CHR ''<'' # k) @ CHR ''>'' # b) ''>'' 0 = length (a @ CHR ''<'' # k)"
    using assms(2,3) by (intro find_char) auto
  then have gt: "find ?s ''>'' 0 = length a + 1 + length k" by simp
  have "length ?s < npos" using assms(4) by (simp add: fits_def)
  then have "szadd (length a) 1 = length a + 1"
      and "szsub (szsub (length a + 1 + length k) (length a)) 1 = length k"
    by simp_all
  then show ?thesis unfolding bracketed_def lt gt by simp
qed

lemma after_bracket_rest [str_simps]:
  assumes "CHR ''>'' \<notin> set a" and "fits (a @ CHR ''>'' # b)"
  shows "after_bracket (a @ CHR ''>'' # b) = Ok b"
proof -
  have "length (a @ CHR ''>'' # b) < npos" using assms(2) by (simp add: fits_def)
  then have "szadd (length a) 1 = length a + 1" by simp
  with assms show ?thesis
    by (simp add: after_bracket_def find_char fits_def del: szadd_exact)
qed

lemma bracketed_total: "fits s \<Longrightarrow> \<exists>k. bracketed s = Ok k"
  unfolding bracketed_def using find_succ_le [of s "''<''" 0] by (auto simp: substr_def)

lemma after_bracket_total: "fits s \<Longrightarrow> \<exists>k. after_bracket s = Ok k \<and> length k \<le> length s"
  unfolding after_bracket_def using find_succ_le [of s "''>''" 0] by (auto simp: substr_def)

section \<open>Numbers\<close>

definition digit_char :: "nat \<Rightarrow> char" where
  "digit_char d = char_of (48 + d)"

definition is_digit :: "char \<Rightarrow> bool" where
  "is_digit c \<longleftrightarrow> 48 \<le> (of_char c :: nat) \<and> (of_char c :: nat) \<le> 57"

definition digit_val :: "char \<Rightarrow> nat" where
  "digit_val c = of_char c - 48"

definition is_space :: "char \<Rightarrow> bool" where
  "is_space c \<longleftrightarrow> c = CHR '' '' \<or> 9 \<le> (of_char c :: nat) \<and> (of_char c :: nat) \<le> 13"

text \<open>What \<open>operator<<\<close> and \<open>std::to_string\<close> print.\<close>

fun show_nat :: "nat \<Rightarrow> string" where
  "show_nat n =
     (if n < 10 then [digit_char n] else show_nat (n div 10) @ [digit_char (n mod 10)])"

declare show_nat.simps [simp del]

definition show_int :: "int \<Rightarrow> string" where
  "show_int i = (if i < 0 then CHR ''-'' # show_nat (nat (- i)) else show_nat (nat i))"

definition digits_val :: "string \<Rightarrow> nat" where
  "digits_val ds = foldl (\<lambda>v c. 10 * v + digit_val c) 0 ds"

text \<open>\<open>strtol\<close> in base 10: blanks, a sign, digits. \<open>None\<close> when there is no digit.\<close>

definition strtol :: "string \<Rightarrow> int option" where
  "strtol s =
     (let t = dropWhile is_space s;
          neg = (t \<noteq> [] \<and> hd t = CHR ''-'');
          u = (if t \<noteq> [] \<and> (hd t = CHR ''-'' \<or> hd t = CHR ''+'') then tl t else t);
          ds = takeWhile is_digit u
      in if ds = [] then None
         else Some (if neg then - int (digits_val ds) else int (digits_val ds)))"

definition stol :: "string \<Rightarrow> int res" where
  "stol s =
     (case strtol s of
        None \<Rightarrow> Throw Invalid_argument
      | Some v \<Rightarrow> if long_min \<le> v \<and> v \<le> long_max then Ok v else Throw Out_of_range)"

text \<open>\<open>stoul\<close>: a minus sign negates modulo \<open>2^64\<close>.\<close>

definition stoul :: "string \<Rightarrow> nat res" where
  "stoul s =
     (case strtol s of
        None \<Rightarrow> Throw Invalid_argument
      | Some v \<Rightarrow> if \<bar>v\<bar> \<le> int npos then Ok (nat (v mod int size_mod)) else Throw Out_of_range)"

text \<open>\<open>atoi\<close>: 0 without digits; \<open>strtol\<close> saturates and the result is cut to 32 bits.\<close>

definition wrap_int :: "int \<Rightarrow> int" where
  "wrap_int i = (i + 2147483648) mod 4294967296 - 2147483648"

definition atoi :: "string \<Rightarrow> int" where
  "atoi s =
     (case strtol s of
        None \<Rightarrow> 0
      | Some v \<Rightarrow> wrap_int (max long_min (min long_max v)))"

lemma of_char_digit [simp]: "d < 10 \<Longrightarrow> (of_char (digit_char d) :: nat) = 48 + d"
  by (simp add: digit_char_def)

lemma is_digit_char [simp]: "d < 10 \<Longrightarrow> is_digit (digit_char d)"
  by (simp add: is_digit_def)

lemma digit_val_char [simp]: "d < 10 \<Longrightarrow> digit_val (digit_char d) = d"
  by (simp add: digit_val_def)

lemma show_nat_digits: "c \<in> set (show_nat n) \<Longrightarrow> is_digit c"
proof (induction n rule: show_nat.induct)
  case (1 n)
  then show ?case by (subst (asm) show_nat.simps) (auto split: if_splits)
qed

lemma show_nat_nonempty [simp]: "show_nat n \<noteq> []"
  by (subst show_nat.simps) simp

lemma digits_val_show [simp]: "digits_val (show_nat n) = n"
proof (induction n rule: show_nat.induct)
  case (1 n)
  show ?case
  proof (cases "n < 10")
    case True
    then show ?thesis by (simp add: show_nat.simps [of n] digits_val_def)
  next
    case False
    with 1 have "digits_val (show_nat (n div 10)) = n div 10" by simp
    with False show ?thesis
      by (simp add: show_nat.simps [of n] digits_val_def)
  qed
qed

lemma digit_not_space: "is_digit c \<Longrightarrow> \<not> is_space c"
  by (auto simp: is_digit_def is_space_def)

lemma digit_not_sign: "is_digit c \<Longrightarrow> c \<noteq> CHR ''-'' \<and> c \<noteq> CHR ''+''"
  by (auto simp: is_digit_def)

lemma show_nat_hd: "is_digit (hd (show_nat n))"
  by (rule show_nat_digits [OF hd_in_set]) simp

lemma strtol_show_nat:
  assumes "rest = [] \<or> \<not> is_digit (hd rest)"
  shows "strtol (show_nat n @ rest) = Some (int n)"
proof -
  have hd: "is_digit (hd (show_nat n @ rest))" using show_nat_hd by simp
  then have ns: "dropWhile is_space (show_nat n @ rest) = show_nat n @ rest"
    using digit_not_space by (cases "show_nat n @ rest") auto
  have "takeWhile is_digit (show_nat n @ rest) = show_nat n"
    using assms show_nat_digits by (cases rest) (auto simp: takeWhile_append)
  with hd ns digit_not_sign [OF hd] show ?thesis
    by (simp add: strtol_def Let_def)
qed

lemma stol_show [str_simps]:
  assumes "0 \<le> i" "i \<le> long_max" and "rest = [] \<or> \<not> is_digit (hd rest)"
  shows "stol (show_int i @ rest) = Ok i"
  using assms strtol_show_nat [OF assms(3), of "nat i"]
  by (simp add: stol_def show_int_def long_min_def)

lemma show_int_chars:
  "c \<in> set (show_int i) \<Longrightarrow> is_digit c \<or> c = CHR ''-''"
  using show_nat_digits by (auto simp: show_int_def split: if_splits)

lemma show_int_absent:
  "\<not> is_digit c \<Longrightarrow> c \<noteq> CHR ''-'' \<Longrightarrow> c \<notin> set (show_int i)"
  using show_int_chars by blast

lemma show_int_plain [simp]:
  "CR \<notin> set (show_int i)" "LF \<notin> set (show_int i)" "CHR ''<'' \<notin> set (show_int i)"
  "CHR ''>'' \<notin> set (show_int i)" "CHR '' '' \<notin> set (show_int i)" "CHR 0x00 \<notin> set (show_int i)"
  "CHR ''.'' \<notin> set (show_int i)"
  by (rule show_int_absent; simp add: is_digit_def)+

section \<open>Lines\<close>

text \<open>
  The lines \<open>getline\<close> delivers until it fails: the last piece counts only if it is not empty.
\<close>

fun getlines_acc :: "string \<Rightarrow> string \<Rightarrow> string list" where
  "getlines_acc acc [] = (if acc = [] then [] else [acc])"
| "getlines_acc acc (c # cs) =
     (if c = LF then acc # getlines_acc [] cs else getlines_acc (acc @ [c]) cs)"

definition getlines :: "string \<Rightarrow> string list" where
  "getlines s = getlines_acc [] s"

lemma getlines_acc_line:
  "LF \<notin> set l \<Longrightarrow> getlines_acc acc (l @ LF # s) = (acc @ l) # getlines_acc [] s"
  by (induction l arbitrary: acc) auto

lemma getlines_Nil [simp]: "getlines [] = []"
  by (simp add: getlines_def)

lemma getlines_Cons [str_simps]: "LF \<notin> set l \<Longrightarrow> getlines (l @ LF # s) = l # getlines s"
  by (simp add: getlines_def getlines_acc_line)

lemma getlines_acc_no_LF:
  "LF \<notin> set acc \<Longrightarrow> l \<in> set (getlines_acc acc s) \<Longrightarrow> LF \<notin> set l"
  by (induction acc s rule: getlines_acc.induct) (auto split: if_splits)

lemma getlines_no_LF: "l \<in> set (getlines s) \<Longrightarrow> LF \<notin> set l"
  unfolding getlines_def by (rule getlines_acc_no_LF [of "[]"]) simp_all

section \<open>String streams\<close>

text \<open>
  \<open>std::stringstream\<close> with its put position. \<open>str(x)\<close> replaces the text and puts the
  position back to the start, so the next \<open>operator<<\<close> overwrites the text from there
  (the stream is not opened with \<open>ios::ate\<close> or \<open>ios::app\<close>).
\<close>

record sstream =
  ss_buf :: string
  ss_put :: nat

definition ss_new :: sstream where
  "ss_new = \<lparr>ss_buf = [], ss_put = 0\<rparr>"

definition ss_set :: "string \<Rightarrow> sstream" where
  "ss_set x = \<lparr>ss_buf = x, ss_put = 0\<rparr>"

definition ss_write :: "sstream \<Rightarrow> string \<Rightarrow> sstream" where
  "ss_write ss x =
     \<lparr>ss_buf = take (ss_put ss) (ss_buf ss) @ x @ drop (ss_put ss + length x) (ss_buf ss),
      ss_put = ss_put ss + length x\<rparr>"

lemma ss_buf_set [simp]: "ss_buf (ss_set x) = x" "ss_put (ss_set x) = 0"
  by (simp_all add: ss_set_def)

lemma ss_write_fresh [simp]: "ss_buf (ss_write (ss_set []) x) = x"
  by (simp add: ss_write_def ss_set_def)

lemma ss_new_set: "ss_new = ss_set []"
  by (simp add: ss_new_def ss_set_def)

end
