(* ===== verification/Cpp_Map.thy ===== *)
theory Cpp_Map
  imports Prelude "HOL-Library.Char_ord" "HOL-Library.List_Lexorder"
begin

text \<open>
  \<open>std::map\<close>: the contract the clients use, as a locale, and the model of it, an association
  list sorted by key (\<open>std::string\<close> keys compare byte by byte, as \<open>List_Lexorder\<close> over
  \<open>Char_ord\<close> does). Iteration visits the entries in key order.
\<close>

section \<open>The contract\<close>

locale cpp_map =
  fixes mempty :: "'m"
    and mlookup :: "'m \<Rightarrow> 'k \<Rightarrow> 'v option"
    and minsert :: "'k \<Rightarrow> 'v \<Rightarrow> 'm \<Rightarrow> 'm"
    and merase :: "'k \<Rightarrow> 'm \<Rightarrow> 'm"
    and mentries :: "'m \<Rightarrow> ('k \<times> 'v) list"
    and minvar :: "'m \<Rightarrow> bool"
  assumes lookup_empty: "mlookup mempty = Map.empty"
    and lookup_insert: "minvar m \<Longrightarrow> mlookup (minsert k v m) = (mlookup m)(k \<mapsto> v)"
    and lookup_erase: "minvar m \<Longrightarrow> mlookup (merase k m) = (mlookup m)(k := None)"
    and lookup_entries: "minvar m \<Longrightarrow> map_of (mentries m) = mlookup m"
    and distinct_entries: "minvar m \<Longrightarrow> distinct (map fst (mentries m))"
    and invar_empty: "minvar mempty"
    and invar_insert: "minvar m \<Longrightarrow> minvar (minsert k v m)"
    and invar_erase: "minvar m \<Longrightarrow> minvar (merase k m)"
    and lookup_ext: "minvar m \<Longrightarrow> minvar m' \<Longrightarrow> mlookup m = mlookup m' \<Longrightarrow> m = m'"
begin

lemmas map_laws = lookup_empty lookup_insert lookup_erase invar_empty invar_insert invar_erase

text \<open>Entries are what lookup finds.\<close>

lemma in_entries: "minvar m \<Longrightarrow> (k, v) \<in> set (mentries m) \<longleftrightarrow> mlookup m k = Some v"
  by (simp add: lookup_entries [symmetric] distinct_entries)

text \<open>Inserting an entry list into a map, in order.\<close>

lemma insert_all:
  "minvar m \<Longrightarrow>
     minvar (foldl (\<lambda>a (k, v). minsert k v a) m kvs) \<and>
     mlookup (foldl (\<lambda>a (k, v). minsert k v a) m kvs) = mlookup m ++ map_of (rev kvs)"
proof (induction kvs arbitrary: m)
  case Nil
  then show ?case by simp
next
  case (Cons kv kvs)
  obtain k v where kv: "kv = (k, v)" by (cases kv)
  from Cons.prems have "minvar (minsert k v m)" by (rule invar_insert)
  from Cons.IH [OF this] Cons.prems show ?case
    by (simp add: kv lookup_insert map_of_append fun_eq_iff map_add_def split: option.splits)
qed

text \<open>A map is rebuilt from its own entries: what a dump and reload relies on.\<close>

lemma rebuild:
  assumes "minvar m"
  shows "foldl (\<lambda>a (k, v). minsert k v a) mempty (mentries m) = m"
proof (rule lookup_ext)
  let ?r = "foldl (\<lambda>a (k, v). minsert k v a) mempty (mentries m)"
  have d: "distinct (map fst (mentries m))" using assms by (rule distinct_entries)
  have r: "minvar ?r" "mlookup ?r = mlookup mempty ++ map_of (rev (mentries m))"
    using insert_all [OF invar_empty, of "mentries m"] by auto
  show "minvar ?r" by (rule r(1))
  have "map_of (rev (mentries m)) = map_of (mentries m)"
    using d by (subst map_of_inject_set) (simp_all add: rev_map [symmetric])
  with r(2) show "mlookup ?r = mlookup m"
    by (simp add: lookup_empty lookup_entries [OF assms])
qed (rule assms)

end

section \<open>Sorted association lists\<close>

type_synonym ('k, 'v) smap = "('k \<times> 'v) list"

fun map_at :: "('k::linorder, 'v) smap \<Rightarrow> 'k \<Rightarrow> 'v option" where
  "map_at [] k = None"
| "map_at ((k', v) # m) k = (if k = k' then Some v else map_at m k)"

fun map_insert :: "'k::linorder \<Rightarrow> 'v \<Rightarrow> ('k, 'v) smap \<Rightarrow> ('k, 'v) smap" where
  "map_insert k v [] = [(k, v)]"
| "map_insert k v ((k', v') # m) =
     (if k < k' then (k, v) # (k', v') # m
      else if k = k' then (k, v) # m
      else (k', v') # map_insert k v m)"

fun map_erase :: "'k::linorder \<Rightarrow> ('k, 'v) smap \<Rightarrow> ('k, 'v) smap" where
  "map_erase k [] = []"
| "map_erase k ((k', v') # m) = (if k = k' then m else (k', v') # map_erase k m)"

text \<open>\<open>m.count(k) != 0\<close>\<close>

definition map_has :: "('k::linorder, 'v) smap \<Rightarrow> 'k \<Rightarrow> bool" where
  "map_has m k \<longleftrightarrow> map_at m k \<noteq> None"

definition map_ok :: "('k::linorder, 'v) smap \<Rightarrow> bool" where
  "map_ok m \<longleftrightarrow> sorted_wrt (<) (map fst m)"

lemma map_ok_simps [simp]:
  "map_ok []"
  "map_ok ((k, v) # m) \<longleftrightarrow> (\<forall>(k', v') \<in> set m. k < k') \<and> map_ok m"
  by (auto simp: map_ok_def)

lemma map_at_None: "(\<forall>(k', v') \<in> set m. k < k') \<Longrightarrow> map_at m k = None"
  by (induction m k rule: map_at.induct) auto

lemma map_at_map_of: "map_at m = map_of m"
  by (rule ext) (induct m rule: list.induct; auto)

lemma set_map_insert: "set (map_insert k v m) \<subseteq> insert (k, v) (set m)"
  by (induction k v m rule: map_insert.induct) auto

lemma set_map_erase: "set (map_erase k m) \<subseteq> set m"
  by (induction k m rule: map_erase.induct) auto

lemma map_ok_insert: "map_ok m \<Longrightarrow> map_ok (map_insert k v m)"
proof (induction k v m rule: map_insert.induct)
  case (2 k v k' v' m)
  then show ?case using set_map_insert [of k v m] by auto
qed simp

lemma map_ok_erase: "map_ok m \<Longrightarrow> map_ok (map_erase k m)"
proof (induction k m rule: map_erase.induct)
  case (2 k k' v' m)
  then show ?case using set_map_erase [of k m] by auto
qed simp

lemma map_at_insert [simp]: "map_at (map_insert k v m) k' = (if k' = k then Some v else map_at m k')"
  by (induction k v m rule: map_insert.induct) auto

lemma map_at_erase:
  "map_ok m \<Longrightarrow> map_at (map_erase k m) k' = (if k' = k then None else map_at m k')"
  by (induction k m rule: map_erase.induct) (auto simp: map_at_None)

lemma map_ok_keys: "map_ok m \<Longrightarrow> m = map (\<lambda>k. (k, the (map_at m k))) (map fst m)"
proof (induction m)
  case (Cons kv m)
  obtain k v where kv: "kv = (k, v)" by (cases kv)
  have "k \<notin> fst ` set m" using Cons.prems by (auto simp: kv)
  then have "map (\<lambda>l. (l, the (map_at (kv # m) l))) (map fst m) =
      map (\<lambda>l. (l, the (map_at m l))) (map fst m)"
    by (auto simp: kv)
  also have "\<dots> = m" using Cons by (simp add: kv)
  finally show ?case by (simp add: kv)
qed simp

lemma map_ok_ext:
  assumes "map_ok m" "map_ok m'" "map_at m = map_at m'"
  shows "m = m'"
proof -
  have d: "distinct (map fst m)" "distinct (map fst m')"
    and st: "sorted_wrt (<) (map fst m)" "sorted_wrt (<) (map fst m')"
    using assms(1,2) unfolding map_ok_def strict_sorted_iff by simp_all
  have "map_of m = map_of m'" using assms(3) by (simp add: map_at_map_of)
  then have s: "set m = set m'"
    by (rule map_of_inject_set [OF d, THEN iffD1])
  then have "fst ` set m = fst ` set m'" by simp
  then have f: "map fst m = map fst m'"
    using strict_sorted_equal [OF st] by simp
  have "m = map (\<lambda>k. (k, the (map_at m k))) (map fst m)"
    by (rule map_ok_keys) (rule assms(1))
  also have "\<dots> = map (\<lambda>k. (k, the (map_at m' k))) (map fst m')"
    using f assms(3) by simp
  also have "\<dots> = m'"
    by (rule map_ok_keys [symmetric]) (rule assms(2))
  finally show ?thesis .
qed

interpretation smap: cpp_map "[]" map_at map_insert map_erase "\<lambda>m. m" map_ok
proof unfold_locales
  fix m m' :: "('a, 'b) smap" and k v
  show "map_at [] = (Map.empty :: 'a \<Rightarrow> 'b option)" by (simp add: fun_eq_iff)
  show "map_ok m \<Longrightarrow> map_at (map_insert k v m) = (map_at m)(k \<mapsto> v)" by (simp add: fun_eq_iff)
  show "map_ok m \<Longrightarrow> map_at (map_erase k m) = (map_at m)(k := None)"
    by (simp add: fun_eq_iff map_at_erase)
  show "map_ok m \<Longrightarrow> map_of m = map_at m" by (simp add: map_at_map_of)
  show "map_ok m \<Longrightarrow> distinct (map fst m)" by (simp add: map_ok_def strict_sorted_iff)
  show "map_ok ([] :: ('a, 'b) smap)" by simp
  show "map_ok m \<Longrightarrow> map_ok (map_insert k v m)" by (rule map_ok_insert)
  show "map_ok m \<Longrightarrow> map_ok (map_erase k m)" by (rule map_ok_erase)
  show "map_ok m \<Longrightarrow> map_ok m' \<Longrightarrow> map_at m = map_at m' \<Longrightarrow> m = m'" by (rule map_ok_ext)
qed

end
