(* ===== verification/Kv_Table.thy ===== *)
theory Kv_Table
  imports Cpp_String Cpp_Map
begin

text \<open>
  The table of a data server (\<open>kvstore/server.h\<close>, \<open>kvstore/cell.h\<close>): a map from rows to maps from
  columns to cells. \<open>bmap\<close> has the contents of the cells in it; \<open>Primary_Clients\<close>
  uses the same functions on a table of pointers. The code never leaves a null cell pointer in the
  table, because the places that would create it dereference it at once (\<open>Worker.store_cell\<close>). The locale \<open>kv_store\<close> is what the server promises about single cells; the
  worker, the checkpoint and the replication rest on it.
\<close>

section \<open>Cells in a two-level map\<close>

type_synonym 'v columns = "(string, 'v) smap"
type_synonym 'v rows = "(string, 'v columns) smap"
type_synonym bmap = "string rows"

definition row_of :: "'v rows \<Rightarrow> string \<Rightarrow> 'v columns" where
  "row_of t r = (case map_at t r of None \<Rightarrow> [] | Some m \<Rightarrow> m)"

text \<open>\<open>table.at(row).at(col)\<close>, if both exist.\<close>

definition cell_get :: "'v rows \<Rightarrow> string \<times> string \<Rightarrow> 'v option" where
  "cell_get t k = map_at (row_of t (fst k)) (snd k)"

text \<open>\<open>table[row][col] = new Cell(data)\<close>\<close>

definition cell_put :: "string \<times> string \<Rightarrow> 'v \<Rightarrow> 'v rows \<Rightarrow> 'v rows" where
  "cell_put k v t = map_insert (fst k) (map_insert (snd k) v (row_of t (fst k))) t"

text \<open>\<open>table.at(row).erase(col)\<close>: the row stays, possibly without columns.\<close>

definition cell_erase :: "string \<times> string \<Rightarrow> 'v rows \<Rightarrow> 'v rows" where
  "cell_erase k t =
     (if map_has t (fst k) then map_insert (fst k) (map_erase (snd k) (row_of t (fst k))) t else t)"

text \<open>The cells in the order of the two nested iterators.\<close>

definition cells :: "'v rows \<Rightarrow> ((string \<times> string) \<times> 'v) list" where
  "cells t = concat (map (\<lambda>(r, m). map (\<lambda>(c, v). ((r, c), v)) m) t)"

definition table_ok :: "'v rows \<Rightarrow> bool" where
  "table_ok t \<longleftrightarrow> map_ok t \<and> (\<forall>(r, m) \<in> set t. map_ok m)"

section \<open>The contract\<close>

locale kv_store =
  fixes kempty :: "'t"
    and kget :: "'t \<Rightarrow> 'k \<Rightarrow> 'v option"
    and kput :: "'k \<Rightarrow> 'v \<Rightarrow> 't \<Rightarrow> 't"
    and kdel :: "'k \<Rightarrow> 't \<Rightarrow> 't"
    and kcells :: "'t \<Rightarrow> ('k \<times> 'v) list"
    and kinvar :: "'t \<Rightarrow> bool"
  assumes get_empty: "kget kempty = Map.empty"
    and get_put: "kinvar t \<Longrightarrow> kget (kput k v t) = (kget t)(k \<mapsto> v)"
    and get_del: "kinvar t \<Longrightarrow> kget (kdel k t) = (kget t)(k := None)"
    and get_cells: "kinvar t \<Longrightarrow> map_of (kcells t) = kget t"
    and distinct_cells: "kinvar t \<Longrightarrow> distinct (map fst (kcells t))"
    and kinvar_empty: "kinvar kempty"
    and kinvar_put: "kinvar t \<Longrightarrow> kinvar (kput k v t)"
    and kinvar_del: "kinvar t \<Longrightarrow> kinvar (kdel k t)"
begin

text \<open>A sequence of writes and deletes, as a log replays it: \<open>None\<close> deletes.\<close>

fun apply_updates :: "('k \<times> 'v option) list \<Rightarrow> 't \<Rightarrow> 't" where
  "apply_updates [] t = t"
| "apply_updates ((k, Some v) # us) t = apply_updates us (kput k v t)"
| "apply_updates ((k, None) # us) t = apply_updates us (kdel k t)"

lemma kinvar_updates: "kinvar t \<Longrightarrow> kinvar (apply_updates us t)"
  by (induction us t rule: apply_updates.induct) (simp_all add: kinvar_put kinvar_del)

text \<open>The last update of a cell decides.\<close>

lemma get_updates:
  "kinvar t \<Longrightarrow> kget (apply_updates us t) k =
     (case map_of (rev us) k of None \<Rightarrow> kget t k | Some u \<Rightarrow> u)"
  by (induction us t rule: apply_updates.induct)
     (auto simp: kinvar_put kinvar_del get_put get_del map_add_def split: option.splits)

text \<open>A store written out cell by cell and read into an empty one holds the same cells.\<close>

lemma reload:
  assumes "kinvar t"
  shows "kget (apply_updates (map (\<lambda>(k, v). (k, Some v)) (kcells t)) kempty) = kget t"
proof
  fix k
  have d: "distinct (map fst (kcells t))" using assms by (rule distinct_cells)
  have "map_of (rev (map (\<lambda>(k, v). (k, Some v)) (kcells t))) k =
      map_of (map (\<lambda>(k, v). (k, Some v)) (kcells t)) k"
    using d by (subst map_of_inject_set [THEN iffD2])
      (auto simp: rev_map [symmetric] comp_def case_prod_beta)
  also have "\<dots> = map_option Some (kget t k)"
    by (simp add: map_of_map get_cells [OF assms, symmetric] option.map_comp comp_def)
  finally show "kget (apply_updates (map (\<lambda>(k, v). (k, Some v)) (kcells t)) kempty) k = kget t k"
    using get_updates [OF kinvar_empty, of "map (\<lambda>(k, v). (k, Some v)) (kcells t)" k]
    by (auto simp: get_empty split: option.splits)
qed

end

section \<open>The table provides it\<close>

lemma row_of_ok: "table_ok t \<Longrightarrow> map_ok (row_of t r)"
  by (auto simp: row_of_def table_ok_def map_at_map_of split: option.splits dest: map_of_SomeD)

lemma row_of_insert [simp]: "row_of (map_insert r m t) r' = (if r' = r then m else row_of t r')"
  by (simp add: row_of_def)

lemma cell_get_put [simp]:
  "cell_get (cell_put k v t) = (cell_get t)(k \<mapsto> v)"
  by (cases k) (auto simp: cell_get_def cell_put_def fun_eq_iff)

lemma cell_get_erase:
  "table_ok t \<Longrightarrow> cell_get (cell_erase k t) = (cell_get t)(k := None)"
  using row_of_ok [of t "fst k"]
  by (cases k) (auto simp: cell_get_def cell_erase_def fun_eq_iff map_at_erase map_has_def row_of_def
      split: option.splits)

lemma table_ok_Nil [simp]: "table_ok []"
  by (simp add: table_ok_def)

lemma table_ok_insert: "table_ok t \<Longrightarrow> map_ok m \<Longrightarrow> table_ok (map_insert r m t)"
  using set_map_insert [of r m t] by (auto simp: table_ok_def map_ok_insert)

lemma table_ok_put [wf_intros]: "table_ok t \<Longrightarrow> table_ok (cell_put k v t)"
  by (simp add: cell_put_def table_ok_insert map_ok_insert row_of_ok)

lemma table_ok_erase [wf_intros]: "table_ok t \<Longrightarrow> table_ok (cell_erase k t)"
  by (simp add: cell_erase_def table_ok_insert map_ok_erase row_of_ok)

lemma cells_Cons: "cells ((r, m) # t) = map (\<lambda>(c, v). ((r, c), v)) m @ cells t"
  by (simp add: cells_def)

lemma map_of_row: "map_of (map (\<lambda>(c, v). ((r, c), v)) m) k = (if fst k = r then map_of m (snd k) else None)"
  by (induction m) auto

lemma cells_of: "table_ok t \<Longrightarrow> map_of (cells t) = cell_get t"
proof (induction t)
  case Nil
  then show ?case by (simp add: cells_def cell_get_def row_of_def fun_eq_iff)
next
  case (Cons rm t)
  obtain r m where rm: "rm = (r, m)" by (cases rm)
  have ok: "table_ok t" and fresh: "map_at t r = None"
    using Cons.prems by (auto simp: table_ok_def rm intro: map_at_None)
  show ?case
  proof
    fix k
    have "map_of (cells t) k = cell_get t k" using Cons.IH ok by simp
    with fresh show "map_of (cells (rm # t)) k = cell_get (rm # t) k"
      by (auto simp: rm cells_Cons map_add_def map_of_row cell_get_def row_of_def map_at_map_of
          split: option.splits)
  qed
qed

lemma fst_cells: "set (map fst (cells t)) = {(r, c). \<exists>m. (r, m) \<in> set t \<and> c \<in> fst ` set m}"
  by (force simp: cells_def)

lemma distinct_row: "map_ok m \<Longrightarrow> distinct (map (\<lambda>x. (r, fst x)) m)"
  by (induction m) auto

lemma distinct_cells_table: "table_ok t \<Longrightarrow> distinct (map fst (cells t))"
proof (induction t)
  case Nil
  then show ?case by (simp add: cells_def)
next
  case (Cons rm t)
  obtain r m where rm: "rm = (r, m)" by (cases rm)
  have "table_ok t" "map_ok m" "\<forall>(r', m') \<in> set t. r < r'"
    using Cons.prems by (auto simp: table_ok_def rm)
  with Cons.IH show ?case
    using fst_cells [of t] distinct_row [of m r]
    by (auto simp: rm cells_Cons comp_def case_prod_beta)
qed

interpretation table: kv_store "[]" cell_get cell_put cell_erase cells table_ok
proof unfold_locales
  fix t k v
  show "cell_get [] = Map.empty" by (simp add: cell_get_def row_of_def fun_eq_iff)
  show "table_ok t \<Longrightarrow> cell_get (cell_put k v t) = (cell_get t)(k \<mapsto> v)" by simp
  show "table_ok t \<Longrightarrow> cell_get (cell_erase k t) = (cell_get t)(k := None)" by (rule cell_get_erase)
  show "table_ok t \<Longrightarrow> map_of (cells t) = cell_get t" by (rule cells_of)
  show "table_ok t \<Longrightarrow> distinct (map fst (cells t))" by (rule distinct_cells_table)
  show "table_ok []" by simp
  show "table_ok t \<Longrightarrow> table_ok (cell_put k v t)" by (rule table_ok_put)
  show "table_ok t \<Longrightarrow> table_ok (cell_erase k t)" by (rule table_ok_erase)
qed

end
