(* ===== verification/File_Tool.thy ===== *)
theory File_Tool
  imports Cpp_String
begin

text \<open>
  \<open>kvstore/filetool.cc\<close>: reading, writing, appending and deleting whole files, and the text form
  of an address. The file system is a map from paths to contents; \<open>fs_open\<close> says which paths can
  be opened for writing (the directory exists and permits it).
\<close>

section \<open>Files\<close>

record filesys =
  fs_file :: "string \<Rightarrow> string option"
  fs_open :: "string \<Rightarrow> bool"

definition file_exist :: "filesys \<Rightarrow> string \<Rightarrow> bool" where
  "file_exist fs filename \<longleftrightarrow> fs_file fs filename \<noteq> None"

text \<open>The second component is the string passed by reference: unchanged when the file is missing.\<close>

definition read_file :: "filesys \<Rightarrow> string \<Rightarrow> string \<Rightarrow> bool \<times> string" where
  "read_file fs filename contents =
     (case fs_file fs filename of Some c \<Rightarrow> (True, c) | None \<Rightarrow> (False, contents))"

definition write_file :: "filesys \<Rightarrow> string \<Rightarrow> string \<Rightarrow> bool \<times> filesys" where
  "write_file fs filename contents =
     (if fs_open fs filename then (True, fs\<lparr>fs_file := (fs_file fs)(filename \<mapsto> contents)\<rparr>)
      else (False, fs))"

definition append_to_file :: "filesys \<Rightarrow> string \<Rightarrow> string \<Rightarrow> bool \<times> filesys" where
  "append_to_file fs filename contents =
     (if fs_open fs filename
      then (True, fs\<lparr>fs_file := (fs_file fs)(filename \<mapsto>
              (case fs_file fs filename of None \<Rightarrow> [] | Some c \<Rightarrow> c) @ contents)\<rparr>)
      else (False, fs))"

definition delete_file :: "filesys \<Rightarrow> string \<Rightarrow> bool \<times> filesys" where
  "delete_file fs filename =
     (if fs_file fs filename \<noteq> None
      then (True, fs\<lparr>fs_file := (fs_file fs)(filename := None)\<rparr>)
      else (False, fs))"

text \<open>\<open>rename(2)\<close>, which the checkpoint uses: the target is replaced.\<close>

definition rename_file :: "filesys \<Rightarrow> string \<Rightarrow> string \<Rightarrow> filesys" where
  "rename_file fs old new =
     (case fs_file fs old of
        None \<Rightarrow> fs
      | Some c \<Rightarrow> if old = new then fs
                  else fs\<lparr>fs_file := (fs_file fs)(old := None, new \<mapsto> c)\<rparr>)"

text \<open>The text of a file, empty if it is missing.\<close>

definition file_text :: "filesys \<Rightarrow> string \<Rightarrow> string" where
  "file_text fs p = (case fs_file fs p of None \<Rightarrow> [] | Some c \<Rightarrow> c)"

lemma append_to_file_open [simp]:
  "fs_open fs p \<Longrightarrow>
     append_to_file fs p x = (True, fs\<lparr>fs_file := (fs_file fs)(p \<mapsto> file_text fs p @ x)\<rparr>)"
  by (simp add: append_to_file_def file_text_def)

lemma file_text_update [simp]:
  "file_text (fs\<lparr>fs_file := (fs_file fs)(p \<mapsto> c)\<rparr>) q = (if q = p then c else file_text fs q)"
  by (simp add: file_text_def)

lemma append_frame [frame_simps]:
  "fs_open (snd (append_to_file fs p x)) = fs_open fs"
  "q \<noteq> p \<Longrightarrow> fs_file (snd (append_to_file fs p x)) q = fs_file fs q"
  by (auto simp: append_to_file_def)

section \<open>Addresses\<close>

text \<open>
  \<open>sockaddr_in\<close>: the four bytes of the address in network order and the port. The port is kept
  in host order, since the code always pairs \<open>htons\<close> with \<open>ntohs\<close>.
\<close>

record sockaddr_in =
  sin_addr :: "nat \<times> nat \<times> nat \<times> nat"
  sin_port :: nat

fun split_on :: "char \<Rightarrow> string \<Rightarrow> string list" where
  "split_on c [] = [[]]"
| "split_on c (x # xs) =
     (if x = c then [] # split_on c xs
      else (case split_on c xs of [] \<Rightarrow> [[x]] | w # ws \<Rightarrow> (x # w) # ws))"

text \<open>
  \<open>inet_pton(AF_INET, \<dots>)\<close>: four decimal numbers up to 255 without superfluous zeros, between
  dots; any other text leaves the address as it was.
\<close>

definition octet :: "string \<Rightarrow> nat option" where
  "octet s =
     (if s \<noteq> [] \<and> list_all is_digit s \<and> (hd s = CHR ''0'' \<longrightarrow> tl s = []) \<and> digits_val s \<le> 255
      then Some (digits_val s) else None)"

definition inet_pton :: "string \<Rightarrow> nat \<times> nat \<times> nat \<times> nat \<Rightarrow> nat \<times> nat \<times> nat \<times> nat" where
  "inet_pton s old =
     (case map octet (split_on CHR ''.'' (cstr s)) of
        [Some a, Some b, Some c, Some d] \<Rightarrow> (a, b, c, d)
      | _ \<Rightarrow> old)"

definition string_to_ip :: "sockaddr_in \<Rightarrow> string \<Rightarrow> sockaddr_in res" where
  "string_to_ip addr s =
     (let pos = find s '':'' 0
      in if pos = npos then Ok (addr\<lparr>sin_addr := inet_pton s (sin_addr addr)\<rparr>)
         else and_then (substr s 0 pos) (\<lambda>ip.
              and_then (substr s (szadd pos 1) npos) (\<lambda>port.
              and_then (stoul port) (\<lambda>n.
              Ok \<lparr>sin_addr = inet_pton ip (sin_addr addr), sin_port = n mod 65536\<rparr>))))"

definition ip_to_string :: "sockaddr_in \<Rightarrow> string" where
  "ip_to_string addr =
     (case sin_addr addr of (a, b, c, d) \<Rightarrow>
        show_nat a @ ''.'' @ show_nat b @ ''.'' @ show_nat c @ ''.'' @ show_nat d @ '':'' @
        show_nat (sin_port addr))"

definition addr_ok :: "sockaddr_in \<Rightarrow> bool" where
  "addr_ok addr \<longleftrightarrow>
     (case sin_addr addr of (a, b, c, d) \<Rightarrow> a < 256 \<and> b < 256 \<and> c < 256 \<and> d < 256) \<and>
     sin_port addr < 65536"

text \<open>The addresses of the sample configuration (\<open>kvstore/serverlist.txt\<close>), for examples.\<close>

definition localhost :: "nat \<Rightarrow> sockaddr_in" where
  "localhost p = \<lparr>sin_addr = (127, 0, 0, 1), sin_port = p\<rparr>"

lemma localhost_ok [simp]: "p < 65536 \<Longrightarrow> addr_ok (localhost p)"
  by (simp add: localhost_def addr_ok_def)

lemma split_on_nonempty [simp]: "split_on c s \<noteq> []"
  by (induction s) (auto split: list.splits)

lemma split_on_absent [simp]: "c \<notin> set s \<Longrightarrow> split_on c s = [s]"
  by (induction s) auto

lemma split_on_sep [simp]: "c \<notin> set a \<Longrightarrow> split_on c (a @ c # s) = a # split_on c s"
  by (induction a) auto

lemma show_nat_absent: "\<not> is_digit c \<Longrightarrow> c \<notin> set (show_nat n)"
  using show_nat_digits by blast

lemma show_nat_plain [simp]:
  "CHR ''.'' \<notin> set (show_nat n)" "CHR '':'' \<notin> set (show_nat n)" "CHR 0x00 \<notin> set (show_nat n)"
  "CHR '' '' \<notin> set (show_nat n)" "LF \<notin> set (show_nat n)" "CR \<notin> set (show_nat n)"
  "CHR '','' \<notin> set (show_nat n)" "CHR ''|'' \<notin> set (show_nat n)"
  by (rule show_nat_absent; simp add: is_digit_def)+

lemma show_nat_hd_nonzero: "0 < n \<Longrightarrow> hd (show_nat n) \<noteq> CHR ''0''"
proof (induction n rule: show_nat.induct)
  case (1 n)
  show ?case
  proof (cases "n < 10")
    case True
    with 1 have "digit_val (hd (show_nat n)) \<noteq> 0" by (simp add: show_nat.simps [of n])
    then show ?thesis by (auto simp: digit_val_def)
  next
    case False
    with 1 have "hd (show_nat (n div 10)) \<noteq> CHR ''0''" by simp
    with False show ?thesis by (simp add: show_nat.simps [of n])
  qed
qed

lemma octet_show [simp]: "n < 256 \<Longrightarrow> octet (show_nat n) = Some n"
proof -
  assume n: "n < 256"
  have "hd (show_nat n) = CHR ''0'' \<longrightarrow> tl (show_nat n) = []"
    using show_nat_hd_nonzero [of n] by (cases "n = 0") (auto simp: show_nat.simps [of 0])
  then show ?thesis
    using n by (simp add: octet_def list_all_iff show_nat_digits)
qed

lemma stoul_show_nat: "n \<le> npos \<Longrightarrow> stoul (show_nat n) = Ok n"
  using strtol_show_nat [of "[]" n] by (simp add: stoul_def npos_def size_mod_def)

lemma string_to_ip_shown:
  assumes "addr_ok a"
  shows "string_to_ip old (ip_to_string a) = Ok a"
proof -
  obtain p q r s where o4: "sin_addr a = (p, q, r, s)" by (cases "sin_addr a")
  define ip where "ip = show_nat p @ ''.'' @ show_nat q @ ''.'' @ show_nat r @ ''.'' @ show_nat s"
  have shown: "ip_to_string a = ip @ CHR '':'' # show_nat (sin_port a)"
    by (simp add: ip_to_string_def o4 ip_def)
  have plain: "CHR '':'' \<notin> set ip" "CHR 0x00 \<notin> set ip" by (auto simp: ip_def)
  then have pos: "find (ip_to_string a) '':'' 0 = length ip"
    unfolding shown by (intro find_char)
  have quad: "inet_pton ip x = (p, q, r, s)" for x
    using assms plain by (simp add: inet_pton_def addr_ok_def o4 ip_def)
  have short: "length (show_nat n) \<le> 5" if "n < 65536" for n
  proof -
    have "n div 10 div 10 div 10 div 10 < 10" using that by simp
    then show ?thesis
      by (subst show_nat.simps, subst show_nat.simps, subst show_nat.simps,
          subst show_nat.simps, subst show_nat.simps) simp
  qed
  have len: "length ip < 1000"
    using short [of p] short [of q] short [of r] short [of s] assms
    by (simp add: ip_def addr_ok_def o4)
  have port: "sin_port a < 65536" using assms by (simp add: addr_ok_def)
  have "szadd (length ip) 1 = length ip + 1" using len by (simp add: npos_def)
  moreover have "length ip \<noteq> npos" using len by (simp add: npos_def)
  moreover have "length (show_nat (sin_port a)) \<le> npos" using short [OF port] by (simp add: npos_def)
  moreover have "stoul (show_nat (sin_port a)) = Ok (sin_port a)"
    using port by (intro stoul_show_nat) (simp add: npos_def)
  ultimately show ?thesis
    unfolding string_to_ip_def Let_def pos using port
    by (simp add: shown quad o4 [symmetric])
qed

text \<open>
  C4. \<open>string_to_ip\<close> reads back what \<open>ip_to_string\<close> prints, for every address and port, whatever
  the address variable held before. The servers compare and exchange addresses in this text form.
\<close>

theorem ip_roundtrip: "addr_ok a \<Longrightarrow> string_to_ip old (ip_to_string a) = Ok a"
  by (rule string_to_ip_shown)

theorem ip_roundtrip_witness:
  "string_to_ip \<lparr>sin_addr = (0, 0, 0, 0), sin_port = 0\<rparr>
     (ip_to_string \<lparr>sin_addr = (127, 0, 0, 1), sin_port = 10000\<rparr>) =
   Ok \<lparr>sin_addr = (127, 0, 0, 1), sin_port = 10000\<rparr>"
  by (rule ip_roundtrip) (simp add: addr_ok_def)

end
