(* ===== verification/Server_State.thy ===== *)
theory Server_State
  imports File_Tool
begin

text \<open>
  \<open>kvstore/serverState.h\<close> and \<open>serverState.cc\<close>: what a data server knows about itself, and how it
  reads the cluster configuration (first line: the master; one line per node: its servers,
  separated by commas). The mutexes are left out: each operation below runs under its lock.
\<close>

record serverState =
  primary :: bool
  nodeID :: int
  repID :: int
  server_list :: "sockaddr_in list"
  status :: int
  seqID :: int
  canCheckpoint :: bool
  FILE_PATH :: string
  LOG_PATH :: string
  CHECKPOINTING_PATH :: string
  my_addr :: sockaddr_in
  master_addr :: sockaddr_in
  primary_addr :: sockaddr_in

definition setFilePath :: "string \<Rightarrow> serverState \<Rightarrow> serverState" where
  "setFilePath filePath s =
     s\<lparr>FILE_PATH := filePath,
       LOG_PATH := filePath @ ''/log.txt'',
       CHECKPOINTING_PATH := filePath @ ''/checkpoint.txt''\<rparr>"

text \<open>The constructor; \<open>junk\<close> is the uninitialised content of an address.\<close>

definition new_ServerState :: "sockaddr_in \<Rightarrow> serverState" where
  "new_ServerState junk =
     \<lparr>primary = False, nodeID = 0, repID = 0, server_list = [], status = 0, seqID = 0,
      canCheckpoint = True, FILE_PATH = ''.'', LOG_PATH = ''.'' @ ''/log.txt'',
      CHECKPOINTING_PATH = ''.'' @ ''/checkpoint.txt'',
      my_addr = junk, master_addr = junk, primary_addr = junk\<rparr>"

definition updateSeq :: "int \<Rightarrow> serverState \<Rightarrow> serverState" where
  "updateSeq seq s = s\<lparr>seqID := max (seqID s) seq\<rparr>"

definition increseSeq :: "serverState \<Rightarrow> int \<times> serverState" where
  "increseSeq s = (let n = wrap_long (seqID s + 1) in (n, s\<lparr>seqID := n\<rparr>))"

definition setPrimary :: "serverState \<Rightarrow> serverState" where
  "setPrimary s = s\<lparr>primary := True\<rparr>"

definition setPrimaryAddr :: "string \<Rightarrow> serverState \<Rightarrow> serverState res" where
  "setPrimaryAddr a s =
     and_then (string_to_ip (primary_addr s) a) (\<lambda>addr. Ok (s\<lparr>primary_addr := addr\<rparr>))"

definition pauseCheckpoint :: "serverState \<Rightarrow> serverState" where
  "pauseCheckpoint s = s\<lparr>canCheckpoint := False\<rparr>"

definition resumeCheckpoint :: "serverState \<Rightarrow> serverState" where
  "resumeCheckpoint s = s\<lparr>canCheckpoint := True\<rparr>"

section \<open>The configuration file\<close>

text \<open>
  The loop over one line: every piece between commas is read as an address. (The code cuts the
  line at the next comma and stops after the piece that has none.)
\<close>

definition line_addrs :: "sockaddr_in \<Rightarrow> string \<Rightarrow> sockaddr_in list res" where
  "line_addrs junk line = map_res (string_to_ip junk) (split_on CHR '','' line)"

text \<open>
  The loop over the lines after the first. The position \<open>pos\<close> that guards the inner loop is
  declared inside the loop body and never initialised: \<open>g k\<close> is what it holds on line \<open>k\<close>.
  The counter stops at this node's line, so every later line is read too.
\<close>

fun init_lines ::
    "(nat \<Rightarrow> nat) \<Rightarrow> sockaddr_in \<Rightarrow> int \<Rightarrow> int \<Rightarrow> nat \<Rightarrow> string list \<Rightarrow> sockaddr_in list \<Rightarrow>
     sockaddr_in list res" where
  "init_lines g junk node i k [] acc = Ok acc"
| "init_lines g junk node i k (l # ls) acc =
     (if i \<noteq> node then init_lines g junk node (i + 1) (Suc k) ls acc
      else if g k = npos then init_lines g junk node i (Suc k) ls acc
      else and_then (line_addrs junk l) (\<lambda>as. init_lines g junk node i (Suc k) ls (acc @ as)))"

definition server_init ::
    "(nat \<Rightarrow> nat) \<Rightarrow> sockaddr_in \<Rightarrow> filesys \<Rightarrow> string \<Rightarrow> serverState \<Rightarrow> (bool \<times> serverState) res" where
  "server_init g junk fs configFilename s =
     (case fs_file fs configFilename of
        None \<Rightarrow> Ok (False, s)
      | Some txt \<Rightarrow>
          (let ls = getlines txt; m_addr_str = (case ls of [] \<Rightarrow> [] | l # _ \<Rightarrow> l)
           in and_then (string_to_ip (master_addr s) m_addr_str) (\<lambda>maddr.
              and_then (init_lines g junk (nodeID s) 0 0 (tl ls) (server_list s)) (\<lambda>servers.
              if 0 \<le> repID s \<and> repID s < int (length servers)
              then Ok (True, s\<lparr>master_addr := maddr, server_list := servers,
                               my_addr := servers ! nat (repID s), primary_addr := servers ! 0\<rparr>)
              else Throw Bad_index))))"

section \<open>Facts\<close>

lemma updateSeq_mono: "seqID s \<le> seqID (updateSeq q s) \<and> q \<le> seqID (updateSeq q s)"
  by (simp add: updateSeq_def)

lemma increseSeq_next: "long_min \<le> seqID s \<Longrightarrow> seqID s < long_max \<Longrightarrow>
    increseSeq s = (seqID s + 1, s\<lparr>seqID := seqID s + 1\<rparr>)"
  by (simp add: increseSeq_def Let_def)

lemma line_addrs_shown:
  assumes "as \<noteq> []" "\<forall>a \<in> set as. addr_ok a"
  shows "line_addrs junk (concat (map (\<lambda>a. ip_to_string a @ '','') (butlast as)) @
           ip_to_string (last as)) = Ok as"
proof -
  have comma: "CHR '','' \<notin> set (ip_to_string a)" for a
    by (cases "sin_addr a") (simp add: ip_to_string_def)
  have "split_on CHR '','' (concat (map (\<lambda>a. ip_to_string a @ '','') (butlast as)) @
      ip_to_string (last as)) = map ip_to_string as"
    using assms(1)
  proof (induction as)
    case (Cons a as)
    then show ?case using comma by (cases "as = []") auto
  qed simp
  moreover have "map_res (string_to_ip junk) (map ip_to_string as) = Ok as"
    using assms(2) by (induction as) (simp_all add: string_to_ip_shown)
  ultimately show ?thesis by (simp add: line_addrs_def)
qed

text \<open>The text of a configuration: the master's address, then the servers of each node.\<close>

definition config_line :: "sockaddr_in list \<Rightarrow> string" where
  "config_line as = concat (map (\<lambda>a. ip_to_string a @ '','') (butlast as)) @ ip_to_string (last as)"

definition config_text :: "sockaddr_in \<Rightarrow> sockaddr_in list list \<Rightarrow> string" where
  "config_text m nodes = ip_to_string m @ [LF] @ concat (map (\<lambda>as. config_line as @ [LF]) nodes)"

definition config_ok :: "sockaddr_in \<Rightarrow> sockaddr_in list list \<Rightarrow> bool" where
  "config_ok m nodes \<longleftrightarrow> addr_ok m \<and> (\<forall>as \<in> set nodes. as \<noteq> [] \<and> (\<forall>a \<in> set as. addr_ok a))"

lemma ip_to_string_no_LF [simp]: "LF \<notin> set (ip_to_string a)"
  by (cases "sin_addr a") (simp add: ip_to_string_def)

lemma config_line_no_LF [simp]: "LF \<notin> set (config_line as)"
  by (auto simp: config_line_def)

lemma getlines_config: "getlines (config_text m nodes) = ip_to_string m # map config_line nodes"
proof -
  have "getlines (concat (map (\<lambda>as. config_line as @ [LF]) nodes)) = map config_line nodes"
    by (induction nodes) (simp_all add: getlines_Cons)
  then show ?thesis by (simp add: config_text_def getlines_Cons)
qed

lemma init_lines_own:
  assumes "\<forall>as \<in> set nodes. as \<noteq> [] \<and> (\<forall>a \<in> set as. addr_ok a)"
  shows "init_lines g junk n n k (map config_line nodes) acc =
    Ok (acc @ concat (map (\<lambda>(j, as). if g j = npos then [] else as) (enumerate k nodes)))"
  using assms
proof (induction nodes arbitrary: k acc)
  case (Cons as nodes)
  then have "line_addrs junk (config_line as) = Ok as"
    unfolding config_line_def by (intro line_addrs_shown) auto
  with Cons show ?case by simp
qed simp

lemma init_lines_skip:
  assumes "i \<le> n" "nat (n - i) \<le> length lines"
  shows "init_lines g junk n i k lines acc =
    init_lines g junk n n (k + nat (n - i)) (drop (nat (n - i)) lines) acc"
  using assms
proof (induction lines arbitrary: i k)
  case Nil
  then show ?case by simp
next
  case (Cons l ls)
  show ?case
  proof (cases "i = n")
    case False
    then have step: "nat (n - i) = Suc (nat (n - (i + 1)))" using Cons.prems(1) by simp
    then have "init_lines g junk n (i + 1) (Suc k) ls acc =
        init_lines g junk n n (Suc k + nat (n - (i + 1))) (drop (nat (n - (i + 1))) ls) acc"
      using Cons.prems False by (intro Cons.IH) simp_all
    with False step show ?thesis by (simp del: init_lines.simps(2)) simp
  qed simp
qed

text \<open>
  C5. \<open>ServerState::init\<close> on a well-formed configuration file: the server list is made of the
  addresses on this node's line and on every later line, except the lines on which the
  uninitialised loop variable happens to hold \<open>npos\<close>; own and primary address are taken from it.
  The list is the one of the configured node exactly when the garbage is \<open>npos\<close> on the later
  lines and not on its own.
\<close>

theorem server_init_config:
  assumes "config_ok m nodes" and "fs_file fs f = Some (config_text m nodes)"
    and "nodeID s = int n" "n \<le> length nodes" "server_list s = []"
    and "servers = concat (map (\<lambda>(j, as). if g j = npos then [] else as)
           (enumerate n (drop n nodes)))"
    and "0 \<le> repID s" "repID s < int (length servers)"
  shows "server_init g junk fs f s =
     Ok (True, s\<lparr>master_addr := m, server_list := servers,
                 my_addr := servers ! nat (repID s), primary_addr := servers ! 0\<rparr>)"
proof -
  have "string_to_ip (master_addr s) (ip_to_string m) = Ok m"
    using assms(1) by (simp add: config_ok_def string_to_ip_shown)
  moreover have "init_lines g junk (int n) 0 0 (map config_line nodes) [] = Ok servers"
  proof -
    have "init_lines g junk (int n) 0 0 (map config_line nodes) [] =
        init_lines g junk (int n) (int n) n (map config_line (drop n nodes)) []"
      using init_lines_skip [of 0 "int n" "map config_line nodes" g junk 0 "[]"] assms(4)
      by (simp add: drop_map)
    also have "\<dots> = Ok servers"
      using assms(1) unfolding assms(6)
      by (subst init_lines_own) (auto simp: config_ok_def dest: in_set_dropD)
    finally show ?thesis .
  qed
  ultimately show ?thesis
    using assms(7,8) by (simp add: server_init_def assms(2,3,5) getlines_config Let_def)
qed

theorem server_init_config_witness:
  "server_init (\<lambda>k. if k = 1 then 0 else npos) (localhost 0)
     \<lparr>fs_file = [''serverlist.txt'' \<mapsto> config_text (localhost 10000)
         [[localhost 8000, localhost 5000], [localhost 8001, localhost 5001]]],
      fs_open = \<lambda>_. True\<rparr> ''serverlist.txt''
     ((new_ServerState (localhost 0))\<lparr>nodeID := 1, repID := 1\<rparr>) =
   Ok (True, (new_ServerState (localhost 0))
     \<lparr>nodeID := 1, repID := 1, master_addr := localhost 10000,
      server_list := [localhost 8001, localhost 5001],
      my_addr := localhost 5001, primary_addr := localhost 8001\<rparr>)"
  by (subst server_init_config [where n = 1 and m = "localhost 10000"
        and nodes = "[[localhost 8000, localhost 5000], [localhost 8001, localhost 5001]]"
        and servers = "[localhost 8001, localhost 5001]"])
     (simp_all add: config_ok_def new_ServerState_def npos_def)

end
