(* ===== verification/Checkpoint.thy ===== *)
theory Checkpoint
  imports Kv_Table Server_State
begin

text \<open>
  \<open>kvstore/checkpointing.cc\<close>: the table written to disk, the update log, and the two replays at
  start-up. A file is a sequence of records, each closed by a line that holds a single dot; the
  loop \<open>replay_lines\<close> is shared by the checkpoint and the log. Functions that lack a return
  statement on their normal path yield \<open>None\<close> as their boolean.
\<close>

section \<open>Operations\<close>

definition cell_record :: "(string \<times> string) \<times> string \<Rightarrow> string" where
  "cell_record kv =
     (case kv of ((row, col), v) \<Rightarrow>
        ''PUT <'' @ row @ ''> <'' @ col @ ''>'' @ [LF] @ v @ [LF] @ ''.'' @ [LF])"

definition version_line :: "int \<Rightarrow> string" where
  "version_line seq = ''Version number: <'' @ show_int seq @ ''>'' @ [LF]"

definition checkpoint_text :: "int \<Rightarrow> bmap \<Rightarrow> string" where
  "checkpoint_text seq t = version_line seq @ concat (map cell_record (cells t))"

definition writeToDisk :: "serverState \<Rightarrow> bmap \<Rightarrow> filesys \<Rightarrow> bool \<times> filesys" where
  "writeToDisk s t fs =
     (let filepath = CHECKPOINTING_PATH s; temPath = FILE_PATH s @ ''/tem.txt''
      in if \<not> fs_open fs temPath then (False, fs)
         else let fs1 = snd (write_file fs temPath (checkpoint_text (seqID s) t));
                  fs2 = rename_file fs1 temPath filepath;
                  fs3 = snd (write_file fs2 (LOG_PATH s) [])
              in (True, fs3))"

text \<open>\<open>data\<close> collects the lines of a record; after \<open>data.str("")\<close> it is filled from the start.\<close>

fun replay_lines :: "(string \<Rightarrow> bmap \<Rightarrow> bmap res) \<Rightarrow> string list \<Rightarrow> string \<Rightarrow> bmap \<Rightarrow> bmap res" where
  "replay_lines step [] data t = Ok t"
| "replay_lines step (line # ls) data t =
     (if line \<noteq> ''.'' then replay_lines step ls (data @ line @ [LF]) t
      else and_then (step (data @ line @ [LF]) t) (replay_lines step ls []))"

definition replyCheckpointCommand :: "string \<Rightarrow> bmap \<Rightarrow> bmap res" where
  "replyCheckpointCommand str t =
     (let pos = find str [LF] 0
      in and_then (substr str 0 pos) (\<lambda>PUTLine.
         and_then (bracketed PUTLine) (\<lambda>row.
         and_then (after_bracket PUTLine) (\<lambda>PUTLine2.
         and_then (bracketed PUTLine2) (\<lambda>col.
         and_then (substr str (szadd pos 1)
                     (szsub (szsub (find str [LF, CHR ''.'', LF] 0) pos) 1)) (\<lambda>data.
         Ok (cell_put (row, col) data t)))))))"

definition recoverCheckpoint :: "serverState \<Rightarrow> filesys \<Rightarrow> bmap \<Rightarrow> (bool option \<times> bmap) res" where
  "recoverCheckpoint s fs t =
     (case fs_file fs (CHECKPOINTING_PATH s) of
        None \<Rightarrow> Ok (Some False, t)
      | Some txt \<Rightarrow>
          and_then (replay_lines replyCheckpointCommand (tl (getlines txt)) [] t)
            (\<lambda>t'. Ok (None, t')))"

text \<open>A delete record erases the column named like the row: \<open>table.at(row).erase(row)\<close>.\<close>

definition replayLogCommand :: "string \<Rightarrow> bmap \<Rightarrow> bmap res" where
  "replayLogCommand str0 t =
     and_then (substr str0 0 (find str0 '' '' 0)) (\<lambda>verb.
     let isDelete = (verb = ''DELETE''); pos = find str0 [LF] 0
     in and_then (substr str0 0 pos) (\<lambda>PUTLine.
        and_then (bracketed PUTLine) (\<lambda>row.
        and_then (after_bracket PUTLine) (\<lambda>PUTLine2.
        and_then (bracketed PUTLine2) (\<lambda>col.
        and_then (substr str0 (szadd pos 1) npos) (\<lambda>str.
        let pos = find str [LF] 0
        in if isDelete then
             Ok (if map_has t row \<and> map_has (row_of t row) col then cell_erase (row, row) t else t)
           else and_then (substr str (szadd pos 1) npos) (\<lambda>str'.
                and_then (substr str' 0 (find str' [LF, CHR ''.'', LF] 0)) (\<lambda>data.
                Ok (cell_put (row, col) data t)))))))))"

definition recoverLog :: "serverState \<Rightarrow> filesys \<Rightarrow> bmap \<Rightarrow> (bool option \<times> bmap) res" where
  "recoverLog s fs t =
     (case fs_file fs (LOG_PATH s) of
        None \<Rightarrow> Ok (Some False, t)
      | Some txt \<Rightarrow>
          and_then (replay_lines replayLogCommand (getlines txt) [] t) (\<lambda>t'. Ok (None, t')))"

definition lastLogSeq :: "serverState \<Rightarrow> filesys \<Rightarrow> int res" where
  "lastLogSeq s fs =
     (if \<not> file_exist fs (LOG_PATH s) then Ok 0
      else let contents = snd (read_file fs (LOG_PATH s) []);
               pos = rfind contents [CHR ''>'', LF] npos
           in if pos \<noteq> npos then
                (let pos2 = rfind contents [CHR ''.'', LF] pos;
                     pos = (if pos2 \<noteq> npos then find contents [CHR ''>'', LF] pos2
                            else find contents [CHR ''>'', LF] 0)
                 in and_then (substr contents (szadd pos 2) npos) (\<lambda>seqStr.
                    and_then (substr seqStr 0 (find seqStr [LF] 0)) stol))
              else Ok 0)"

definition findVersionNum :: "serverState \<Rightarrow> filesys \<Rightarrow> int res" where
  "findVersionNum s fs =
     (if \<not> file_exist fs (CHECKPOINTING_PATH s) then Ok 0
      else let ls = getlines (file_text fs (CHECKPOINTING_PATH s));
               versionNumLine = (case ls of [] \<Rightarrow> [] | l # _ \<Rightarrow> l);
               pos = szadd (find versionNumLine ''<'' 0) 1
           in and_then (substr versionNumLine pos (szsub (find versionNumLine ''>'' 0) pos)) stol)"

section \<open>The records of the log\<close>

text \<open>
  What \<open>Worker::putToLog\<close> and \<open>Worker::deleteToLog\<close> append. A replica closes a value with
  \<open>".\n"\<close>, the primary with \<open>"\n.\n"\<close>.
\<close>

definition put_header :: "string \<Rightarrow> string \<Rightarrow> int \<Rightarrow> string" where
  "put_header row col seq = ''PUT <'' @ row @ ''> <'' @ col @ ''>'' @ [LF] @ show_int seq @ [LF]"

definition put_record :: "string \<Rightarrow> string \<Rightarrow> int \<Rightarrow> string \<Rightarrow> string" where
  "put_record row col seq data = put_header row col seq @ data @ [LF] @ ''.'' @ [LF]"

definition put_record_replica :: "string \<Rightarrow> string \<Rightarrow> int \<Rightarrow> string \<Rightarrow> string" where
  "put_record_replica row col seq data = put_header row col seq @ data @ ''.'' @ [LF]"

definition delete_record :: "string \<Rightarrow> string \<Rightarrow> int \<Rightarrow> string" where
  "delete_record row col seq =
     ''DELETE <'' @ row @ ''> <'' @ col @ ''>'' @ [LF] @ show_int seq @ [LF] @ ''.'' @ [LF]"

section \<open>Records and lines\<close>

text \<open>
  A value is safe in these files when none of its lines is a single dot, a name when it has no
  angle bracket and no line feed.
\<close>

definition dump_safe :: "string \<Rightarrow> bool" where
  "dump_safe v \<longleftrightarrow> ''.'' \<notin> set (split_on LF v)"

definition name_ok :: "string \<Rightarrow> bool" where
  "name_ok k \<longleftrightarrow> CHR ''<'' \<notin> set k \<and> CHR ''>'' \<notin> set k \<and> LF \<notin> set k"

abbreviation dot_line :: string where
  "dot_line \<equiv> [LF, CHR ''.'', LF]"

lemma split_line_cases:
  obtains "LF \<notin> set v" | l v' where "v = l @ LF # v'" "LF \<notin> set l"
  by (metis split_list_first)

lemma dump_safe_line [simp]: "LF \<notin> set l \<Longrightarrow> dump_safe l \<longleftrightarrow> l \<noteq> ''.''"
  by (auto simp: dump_safe_def)

lemma dump_safe_cons [simp]: "LF \<notin> set l \<Longrightarrow> dump_safe (l @ LF # v) \<longleftrightarrow> l \<noteq> ''.'' \<and> dump_safe v"
  by (auto simp: dump_safe_def)

lemma dot_line_here: "LF \<notin> set l \<Longrightarrow> prefix dot_line (LF # l @ LF # s) \<longleftrightarrow> l = ''.''"
  by (cases l; cases "tl l") auto

lemma find_dot_line:
  "dump_safe v \<Longrightarrow> sfind dot_line (LF # v @ LF # CHR ''.'' # LF # s) = Some (length v + 1)"
proof (induction "length v" arbitrary: v rule: less_induct)
  case less
  show ?case
  proof (cases v rule: split_line_cases)
    case 1
    with less.prems dot_line_here [of v "CHR ''.'' # LF # s"] show ?thesis
      by (simp add: sfind_skip)
  next
    case (2 l v')
    with less.prems have "sfind dot_line (LF # v' @ LF # CHR ''.'' # LF # s) = Some (length v' + 1)"
      by (intro less.hyps) auto
    with 2 less.prems dot_line_here [of l "v' @ LF # CHR ''.'' # LF # s"] show ?thesis
      by (simp add: sfind_skip)
  qed
qed

lemma getlines_split: "getlines (v @ LF # s) = split_on LF v @ getlines s"
proof (induction "length v" arbitrary: v rule: less_induct)
  case less
  show ?case
  proof (cases v rule: split_line_cases)
    case (2 l v')
    then show ?thesis using less.hyps [of v'] by (simp add: getlines_Cons)
  qed (simp add: getlines_Cons)
qed

lemma unlines_split: "concat (map (\<lambda>l. l @ [LF]) (split_on LF v)) = v @ [LF]"
proof (induction "length v" arbitrary: v rule: less_induct)
  case less
  show ?case
  proof (cases v rule: split_line_cases)
    case (2 l v')
    then show ?thesis using less.hyps [of v'] by simp
  qed simp
qed

lemma replay_block:
  "''.'' \<notin> set ls \<Longrightarrow>
     replay_lines step (ls @ ''.'' # rest) data t =
     and_then (step (data @ concat (map (\<lambda>l. l @ [LF]) ls) @ ''.'' @ [LF]) t) (replay_lines step rest [])"
  by (induction ls arbitrary: data) auto

text \<open>The replay of a file made of records applies the step to each record in turn.\<close>

lemma replay_record:
  "dump_safe b \<Longrightarrow>
     replay_lines step (getlines (b @ [LF, CHR ''.'', LF] @ s)) [] t =
     and_then (step (b @ [LF, CHR ''.'', LF]) t) (replay_lines step (getlines s) [])"
  using replay_block [of "split_on LF b" step "getlines s" "[]" t]
  by (simp add: dump_safe_def getlines_split getlines_Cons unlines_split
      getlines_Cons [of "''.''", simplified])

text \<open>Updates as records, and what replaying them does.\<close>

fun apply_steps :: "(bmap \<Rightarrow> bmap) list \<Rightarrow> bmap \<Rightarrow> bmap" where
  "apply_steps [] t = t"
| "apply_steps (f # fs) t = apply_steps fs (f t)"

lemma replay_records:
  assumes "\<forall>(b, f) \<in> set bs. dump_safe b \<and> (\<forall>t. step (b @ [LF, CHR ''.'', LF]) t = Ok (f t))"
  shows "replay_lines step (getlines (concat (map (\<lambda>(b, f). b @ [LF, CHR ''.'', LF]) bs))) [] t =
    Ok (apply_steps (map snd bs) t)"
  using assms
proof (induction bs arbitrary: t)
  case (Cons bf bs)
  obtain b f where bf: "bf = (b, f)" by (cases bf)
  with Cons show ?case
    using replay_record [of b step "concat (map (\<lambda>(b, f). b @ [LF, CHR ''.'', LF]) bs)" t] by simp
qed simp

section \<open>Reading the names\<close>

text \<open>The line \<open>PUT <row> <col>\<close>, with any verb and any tail.\<close>

definition names_line :: "string \<Rightarrow> string \<Rightarrow> string \<Rightarrow> string \<Rightarrow> string" where
  "names_line verb row col z = verb @ '' <'' @ row @ ''> <'' @ col @ ''>'' @ z"

lemma names_line_row:
  assumes "fits (names_line verb row col z)" "CHR ''<'' \<notin> set verb" "CHR ''>'' \<notin> set verb" "name_ok row"
  shows "bracketed (names_line verb row col z) = Ok row"
    and "after_bracket (names_line verb row col z) = Ok ('' <'' @ col @ ''>'' @ z)"
proof -
  have eq: "names_line verb row col z =
      (verb @ '' '') @ CHR ''<'' # row @ CHR ''>'' # '' <'' @ col @ ''>'' @ z"
    by (simp add: names_line_def)
  show "bracketed (names_line verb row col z) = Ok row"
    using assms unfolding eq by (intro bracketed_name) (auto simp: name_ok_def)
  have eq': "names_line verb row col z =
      (verb @ '' <'' @ row) @ CHR ''>'' # ('' <'' @ col @ ''>'' @ z)"
    by (simp add: names_line_def)
  show "after_bracket (names_line verb row col z) = Ok ('' <'' @ col @ ''>'' @ z)"
    using assms unfolding eq' by (intro after_bracket_rest) (auto simp: name_ok_def)
qed

lemma names_line_col:
  assumes "fits (names_line verb row col z)" "name_ok col"
  shows "bracketed ('' <'' @ col @ ''>'' @ z) = Ok col"
proof -
  have "fits (('' '') @ CHR ''<'' # col @ CHR ''>'' # z)"
    using assms(1) by (simp add: fits_def names_line_def)
  then have "bracketed (('' '') @ CHR ''<'' # col @ CHR ''>'' # z) = Ok col"
    using assms(2) by (intro bracketed_name) (auto simp: name_ok_def)
  then show ?thesis by simp
qed

lemmas names_line_read = names_line_row names_line_col

lemma cell_record_eq:
  "cell_record ((row, col), v) = names_line ''PUT'' row col [] @ [LF] @ v @ dot_line"
  by (simp add: cell_record_def names_line_def)

lemma put_record_eq:
  "put_record row col seq v =
     names_line ''PUT'' row col [] @ LF # (show_int seq @ LF # (v @ dot_line))"
  by (simp add: put_record_def put_header_def names_line_def)

lemma delete_record_eq:
  "delete_record row col seq =
     names_line ''DELETE'' row col [] @ LF # (show_int seq @ dot_line)"
  by (simp add: delete_record_def names_line_def)

lemma names_line_LF [simp]:
  "name_ok row \<Longrightarrow> name_ok col \<Longrightarrow> LF \<notin> set verb \<Longrightarrow> LF \<notin> set z \<Longrightarrow> LF \<notin> set (names_line verb row col z)"
  by (auto simp: names_line_def name_ok_def)

lemma names_line_not_dot [simp]: "names_line verb row col z \<noteq> ''.''"
  by (cases verb) (auto simp: names_line_def)

lemma fits_append: "fits (a @ b) \<Longrightarrow> fits a" "fits (a @ b) \<Longrightarrow> fits b"
  by (auto simp: fits_def)

lemma find_dot_record:
  "LF \<notin> set a \<Longrightarrow> dump_safe v \<Longrightarrow>
     find (a @ LF # v @ LF # CHR ''.'' # LF # s) dot_line 0 = length a + length v + 1"
  using find_dot_line [of v s] by (simp add: find_start sfind_skip)

lemma checkpoint_step:
  assumes "name_ok row" "name_ok col" "dump_safe v" "fits (cell_record ((row, col), v))"
  shows "replyCheckpointCommand (cell_record ((row, col), v)) t = Ok (cell_put (row, col) v t)"
proof -
  let ?l = "names_line ''PUT'' row col []"
  have nolf: "LF \<notin> set ?l" using assms(1,2) by simp
  have str: "cell_record ((row, col), v) = ?l @ LF # v @ LF # CHR ''.'' # LF # []"
    by (simp add: cell_record_eq)
  have fl: "fits ?l" using assms(4) unfolding cell_record_eq by (rule fits_append)
  have "length (?l @ LF # v @ dot_line) + 64 < npos"
    using assms(4) unfolding str fits_def by simp
  then have len: "length ?l + length v + 67 < npos" by simp
  have dot: "find (?l @ LF # v @ LF # CHR ''.'' # LF # []) dot_line 0 = length ?l + length v + 1"
    using nolf assms(3) by (rule find_dot_record)
  have ar: "szadd (length ?l) 1 = length ?l + 1"
      "szsub (szsub (length ?l + length v + 1) (length ?l)) 1 = length v"
    using len by simp_all
  show ?thesis
    unfolding replyCheckpointCommand_def str Let_def find_char [OF nolf] dot ar
    using names_line_read [OF fl] assms(1,2)
    by simp
qed

lemma log_put_step:
  assumes "name_ok row" "name_ok col" "dump_safe v" "fits (put_record row col seq v)"
  shows "replayLogCommand (put_record row col seq v) t = Ok (cell_put (row, col) v t)"
proof -
  let ?l = "names_line ''PUT'' row col []"
  let ?tail = "show_int seq @ LF # (v @ dot_line)"
  have nolf: "LF \<notin> set ?l" using assms(1,2) by simp
  have fl: "fits ?l" "fits (LF # ?tail)"
    using assms(4) unfolding put_record_eq by (rule fits_append)+
  then have len: "length (show_int seq) + length v + 68 < npos" by (simp add: fits_def)
  have len1: "length ?l + 2 < npos" using fl(1) by (simp add: fits_def)
  have verb: "find (?l @ LF # ?tail) '' '' 0 = 3"
    using find_char [of "CHR '' ''" "''PUT''" "''<'' @ row @ ''> <'' @ col @ ''>'' @ LF # ?tail"]
    by (simp add: names_line_def)
  have three: "substr (?l @ LF # ?tail) 0 3 = Ok ''PUT''"
    by (simp add: names_line_def)
  have p2: "substr (?l @ LF # ?tail) (length ?l + 1) npos = Ok ?tail"
    using len by simp
  have p3: "find ?tail [LF] 0 = length (show_int seq)"
    by (rule find_char) simp
  have p4: "substr ?tail (length (show_int seq) + 1) npos = Ok (v @ dot_line)"
    using len by simp
  have dot: "substr (v @ dot_line) 0 (find (v @ dot_line) dot_line 0) = Ok v"
  proof -
    have "sfind dot_line (LF # v @ LF # CHR ''.'' # LF # []) = Some (length v + 1)"
      using assms(3) by (rule find_dot_line)
    then have "sfind dot_line (v @ LF # CHR ''.'' # LF # []) = Some (length v)"
      by (auto split: if_splits)
    then show ?thesis by (simp add: find_start)
  qed
  have ar: "szadd (length ?l) 1 = length ?l + 1" "szadd (length (show_int seq)) 1 = length (show_int seq) + 1"
    using len len1 by simp_all
  have pl: "substr (?l @ LF # ?tail) 0 (length ?l) = Ok ?l" by simp
  have "(''PUT'' = ''DELETE'') = False" by simp
  note names = names_line_read [OF fl(1)]
  show ?thesis
    unfolding replayLogCommand_def put_record_eq Let_def verb three find_char [OF nolf] ar pl
      and_then.simps p2 p3 p4 dot
    using names assms(1,2) by simp
qed

lemma log_delete_step:
  assumes "name_ok row" "name_ok col" "fits (delete_record row col seq)"
  shows "replayLogCommand (delete_record row col seq) t =
    Ok (if map_has t row \<and> map_has (row_of t row) col then cell_erase (row, row) t else t)"
proof -
  let ?l = "names_line ''DELETE'' row col []"
  let ?tail = "show_int seq @ dot_line"
  have nolf: "LF \<notin> set ?l" using assms(1,2) by simp
  have fl: "fits ?l" "fits (LF # ?tail)"
    using assms(3) unfolding delete_record_eq by (rule fits_append)+
  then have len: "length (show_int seq) + 67 < npos" by (simp add: fits_def)
  have len1: "length ?l + 2 < npos" using fl(1) by (simp add: fits_def)
  have verb: "find (?l @ LF # ?tail) '' '' 0 = 6"
    using find_char [of "CHR '' ''" "''DELETE''" "''<'' @ row @ ''> <'' @ col @ ''>'' @ LF # ?tail"]
    by (simp add: names_line_def)
  have six: "substr (?l @ LF # ?tail) 0 6 = Ok ''DELETE''"
    by (simp add: names_line_def)
  have p2: "substr (?l @ LF # ?tail) (length ?l + 1) npos = Ok ?tail"
    using len by simp
  have ar: "szadd (length ?l) 1 = length ?l + 1" using len1 by simp
  have pl: "substr (?l @ LF # ?tail) 0 (length ?l) = Ok ?l" by simp
  note names = names_line_read [OF fl(1)]
  show ?thesis
    unfolding replayLogCommand_def delete_record_eq Let_def verb six find_char [OF nolf] ar pl
      and_then.simps p2
    using names assms(1,2) by simp
qed

section \<open>A checkpoint is read back\<close>

definition paths_ok :: "serverState \<Rightarrow> bool" where
  "paths_ok s \<longleftrightarrow>
     LOG_PATH s = FILE_PATH s @ ''/log.txt'' \<and> CHECKPOINTING_PATH s = FILE_PATH s @ ''/checkpoint.txt''"

lemma paths_ok_set [wf_intros]: "paths_ok (setFilePath p s)"
  by (simp add: paths_ok_def setFilePath_def)

definition table_clean :: "bmap \<Rightarrow> bool" where
  "table_clean t \<longleftrightarrow>
     (\<forall>((row, col), v) \<in> set (cells t).
        name_ok row \<and> name_ok col \<and> dump_safe v \<and> fits (cell_record ((row, col), v)))"

lemma cell_record_block:
  "cell_record kv = (names_line ''PUT'' (fst (fst kv)) (snd (fst kv)) [] @ LF # snd kv) @ dot_line"
  by (cases kv) (auto simp: cell_record_eq)

lemma replay_checkpoint:
  assumes "table_clean t0"
  shows "replay_lines replyCheckpointCommand (getlines (concat (map cell_record (cells t0)))) [] t =
    Ok (table.apply_updates (map (\<lambda>(k, v). (k, Some v)) (cells t0)) t)"
proof -
  have step: "\<exists>b. cell_record (k, v) = b @ dot_line \<and> dump_safe b \<and>
      (\<forall>t. replyCheckpointCommand (cell_record (k, v)) t = Ok (cell_put k v t))"
    if "(k, v) \<in> set (cells t0)" for k v
  proof -
    obtain row col where k: "k = (row, col)" by (cases k)
    from that assms have ok: "name_ok row" "name_ok col" "dump_safe v" "fits (cell_record ((row, col), v))"
      by (auto simp: table_clean_def k)
    then show ?thesis
      unfolding k using checkpoint_step [OF ok] cell_record_block [of "((row, col), v)"] by auto
  qed
  have "\<forall>(k, v) \<in> set ks. \<exists>b. cell_record (k, v) = b @ dot_line \<and> dump_safe b \<and>
      (\<forall>t. replyCheckpointCommand (cell_record (k, v)) t = Ok (cell_put k v t)) \<Longrightarrow>
    replay_lines replyCheckpointCommand (getlines (concat (map cell_record ks))) [] t =
      Ok (table.apply_updates (map (\<lambda>(k, v). (k, Some v)) ks) t)" for ks t
  proof (induction ks arbitrary: t)
    case (Cons kv ks)
    obtain k v where kv: "kv = (k, v)" by (cases kv)
    with Cons.prems obtain b where b: "cell_record (k, v) = b @ dot_line" "dump_safe b"
        "\<forall>t. replyCheckpointCommand (cell_record (k, v)) t = Ok (cell_put k v t)" by auto
    have IH: "replay_lines replyCheckpointCommand (getlines (concat (map cell_record ks))) [] t =
        Ok (table.apply_updates (map (\<lambda>(k, v). (k, Some v)) ks) t)" for t
      using Cons.prems by (intro Cons.IH) auto
    show ?case
      using b(3) replay_record [OF b(2), of replyCheckpointCommand "concat (map cell_record ks)" t] IH
      by (simp add: kv b(1))
  qed simp
  with step show ?thesis by blast
qed

lemma writeToDisk_files:
  assumes "paths_ok s" "fs_open fs (FILE_PATH s @ ''/tem.txt'')" "writeToDisk s t fs = (b, fs')"
  shows "b" "fs_file fs' (CHECKPOINTING_PATH s) = Some (checkpoint_text (seqID s) t)"
    and "fs_open fs (LOG_PATH s) \<Longrightarrow> fs_file fs' (LOG_PATH s) = Some []"
    and "fs_open fs' = fs_open fs"
  using assms
  by (auto simp: writeToDisk_def Let_def write_file_def rename_file_def paths_ok_def split: if_splits)

lemma show_nat_short: "n < 10 ^ m \<Longrightarrow> 0 < m \<Longrightarrow> length (show_nat n) \<le> m"
proof (induction m arbitrary: n)
  case (Suc m)
  show ?case
  proof (cases "n < 10")
    case False
    then have "length (show_nat (n div 10)) \<le> m"
      using Suc by (cases m) (auto intro!: Suc.IH)
    with False show ?thesis by (simp add: show_nat.simps [of n])
  qed (simp add: show_nat.simps [of n])
qed simp

lemma show_int_short: "0 \<le> i \<Longrightarrow> i \<le> long_max \<Longrightarrow> length (show_int i) \<le> 20"
  using show_nat_short [of "nat i" 20] by (simp add: show_int_def long_max_def)

lemma version_line_read:
  assumes "0 \<le> seq" "seq \<le> long_max" "fs_file fs (CHECKPOINTING_PATH s) = Some (checkpoint_text seq t)"
  shows "findVersionNum s fs = Ok seq"
proof -
  let ?l = "''Version number: '' @ CHR ''<'' # show_int seq @ CHR ''>'' # []"
  have "getlines (?l @ LF # concat (map cell_record (cells t))) =
      ?l # getlines (concat (map cell_record (cells t)))"
    by (rule getlines_Cons) simp
  then have ls: "getlines (checkpoint_text seq t) = ?l # getlines (concat (map cell_record (cells t)))"
    by (simp add: checkpoint_text_def version_line_def)
  have lt: "find ?l ''<'' 0 = 16"
    using find_char [of "CHR ''<''" "''Version number: ''"] by simp
  have "find ((''Version number: '' @ CHR ''<'' # show_int seq) @ CHR ''>'' # []) ''>'' 0 =
      length (''Version number: '' @ CHR ''<'' # show_int seq)"
    by (rule find_char) simp
  then have gt: "find ?l ''>'' 0 = 17 + length (show_int seq)" by simp
  have len: "length (show_int seq) < 100" using show_int_short [OF assms(1,2)] by simp
  have num: "stol (show_int seq) = Ok seq"
    using stol_show [OF assms(1,2), of "[]"] by simp
  have ar: "szadd 16 1 = 17" "szsub (17 + length (show_int seq)) 17 = length (show_int seq)"
    using len by (simp_all add: npos_def)
  have contents: "file_text fs (CHECKPOINTING_PATH s) = checkpoint_text seq t"
    by (simp add: file_text_def assms(3))
  show ?thesis
    unfolding findVersionNum_def contents ls Let_def list.case lt gt ar
    by (simp add: file_exist_def assms(3) num)
qed

lemma recover_checkpoint_text:
  assumes "table_ok t" "table_clean t" "fs_file fs (CHECKPOINTING_PATH s) = Some (checkpoint_text seq t)"
  shows "\<exists>t'. recoverCheckpoint s fs [] = Ok (None, t') \<and> table_ok t' \<and> cell_get t' = cell_get t"
proof -
  let ?l = "''Version number: '' @ CHR ''<'' # show_int seq @ CHR ''>'' # []"
  have "getlines (?l @ LF # concat (map cell_record (cells t))) =
      ?l # getlines (concat (map cell_record (cells t)))"
    by (rule getlines_Cons) simp
  then have "tl (getlines (checkpoint_text seq t)) = getlines (concat (map cell_record (cells t)))"
    by (simp add: checkpoint_text_def version_line_def)
  then show ?thesis
    using table.reload [OF assms(1)] table.kinvar_updates [OF table.kinvar_empty]
    by (simp add: recoverCheckpoint_def assms(3) replay_checkpoint [OF assms(2)])
qed

text \<open>
  C11. A checkpoint loses nothing: the table written by \<open>writeToDisk\<close> and read into an empty table
  by \<open>recoverCheckpoint\<close> has the same cells, the version number read back is the sequence number
  it was written at, and the log is empty afterwards. This needs names without angle brackets and
  line feeds, and values none of whose lines is a single dot.
\<close>

theorem checkpoint_roundtrip:
  assumes "table_ok t" "table_clean t" "paths_ok s" "0 \<le> seqID s" "seqID s \<le> long_max"
    and "fs_open fs (FILE_PATH s @ ''/tem.txt'')" "fs_open fs (LOG_PATH s)"
    and "writeToDisk s t fs = (b, fs')"
  shows "b \<and> (\<exists>t'. recoverCheckpoint s fs' [] = Ok (None, t') \<and> cell_get t' = cell_get t) \<and>
    findVersionNum s fs' = Ok (seqID s) \<and> fs_file fs' (LOG_PATH s) = Some []"
  using writeToDisk_files [OF assms(3,6,8)] recover_checkpoint_text [OF assms(1,2)]
    version_line_read [OF assms(4,5)] assms(7) by blast

theorem checkpoint_roundtrip_witness:
  "\<exists>b fs' t'. writeToDisk ((setFilePath ''d'' (new_ServerState (localhost 1)))\<lparr>seqID := 7\<rparr>)
      (cell_put (''r'', ''c'') ''v'' []) \<lparr>fs_file = Map.empty, fs_open = \<lambda>_. True\<rparr> = (b, fs') \<and> b \<and>
    recoverCheckpoint ((setFilePath ''d'' (new_ServerState (localhost 1)))\<lparr>seqID := 7\<rparr>) fs' [] =
      Ok (None, t') \<and> cell_get t' (''r'', ''c'') = Some ''v''"
proof -
  let ?s = "(setFilePath ''d'' (new_ServerState (localhost 1)))\<lparr>seqID := 7\<rparr>"
  let ?t = "cell_put (''r'', ''c'') ''v'' []"
  let ?fs = "\<lparr>fs_file = Map.empty, fs_open = \<lambda>_. True\<rparr> :: filesys"
  obtain b fs' where run: "writeToDisk ?s ?t ?fs = (b, fs')" by fastforce
  have "table_ok ?t" by (rule table_ok_put) simp
  moreover have "table_clean ?t"
    by (simp add: table_clean_def cell_put_def row_of_def cells_def name_ok_def
        fits_def npos_def cell_record_def)
  moreover have "paths_ok ?s" by (simp add: paths_ok_def setFilePath_def)
  ultimately have "b \<and> (\<exists>t'. recoverCheckpoint ?s fs' [] = Ok (None, t') \<and> cell_get t' = cell_get ?t) \<and>
      findVersionNum ?s fs' = Ok (seqID ?s) \<and> fs_file fs' (LOG_PATH ?s) = Some []"
    by (rule checkpoint_roundtrip [OF _ _ _ _ _ _ _ run]) (simp_all add: long_max_def)
  with run show ?thesis by (metis cell_get_put fun_upd_same)
qed

section \<open>The log is replayed\<close>

definition log_entry_ok :: "(string \<times> string) \<times> int \<times> string \<Rightarrow> bool" where
  "log_entry_ok e =
     (case e of ((row, col), seq, v) \<Rightarrow>
        name_ok row \<and> name_ok col \<and> dump_safe v \<and> fits (put_record row col seq v))"

definition put_log :: "((string \<times> string) \<times> int \<times> string) list \<Rightarrow> string" where
  "put_log es = concat (map (\<lambda>((row, col), seq, v). put_record row col seq v) es)"

lemma put_record_block:
  "put_record row col seq v = (names_line ''PUT'' row col [] @ LF # show_int seq @ LF # v) @ dot_line"
  by (simp add: put_record_eq)

lemma delete_record_block:
  "delete_record row col seq = (names_line ''DELETE'' row col [] @ LF # show_int seq) @ dot_line"
  by (simp add: delete_record_eq)

lemma show_int_not_dot [simp]: "show_int i \<noteq> ''.''"
  using show_int_plain(7) [of i] by (metis list.set_intros(1))

lemma put_block_safe:
  "name_ok row \<Longrightarrow> name_ok col \<Longrightarrow> dump_safe v \<Longrightarrow>
     dump_safe (names_line ''PUT'' row col [] @ LF # show_int seq @ LF # v)"
  by simp

lemma delete_block_safe:
  "name_ok row \<Longrightarrow> name_ok col \<Longrightarrow> dump_safe (names_line ''DELETE'' row col [] @ LF # show_int seq)"
  by simp

lemma replay_put_log:
  "\<forall>e \<in> set es. log_entry_ok e \<Longrightarrow>
     replay_lines replayLogCommand (getlines (put_log es)) [] t =
     Ok (table.apply_updates (map (\<lambda>(k, seq, v). (k, Some v)) es) t)"
proof (induction es arbitrary: t)
  case Nil
  then show ?case by (simp add: put_log_def)
next
  case (Cons e es)
  obtain row col seq v where e: "e = ((row, col), seq, v)" by (metis prod.exhaust)
  with Cons.prems have ok: "name_ok row" "name_ok col" "dump_safe v" "fits (put_record row col seq v)"
    by (auto simp: log_entry_ok_def)
  have "replay_lines replayLogCommand (getlines (put_log (e # es))) [] t =
      and_then (replayLogCommand (put_record row col seq v) t)
        (replay_lines replayLogCommand (getlines (put_log es)) [])"
    using replay_record [OF put_block_safe [OF ok(1-3)], of replayLogCommand seq "put_log es" t]
    by (simp add: put_log_def e put_record_block)
  then show ?case using Cons.IH Cons.prems log_put_step [OF ok] by (simp add: e)
qed

text \<open>What a restarting server does with its two files: the checkpoint, then the log.\<close>

definition recover_files :: "serverState \<Rightarrow> filesys \<Rightarrow> bmap res" where
  "recover_files s fs =
     and_then (recoverCheckpoint s fs []) (\<lambda>(_, t).
     and_then (recoverLog s fs t) (\<lambda>(_, t'). Ok t'))"

lemma recover_crash:
  assumes "table_ok t" "table_clean t" "\<forall>e \<in> set es. log_entry_ok e"
    and "fs_file fs (CHECKPOINTING_PATH s) = Some (checkpoint_text seq t)"
    and "fs_file fs (LOG_PATH s) = Some (put_log es)"
  shows "\<exists>t'. recover_files s fs = Ok t' \<and>
    cell_get t' = cell_get (table.apply_updates (map (\<lambda>(k, seq, v). (k, Some v)) es) t)"
proof -
  obtain t1 where t1: "recoverCheckpoint s fs [] = Ok (None, t1)" "table_ok t1" "cell_get t1 = cell_get t"
    using recover_checkpoint_text [OF assms(1,2,4)] by blast
  have "recover_files s fs = Ok (table.apply_updates (map (\<lambda>(k, seq, v). (k, Some v)) es) t1)"
    by (simp add: recover_files_def recoverLog_def assms(5) replay_put_log [OF assms(3)] t1(1))
  then show ?thesis
    using t1(2,3) assms(1) by (auto simp: table.get_updates fun_eq_iff split: option.split)
qed

text \<open>
  C12. Recovery after a crash reproduces every write: with a checkpoint of the table \<open>t\<close> and a log
  of the writes made since then on the primary, the restarted server holds the cells of \<open>t\<close>
  overwritten by those writes, in their order.
\<close>

theorem crash_recovery:
  assumes "table_ok t" "table_clean t" "\<forall>e \<in> set es. log_entry_ok e"
    and "fs_file fs (CHECKPOINTING_PATH s) = Some (checkpoint_text seq t)"
    and "fs_file fs (LOG_PATH s) = Some (put_log es)"
  shows "\<exists>t'. recover_files s fs = Ok t' \<and>
    cell_get t' = cell_get (table.apply_updates (map (\<lambda>(k, seq, v). (k, Some v)) es) t)"
  using assms by (rule recover_crash)

theorem crash_recovery_witness:
  "\<exists>t'. recover_files (setFilePath ''d'' (new_ServerState (localhost 1)))
      \<lparr>fs_file = [''d/checkpoint.txt'' \<mapsto> checkpoint_text 0 (cell_put (''r'', ''c'') ''v'' []),
                   ''d/log.txt'' \<mapsto> put_log [((''r'', ''c''), 1, ''w'')]],
       fs_open = \<lambda>_. True\<rparr> = Ok t' \<and> cell_get t' (''r'', ''c'') = Some ''w''"
proof -
  let ?s = "setFilePath ''d'' (new_ServerState (localhost 1))"
  let ?t = "cell_put (''r'', ''c'') ''v'' []"
  let ?es = "[((''r'', ''c''), 1, ''w'')] :: ((string \<times> string) \<times> int \<times> string) list"
  let ?fs = "\<lparr>fs_file = [''d/checkpoint.txt'' \<mapsto> checkpoint_text 0 ?t, ''d/log.txt'' \<mapsto> put_log ?es],
       fs_open = \<lambda>_. True\<rparr> :: filesys"
  have "table_ok ?t" by (rule table_ok_put) simp
  moreover have "table_clean ?t"
    by (simp add: table_clean_def cell_put_def row_of_def cells_def name_ok_def
        fits_def npos_def cell_record_def)
  moreover have "\<forall>e \<in> set ?es. log_entry_ok e"
    by (simp add: log_entry_ok_def name_ok_def put_record_def put_header_def fits_def npos_def
        show_int_def show_nat.simps)
  ultimately have "\<exists>t'. recover_files ?s ?fs = Ok t' \<and>
      cell_get t' = cell_get (table.apply_updates (map (\<lambda>(k, seq, v). (k, Some v)) ?es) ?t)"
    by (rule crash_recovery [where seq = 0]) (simp_all add: setFilePath_def)
  then show ?thesis by auto
qed

text \<open>
  A delete is not replayed: for a delete record the log replay erases the column that has the
  name of the row, so every cell of a column named differently survives the restart, the deleted
  one included.
\<close>

theorem delete_not_replayed:
  assumes "name_ok row" "name_ok col" "fits (delete_record row col seq)" "table_ok t"
    and "fs_file fs (LOG_PATH s) = Some (delete_record row col seq)"
  shows "\<exists>t'. recoverLog s fs t = Ok (None, t') \<and>
    (\<forall>k. k \<noteq> (row, row) \<longrightarrow> cell_get t' k = cell_get t k)"
  using replay_record [OF delete_block_safe [OF assms(1,2)], of replayLogCommand seq "[]" t]
    log_delete_step [OF assms(1-3), of t] assms(4)
  by (simp add: recoverLog_def assms(5) delete_record_block cell_get_erase)

theorem delete_not_replayed_witness:
  "\<exists>t'. recoverLog (setFilePath ''d'' (new_ServerState (localhost 1)))
      \<lparr>fs_file = [''d/log.txt'' \<mapsto> delete_record ''r'' ''c'' 2], fs_open = \<lambda>_. True\<rparr>
      (cell_put (''r'', ''c'') ''v'' []) = Ok (None, t') \<and> cell_get t' (''r'', ''c'') = Some ''v''"
proof -
  let ?fs = "\<lparr>fs_file = [''d/log.txt'' \<mapsto> delete_record ''r'' ''c'' 2], fs_open = \<lambda>_. True\<rparr> :: filesys"
  have "name_ok ''r''" "name_ok ''c''" by (simp_all add: name_ok_def)
  moreover have "fits (delete_record ''r'' ''c'' 2)"
    by (simp add: delete_record_def fits_def npos_def show_int_def show_nat.simps)
  moreover have "table_ok (cell_put (''r'', ''c'') ''v'' [])" by (rule table_ok_put) simp
  ultimately have "\<exists>t'. recoverLog (setFilePath ''d'' (new_ServerState (localhost 1))) ?fs
        (cell_put (''r'', ''c'') ''v'' []) = Ok (None, t') \<and>
      (\<forall>k. k \<noteq> (''r'', ''r'') \<longrightarrow> cell_get t' k = cell_get (cell_put (''r'', ''c'') ''v'' []) k)"
    by (rule delete_not_replayed) (simp add: setFilePath_def)
  then show ?thesis by auto
qed

text \<open>
  C12. A replica's log loses the last byte: a value ends with a line end, the replica closes it with
  \<open>".\n"\<close>, and the replay takes the line feed of the value for the one before the dot. After a
  restart the replica holds the value without its final line feed.
\<close>

theorem replica_log_truncates:
  assumes "name_ok row" "name_ok col" "dump_safe (w @ [CR])"
    and "fits (put_record_replica row col seq (w @ crlf))"
    and "fs_file fs (LOG_PATH s) = Some (put_record_replica row col seq (w @ crlf))"
  shows "recoverLog s fs t = Ok (None, cell_put (row, col) (w @ [CR]) t)"
proof -
  have same: "put_record_replica row col seq (w @ crlf) = put_record row col seq (w @ [CR])"
    by (simp add: put_record_replica_def put_record_def crlf_def)
  have "fits (put_record row col seq (w @ [CR]))" using assms(4) by (simp add: same)
  then have "replay_lines replayLogCommand (getlines (put_log [((row, col), seq, w @ [CR])])) [] t =
      Ok (cell_put (row, col) (w @ [CR]) t)"
    using assms(1-3) by (subst replay_put_log) (auto simp: log_entry_ok_def)
  then show ?thesis by (simp add: recoverLog_def assms(5) same put_log_def)
qed

theorem replica_log_truncates_witness:
  "recoverLog (setFilePath ''d'' (new_ServerState (localhost 1)))
      \<lparr>fs_file = [''d/log.txt'' \<mapsto> put_record_replica ''r'' ''c'' 2 (''v'' @ crlf)], fs_open = \<lambda>_. True\<rparr> [] =
    Ok (None, cell_put (''r'', ''c'') (''v'' @ [CR]) [])"
proof (rule replica_log_truncates)
  show "fits (put_record_replica ''r'' ''c'' 2 (''v'' @ crlf))"
    by (simp add: put_record_replica_def put_header_def fits_def npos_def crlf_def show_int_def show_nat.simps)
qed (simp_all add: name_ok_def setFilePath_def)

section \<open>The last sequence number\<close>

lemma srfind_Some:
  assumes "j \<le> i" "j \<le> length s" "prefix pat (drop j s)"
    and "\<And>k. j < k \<Longrightarrow> k \<le> i \<Longrightarrow> k \<le> length s \<Longrightarrow> \<not> prefix pat (drop k s)"
  shows "srfind pat s i = Some j"
  using assms
proof (induction i)
  case (Suc i)
  show ?case
  proof (cases "j = Suc i")
    case False
    with Suc.prems have "srfind pat s i = Some j" by (intro Suc.IH) auto
    with Suc.prems(4) [of "Suc i"] Suc.prems(1) False show ?thesis by auto
  qed (use Suc.prems in auto)
qed simp

lemma srfind_None:
  "(\<And>k. k \<le> i \<Longrightarrow> k \<le> length s \<Longrightarrow> \<not> prefix pat (drop k s)) \<Longrightarrow> srfind pat s i = None"
  by (induction i) auto

text \<open>No line end inside a piece without line feeds.\<close>

lemma no_line_end:
  assumes "LF \<notin> set a" "m < length a \<or> m = length a \<and> c \<noteq> d" "d \<noteq> LF"
  shows "\<not> prefix [c, LF] (drop m (a @ d # rest))"
proof (cases "m < length a")
  case True
  then obtain x ys where ys: "drop m a = x # ys" by (metis Cons_nth_drop_Suc)
  then have "LF \<notin> set ys" using assms(1) by (metis in_set_dropD list.set_intros(2))
  with True ys assms(3) show ?thesis by (cases ys) auto
qed (use assms(2) in auto)

lemma last_header:
  assumes "LF \<notin> set a" "\<not> contains z [CHR ''>'', LF]" "pre = [] \<or> (\<exists>p. pre = p @ [CHR ''.'', LF])"
    and "0 \<le> seq" "seq \<le> long_max" "fits contents"
    and "contents = pre @ a @ CHR ''>'' # LF # (show_int seq @ LF # z)"
    and "fs_file fs (LOG_PATH s) = Some contents"
  shows "lastLogSeq s fs = Ok seq"
proof -
  let ?t = "show_int seq @ LF # z"
  let ?n = "length pre + length a"
  have len: "length contents + 64 < npos"
    using assms(6) by (simp add: fits_def)
  have lenc: "length contents = ?n + 2 + length ?t" by (simp add: assms(7))
  have none: "sfind [CHR ''>'', LF] (LF # ?t) = None"
    using assms(2) by (simp add: contains_def sfind_skip)
  have after: "\<not> prefix [CHR ''>'', LF] (drop k contents)" if "?n < k" for k
  proof -
    from that have "drop k contents = drop (k - Suc ?n) (LF # ?t)"
      by (simp add: assms(7) drop_Cons' split: if_splits)
    moreover have "\<not> prefix [CHR ''>'', LF] (drop m (LF # ?t))" for m
      using none unfolding sfind_None_iff by (cases "m \<le> length (LF # ?t)") auto
    ultimately show ?thesis by simp
  qed
  have r1: "rfind contents [CHR ''>'', LF] npos = ?n"
  proof -
    have "min npos (length contents) = length contents" using len by simp
    moreover have "srfind [CHR ''>'', LF] contents (length contents) = Some ?n"
      by (rule srfind_Some) (use after in \<open>simp_all add: lenc\<close>, simp add: assms(7))
    ultimately show ?thesis by (simp add: rfind_def)
  qed
  have first: "find contents [CHR ''>'', LF] q = ?n"
    if "q = 0 \<and> pre = [] \<or> pre = p @ [CHR ''.'', LF] \<and> q = length p" for p q
  proof -
    let ?b = "drop q pre @ a"
    note loc = that
    have "\<forall>j < length ?b. \<not> prefix [CHR ''>'', LF] (drop j (?b @ CHR ''>'' # LF # ?t))"
    proof (intro allI impI)
      fix j assume j: "j < length ?b"
      consider "pre = []" | "j < 2" "drop q pre = [CHR ''.'', LF]"
        | "drop q pre = [CHR ''.'', LF]" "2 \<le> j" using loc by fastforce
      then show "\<not> prefix [CHR ''>'', LF] (drop j (?b @ CHR ''>'' # LF # ?t))"
      proof cases
        case 1
        with j no_line_end [OF assms(1), of j "CHR ''>''" "CHR ''>''" "LF # ?t"] show ?thesis by simp
      next
        case 2
        then show ?thesis by (cases "j = 0") (auto simp: less_Suc_eq numeral_2_eq_2)
      next
        case 3
        then have "drop j (?b @ CHR ''>'' # LF # ?t) = drop (j - 2) (a @ CHR ''>'' # LF # ?t)"
          by (simp add: drop_Cons' numeral_2_eq_2)
        moreover have "j - 2 < length a" using 3 j by simp
        ultimately show ?thesis
          using no_line_end [OF assms(1), of "j - 2" "CHR ''>''" "CHR ''>''" "LF # ?t"] by simp
      qed
    qed
    then have "sfind [CHR ''>'', LF] (?b @ CHR ''>'' # LF # ?t) = Some (length ?b)"
      unfolding sfind_Some_iff by simp
    moreover have "drop q contents = ?b @ CHR ''>'' # LF # ?t" "q \<le> length contents"
      "q + length ?b = ?n"
      using that by (auto simp: assms(7))
    ultimately show ?thesis by (simp add: find_def)
  qed
  have r2: "rfind contents [CHR ''.'', LF] ?n = (if pre = [] then npos else length pre - 2)"
  proof -
    have m: "min ?n (length contents) = ?n" by (simp add: lenc)
    have here: "\<not> prefix [CHR ''.'', LF] (drop k contents)" if "length pre \<le> k" "k \<le> ?n" for k
    proof -
      have "drop k contents = drop (k - length pre) (a @ CHR ''>'' # LF # ?t)"
        using that by (simp add: assms(7))
      moreover have "k - length pre < length a \<or> k - length pre = length a" using that by auto
      ultimately show ?thesis
        using no_line_end [OF assms(1), of "k - length pre" "CHR ''.''" "CHR ''>''" "LF # ?t"] by simp
    qed
    show ?thesis
    proof (cases "pre = []")
      case True
      then have "srfind [CHR ''.'', LF] contents ?n = None"
        using here by (intro srfind_None) auto
      with m True show ?thesis by (simp add: rfind_def)
    next
      case False
      then obtain p where p: "pre = p @ [CHR ''.'', LF]" using assms(3) by blast
      have "srfind [CHR ''.'', LF] contents ?n = Some (length p)"
      proof (rule srfind_Some)
        fix k assume k: "length p < k" "k \<le> ?n"
        show "\<not> prefix [CHR ''.'', LF] (drop k contents)"
        proof (cases "k = Suc (length p)")
          case True
          then show ?thesis by (simp add: assms(7) p)
        qed (use k here p in auto)
      qed (simp_all add: lenc p, simp add: assms(7) p)
      with m p show ?thesis by (simp add: rfind_def)
    qed
  qed
  have pos: "(if rfind contents [CHR ''.'', LF] ?n \<noteq> npos
      then find contents [CHR ''>'', LF] (rfind contents [CHR ''.'', LF] ?n)
      else find contents [CHR ''>'', LF] 0) = ?n"
  proof (cases "pre = []")
    case True
    then show ?thesis using r2 first [of 0] by simp
  next
    case False
    then obtain p where p: "pre = p @ [CHR ''.'', LF]" using assms(3) by blast
    then have "rfind contents [CHR ''.'', LF] ?n = length p" using r2 by simp
    moreover have "length p \<noteq> npos" using len by (simp add: lenc p)
    moreover have "find contents [CHR ''>'', LF] (length p) = ?n" by (rule first [of _ p]) (simp add: p)
    ultimately show ?thesis by simp
  qed
  have lt: "?n < npos" "?n + 2 < npos" using len by (simp_all add: lenc)
  have "substr contents (szadd ?n 2) npos = Ok ?t"
    using lt len by (simp add: lenc) (simp add: assms(7))
  moreover have "find ?t [LF] 0 = length (show_int seq)" by (rule find_char) simp
  moreover have "stol (show_int seq) = Ok seq"
    using stol_show [OF assms(4,5), of "[]"] by simp
  ultimately show ?thesis
    using lt unfolding lastLogSeq_def Let_def read_file_def assms(8) option.case snd_conv r1 pos
    by (simp add: file_exist_def assms(8))
qed


text \<open>
  C10. \<open>lastLogSeq\<close> finds the sequence number of the last record of the log, be it a write or a
  delete, whatever the values before it contain, as long as the last value itself has no closing bracket
  at the end of a line.
\<close>

theorem last_log_seq:
  assumes "name_ok row" "name_ok col" "0 \<le> seq" "seq \<le> long_max"
    and "entry = delete_record row col seq \<or>
         (\<exists>v. entry = put_record row col seq v \<and> \<not> contains (v @ [LF]) [CHR ''>'', LF])"
    and "fs_file fs (LOG_PATH s) = Some (put_log es @ entry)" "fits (put_log es @ entry)"
  shows "lastLogSeq s fs = Ok seq"
proof -
  have pre: "put_log es = [] \<or> (\<exists>p. put_log es = p @ [CHR ''.'', LF])"
  proof (cases es rule: rev_cases)
    case (snoc es' e)
    obtain r c q v where e: "e = ((r, c), q, v)" by (metis prod.exhaust)
    have "put_log es = (put_log es' @ put_header r c q @ v @ [LF]) @ [CHR ''.'', LF]"
      by (simp add: put_log_def snoc e put_record_def)
    then show ?thesis by blast
  qed (simp add: put_log_def)
  have tail: "sfind [CHR ''>'', LF] (v @ dot_line) = None" if "\<not> contains (v @ [LF]) [CHR ''>'', LF]" for v
    using that
  proof (induction v)
    case (Cons c v)
    then show ?case by (cases v) (auto simp: contains_def split: if_splits)
  qed (simp add: contains_def)
  obtain verb z where
      ent: "put_log es @ entry = put_log es @ (verb @ '' <'' @ row @ ''> <'' @ col) @ CHR ''>'' # LF # (show_int seq @ LF # z)"
    and z: "\<not> contains z [CHR ''>'', LF]" "LF \<notin> set verb"
  proof (cases "entry = delete_record row col seq")
    case True
    then show ?thesis
      by (intro that [of "''DELETE''" "[CHR ''.'', LF]"]) (simp_all add: delete_record_def contains_def)
  next
    case False
    with assms(5) obtain v where "entry = put_record row col seq v" "\<not> contains (v @ [LF]) [CHR ''>'', LF]"
      by blast
    then show ?thesis
      by (intro that [of "''PUT''" "v @ dot_line"])
        (simp_all add: put_record_def put_header_def contains_def tail)
  qed
  have "LF \<notin> set (verb @ '' <'' @ row @ ''> <'' @ col)"
    using assms(1,2) z(2) by (auto simp: name_ok_def)
  from last_header [OF this z(1) pre assms(3,4,7) ent assms(6)] show ?thesis .
qed

theorem last_log_seq_witness:
  "lastLogSeq (setFilePath ''d'' (new_ServerState (localhost 1)))
     \<lparr>fs_file = [''d/log.txt'' \<mapsto> put_log [((''r'', ''c''), 1, ''<x>'' @ crlf)] @ delete_record ''r'' ''c'' 2],
      fs_open = \<lambda>_. True\<rparr> = Ok 2"
proof (rule last_log_seq [where row = "''r''" and col = "''c''"])
  show "fits (put_log [((''r'', ''c''), 1, ''<x>'' @ crlf)] @ delete_record ''r'' ''c'' 2)"
    by (simp add: put_log_def put_record_def put_header_def delete_record_def fits_def npos_def crlf_def
        show_int_def show_nat.simps)
qed (simp_all add: name_ok_def setFilePath_def long_max_def)

end
