(* ===== verification/Back_Store.thy ===== *)
theory Back_Store
  imports Server_State
begin

text \<open>
  \<open>kvstore/backStore.cc\<close>: the primary's list of replicas. A replica is running (1), recovering (2)
  or failed (3). Updates go to the running ones; those for a recovering one are held back until it
  reconnects; a failed one misses them.
\<close>

section \<open>State\<close>

text \<open>A connection as its owner sees it: whether writes still succeed, and what was written.\<close>

record wconn =
  alive :: bool
  sent :: string

record replicate =
  r_addr :: sockaddr_in
  r_state :: int
  holdBack :: "string list"
  connection :: "wconn option"

record backStore =
  nodes :: "replicate list"
  myID :: int

text \<open>The network: does \<open>socket\<close> succeed, and which addresses accept a \<open>connect\<close>?\<close>

record netenv =
  can_socket :: bool
  can_connect :: "sockaddr_in \<Rightarrow> bool"

definition conn_write :: "wconn \<Rightarrow> string \<Rightarrow> bool \<times> wconn" where
  "conn_write c s = (if alive c then (True, c\<lparr>sent := sent c @ s\<rparr>) else (False, c))"

definition new_conn :: wconn where
  "new_conn = \<lparr>alive = True, sent = []\<rparr>"

section \<open>Operations\<close>

fun establish_loop :: "netenv \<Rightarrow> int \<Rightarrow> int \<Rightarrow> sockaddr_in list \<Rightarrow> replicate list \<Rightarrow> bool \<times> replicate list" where
  "establish_loop net my i [] ns = (True, ns)"
| "establish_loop net my i (a # as) ns =
     (if i = my then establish_loop net my (i + 1) as ns
      else if \<not> can_socket net then (False, ns)
      else if can_connect net a
           then establish_loop net my (i + 1) as
                  (ns @ [\<lparr>r_addr = a, r_state = 1, holdBack = [], connection = Some new_conn\<rparr>])
           else establish_loop net my (i + 1) as
                  (ns @ [\<lparr>r_addr = a, r_state = 3, holdBack = [], connection = None\<rparr>]))"

definition establishConn :: "netenv \<Rightarrow> sockaddr_in list \<Rightarrow> backStore \<Rightarrow> bool \<times> backStore" where
  "establishConn net list bs =
     (case establish_loop net (myID bs) 0 list (nodes bs) of (r, ns) \<Rightarrow> (r, bs\<lparr>nodes := ns\<rparr>))"

definition new_BackStore :: "netenv \<Rightarrow> sockaddr_in list \<Rightarrow> int \<Rightarrow> backStore" where
  "new_BackStore net list my = snd (establishConn net list \<lparr>nodes = [], myID = my\<rparr>)"

definition push_command :: "string \<Rightarrow> string \<Rightarrow> string \<Rightarrow> int \<Rightarrow> string" where
  "push_command row col data seq =
     ''PUT <'' @ row @ ''> <'' @ col @ ''>'' @ crlf @ show_int seq @ crlf @ data @ ''.'' @ crlf"

definition poll_command :: "string \<Rightarrow> string \<Rightarrow> int \<Rightarrow> string" where
  "poll_command row col seq =
     ''DELETE <'' @ row @ ''> <'' @ col @ ''>'' @ crlf @ show_int seq @ crlf"

text \<open>The loop body of \<open>push\<close>: a running replica without a connection would be a null pointer.\<close>

definition push_node :: "string \<Rightarrow> replicate \<Rightarrow> replicate res" where
  "push_node command r =
     (if r_state r = 1 then
        (case connection r of
           None \<Rightarrow> Throw Null_deref
         | Some c \<Rightarrow> (case conn_write c command of (ret, c') \<Rightarrow>
             Ok (r\<lparr>connection := Some c', r_state := (if ret then 1 else 3)\<rparr>)))
      else if r_state r = 2 then Ok (r\<lparr>holdBack := holdBack r @ [command]\<rparr>)
      else Ok r)"

text \<open>The loop body of \<open>poll\<close>, which does test the pointer.\<close>

definition poll_node :: "string \<Rightarrow> replicate \<Rightarrow> replicate" where
  "poll_node command r =
     (if r_state r = 1 \<and> connection r \<noteq> None then
        (case conn_write (the (connection r)) command of (ret, c') \<Rightarrow>
             r\<lparr>connection := Some c', r_state := (if ret then 1 else 3)\<rparr>)
      else if r_state r = 2 then r\<lparr>holdBack := holdBack r @ [command]\<rparr>
      else r)"

definition bs_push :: "string \<Rightarrow> string \<Rightarrow> string \<Rightarrow> int \<Rightarrow> backStore \<Rightarrow> backStore res" where
  "bs_push row col data seq bs =
     and_then (map_res (push_node (push_command row col data seq)) (nodes bs))
       (\<lambda>ns. Ok (bs\<lparr>nodes := ns\<rparr>))"

definition bs_poll :: "string \<Rightarrow> string \<Rightarrow> int \<Rightarrow> backStore \<Rightarrow> backStore" where
  "bs_poll row col seq bs = bs\<lparr>nodes := map (poll_node (poll_command row col seq)) (nodes bs)\<rparr>"

text \<open>
  \<open>reconnect\<close> serves the first node with the given address: it waits until the node accepts a
  connection, sends what was held back and marks it running. The results of the writes are ignored.
\<close>

definition reconnect_node :: "replicate \<Rightarrow> replicate" where
  "reconnect_node r =
     r\<lparr>connection := Some (foldl (\<lambda>c s. snd (conn_write c s)) new_conn (holdBack r)),
       holdBack := [], r_state := 1\<rparr>"

fun reconnect_loop :: "netenv \<Rightarrow> string \<Rightarrow> replicate list \<Rightarrow> (bool \<times> replicate list) res" where
  "reconnect_loop net address [] = Ok (False, [])"
| "reconnect_loop net address (r # rs) =
     (if ip_to_string (r_addr r) = address then
        (if \<not> can_socket net then Ok (False, r # rs)
         else if \<not> can_connect net (r_addr r) then Block
         else Ok (True, reconnect_node r # rs))
      else and_then (reconnect_loop net address rs) (\<lambda>(b, rs'). Ok (b, r # rs')))"

definition bs_reconnect :: "netenv \<Rightarrow> string \<Rightarrow> backStore \<Rightarrow> (bool \<times> backStore) res" where
  "bs_reconnect net address bs =
     and_then (reconnect_loop net address (nodes bs)) (\<lambda>(b, ns). Ok (b, bs\<lparr>nodes := ns\<rparr>))"

fun recover_loop :: "string \<Rightarrow> replicate list \<Rightarrow> bool \<times> replicate list" where
  "recover_loop address [] = (False, [])"
| "recover_loop address (r # rs) =
     (if ip_to_string (r_addr r) = address then (True, r\<lparr>r_state := 2\<rparr> # rs)
      else (case recover_loop address rs of (b, rs') \<Rightarrow> (b, r # rs')))"

definition bs_recover :: "string \<Rightarrow> backStore \<Rightarrow> bool \<times> backStore" where
  "bs_recover address bs =
     (case recover_loop address (nodes bs) of (b, ns) \<Rightarrow> (b, bs\<lparr>nodes := ns\<rparr>))"

section \<open>Running replicas have a connection\<close>

definition node_ok :: "replicate \<Rightarrow> bool" where
  "node_ok r \<longleftrightarrow> r_state r \<in> {1, 2, 3} \<and> (r_state r = 1 \<longrightarrow> connection r \<noteq> None)"

definition bs_ok :: "backStore \<Rightarrow> bool" where
  "bs_ok bs \<longleftrightarrow> (\<forall>r \<in> set (nodes bs). node_ok r)"

lemma establish_ok [wf_intros]:
  "(\<forall>r \<in> set ns. node_ok r) \<Longrightarrow> \<forall>r \<in> set (snd (establish_loop net my i as ns)). node_ok r"
  by (induction net my i as ns rule: establish_loop.induct) (auto simp: node_ok_def)

lemma push_node_ok: "node_ok r \<Longrightarrow> \<exists>r'. push_node cmd r = Ok r' \<and> node_ok r'"
  by (auto simp: push_node_def node_ok_def split: option.splits prod.splits)

lemma poll_node_ok [wf_intros]: "node_ok r \<Longrightarrow> node_ok (poll_node cmd r)"
  by (auto simp: poll_node_def node_ok_def split: prod.splits)

lemma bs_push_ok:
  assumes "bs_ok bs"
  shows "\<exists>bs'. bs_push row col data seq bs = Ok bs' \<and> bs_ok bs'"
proof -
  let ?f = "push_node (push_command row col data seq)"
  have "\<forall>r \<in> set (nodes bs). \<exists>r'. ?f r = Ok r' \<and> node_ok r'"
    using assms push_node_ok by (auto simp: bs_ok_def)
  then obtain g where g: "\<forall>r \<in> set (nodes bs). ?f r = Ok (g r) \<and> node_ok (g r)"
    by metis
  then have "map_res ?f (nodes bs) = Ok (map g (nodes bs))"
    by (intro map_res_Ok) simp
  with g show ?thesis by (auto simp: bs_push_def bs_ok_def)
qed

lemma bs_poll_ok [wf_intros]: "bs_ok bs \<Longrightarrow> bs_ok (bs_poll row col seq bs)"
  by (auto simp: bs_ok_def bs_poll_def intro: poll_node_ok)

lemma recover_loop_ok [wf_intros]:
  "(\<forall>r \<in> set rs. node_ok r) \<Longrightarrow> \<forall>r \<in> set (snd (recover_loop a rs)). node_ok r"
  by (induction a rs rule: recover_loop.induct) (auto simp: node_ok_def split: prod.splits)

lemma bs_recover_ok [wf_intros]: "bs_ok bs \<Longrightarrow> bs_ok (snd (bs_recover a bs))"
  using recover_loop_ok [of "nodes bs" a]
  by (auto simp: bs_ok_def bs_recover_def split: prod.splits)

lemma reconnect_loop_ok:
  "reconnect_loop net a rs = Ok (b, rs') \<Longrightarrow> \<forall>r \<in> set rs. node_ok r \<Longrightarrow> \<forall>r \<in> set rs'. node_ok r"
  by (induction net a rs arbitrary: b rs' rule: reconnect_loop.induct)
     (auto simp: node_ok_def reconnect_node_def split: if_splits prod.splits)

lemma bs_reconnect_ok: "bs_reconnect net a bs = Ok (b, bs') \<Longrightarrow> bs_ok bs \<Longrightarrow> bs_ok bs'"
  by (auto simp: bs_ok_def bs_reconnect_def dest: reconnect_loop_ok split: prod.splits)

section \<open>What a replica receives\<close>

datatype update = Put string string string int | Del string string int

fun update_command :: "update \<Rightarrow> string" where
  "update_command (Put row col data seq) = push_command row col data seq"
| "update_command (Del row col seq) = poll_command row col seq"

fun bs_update :: "update \<Rightarrow> backStore \<Rightarrow> backStore res" where
  "bs_update (Put row col data seq) bs = bs_push row col data seq bs"
| "bs_update (Del row col seq) bs = Ok (bs_poll row col seq bs)"

fun bs_updates :: "update list \<Rightarrow> backStore \<Rightarrow> backStore res" where
  "bs_updates [] bs = Ok bs"
| "bs_updates (u # us) bs = and_then (bs_update u bs) (bs_updates us)"

text \<open>The node the loops pick for an address: the first one.\<close>

definition node_at :: "backStore \<Rightarrow> string \<Rightarrow> replicate option" where
  "node_at bs a = List.find (\<lambda>r. ip_to_string (r_addr r) = a) (nodes bs)"

lemma find_map_res:
  assumes "map_res f xs = Ok ys" "\<And>x y. f x = Ok y \<Longrightarrow> P y = P x"
  shows "List.find P xs = Some x \<Longrightarrow> \<exists>y. f x = Ok y \<and> List.find P ys = Some y"
  using assms(1) by (induction xs arbitrary: ys) (auto simp: assms(2) split: if_splits)

lemma find_map_same: "(\<And>x. P (f x) = P x) \<Longrightarrow> List.find P (map f xs) = map_option f (List.find P xs)"
  by (induction xs) auto

lemma push_node_addr: "push_node cmd r = Ok r' \<Longrightarrow> r_addr r' = r_addr r"
  by (auto simp: push_node_def split: if_splits option.splits prod.splits)

lemma poll_node_addr [simp]: "r_addr (poll_node cmd r) = r_addr r"
  by (auto simp: poll_node_def split: prod.splits)

lemma bs_update_ok: "bs_ok bs \<Longrightarrow> \<exists>bs'. bs_update u bs = Ok bs' \<and> bs_ok bs'"
  using bs_push_ok bs_poll_ok by (cases u) auto

lemma bs_updates_ok: "bs_ok bs \<Longrightarrow> \<exists>bs'. bs_updates us bs = Ok bs' \<and> bs_ok bs'"
proof (induction us arbitrary: bs)
  case (Cons u us)
  obtain bs1 where "bs_update u bs = Ok bs1" "bs_ok bs1"
    using bs_update_ok [OF Cons.prems] by blast
  with Cons.IH show ?case by simp
qed simp

lemma node_at_push:
  assumes "bs_push row col data seq bs = Ok bs'" "node_at bs a = Some r"
  shows "\<exists>r'. push_node (push_command row col data seq) r = Ok r' \<and> node_at bs' a = Some r'"
proof -
  let ?f = "push_node (push_command row col data seq)"
  let ?P = "\<lambda>r. ip_to_string (r_addr r) = a"
  from assms(1) obtain ns where ns: "map_res ?f (nodes bs) = Ok ns" and bs': "bs' = bs\<lparr>nodes := ns\<rparr>"
    by (auto simp: bs_push_def)
  have "\<exists>r'. ?f r = Ok r' \<and> List.find ?P ns = Some r'"
    using assms(2) by (intro find_map_res [OF ns]) (auto simp: node_at_def push_node_addr)
  with bs' show ?thesis by (simp add: node_at_def)
qed

lemma node_at_poll:
  "node_at (bs_poll row col seq bs) a = map_option (poll_node (poll_command row col seq)) (node_at bs a)"
  by (simp add: node_at_def bs_poll_def find_map_same)

lemma node_at_held:
  assumes "bs_update u bs = Ok bs'" "node_at bs a = Some r" "r_state r = 2"
  shows "node_at bs' a = Some (r\<lparr>holdBack := holdBack r @ [update_command u]\<rparr>)"
  using assms
  by (cases u) (auto simp: node_at_poll poll_node_def push_node_def dest!: node_at_push)

lemma node_at_running:
  assumes "bs_update u bs = Ok bs'" "node_at bs a = Some r" "r_state r = 1"
    and "connection r = Some c" "alive c"
  shows "node_at bs' a = Some (r\<lparr>connection := Some (c\<lparr>sent := sent c @ update_command u\<rparr>)\<rparr>)"
  using assms
  by (cases u) (auto simp: node_at_poll poll_node_def push_node_def conn_write_def
      dest!: node_at_push split: prod.splits)

lemma updates_held:
  assumes "bs_updates us bs = Ok bs'" "node_at bs a = Some r" "r_state r = 2"
  shows "node_at bs' a = Some (r\<lparr>holdBack := holdBack r @ map update_command us\<rparr>)"
  using assms
proof (induction us arbitrary: bs r)
  case (Cons u us)
  from Cons.prems(1) obtain bs1 where u: "bs_update u bs = Ok bs1" and us: "bs_updates us bs1 = Ok bs'"
    by auto
  from Cons.IH [OF us node_at_held [OF u Cons.prems(2,3)]] Cons.prems(3) show ?case by simp
qed simp

lemma updates_running:
  assumes "bs_updates us bs = Ok bs'" "node_at bs a = Some r" "r_state r = 1"
    and "connection r = Some c" "alive c"
  shows "node_at bs' a =
    Some (r\<lparr>connection := Some (c\<lparr>sent := sent c @ concat (map update_command us)\<rparr>)\<rparr>)"
  using assms
proof (induction us arbitrary: bs r c)
  case (Cons u us)
  from Cons.prems(1) obtain bs1 where u: "bs_update u bs = Ok bs1" and us: "bs_updates us bs1 = Ok bs'"
    by auto
  from Cons.IH [OF us node_at_running [OF u Cons.prems(2-)]] Cons.prems(3-) show ?case by simp
qed simp

lemma node_at_recover:
  assumes "node_at bs a = Some r"
  shows "fst (bs_recover a bs)" "node_at (snd (bs_recover a bs)) a = Some (r\<lparr>r_state := 2\<rparr>)"
proof -
  have "List.find (\<lambda>r. ip_to_string (r_addr r) = a) ns = Some r \<Longrightarrow>
      fst (recover_loop a ns) \<and>
      List.find (\<lambda>r. ip_to_string (r_addr r) = a) (snd (recover_loop a ns)) = Some (r\<lparr>r_state := 2\<rparr>)"
    for ns
    by (induction a ns rule: recover_loop.induct) (auto split: if_splits prod.splits)
  from this [of "nodes bs"] assms
  show "fst (bs_recover a bs)" "node_at (snd (bs_recover a bs)) a = Some (r\<lparr>r_state := 2\<rparr>)"
    by (auto simp: node_at_def bs_recover_def split: prod.splits)
qed

lemma recover_unknown:
  "node_at bs a = None \<Longrightarrow> bs_recover a bs = (False, bs)"
proof -
  have "List.find (\<lambda>r. ip_to_string (r_addr r) = a) ns = None \<Longrightarrow> recover_loop a ns = (False, ns)" for ns
    by (induction a ns rule: recover_loop.induct) (auto split: if_splits)
  from this [of "nodes bs"] show "node_at bs a = None \<Longrightarrow> bs_recover a bs = (False, bs)"
    by (simp add: node_at_def bs_recover_def)
qed

lemma node_at_reconnect:
  assumes "node_at bs a = Some r" "can_socket net" "can_connect net (r_addr r)"
  shows "\<exists>bs'. bs_reconnect net a bs = Ok (True, bs') \<and> node_at bs' a = Some (reconnect_node r)"
proof -
  have "List.find (\<lambda>r. ip_to_string (r_addr r) = a) ns = Some r \<Longrightarrow>
      \<exists>ns'. reconnect_loop net a ns = Ok (True, ns') \<and>
        List.find (\<lambda>r. ip_to_string (r_addr r) = a) ns' = Some (reconnect_node r)" for ns
    using assms(2,3)
    by (induction net a ns rule: reconnect_loop.induct)
       (auto simp: reconnect_node_def split: if_splits)
  from this [of "nodes bs"] assms(1) show ?thesis
    by (auto simp: node_at_def bs_reconnect_def)
qed

lemma reconnect_sends:
  "connection (reconnect_node r) = Some \<lparr>alive = True, sent = concat (holdBack r)\<rparr>"
proof -
  have "foldl (\<lambda>c s. snd (conn_write c s)) c xs = c\<lparr>sent := sent c @ concat xs\<rparr>"
    if "alive c" for c :: wconn and xs
    using that by (induction xs arbitrary: c) (simp_all add: conn_write_def)
  from this [of new_conn "holdBack r"] show ?thesis
    by (simp add: reconnect_node_def new_conn_def)
qed

section \<open>Properties\<close>

lemma new_BackStore_ok [wf_intros]: "bs_ok (new_BackStore net list my)"
  using establish_ok [of "[]" net my 0 list]
  by (auto simp: bs_ok_def new_BackStore_def establishConn_def split: prod.splits)

text \<open>
  C17. Whatever the primary does with its replica list (build it, push, delete, mark a node as
  recovering, reconnect it), a node marked running has a connection, so \<open>BackStore::push\<close> never
  dereferences a null pointer: it returns.
\<close>

theorem push_never_null:
  "bs_ok (new_BackStore net list my) \<and>
   (bs_ok bs \<longrightarrow> (\<exists>bs'. bs_updates us bs = Ok bs' \<and> bs_ok bs') \<and> bs_ok (snd (bs_recover a bs)) \<and>
     (\<forall>b bs'. bs_reconnect net a bs = Ok (b, bs') \<longrightarrow> bs_ok bs'))"
  using new_BackStore_ok bs_updates_ok bs_recover_ok bs_reconnect_ok by blast

theorem push_never_null_witness:
  "\<exists>bs'. bs_updates [Put ''r'' ''c'' ''v'' 1]
     (new_BackStore \<lparr>can_socket = True, can_connect = \<lambda>_. True\<rparr> [localhost 1, localhost 2] 0) = Ok bs' \<and>
     bs_ok bs'"
  using push_never_null [of "\<lparr>can_socket = True, can_connect = \<lambda>_. True\<rparr>" "[localhost 1, localhost 2]" 0
      "new_BackStore \<lparr>can_socket = True, can_connect = \<lambda>_. True\<rparr> [localhost 1, localhost 2] 0"
      "[Put ''r'' ''c'' ''v'' 1]" "[]"]
  by blast

text \<open>
  C21. No update is lost or reordered while a replica recovers: after \<open>recover\<close>, any sequence of
  pushes and deletes, and \<open>reconnect\<close>, the replica is marked running and its new connection has
  carried exactly the commands held before, then those of the sequence, in order.
\<close>

theorem holdback_delivers:
  assumes "node_at bs a = Some r" "bs_updates us (snd (bs_recover a bs)) = Ok bs1"
    and "can_socket net" "can_connect net (r_addr r)"
  shows "\<exists>bs2 r2. bs_reconnect net a bs1 = Ok (True, bs2) \<and> node_at bs2 a = Some r2 \<and>
    r_state r2 = 1 \<and> holdBack r2 = [] \<and>
    connection r2 = Some \<lparr>alive = True, sent = concat (holdBack r @ map update_command us)\<rparr>"
proof -
  let ?r1 = "r\<lparr>r_state := 2, holdBack := holdBack r @ map update_command us\<rparr>"
  have "node_at bs1 a = Some ?r1"
    using updates_held [OF assms(2) node_at_recover(2) [OF assms(1)]] by simp
  then obtain bs2 where "bs_reconnect net a bs1 = Ok (True, bs2)" "node_at bs2 a = Some (reconnect_node ?r1)"
    using node_at_reconnect [of bs1 a ?r1 net] assms(3,4) by auto
  moreover have "r_state (reconnect_node ?r1) = 1" "holdBack (reconnect_node ?r1) = []"
    by (simp_all add: reconnect_node_def)
  ultimately show ?thesis using reconnect_sends [of ?r1] by auto
qed

theorem holdback_delivers_witness:
  "\<exists>bs1 bs2 r2.
     bs_updates [Put ''r'' ''c'' ''v'' 7, Del ''r'' ''c'' 8]
       (snd (bs_recover (ip_to_string (localhost 5000))
          \<lparr>nodes = [\<lparr>r_addr = localhost 5000, r_state = 3, holdBack = [], connection = None\<rparr>],
           myID = 0\<rparr>)) = Ok bs1 \<and>
     bs_reconnect \<lparr>can_socket = True, can_connect = \<lambda>_. True\<rparr> (ip_to_string (localhost 5000)) bs1 = Ok (True, bs2) \<and>
     node_at bs2 (ip_to_string (localhost 5000)) = Some r2 \<and>
     connection r2 = Some \<lparr>alive = True,
       sent = push_command ''r'' ''c'' ''v'' 7 @ poll_command ''r'' ''c'' 8\<rparr>"
proof -
  let ?r = "\<lparr>r_addr = localhost 5000, r_state = 3, holdBack = [], connection = None\<rparr>"
  let ?bs = "\<lparr>nodes = [?r], myID = 0\<rparr>"
  have at: "node_at ?bs (ip_to_string (localhost 5000)) = Some ?r"
    by (simp add: node_at_def)
  have "bs_ok ?bs" by (simp add: bs_ok_def node_ok_def)
  then have "bs_ok (snd (bs_recover (ip_to_string (localhost 5000)) ?bs))" by (rule bs_recover_ok)
  then obtain bs1 where run: "bs_updates [Put ''r'' ''c'' ''v'' 7, Del ''r'' ''c'' 8]
      (snd (bs_recover (ip_to_string (localhost 5000)) ?bs)) = Ok bs1"
    using bs_updates_ok by blast
  from holdback_delivers [OF at run, of "\<lparr>can_socket = True, can_connect = \<lambda>_. True\<rparr>"] run
  show ?thesis by auto
qed

text \<open>
  A running replica whose connection stays up receives every update exactly once and in the
  order in which the primary made them.
\<close>

theorem running_receives:
  assumes "bs_updates us bs = Ok bs'" "node_at bs a = Some r" "r_state r = 1"
    and "connection r = Some c" "alive c"
  shows "node_at bs' a =
    Some (r\<lparr>connection := Some (c\<lparr>sent := sent c @ concat (map update_command us)\<rparr>)\<rparr>)"
  using assms by (rule updates_running)

theorem running_receives_witness:
  "\<exists>bs'. bs_updates [Put ''r'' ''c'' ''v'' 1]
      \<lparr>nodes = [\<lparr>r_addr = localhost 5000, r_state = 1, holdBack = [], connection = Some new_conn\<rparr>],
       myID = 0\<rparr> = Ok bs' \<and>
    node_at bs' (ip_to_string (localhost 5000)) =
      Some \<lparr>r_addr = localhost 5000, r_state = 1, holdBack = [],
        connection = Some \<lparr>alive = True, sent = push_command ''r'' ''c'' ''v'' 1\<rparr>\<rparr>"
proof -
  let ?r = "\<lparr>r_addr = localhost 5000, r_state = 1, holdBack = [], connection = Some new_conn\<rparr>"
  let ?bs = "\<lparr>nodes = [?r], myID = 0\<rparr>"
  have "bs_ok ?bs" by (simp add: bs_ok_def node_ok_def)
  then obtain bs' where run: "bs_updates [Put ''r'' ''c'' ''v'' 1] ?bs = Ok bs'"
    using bs_updates_ok by blast
  have at: "node_at ?bs (ip_to_string (localhost 5000)) = Some ?r" by (simp add: node_at_def)
  from running_receives [OF run at, of new_conn] run show ?thesis
    by (auto simp: new_conn_def)
qed

end
