(* ===== verification/Net_Connection.thy ===== *)
theory Net_Connection
  imports Cpp_String
begin

text \<open>
  \<open>kvstore/Connection.cc\<close> and its copy \<open>kvstore/master/masterConnection.cc\<close>: reading from a
  socket until a marker arrives and writing a whole buffer. What the peer sends is the list of
  results of the successive \<open>read\<close> calls, what the kernel accepts the list of results of the
  successive \<open>write\<close> calls. A loop that would call \<open>read\<close> or \<open>write\<close> again after the
  last result does not return (\<open>Block\<close>): the peer is silent, or it has closed and
  \<open>read\<close> returns 0 for ever, which the loops do not test.
\<close>

section \<open>Reading\<close>

datatype rd = Bytes string | Fail

fun rd_size :: "rd \<Rightarrow> nat" where
  "rd_size (Bytes b) = Suc (length b)"
| "rd_size Fail = 1"

fun rd_bytes :: "rd list \<Rightarrow> string" where
  "rd_bytes [] = []"
| "rd_bytes (Bytes b # es) = b @ rd_bytes es"
| "rd_bytes (Fail # es) = rd_bytes es"

text \<open>
  The loop of \<open>do_read\<close> and \<open>do_read_data\<close>: \<open>acc\<close> is what the zeroed buffer of \<open>len\<close>
  bytes holds, \<open>pat\<close> the marker \<open>strstr\<close> looks for. The result is the return value, the
  buffer and the results of \<open>read\<close> left over.
\<close>

function read_until :: "string \<Rightarrow> nat \<Rightarrow> string \<Rightarrow> rd list \<Rightarrow> (bool \<times> string \<times> rd list) res" where
  "read_until pat len acc inp =
     (if length acc < len then
        (case inp of
           [] \<Rightarrow> Block
         | Fail # es \<Rightarrow> Ok (False, acc, es)
         | Bytes b # es \<Rightarrow>
             (let n = len - length acc;
                  acc' = acc @ take n b;
                  es' = (if length b \<le> n then es else Bytes (drop n b) # es)
              in if contains (cstr acc') pat then Ok (True, acc', es')
                 else read_until pat len acc' es'))
      else Ok (True, acc, inp))"
  by pat_completeness auto
termination
  by (relation "measure (\<lambda>(pat, len, acc, inp). sum_list (map rd_size inp))") auto

declare read_until.simps [simp del]

definition do_read :: "nat \<Rightarrow> rd list \<Rightarrow> (bool \<times> string \<times> rd list) res" where
  "do_read len inp = read_until crlf len [] inp"

definition do_read_data :: "nat \<Rightarrow> rd list \<Rightarrow> (bool \<times> string \<times> rd list) res" where
  "do_read_data len inp = read_until terminator len [] inp"

definition master_do_read :: "nat \<Rightarrow> rd list \<Rightarrow> (bool \<times> string \<times> rd list) res" where
  "master_do_read len inp = read_until crlf len [] inp"

definition master_do_read_data :: "nat \<Rightarrow> rd list \<Rightarrow> (bool \<times> string \<times> rd list) res" where
  "master_do_read_data len inp = read_until terminator len [] inp"

lemma read_until_full [simp]: "len \<le> length acc \<Longrightarrow> read_until pat len acc inp = Ok (True, acc, inp)"
  by (simp add: read_until.simps [of pat len acc inp])

lemma read_until_Nil [simp]: "length acc < len \<Longrightarrow> read_until pat len acc [] = Block"
  by (simp add: read_until.simps [of pat len acc "[]"])

lemma read_until_Fail [simp]:
  "length acc < len \<Longrightarrow> read_until pat len acc (Fail # es) = Ok (False, acc, es)"
  by (simp add: read_until.simps [of pat len acc "Fail # es"])

definition rd_rest :: "nat \<Rightarrow> string \<Rightarrow> rd list \<Rightarrow> rd list" where
  "rd_rest n b es = (if length b \<le> n then es else Bytes (drop n b) # es)"

lemma rd_bytes_rest: "take n b @ rd_bytes (rd_rest n b es) = b @ rd_bytes es"
  by (simp add: rd_rest_def)

lemma read_until_Bytes:
  "length acc < len \<Longrightarrow>
   read_until pat len acc (Bytes b # es) =
     (let n = len - length acc; acc' = acc @ take n b
      in if contains (cstr acc') pat then Ok (True, acc', rd_rest n b es)
         else read_until pat len acc' (rd_rest n b es))"
  by (simp add: read_until.simps [of pat len acc "Bytes b # es"] rd_rest_def Let_def)

text \<open>No byte is lost, duplicated or reordered between the socket and the buffer.\<close>

lemma read_until_bytes:
  "read_until pat len acc inp = Ok (r, b, inp') \<Longrightarrow>
     b @ rd_bytes inp' = acc @ rd_bytes inp \<and>
     (r \<longrightarrow> contains (cstr b) pat \<or> len \<le> length b) \<and>
     (length acc \<le> len \<longrightarrow> length b \<le> len)"
proof (induction pat len acc inp arbitrary: r b inp' rule: read_until.induct)
  case (1 pat len acc inp)
  show ?case
  proof (cases "length acc < len")
    case False
    with "1.prems" show ?thesis by auto
  next
    case full: True
    consider "inp = []" | es where "inp = Fail # es" | c es where "inp = Bytes c # es"
      by (cases inp) (auto elim: rd.exhaust)
    then show ?thesis
    proof cases
      case 3
      define n where "n = len - length acc"
      define acc' where "acc' = acc @ take n c"
      define es' where "es' = rd_rest n c es"
      have keep: "acc' @ rd_bytes es' = acc @ rd_bytes inp"
        by (simp add: acc'_def es'_def 3 rd_bytes_rest)
      have len': "length acc' \<le> len" using full by (simp add: acc'_def n_def)
      have step: "read_until pat len acc inp =
          (if contains (cstr acc') pat then Ok (True, acc', es') else read_until pat len acc' es')"
        using full by (simp add: 3 read_until_Bytes Let_def acc'_def es'_def n_def)
      show ?thesis
      proof (cases "contains (cstr acc') pat")
        case True
        with "1.prems" step keep len' show ?thesis by auto
      next
        case False
        with "1.prems" step have "read_until pat len acc' es' = Ok (r, b, inp')" by simp
        with "1.IH" [OF full 3 refl n_def acc'_def es'_def [unfolded rd_rest_def]] False
        have "b @ rd_bytes inp' = acc' @ rd_bytes es' \<and>
            (r \<longrightarrow> contains (cstr b) pat \<or> len \<le> length b) \<and> (length acc' \<le> len \<longrightarrow> length b \<le> len)"
          by blast
        with keep len' show ?thesis by auto
      qed
    qed (use full "1.prems" in auto)
  qed
qed

text \<open>However the stream is cut into pieces, the loop returns once the marker has arrived.\<close>

lemma read_until_returns:
  "\<not> contains (cstr acc) pat \<Longrightarrow> contains (cstr (acc @ concat cs)) pat \<Longrightarrow>
   length (acc @ concat cs) \<le> len \<Longrightarrow>
     \<exists>b inp'. read_until pat len acc (map Bytes cs @ es) = Ok (True, b, inp')"
proof (induction cs arbitrary: acc)
  case Nil
  then show ?case by simp
next
  case (Cons c cs)
  show ?case
  proof (cases "length acc < len")
    case False
    then show ?thesis by simp
  next
    case True
    have all: "take (len - length acc) c = c" "rd_rest (len - length acc) c (map Bytes cs @ es) = map Bytes cs @ es"
      using Cons.prems(3) by (simp_all add: rd_rest_def)
    show ?thesis
    proof (cases "contains (cstr (acc @ c)) pat")
      case found: True
      with True show ?thesis by (simp add: read_until_Bytes Let_def all)
    next
      case False
      moreover have "contains (cstr ((acc @ c) @ concat cs)) pat" "length ((acc @ c) @ concat cs) \<le> len"
        using Cons.prems(2,3) by simp_all
      ultimately have "\<exists>b inp'. read_until pat len (acc @ c) (map Bytes cs @ es) = Ok (True, b, inp')"
        by (rule Cons.IH)
      with True False show ?thesis by (simp add: read_until_Bytes Let_def all)
    qed
  qed
qed

section \<open>Writing\<close>

text \<open>
  The loop of \<open>do_write\<close>: \<open>sent\<close> bytes are out. The result is the return value and the bytes
  that left. A result \<open>n\<close> of \<open>write\<close> is negative or at most the number of bytes offered.
\<close>

fun write_loop :: "string \<Rightarrow> nat \<Rightarrow> int list \<Rightarrow> (bool \<times> string) res" where
  "write_loop buf sent ws =
     (if sent < length buf then
        (case ws of
           [] \<Rightarrow> Block
         | n # ws' \<Rightarrow>
             if n < 0 then Ok (False, take sent buf) else write_loop buf (sent + nat n) ws')
      else Ok (True, take sent buf))"

declare write_loop.simps [simp del]

definition do_write :: "string \<Rightarrow> int list \<Rightarrow> (bool \<times> string) res" where
  "do_write buf ws = write_loop buf 0 ws"

definition master_do_write :: "string \<Rightarrow> int list \<Rightarrow> (bool \<times> string) res" where
  "master_do_write buf ws = write_loop buf 0 ws"

lemma write_loop_result:
  "write_loop buf sent ws = Ok (r, out) \<Longrightarrow> prefix out buf \<and> (r \<longrightarrow> out = buf)"
proof (induction buf sent ws rule: write_loop.induct)
  case (1 buf sent ws)
  then show ?case
    by (auto simp: write_loop.simps [of buf sent ws] take_is_prefix split: if_splits list.splits)
qed

lemma write_loop_returns:
  "\<forall>n \<in> set ws. 0 \<le> n \<Longrightarrow> int (length buf) \<le> int sent + sum_list ws \<Longrightarrow>
     write_loop buf sent ws = Ok (True, buf)"
proof (induction ws arbitrary: sent)
  case Nil
  then show ?case by (simp add: write_loop.simps)
next
  case (Cons n ws)
  then have "write_loop buf (sent + nat n) ws = Ok (True, buf)" by simp
  with Cons.prems(1) show ?case by (simp add: write_loop.simps [of buf sent])
qed

section \<open>Properties\<close>

text \<open>
  C37. \<open>Connection::do_read\<close> neither loses nor reorders what the peer sends: when it returns,
  the buffer followed by what is still to be read is the incoming stream, the buffer is within its
  size, and a result of true means the buffer holds a complete command line or is full.
\<close>

theorem do_read_stream:
  "do_read len inp = Ok (r, b, inp') \<Longrightarrow>
     b @ rd_bytes inp' = rd_bytes inp \<and> length b \<le> len \<and>
     (r \<longrightarrow> contains (cstr b) crlf \<or> length b = len)"
  unfolding do_read_def by (drule read_until_bytes) auto

theorem do_read_stream_witness:
  "do_read 100 [Bytes ''GE'', Bytes (''T <a> <b>'' @ crlf)] = Ok (True, ''GET <a> <b>'' @ crlf, []) \<and>
   (''GET <a> <b>'' @ crlf) @ rd_bytes [] = rd_bytes [Bytes ''GE'', Bytes (''T <a> <b>'' @ crlf)]"
proof -
  have run: "do_read 100 [Bytes ''GE'', Bytes (''T <a> <b>'' @ crlf)] =
      Ok (True, ''GET <a> <b>'' @ crlf, [])"
    by (simp add: do_read_def read_until_Bytes rd_rest_def contains_def crlf_def cstr_def)
  with do_read_stream [OF run] show ?thesis by blast
qed

text \<open>
  C38. \<open>Connection::do_read\<close> returns however TCP cuts the stream: if the bytes sent so far fit the
  buffer and contain a line end, it returns true.
\<close>

theorem do_read_returns:
  "contains (cstr (concat cs)) crlf \<Longrightarrow> length (concat cs) \<le> len \<Longrightarrow>
     \<exists>b inp'. do_read len (map Bytes cs @ es) = Ok (True, b, inp')"
  unfolding do_read_def
  by (rule read_until_returns) (simp_all add: contains_def crlf_def cstr_def)

theorem do_read_returns_witness:
  "\<exists>b inp'. do_read 10 (map Bytes [''QUI'', ''T'', crlf] @ [Fail]) = Ok (True, b, inp')"
  by (rule do_read_returns) (simp_all add: contains_def crlf_def cstr_def)

text \<open>
  C3. \<open>Connection::do_write\<close> sends the whole buffer, in order and once, when no \<open>write\<close> fails,
  whatever the sizes of the partial writes.
\<close>

theorem do_write_all:
  "\<forall>n \<in> set ws. 0 \<le> n \<Longrightarrow> int (length buf) \<le> sum_list ws \<Longrightarrow> do_write buf ws = Ok (True, buf)"
  unfolding do_write_def by (rule write_loop_returns) simp_all

theorem do_write_all_witness:
  "do_write ''+OK'' [1, 0, 2] = Ok (True, ''+OK'')"
  by (rule do_write_all) simp_all

end
