(* ===== verification/Worker.thy ===== *)
theory Worker
  imports Checkpoint Back_Store Net_Connection
begin

text \<open>
  \<open>kvstore/Worker.cc\<close>: the thread that serves one connection of a data server. The record
  \<open>worker\<close> holds the globals of the process (table, server state, files, replica list) and the
  worker's own connection and command buffer; every handler runs from one state to the next.
  The debug output (\<open>printc\<close>, \<open>prints\<close>) is left out. The static flag \<open>closed\<close> is false
  initially, and \<open>closeWorker\<close> sets it to false again, so it is left out too.
\<close>

section \<open>State\<close>

record worker =
  tbl :: bmap
  sstate :: serverState
  disk :: filesys
  bstore :: "backStore option"
  net :: netenv
  inp :: "rd list"
  task :: wconn
  ws :: sstream
  run_flag :: bool

definition rlen :: nat where
  "rlen = 4000000"

definition reply :: "string \<Rightarrow> worker \<Rightarrow> worker" where
  "reply s c = c\<lparr>task := snd (conn_write (task c) s)\<rparr>"

section \<open>Commands\<close>

definition toupper :: "char \<Rightarrow> char" where
  "toupper c = (if CHR ''a'' \<le> c \<and> c \<le> CHR ''z'' then char_of (of_char c - 32 :: nat) else c)"

text \<open>The character at a position of a zero-terminated string.\<close>

definition char_at :: "string \<Rightarrow> nat \<Rightarrow> char" where
  "char_at s i = (if i < length s then s ! i else CHR 0x00)"

definition strnicmp :: "string \<Rightarrow> string \<Rightarrow> nat \<Rightarrow> int" where
  "strnicmp s1 s2 n =
     (let len1 = length s1; len2 = length s2
      in if len1 = 0 then 1
         else if len2 = 0 then 1
         else let min_len = (if len2 < n then len2 else if len1 < n then len1 else n)
              in if list_all (\<lambda>i. toupper (char_at s1 i) = toupper (char_at s2 i)) [0..<min_len]
                 then 0 else 1)"

definition extract_command :: "worker \<Rightarrow> (string \<times> worker) option" where
  "extract_command c =
     (let buffer = ss_buf (ws c); pos = find buffer crlf 0
      in if pos \<noteq> npos then Some (take (pos + 2) buffer, c\<lparr>ws := ss_set (drop (pos + 2) buffer)\<rparr>)
         else None)"

definition parse_command :: "string \<Rightarrow> (string \<times> string) res" where
  "parse_command command =
     and_then (substr command (szadd (find command '' '' 0) 1) npos) (\<lambda>s.
     and_then (bracketed s) (\<lambda>row.
     and_then (after_bracket s) (\<lambda>s'.
     and_then (bracketed s') (\<lambda>col.
     Ok (row, col)))))"

section \<open>The log\<close>

text \<open>Three appends on the primary and two on a replica, each reopening the file.\<close>

definition putToLog :: "string \<Rightarrow> string \<Rightarrow> string \<Rightarrow> worker \<Rightarrow> int \<times> worker" where
  "putToLog data row col c =
     (case increseSeq (sstate c) of (seq, s') \<Rightarrow>
        let logPath = LOG_PATH (sstate c);
            d1 = snd (append_to_file (disk c) logPath (put_header row col seq));
            d2 = snd (append_to_file d1 logPath data);
            d3 = snd (append_to_file d2 logPath ([LF] @ ''.'' @ [LF]))
        in (seq, c\<lparr>sstate := s', disk := d3\<rparr>))"

definition putToLog_seq :: "int \<Rightarrow> string \<Rightarrow> string \<Rightarrow> string \<Rightarrow> worker \<Rightarrow> worker" where
  "putToLog_seq seq data row col c =
     (let logPath = LOG_PATH (sstate c);
          d1 = snd (append_to_file (disk c) logPath (put_header row col seq));
          d2 = snd (append_to_file d1 logPath data);
          d3 = snd (append_to_file d2 logPath (''.'' @ [LF]))
      in c\<lparr>disk := d3\<rparr>)"

definition delete_header :: "string \<Rightarrow> string \<Rightarrow> int \<Rightarrow> string" where
  "delete_header row col seq =
     ''DELETE <'' @ row @ ''> <'' @ col @ ''>'' @ [LF] @ show_int seq @ [LF]"

definition deleteToLog :: "string \<Rightarrow> string \<Rightarrow> worker \<Rightarrow> int \<times> worker" where
  "deleteToLog row col c =
     (case increseSeq (sstate c) of (seq, s') \<Rightarrow>
        let logPath = LOG_PATH (sstate c);
            d1 = snd (append_to_file (disk c) logPath (delete_header row col seq));
            d2 = snd (append_to_file d1 logPath (''.'' @ [LF]))
        in (seq, c\<lparr>sstate := s', disk := d2\<rparr>))"

definition deleteToLog_seq :: "int \<Rightarrow> string \<Rightarrow> string \<Rightarrow> worker \<Rightarrow> worker" where
  "deleteToLog_seq seq row col c =
     (let logPath = LOG_PATH (sstate c);
          d1 = snd (append_to_file (disk c) logPath (delete_header row col seq));
          d2 = snd (append_to_file d1 logPath (''.'' @ [LF]))
      in c\<lparr>disk := d2\<rparr>)"

section \<open>Handlers\<close>

definition list_line :: "(string \<times> string) \<times> string \<Rightarrow> string" where
  "list_line kv = (case kv of ((row, col), v) \<Rightarrow> ''<'' @ row @ ''> <'' @ col @ ''> '' @ v @ [LF])"

definition parse_LIST :: "worker \<Rightarrow> worker res" where
  "parse_LIST c =
     Ok (reply (''.'' @ crlf) (foldl (\<lambda>c kv. reply (list_line kv) c) c (cells (tbl c))))"

definition parse_CLOSEALL :: "worker \<Rightarrow> worker res" where
  "parse_CLOSEALL c = Throw Killed"

definition parse_LOG :: "worker \<Rightarrow> worker res" where
  "parse_LOG c =
     (let contents = snd (read_file (disk c) (LOG_PATH (sstate c)) [])
      in Ok (reply (''LOG END'' @ crlf) (reply contents c)))"

definition parse_CHECKPOINT :: "worker \<Rightarrow> worker res" where
  "parse_CHECKPOINT c =
     (let contents = snd (read_file (disk c) (CHECKPOINTING_PATH (sstate c)) [])
      in Ok (reply (''CHECKPOINT END'' @ crlf) (reply contents c)))"

definition parse_READY :: "string \<Rightarrow> worker \<Rightarrow> worker res" where
  "parse_READY command c =
     (let pos = szadd (find command '' '' 0) 1
      in and_then (substr command pos (szsub (find command crlf 0) pos)) (\<lambda>addrStr.
         case bstore c of
           None \<Rightarrow> Throw Null_deref
         | Some bs \<Rightarrow> and_then (bs_reconnect (net c) addrStr bs) (\<lambda>(_, bs').
             Ok (c\<lparr>bstore := Some bs', sstate := resumeCheckpoint (sstate c)\<rparr>))))"

text \<open>
  The debug line \<open>"node wants to recovery from seq" + startSeq\<close> advances a pointer into a literal of
  31 characters, which is undefined for larger numbers; like all debug output it is left out, and
  the model goes on as after a harmless read.
\<close>

definition parse_RECOVERY :: "string \<Rightarrow> worker \<Rightarrow> worker res" where
  "parse_RECOVERY command0 c0 =
     (let c = c0\<lparr>sstate := pauseCheckpoint (sstate c0)\<rparr>
      in and_then (substr command0 (szadd (find command0 '' '' 0) 1) npos) (\<lambda>command.
         and_then (substr command 0 (find command '' '' 0)) (\<lambda>addrStr.
         case bstore c of
           None \<Rightarrow> Throw Null_deref
         | Some bs \<Rightarrow>
             let c = c\<lparr>bstore := Some (snd (bs_recover addrStr bs))\<rparr>
             in and_then (substr command (szadd (find command '' '' 0) 1) npos) (\<lambda>command.
                and_then (substr command 0 (find command '' '' 0)) (\<lambda>seqStr.
                and_then (stol seqStr) (\<lambda>startSeq.
                and_then (findVersionNum (sstate c) (disk c)) (\<lambda>versionNum.
                if versionNum \<le> startSeq then Ok (reply (''+OK tansfering log'' @ crlf) c)
                else Ok (reply (''-ERR tansfering checkpoint file'' @ crlf) c))))))))"

definition parse_PROMOTE :: "string \<Rightarrow> worker \<Rightarrow> worker res" where
  "parse_PROMOTE command c =
     (let pos = szadd (find command '' '' 0) 1
      in and_then (substr command pos (szsub (find command crlf 0) pos)) (\<lambda>newPrimaryStr.
         if newPrimaryStr = ip_to_string (my_addr (sstate c)) then
           let s' = setPrimary (sstate c)
           in Ok (reply (''+OK'' @ crlf)
                (c\<lparr>sstate := s', bstore := Some (new_BackStore (net c) (server_list s') (repID s'))\<rparr>))
         else and_then (setPrimaryAddr newPrimaryStr (sstate c)) (\<lambda>s'.
                Ok (reply (''+OK'' @ crlf) (c\<lparr>sstate := s'\<rparr>)))))"

definition parse_ALIVE :: "worker \<Rightarrow> worker res" where
  "parse_ALIVE c = Ok c"

text \<open>
  The loop that reads until \<open>pat\<close> is in the buffer. It always waits in \<open>do_read_data\<close>, which
  returns when its own piece contains the end of a value.
\<close>

lemma read_until_smaller:
  "read_until pat len acc es = Ok (r, b, es') \<Longrightarrow>
     sum_list (map rd_size es') \<le> sum_list (map rd_size es) \<and>
     (length acc < len \<longrightarrow> sum_list (map rd_size es') < sum_list (map rd_size es))"
proof (induction pat len acc es arbitrary: r b es' rule: read_until.induct)
  case (1 pat len acc es)
  show ?case
  proof (cases "length acc < len")
    case True
    consider "es = []" | es1 where "es = Fail # es1" | c es1 where "es = Bytes c # es1"
      by (cases es) (auto elim: rd.exhaust)
    then show ?thesis
    proof cases
      case 3
      define n where "n = len - length acc"
      have sm: "sum_list (map rd_size (rd_rest n c es1)) < sum_list (map rd_size es)"
        using True by (auto simp: 3 rd_rest_def n_def)
      have step: "read_until pat len acc es =
          (if contains (cstr (acc @ take n c)) pat then Ok (True, acc @ take n c, rd_rest n c es1)
           else read_until pat len (acc @ take n c) (rd_rest n c es1))"
        using True by (simp add: 3 read_until_Bytes Let_def n_def)
      show ?thesis
      proof (cases "contains (cstr (acc @ take n c)) pat")
        case found: True
        with "1.prems" sm True show ?thesis unfolding step by auto
      next
        case False
        with "1.prems" have "read_until pat len (acc @ take n c) (rd_rest n c es1) = Ok (r, b, es')"
          unfolding step by simp
        with "1.IH" [OF True 3 refl n_def refl rd_rest_def] False
        have "sum_list (map rd_size es') \<le> sum_list (map rd_size (rd_rest n c es1))" by blast
        with sm True show ?thesis by simp
      qed
    qed (use True "1.prems" in auto)
  qed (use "1.prems" in auto)
qed

function fetch :: "string \<Rightarrow> string \<Rightarrow> rd list \<Rightarrow> (string \<times> rd list) res" where
  "fetch pat buffer es =
     (if find buffer pat 0 = npos
      then (case do_read_data rlen es of
              Ok (_, buf, es') \<Rightarrow> fetch pat (buffer @ cstr buf) es'
            | Throw e \<Rightarrow> Throw e
            | Block \<Rightarrow> Block)
      else Ok (buffer, es))"
  by pat_completeness auto
termination
proof (relation "measure (\<lambda>(pat, buffer, es). sum_list (map rd_size es))")
  fix pat buffer :: string and es q :: "rd list" and r p x y
  assume "do_read_data rlen es = Ok r" "(x, p) = r" "(y, q) = p"
  then show "((pat, buffer @ cstr y, q), pat, buffer, es) \<in> measure (\<lambda>(pat, buffer, es). sum_list (map rd_size es))"
    using read_until_smaller [of terminator rlen "[]" es x y q] by (auto simp: do_read_data_def rlen_def)
qed simp

declare fetch.simps [simp del]

text \<open>What is left in \<open>w\<close> after a value: the code skips six bytes for a terminator of five.\<close>

definition after_value :: "string \<Rightarrow> nat \<Rightarrow> worker \<Rightarrow> worker res" where
  "after_value buffer data_end c =
     (if szadd data_end 5 = length buffer then Ok (c\<lparr>ws := ss_set []\<rparr>)
      else and_then (substr buffer (szadd data_end 6) npos) (\<lambda>rest. Ok (c\<lparr>ws := ss_set rest\<rparr>)))"

text \<open>
  The test before the store looks for the column among the rows
  (\<open>table.count(col)\<close>); when it finds one, \<open>table[row][col]\<close> may create a null cell, whose
  contents are then deleted.
\<close>

definition store_cell :: "string \<Rightarrow> string \<Rightarrow> string \<Rightarrow> worker \<Rightarrow> worker res" where
  "store_cell row col data c =
     (if \<not> map_has (tbl c) row \<or> \<not> map_has (tbl c) col
      then Ok (c\<lparr>tbl := cell_put (row, col) data (tbl c)\<rparr>)
      else (case cell_get (tbl c) (row, col) of
              None \<Rightarrow> Throw Null_deref
            | Some _ \<Rightarrow> Ok (c\<lparr>tbl := cell_put (row, col) data (tbl c)\<rparr>)))"

definition push_update :: "string \<Rightarrow> string \<Rightarrow> string \<Rightarrow> int \<Rightarrow> worker \<Rightarrow> worker res" where
  "push_update row col data seq c =
     (if primary (sstate c)
      then (case bstore c of
              None \<Rightarrow> Throw Null_deref
            | Some bs \<Rightarrow> and_then (bs_push row col data seq bs) (\<lambda>bs'. Ok (c\<lparr>bstore := Some bs'\<rparr>)))
      else Ok c)"

text \<open>The value and its log record; a replica first reads the sequence number of the primary.\<close>

definition put_log_value ::
    "string \<Rightarrow> nat \<Rightarrow> string \<Rightarrow> string \<Rightarrow> worker \<Rightarrow> (string \<times> int \<times> worker) res" where
  "put_log_value buffer data_end row col c =
     (if primary (sstate c) then
        (let pos = szadd (find buffer (''DATA'' @ crlf) 0) 6
         in and_then (substr buffer pos (szadd (szsub data_end pos) 2)) (\<lambda>data.
            case putToLog data row col c of (primarySeq, c') \<Rightarrow> Ok (data, primarySeq, c')))
      else
        (let pos = szadd (find buffer crlf 0) 2
         in and_then (substr buffer pos (szadd (szsub data_end pos) 2)) (\<lambda>data.
            and_then (substr buffer 0 (szsub pos 2)) (\<lambda>seqStr.
            and_then (stol seqStr) (\<lambda>seq.
            Ok (data, seq, putToLog_seq seq data row col (c\<lparr>sstate := updateSeq seq (sstate c)\<rparr>)))))))"

definition parse_PUT :: "string \<Rightarrow> string \<Rightarrow> worker \<Rightarrow> worker res" where
  "parse_PUT row col c =
     and_then (fetch terminator (ss_buf (ws c)) (inp c)) (\<lambda>(buffer, rest).
     let data_end = find buffer terminator 0
     in and_then (put_log_value buffer data_end row col (c\<lparr>inp := rest\<rparr>)) (\<lambda>(data, seq, c).
        and_then (store_cell row col data c) (\<lambda>c.
        and_then (push_update row col data seq c) (\<lambda>c.
        after_value buffer data_end (reply (''+OK'' @ crlf) c)))))"

definition parse_GET :: "string \<Rightarrow> string \<Rightarrow> worker \<Rightarrow> worker res" where
  "parse_GET row col c =
     (if \<not> map_has (tbl c) row then Ok (reply (''-ERR NULL row'' @ crlf) c)
      else (case map_at (row_of (tbl c) row) col of
              None \<Rightarrow> Ok (reply (''-ERR NULL colmn'' @ crlf) c)
            | Some contents \<Rightarrow>
                Ok (reply (''.'' @ crlf) (reply contents (reply (''DATA'' @ crlf) c)))))"

text \<open>A replica first takes the sequence number, the line after the command.\<close>

definition dele_log :: "string \<Rightarrow> string \<Rightarrow> worker \<Rightarrow> (int \<times> worker) res" where
  "dele_log row col c =
     (if primary (sstate c) then Ok (deleteToLog row col c)
      else
        and_then (fetch crlf (ss_buf (ws c)) (inp c)) (\<lambda>(buffer, rest).
        let data_end = find buffer crlf 0
        in and_then (if szadd data_end 2 = length buffer then Ok []
                     else substr buffer (szadd data_end 2) npos) (\<lambda>left.
           let c = c\<lparr>inp := rest, ws := ss_set left\<rparr>
           in and_then (substr buffer 0 (find buffer crlf 0)) (\<lambda>seqStr.
              and_then (stol seqStr) (\<lambda>seq. Ok (seq, deleteToLog_seq seq row col c))))))"

definition dele_cell :: "string \<Rightarrow> string \<Rightarrow> int \<Rightarrow> worker \<Rightarrow> worker res" where
  "dele_cell row col seq c =
     (if \<not> map_has (tbl c) row then Ok (reply (''-ERR NULL row'' @ crlf) c)
      else if \<not> map_has (row_of (tbl c) row) col then Ok (reply (''-ERR NULL colmn'' @ crlf) c)
      else
        let c = c\<lparr>tbl := cell_erase (row, col) (tbl c)\<rparr>
        in and_then
             (if primary (sstate c)
              then (case bstore c of
                      None \<Rightarrow> Throw Null_deref
                    | Some bs \<Rightarrow> Ok (c\<lparr>bstore := Some (bs_poll row col seq bs)\<rparr>))
              else Ok c)
             (\<lambda>c. Ok (reply (''+OK deleted'' @ crlf) c)))"

definition parse_DELE :: "string \<Rightarrow> string \<Rightarrow> worker \<Rightarrow> worker res" where
  "parse_DELE row col c = and_then (dele_log row col c) (\<lambda>(seq, c). dele_cell row col seq c)"

definition cput_write :: "string \<Rightarrow> string \<Rightarrow> string \<Rightarrow> worker \<Rightarrow> worker res" where
  "cput_write row col newData c =
     (case putToLog newData row col c of (primarySeq, c) \<Rightarrow>
        and_then (push_update row col newData primarySeq
                    (c\<lparr>tbl := cell_put (row, col) newData (tbl c)\<rparr>))
          (\<lambda>c. Ok (reply (''+OK'' @ crlf) c)))"

text \<open>The two values of a CPUT, then the comparison.\<close>

definition cput_old :: "worker \<Rightarrow> (string \<times> string \<times> worker) res" where
  "cput_old c =
     and_then (fetch terminator (ss_buf (ws c)) (inp c)) (\<lambda>(buffer, rest).
     let data_end = find buffer terminator 0; pos = szadd (find buffer (''OLD'' @ crlf) 0) 5
     in and_then (substr buffer pos (szadd (szsub data_end pos) 2)) (\<lambda>oldData.
        and_then (substr buffer (szadd data_end 3) npos) (\<lambda>buffer.
        Ok (oldData, buffer, c\<lparr>inp := rest\<rparr>))))"

definition cput_new :: "string \<Rightarrow> worker \<Rightarrow> (string \<times> worker) res" where
  "cput_new buffer c =
     and_then (fetch terminator buffer (inp c)) (\<lambda>(buffer, rest).
     let c = c\<lparr>inp := rest\<rparr>; data_end = find buffer terminator 0;
         pos = szadd (find buffer (''NEW'' @ crlf) 0) 5
     in and_then (substr buffer pos (szadd (szsub data_end pos) 2)) (\<lambda>newData.
        and_then (after_value buffer data_end c) (\<lambda>c. Ok (newData, c))))"

definition cput_cell :: "string \<Rightarrow> string \<Rightarrow> string \<Rightarrow> string \<Rightarrow> worker \<Rightarrow> worker res" where
  "cput_cell row col oldData newData c =
     (case cell_get (tbl c) (row, col) of
        None \<Rightarrow>
          if oldData = ''NULL'' @ crlf then cput_write row col newData c
          else Ok (reply (''-ERR'' @ crlf) c)
      | Some contents \<Rightarrow>
          if contents = oldData then cput_write row col newData c
          else Ok (reply (''-ERR'' @ crlf) c))"

definition parse_CPUT :: "string \<Rightarrow> string \<Rightarrow> worker \<Rightarrow> worker res" where
  "parse_CPUT row col c =
     and_then (cput_old c) (\<lambda>(oldData, buffer, c).
     and_then (cput_new buffer c) (\<lambda>(newData, c).
     cput_cell row col oldData newData c))"

section \<open>The main loop\<close>

definition is_cmd :: "string \<Rightarrow> string \<Rightarrow> bool" where
  "is_cmd command name \<longleftrightarrow> strnicmp (cstr command) name (length name) = 0"

definition dispatch :: "string \<Rightarrow> worker \<Rightarrow> worker res" where
  "dispatch command c =
     (if is_cmd command ''QUIT'' then
        Ok ((reply (''+OK server signing off'' @ crlf) c)\<lparr>run_flag := False\<rparr>)
      else if is_cmd command ''PUT'' then
        and_then (parse_command command) (\<lambda>(row, col). parse_PUT row col c)
      else if is_cmd command ''CPUT'' then
        and_then (parse_command command) (\<lambda>(row, col). parse_CPUT row col c)
      else if is_cmd command ''GET'' then
        and_then (parse_command command) (\<lambda>(row, col). parse_GET row col c)
      else if is_cmd command ''DELETE'' then
        and_then (parse_command command) (\<lambda>(row, col). parse_DELE row col c)
      else if is_cmd command ''ALIVE'' then parse_ALIVE c
      else if is_cmd command ''PROMOTE'' then parse_PROMOTE command c
      else if is_cmd command ''RECOVERY'' then parse_RECOVERY command c
      else if is_cmd command ''READY'' then parse_READY command c
      else if is_cmd command ''LOG'' then parse_LOG c
      else if is_cmd command ''CHECKPOINT'' then parse_CHECKPOINT c
      else if is_cmd command ''CLOSEALL'' then parse_CLOSEALL c
      else if is_cmd command ''LIST'' then parse_LIST c
      else Ok (reply (''-ERR Not supported'' @ crlf) c))"

subsection \<open>The input only shrinks\<close>

definition rd_sum :: "rd list \<Rightarrow> nat" where
  "rd_sum es = sum_list (map rd_size es)"

definition bytes_left :: "worker \<Rightarrow> nat" where
  "bytes_left c = length (ss_buf (ws c)) + length (rd_bytes (inp c))"

definition shrinks :: "worker \<Rightarrow> worker \<Rightarrow> bool" where
  "shrinks c c' \<longleftrightarrow> bytes_left c' \<le> bytes_left c \<and> rd_sum (inp c') \<le> rd_sum (inp c)"

lemma shrinks_same [intro]: "ws c' = ws c \<Longrightarrow> inp c' = inp c \<Longrightarrow> shrinks c c'"
  by (simp add: shrinks_def bytes_left_def)

lemma length_cstr: "length (cstr s) \<le> length s"
  by (simp add: cstr_def length_takeWhile_le)

lemma fetch_shrinks:
  "fetch pat buffer es = Ok (b, es') \<Longrightarrow>
     length b + length (rd_bytes es') \<le> length buffer + length (rd_bytes es) \<and> rd_sum es' \<le> rd_sum es"
proof (induction pat buffer es rule: fetch.induct)
  case (1 pat buffer es)
  show ?case
  proof (cases "find buffer pat 0 = npos")
    case False
    with "1.prems" show ?thesis by (simp add: fetch.simps [of pat buffer es])
  next
    case True
    then obtain r buf es1 where rd: "do_read_data rlen es = Ok (r, buf, es1)"
      and rec: "fetch pat (buffer @ cstr buf) es1 = Ok (b, es')"
      using "1.prems" by (auto simp: fetch.simps [of pat buffer es] split: res.splits)
    have "length buf + length (rd_bytes es1) = length (rd_bytes es)"
      using read_until_bytes [OF rd [unfolded do_read_data_def]] by (metis append_Nil length_append)
    moreover have "rd_sum es1 \<le> rd_sum es"
      using read_until_smaller [OF rd [unfolded do_read_data_def]] by (simp add: rd_sum_def)
    ultimately show ?thesis
      using "1.IH" [OF True rd refl refl rec] length_cstr [of buf] by simp
  qed
qed

lemma task_only [simp]:
  "ws (reply s c) = ws c" "inp (reply s c) = inp c" "tbl (reply s c) = tbl c"
  "sstate (reply s c) = sstate c" "disk (reply s c) = disk c" "bstore (reply s c) = bstore c"
  "run_flag (reply s c) = run_flag c" "net (reply s c) = net c"
  by (simp_all add: reply_def)

lemma putToLog_frame:
  "putToLog data row col c = (seq, c') \<Longrightarrow>
     ws c' = ws c \<and> inp c' = inp c \<and> tbl c' = tbl c \<and> bstore c' = bstore c \<and> task c' = task c \<and>
     net c' = net c \<and> run_flag c' = run_flag c \<and> primary (sstate c') = primary (sstate c)"
  by (auto simp: putToLog_def Let_def increseSeq_def)

lemma deleteToLog_frame:
  "deleteToLog row col c = (seq, c') \<Longrightarrow>
     ws c' = ws c \<and> inp c' = inp c \<and> tbl c' = tbl c \<and> bstore c' = bstore c \<and> task c' = task c \<and>
     net c' = net c \<and> run_flag c' = run_flag c \<and> primary (sstate c') = primary (sstate c)"
  by (auto simp: deleteToLog_def Let_def increseSeq_def)

lemma log_seq_frame [simp]:
  "ws (putToLog_seq seq data row col c) = ws c" "inp (putToLog_seq seq data row col c) = inp c"
  "ws (deleteToLog_seq seq row col c) = ws c" "inp (deleteToLog_seq seq row col c) = inp c"
  by (simp_all add: putToLog_seq_def deleteToLog_seq_def Let_def)

lemma store_cell_frame:
  "store_cell row col data c = Ok c' \<Longrightarrow> ws c' = ws c \<and> inp c' = inp c"
  by (auto simp: store_cell_def split: if_splits option.splits)

lemma push_update_frame:
  "push_update row col data seq c = Ok c' \<Longrightarrow> ws c' = ws c \<and> inp c' = inp c \<and> tbl c' = tbl c"
  by (auto simp: push_update_def split: if_splits option.splits)

lemma after_value_shrinks:
  "after_value buffer n c = Ok c' \<Longrightarrow> length (ss_buf (ws c')) \<le> length buffer \<and> inp c' = inp c"
  by (auto simp: after_value_def substr_def split: if_splits)

lemma put_log_value_frame:
  assumes "put_log_value b n row col c = Ok (d, q, c')"
  shows "ws c' = ws c \<and> inp c' = inp c"
proof (cases "primary (sstate c)")
  case True
  with assms show ?thesis
    by (auto simp: put_log_value_def Let_def dest!: putToLog_frame split: prod.splits)
qed (use assms in \<open>auto simp: put_log_value_def Let_def\<close>)

lemma parse_PUT_shrinks:
  assumes "parse_PUT row col c = Ok c'"
  shows "shrinks c c'"
proof -
  from assms obtain b es d q c1 c2 c3 where f: "fetch terminator (ss_buf (ws c)) (inp c) = Ok (b, es)"
    and l: "put_log_value b (find b terminator 0) row col (c\<lparr>inp := es\<rparr>) = Ok (d, q, c1)"
    and s: "store_cell row col d c1 = Ok c2" and p: "push_update row col d q c2 = Ok c3"
    and a: "after_value b (find b terminator 0) (reply (''+OK'' @ crlf) c3) = Ok c'"
    by (auto simp: parse_PUT_def Let_def)
  have "inp c' = es"
    using put_log_value_frame [OF l] store_cell_frame [OF s] push_update_frame [OF p]
      after_value_shrinks [OF a] by simp
  with fetch_shrinks [OF f] after_value_shrinks [OF a] show ?thesis
    by (simp add: shrinks_def bytes_left_def)
qed

lemma shrinks_trans: "shrinks a b \<Longrightarrow> shrinks b c \<Longrightarrow> shrinks a c"
  by (auto simp: shrinks_def)

lemma dele_cell_frame: "dele_cell row col seq c = Ok c' \<Longrightarrow> ws c' = ws c \<and> inp c' = inp c"
  by (auto simp: dele_cell_def Let_def split: if_splits option.splits)

lemma dele_log_shrinks:
  assumes "dele_log row col c = Ok (seq, c')"
  shows "shrinks c c'"
proof (cases "primary (sstate c)")
  case True
  with assms show ?thesis using deleteToLog_frame [of row col c seq c'] by (simp add: dele_log_def shrinks_same)
next
  case False
  with assms obtain b es where f: "fetch crlf (ss_buf (ws c)) (inp c) = Ok (b, es)"
    and "length (ss_buf (ws c')) \<le> length b" "inp c' = es"
    by (auto simp: dele_log_def Let_def substr_def split: if_splits)
  with fetch_shrinks [OF f] show ?thesis by (simp add: shrinks_def bytes_left_def)
qed

lemma parse_DELE_shrinks: "parse_DELE row col c = Ok c' \<Longrightarrow> shrinks c c'"
  by (auto simp: parse_DELE_def dest!: dele_cell_frame intro: shrinks_trans [OF dele_log_shrinks])

lemma cput_write_frame: "cput_write row col d c = Ok c' \<Longrightarrow> ws c' = ws c \<and> inp c' = inp c"
  by (auto simp: cput_write_def dest!: push_update_frame putToLog_frame split: prod.splits)

lemma cput_cell_frame: "cput_cell row col old new c = Ok c' \<Longrightarrow> ws c' = ws c \<and> inp c' = inp c"
  by (auto simp: cput_cell_def dest!: cput_write_frame split: option.splits if_splits)

lemma cput_old_shrinks:
  assumes "cput_old c = Ok (d, b, c')"
  shows "length b + length (rd_bytes (inp c')) \<le> bytes_left c \<and> rd_sum (inp c') \<le> rd_sum (inp c)"
proof -
  from assms obtain b1 es where f: "fetch terminator (ss_buf (ws c)) (inp c) = Ok (b1, es)"
    and "length b \<le> length b1" "inp c' = es"
    by (auto simp: cput_old_def Let_def substr_def split: if_splits)
  with fetch_shrinks [OF f] show ?thesis by (simp add: bytes_left_def)
qed

lemma cput_new_shrinks:
  assumes "cput_new b c = Ok (d, c')"
  shows "bytes_left c' \<le> length b + length (rd_bytes (inp c)) \<and> rd_sum (inp c') \<le> rd_sum (inp c)"
proof -
  from assms obtain b1 es n where f: "fetch terminator b (inp c) = Ok (b1, es)"
    and "after_value b1 n (c\<lparr>inp := es\<rparr>) = Ok c'"
    by (auto simp: cput_new_def Let_def)
  with fetch_shrinks [OF f] after_value_shrinks show ?thesis by (fastforce simp: bytes_left_def)
qed

lemma parse_CPUT_shrinks:
  assumes "parse_CPUT row col c = Ok c'"
  shows "shrinks c c'"
proof -
  from assms obtain d b c1 d2 c2 where "cput_old c = Ok (d, b, c1)" "cput_new b c1 = Ok (d2, c2)"
      "cput_cell row col d d2 c2 = Ok c'"
    by (auto simp: parse_CPUT_def)
  then show ?thesis
    using cput_old_shrinks cput_new_shrinks cput_cell_frame by (fastforce simp: shrinks_def bytes_left_def)
qed

lemma reply_list_frame [simp]:
  "ws (foldl (\<lambda>c kv. reply (f kv) c) c xs) = ws c" "inp (foldl (\<lambda>c kv. reply (f kv) c) c xs) = inp c"
  by (induction xs arbitrary: c) auto

lemma GET_shrinks: "parse_GET row col c = Ok c' \<Longrightarrow> shrinks c c'"
  by (auto simp: parse_GET_def shrinks_def bytes_left_def split: if_splits option.splits)

lemma PROMOTE_shrinks: "parse_PROMOTE command c = Ok c' \<Longrightarrow> shrinks c c'"
  by (auto simp: parse_PROMOTE_def Let_def shrinks_def bytes_left_def split: if_splits)

lemma READY_shrinks: "parse_READY command c = Ok c' \<Longrightarrow> shrinks c c'"
  by (auto simp: parse_READY_def Let_def shrinks_def bytes_left_def split: option.splits)

lemma RECOVERY_result:
  assumes "parse_RECOVERY command c = Ok c'"
  shows "\<exists>a bs r. bstore c = Some bs \<and>
    c' = reply r (c\<lparr>sstate := pauseCheckpoint (sstate c), bstore := Some (snd (bs_recover a bs))\<rparr>)"
proof (cases "bstore c")
  case None
  with assms show ?thesis
    unfolding parse_RECOVERY_def Let_def and_then_eq_Ok by (elim exE conjE) simp
next
  case (Some bs)
  with assms show ?thesis
    unfolding parse_RECOVERY_def Let_def and_then_eq_Ok
    by (elim exE conjE) (simp add: and_then_eq_Ok del: substr_Ok split: if_split_asm; blast)
qed

lemma RECOVERY_shrinks: "parse_RECOVERY command c = Ok c' \<Longrightarrow> shrinks c c'"
  by (drule RECOVERY_result) (auto simp: shrinks_def bytes_left_def)

lemma dump_shrinks:
  "parse_LOG c = Ok c' \<Longrightarrow> shrinks c c'" "parse_CHECKPOINT c = Ok c' \<Longrightarrow> shrinks c c'"
  "parse_LIST c = Ok c' \<Longrightarrow> shrinks c c'"
  by (auto simp: shrinks_def bytes_left_def parse_LOG_def parse_CHECKPOINT_def parse_LIST_def Let_def)

lemmas handler_shrinks =
  parse_PUT_shrinks parse_CPUT_shrinks GET_shrinks parse_DELE_shrinks PROMOTE_shrinks
  RECOVERY_shrinks READY_shrinks dump_shrinks

text \<open>Whatever a command does, it does through one handler.\<close>

lemma dispatch_cases:
  assumes "dispatch command c = Ok c'"
  obtains "c' = (reply (''+OK server signing off'' @ crlf) c)\<lparr>run_flag := False\<rparr>"
  | row col where "parse_PUT row col c = Ok c'"
  | row col where "parse_CPUT row col c = Ok c'"
  | row col where "parse_GET row col c = Ok c'"
  | row col where "parse_DELE row col c = Ok c'"
  | "c' = c"
  | "parse_PROMOTE command c = Ok c'"
  | "parse_RECOVERY command c = Ok c'"
  | "parse_READY command c = Ok c'"
  | "parse_LOG c = Ok c'"
  | "parse_CHECKPOINT c = Ok c'"
  | "parse_LIST c = Ok c'"
  | "c' = reply (''-ERR Not supported'' @ crlf) c"
  using assms unfolding dispatch_def parse_ALIVE_def parse_CLOSEALL_def
proof (elim if_elim)
  assume "and_then (parse_command command) (\<lambda>(row, col). parse_PUT row col c) = Ok c'"
  then show thesis by (auto intro: that(2))
next
  assume "and_then (parse_command command) (\<lambda>(row, col). parse_CPUT row col c) = Ok c'"
  then show thesis by (auto intro: that(3))
next
  assume "and_then (parse_command command) (\<lambda>(row, col). parse_GET row col c) = Ok c'"
  then show thesis by (auto intro: that(4))
next
  assume "and_then (parse_command command) (\<lambda>(row, col). parse_DELE row col c) = Ok c'"
  then show thesis by (auto intro: that(5))
next
  assume "Ok ((reply (''+OK server signing off'' @ crlf) c)\<lparr>run_flag := False\<rparr>) = Ok c'"
  then show thesis by (intro that(1)) simp
next
  assume "Ok c = Ok c'"
  then show thesis by (intro that(6)) simp
next
  assume "Ok (reply (''-ERR Not supported'' @ crlf) c) = Ok c'"
  then show thesis by (intro that(13)) simp
next
  assume "Throw Killed = Ok c'"
  then show thesis by simp
qed (erule that)+

lemma dispatch_shrinks:
  assumes "dispatch command c = Ok c'"
  shows "shrinks c c'"
proof (cases rule: dispatch_cases [OF assms])
  case 1
  then show ?thesis by (simp add: shrinks_def bytes_left_def)
next
  case 6
  then show ?thesis by (simp add: shrinks_def)
next
  case 13
  then show ?thesis by (simp add: shrinks_def bytes_left_def)
qed (erule handler_shrinks)+

lemma extract_command_smaller:
  assumes "extract_command c = Some (command, c')"
  shows "bytes_left c' < bytes_left c" "inp c' = inp c"
proof -
  let ?b = "ss_buf (ws c)"
  have pos: "find ?b crlf 0 \<noteq> npos" and c': "c' = c\<lparr>ws := ss_set (drop (find ?b crlf 0 + 2) ?b)\<rparr>"
    using assms by (auto simp: extract_command_def Let_def split: if_split_asm)
  from pos have "find ?b crlf 0 + 2 \<le> length ?b"
    using find_cases [of ?b crlf 0 "find ?b crlf 0 + 2 \<le> length ?b"] by (simp add: crlf_def)
  then show "bytes_left c' < bytes_left c" "inp c' = inp c"
    by (simp_all add: bytes_left_def c')
qed

text \<open>The inner loop, and the outer one: one read, then every complete command.\<close>

function run_commands :: "worker \<Rightarrow> worker res" where
  "run_commands c =
     (case extract_command c of
        None \<Rightarrow> Ok c
      | Some (command, c1) \<Rightarrow>
          (case dispatch command c1 of
             Ok c2 \<Rightarrow> run_commands c2
           | Throw e \<Rightarrow> Throw e
           | Block \<Rightarrow> Block))"
  by pat_completeness auto
termination
proof (relation "measure bytes_left")
  fix c x command c1 c2
  assume "extract_command c = Some x" "(command, c1) = x" "dispatch command c1 = Ok c2"
  then show "(c2, c) \<in> measure bytes_left"
    using extract_command_smaller [of c command c1] dispatch_shrinks [of command c1 c2]
    by (auto simp: shrinks_def)
qed simp

declare run_commands.simps [simp del]

lemma run_commands_input: "run_commands c = Ok c' \<Longrightarrow> rd_sum (inp c') \<le> rd_sum (inp c)"
proof (induction c arbitrary: c' rule: run_commands.induct)
  case (1 c)
  show ?case
  proof (cases "extract_command c")
    case None
    with "1.prems" show ?thesis by (simp add: run_commands.simps [of c])
  next
    case (Some x)
    then obtain command c1 where x: "extract_command c = Some (command, c1)" by (cases x) auto
    with "1.prems" obtain c2 where d: "dispatch command c1 = Ok c2" "run_commands c2 = Ok c'"
      by (auto simp: run_commands.simps [of c] split: res.splits)
    from "1.IH" [OF x refl d(1) d(2)] dispatch_shrinks [OF d(1)] extract_command_smaller(2) [OF x]
    show ?thesis by (simp add: shrinks_def)
  qed
qed

text \<open>One round of the outer loop: a read, then every complete command.\<close>

definition run_step :: "worker \<Rightarrow> worker res" where
  "run_step c =
     (case do_read rlen (inp c) of
        Ok (_, buf, rest) \<Rightarrow> run_commands (c\<lparr>inp := rest, ws := ss_write (ws c) (cstr buf)\<rparr>)
      | Throw e \<Rightarrow> Throw e
      | Block \<Rightarrow> Block)"

lemma run_step_smaller:
  assumes "run_step c = Ok c'"
  shows "rd_sum (inp c') < rd_sum (inp c)"
proof -
  from assms obtain x buf rest where rd: "do_read rlen (inp c) = Ok (x, buf, rest)"
    and "run_commands (c\<lparr>inp := rest, ws := ss_write (ws c) (cstr buf)\<rparr>) = Ok c'"
    by (auto simp: run_step_def split: res.splits)
  then show ?thesis
    using read_until_smaller [of crlf rlen "[]" "inp c" x buf rest] run_commands_input
    by (fastforce simp: do_read_def rlen_def rd_sum_def)
qed

function run :: "worker \<Rightarrow> worker res" where
  "run c =
     (if run_flag c then
        (case run_step c of Ok c' \<Rightarrow> run c' | Throw e \<Rightarrow> Throw e | Block \<Rightarrow> Block)
      else Ok c)"
  by pat_completeness auto
termination
  by (relation "measure (\<lambda>c. rd_sum (inp c))") (auto dest: run_step_smaller)

declare run.simps [simp del]

end
