(* ===== verification/Worker_Props.thy ===== *)
theory Worker_Props
  imports Worker
begin

text \<open>
  What the commands of \<open>kvstore/Worker.cc\<close> do: the recognition of commands, the effect of PUT,
  GET, DELETE and CPUT on every branch, the invariant of the server, the replication of updates
  and their durability.
\<close>

section \<open>Commands on the wire\<close>

text \<open>A value as a client sends it, and the condition under which its end is found.\<close>

definition put_wire :: "string \<Rightarrow> string" where
  "put_wire v = ''DATA'' @ crlf @ v @ ''.'' @ crlf"

definition wire_safe :: "string \<Rightarrow> bool" where
  "wire_safe v \<longleftrightarrow> sfind terminator (crlf @ v @ ''.'' @ crlf) = Some (length v)"

definition command_line :: "string \<Rightarrow> string \<Rightarrow> string \<Rightarrow> string" where
  "command_line verb row col = verb @ '' <'' @ row @ ''> <'' @ col @ ''>'' @ crlf"

lemma parse_command_line:
  assumes "CHR '' '' \<notin> set verb" "name_ok row" "name_ok col" "fits (command_line verb row col)"
  shows "parse_command (command_line verb row col) = Ok (row, col)"
proof -
  let ?s = "''<'' @ row @ ''> <'' @ col @ ''>'' @ crlf"
  have cmd: "command_line verb row col = verb @ CHR '' '' # ?s" by (simp add: command_line_def)
  have len: "length verb + length ?s + 65 < npos" using assms(4) unfolding cmd fits_def by simp
  have sp: "find (verb @ CHR '' '' # ?s) '' '' 0 = length verb" using assms(1) by (rule find_char)
  have one: "szadd (length verb) 1 = length verb + 1" using len by simp
  have "substr (verb @ CHR '' '' # ?s) (length verb + 1) npos = Ok ?s"
    using len by simp
  moreover have "bracketed ([] @ CHR ''<'' # row @ CHR ''>'' # ('' <'' @ col @ ''>'' @ crlf)) = Ok row"
    using assms(2) len by (intro bracketed_name) (auto simp: name_ok_def fits_def)
  moreover have "after_bracket ((''<'' @ row) @ CHR ''>'' # ('' <'' @ col @ ''>'' @ crlf)) =
      Ok ('' <'' @ col @ ''>'' @ crlf)"
    using assms(2) len by (intro after_bracket_rest) (auto simp: name_ok_def fits_def)
  moreover have "bracketed ('' '' @ CHR ''<'' # col @ CHR ''>'' # crlf) = Ok col"
    using assms(3) len by (intro bracketed_name) (auto simp: name_ok_def fits_def)
  ultimately show ?thesis
    unfolding parse_command_def cmd sp one by simp
qed

lemma extract_line:
  assumes "ss_buf (ws c) = l @ crlf @ more_input" "CR \<notin> set l" "fits (ss_buf (ws c))"
  shows "extract_command c = Some (l @ crlf, c\<lparr>ws := ss_set more_input\<rparr>)"
proof -
  have "find (ss_buf (ws c)) crlf 0 = length l"
    using assms(2) by (simp add: assms(1) find_start crlf_def sfind_skip)
  moreover have "length l \<noteq> npos" using assms(3) by (simp add: assms(1) fits_def)
  ultimately show ?thesis by (simp add: extract_command_def Let_def assms(1) crlf_def)
qed

lemma extract_none:
  "ss_buf (ws c) = [] \<Longrightarrow> extract_command c = None"
  by (simp add: extract_command_def find_def crlf_def)

lemma cstr_Cons [simp]: "x \<noteq> CHR 0x00 \<Longrightarrow> cstr (x # s) = x # cstr s"
  by (simp add: cstr_def)

text \<open>\<open>strnicmp\<close> with the length of the command name compares the common prefix, ignoring case.\<close>

lemma strnicmp_prefix:
  "strnicmp s name (length name) = 0 \<longleftrightarrow>
     s \<noteq> [] \<and> name \<noteq> [] \<and> list_all (\<lambda>(a, b). toupper a = toupper b) (zip s name)"
  by (cases "length s < length name") (auto simp: strnicmp_def Let_def list_all_length char_at_def dest: less_le_trans)

lemma toupper_upper: "c \<in> set ''ABCDEFGHIJKLMNOPQRSTUVWXYZ'' \<Longrightarrow> toupper c = c"
  by (auto simp: toupper_def less_eq_char_def)

lemma toupper_letters [simp]:
  "toupper CHR ''A'' = CHR ''A''" "toupper CHR ''C'' = CHR ''C''" "toupper CHR ''D'' = CHR ''D''"
  "toupper CHR ''E'' = CHR ''E''" "toupper CHR ''G'' = CHR ''G''" "toupper CHR ''H'' = CHR ''H''"
  "toupper CHR ''I'' = CHR ''I''" "toupper CHR ''K'' = CHR ''K''" "toupper CHR ''L'' = CHR ''L''"
  "toupper CHR ''M'' = CHR ''M''" "toupper CHR ''N'' = CHR ''N''" "toupper CHR ''O'' = CHR ''O''"
  "toupper CHR ''P'' = CHR ''P''" "toupper CHR ''Q'' = CHR ''Q''" "toupper CHR ''R'' = CHR ''R''"
  "toupper CHR ''S'' = CHR ''S''" "toupper CHR ''T'' = CHR ''T''" "toupper CHR ''U'' = CHR ''U''"
  "toupper CHR ''V'' = CHR ''V''" "toupper CHR ''Y'' = CHR ''Y''"
  by (rule toupper_upper, simp)+

lemma is_cmd_prefix:
  "is_cmd command name \<longleftrightarrow>
     cstr command \<noteq> [] \<and> name \<noteq> [] \<and> list_all (\<lambda>(a, b). toupper a = toupper b) (zip (cstr command) name)"
  by (simp add: is_cmd_def strnicmp_prefix)

lemma dispatch_line:
  "dispatch (command_line ''PUT'' row col) c =
     and_then (parse_command (command_line ''PUT'' row col)) (\<lambda>(row, col). parse_PUT row col c)"
  "dispatch (command_line ''CPUT'' row col) c =
     and_then (parse_command (command_line ''CPUT'' row col)) (\<lambda>(row, col). parse_CPUT row col c)"
  "dispatch (command_line ''GET'' row col) c =
     and_then (parse_command (command_line ''GET'' row col)) (\<lambda>(row, col). parse_GET row col c)"
  "dispatch (command_line ''DELETE'' row col) c =
     and_then (parse_command (command_line ''DELETE'' row col)) (\<lambda>(row, col). parse_DELE row col c)"
  by (simp_all add: dispatch_def command_line_def is_cmd_prefix)

section \<open>The pieces of a write\<close>

text \<open>The state after a record was appended to the log.\<close>

definition logged :: "string \<Rightarrow> worker \<Rightarrow> worker" where
  "logged r c =
     c\<lparr>disk := (disk c)\<lparr>fs_file := (fs_file (disk c))
         (LOG_PATH (sstate c) \<mapsto> file_text (disk c) (LOG_PATH (sstate c)) @ r)\<rparr>\<rparr>"

definition log_open :: "worker \<Rightarrow> bool" where
  "log_open c \<longleftrightarrow> fs_open (disk c) (LOG_PATH (sstate c))"

definition seq_ok :: "worker \<Rightarrow> bool" where
  "seq_ok c \<longleftrightarrow> 0 \<le> seqID (sstate c) \<and> seqID (sstate c) < long_max"

lemma putToLog_eq:
  assumes "log_open c" "seq_ok c"
  shows "putToLog data row col c =
    (seqID (sstate c) + 1,
     (logged (put_record row col (seqID (sstate c) + 1) data) c)
       \<lparr>sstate := (sstate c)\<lparr>seqID := seqID (sstate c) + 1\<rparr>\<rparr>)"
  using assms
  by (simp add: putToLog_def increseSeq_next log_open_def seq_ok_def Let_def logged_def put_record_def
      long_min_def)

lemma putToLog_seq_eq:
  "log_open c \<Longrightarrow> putToLog_seq seq data row col c = logged (put_record_replica row col seq data) c"
  by (simp add: putToLog_seq_def log_open_def Let_def logged_def put_record_replica_def)

lemma deleteToLog_eq:
  assumes "log_open c" "seq_ok c"
  shows "deleteToLog row col c =
    (seqID (sstate c) + 1,
     (logged (delete_record row col (seqID (sstate c) + 1)) c)
       \<lparr>sstate := (sstate c)\<lparr>seqID := seqID (sstate c) + 1\<rparr>\<rparr>)"
  using assms
  by (simp add: deleteToLog_def increseSeq_next log_open_def seq_ok_def Let_def logged_def
      delete_header_def delete_record_def long_min_def)

lemma deleteToLog_seq_eq:
  "log_open c \<Longrightarrow> deleteToLog_seq seq row col c = logged (delete_record row col seq) c"
  by (simp add: deleteToLog_seq_def log_open_def Let_def logged_def delete_header_def delete_record_def)

lemma fetch_present: "find buffer pat 0 \<noteq> npos \<Longrightarrow> fetch pat buffer es = Ok (buffer, es)"
  by (simp add: fetch.simps [of pat buffer es])

text \<open>Where the value sits behind a header line without carriage return.\<close>

lemma wire_length: "wire_safe v \<Longrightarrow> v = [] \<or> 2 \<le> length v"
proof -
  assume "wire_safe v"
  then have "prefix terminator (drop (length v) (crlf @ v @ ''.'' @ crlf))"
    by (simp add: wire_safe_def sfind_Some_iff)
  then have "length v \<noteq> 1"
    by (auto simp: terminator_def crlf_def length_Suc_conv)
  then show ?thesis by (cases v) (auto simp: Suc_le_eq)
qed

text \<open>A header that neither contains a terminator nor starts one.\<close>

definition skips :: "string \<Rightarrow> bool" where
  "skips h \<longleftrightarrow> (\<forall>s. sfind terminator (h @ s) = map_option ((+) (length h)) (sfind terminator s))"

lemma skips_no_CR [simp]: "CR \<notin> set h \<Longrightarrow> skips h"
  by (simp add: skips_def terminator_def sfind_skip)

lemma skips_new [simp]: "skips (crlf @ ''NEW'')"
  by (auto simp: skips_def terminator_def crlf_def option.map_comp comp_def intro!: option.map_cong)

lemma value_after_header:
  assumes "wire_safe v" "skips h" "buffer = h @ crlf @ v @ ''.'' @ crlf @ more_input" "fits buffer"
  shows "find buffer terminator 0 = length h + length v"
    and "find buffer terminator 0 \<noteq> npos"
    and "substr buffer (length h + 2) (szadd (szsub (length h + length v) (length h + 2)) 2) = Ok v"
    and "after_value buffer (length h + length v) c = Ok (c\<lparr>ws := ss_set (drop 1 more_input)\<rparr>)"
proof -
  have len: "length h + length v + length more_input + 69 < npos"
    using assms(4) by (simp add: assms(3) fits_def crlf_def)
  have "sfind terminator ((crlf @ v @ ''.'' @ crlf) @ more_input) = Some (length v)"
    using assms(1) unfolding wire_safe_def by (rule sfind_append)
  then have "sfind terminator buffer = Some (length h + length v)"
    using assms(2) by (simp add: assms(3) skips_def)
  then show f: "find buffer terminator 0 = length h + length v" by (simp add: find_start)
  with len show "find buffer terminator 0 \<noteq> npos" by simp
  have "szadd (szsub (length h + length v) (length h + 2)) 2 = length v"
    using len by (subst szsub_szadd) simp_all
  then show "substr buffer (length h + 2) (szadd (szsub (length h + length v) (length h + 2)) 2) = Ok v"
    by (simp add: assms(3) crlf_def)
  have "szadd (length h + length v) 5 = length h + length v + 5"
      "szadd (length h + length v) 6 = length h + length v + 6" using len by simp_all
  moreover have "drop (length h + length v + 6) buffer = drop 1 more_input"
    by (simp add: assms(3) crlf_def numeral_eq_Suc)
  moreover have "length (drop 1 more_input) \<le> npos" using len by simp
  ultimately show "after_value buffer (length h + length v) c = Ok (c\<lparr>ws := ss_set (drop 1 more_input)\<rparr>)"
    by (cases "more_input = []")
       (simp_all add: after_value_def assms(3) crlf_def Suc_le_eq)
qed

text \<open>The case in which the store of a PUT works: not the column of another row under this name.\<close>

definition store_ok :: "bmap \<Rightarrow> string \<Rightarrow> string \<Rightarrow> bool" where
  "store_ok t row col \<longleftrightarrow> \<not> map_has t row \<or> \<not> map_has t col \<or> cell_get t (row, col) \<noteq> None"

lemma store_cell_eq:
  "store_cell row col v c =
     (if store_ok (tbl c) row col then Ok (c\<lparr>tbl := cell_put (row, col) v (tbl c)\<rparr>) else Throw Null_deref)"
  by (auto simp: store_cell_def store_ok_def)

lemma logged_simps [simp]:
  "tbl (logged r c) = tbl c" "sstate (logged r c) = sstate c" "bstore (logged r c) = bstore c"
  "ws (logged r c) = ws c" "inp (logged r c) = inp c" "task (logged r c) = task c"
  "run_flag (logged r c) = run_flag c" "net (logged r c) = net c"
  by (simp_all add: logged_def)

section \<open>PUT on the primary\<close>

text \<open>The state a PUT leaves on the primary.\<close>

definition put_done :: "string \<Rightarrow> string \<Rightarrow> string \<Rightarrow> string \<Rightarrow> backStore \<Rightarrow> worker \<Rightarrow> worker" where
  "put_done row col v left bs c =
     (let n = seqID (sstate c) + 1
      in (reply (''+OK'' @ crlf)
            ((logged (put_record row col n v) c)
              \<lparr>sstate := (sstate c)\<lparr>seqID := n\<rparr>, tbl := cell_put (row, col) v (tbl c),
               bstore := Some bs\<rparr>))\<lparr>ws := ss_set left\<rparr>)"

lemma put_primary_result:
  assumes "primary (sstate c)" "bstore c = Some bs" "log_open c" "seq_ok c" "wire_safe v"
    and "ss_buf (ws c) = put_wire v @ more_input" "fits (ss_buf (ws c))"
  shows "parse_PUT row col c =
    (if store_ok (tbl c) row col then
       and_then (bs_push row col v (seqID (sstate c) + 1) bs)
         (\<lambda>bs'. Ok (put_done row col v (drop 1 more_input) bs' c))
     else Throw Null_deref)"
proof -
  let ?b = "ss_buf (ws c)"
  have b: "?b = ''DATA'' @ crlf @ v @ ''.'' @ crlf @ more_input"
    by (simp add: assms(6) put_wire_def)
  have cr: "skips ''DATA''" by simp
  note val = value_after_header [OF assms(5) cr b assms(7)]
  have dpos: "szadd (find ?b (''DATA'' @ crlf) 0) 6 = length ''DATA'' + 2"
    by (simp add: b find_start crlf_def npos_def)
  note data = val(3)
  show ?thesis
    unfolding parse_PUT_def fetch_present [OF val(2)] and_then.simps prod.case put_log_value_def Let_def val(1) dpos data
    using assms(1,2)
    by (auto simp: putToLog_eq [OF assms(3,4)] store_cell_eq push_update_def and_then_assoc
        val(4) [simplified] put_done_def Let_def reply_def logged_def)
qed

section \<open>PUT on a replica\<close>

definition put_applied :: "string \<Rightarrow> string \<Rightarrow> string \<Rightarrow> int \<Rightarrow> string \<Rightarrow> worker \<Rightarrow> worker" where
  "put_applied row col v seq left c =
     (reply (''+OK'' @ crlf)
        ((logged (put_record_replica row col seq v) (c\<lparr>sstate := updateSeq seq (sstate c)\<rparr>))
           \<lparr>tbl := cell_put (row, col) v (tbl c)\<rparr>))\<lparr>ws := ss_set left\<rparr>"

lemma updateSeq_frame [simp]:
  "primary (updateSeq q s) = primary s" "LOG_PATH (updateSeq q s) = LOG_PATH s"
  "seqID (updateSeq q s) = max (seqID s) q"
  by (simp_all add: updateSeq_def)

lemma put_replica_result:
  assumes "\<not> primary (sstate c)" "log_open c" "wire_safe v" "0 \<le> seq" "seq \<le> long_max"
    and "ss_buf (ws c) = show_int seq @ crlf @ v @ ''.'' @ crlf @ more_input" "fits (ss_buf (ws c))"
  shows "parse_PUT row col c =
    (if store_ok (tbl c) row col then Ok (put_applied row col v seq (drop 1 more_input) c)
     else Throw Null_deref)"
proof -
  let ?b = "ss_buf (ws c)" and ?h = "show_int seq"
  have cr: "skips ?h" by simp
  note val = value_after_header [OF assms(3) cr assms(6,7)]
  have len: "length ?h + 2 < npos" using assms(7) by (simp add: fits_def assms(6) crlf_def)
  have "find ?b crlf 0 = length ?h" by (simp add: assms(6) find_start crlf_def sfind_skip)
  then have dpos: "szadd (find ?b crlf 0) 2 = length ?h + 2" using len by simp
  have ar: "szsub (length ?h + 2) 2 = length ?h" using len by simp
  have pre: "substr ?b 0 (length ?h) = Ok ?h" by (simp add: assms(6))
  have num: "stol ?h = Ok seq" using stol_show [OF assms(4,5), of "[]"] by simp
  have log: "putToLog_seq seq v row col (c\<lparr>sstate := updateSeq seq (sstate c)\<rparr>) =
      logged (put_record_replica row col seq v) (c\<lparr>sstate := updateSeq seq (sstate c)\<rparr>)"
    by (rule putToLog_seq_eq) (use assms(2) in \<open>simp add: log_open_def updateSeq_def\<close>)
  show ?thesis
    unfolding parse_PUT_def fetch_present [OF val(2)] and_then.simps prod.case put_log_value_def Let_def val(1) dpos val(3)
      ar pre num
    using assms(1)
    by (simp add: log store_cell_eq push_update_def val(4) put_applied_def)
qed

section \<open>GET, DELETE and CPUT\<close>

lemma cell_get_alt: "map_at (row_of t row) col = cell_get t (row, col)"
  by (simp add: cell_get_def)

lemma cell_has_row: "cell_get t (row, col) = Some v \<Longrightarrow> map_has t row"
  by (auto simp: cell_get_def row_of_def map_has_def split: option.splits)

lemma parse_GET_result:
  "parse_GET row col c =
     Ok (case cell_get (tbl c) (row, col) of
           Some v \<Rightarrow> reply (''.'' @ crlf) (reply v (reply (''DATA'' @ crlf) c))
         | None \<Rightarrow> if map_has (tbl c) row then reply (''-ERR NULL colmn'' @ crlf) c
                   else reply (''-ERR NULL row'' @ crlf) c)"
  using cell_has_row [of "tbl c" row col]
  by (auto simp: parse_GET_def cell_get_alt split: option.split)

text \<open>The log record and the sequence number of a delete, whether or not the cell exists.\<close>

definition dele_numbered :: "string \<Rightarrow> string \<Rightarrow> worker \<Rightarrow> worker" where
  "dele_numbered row col c =
     (logged (delete_record row col (seqID (sstate c) + 1)) c)
       \<lparr>sstate := (sstate c)\<lparr>seqID := seqID (sstate c) + 1\<rparr>\<rparr>"

lemma dele_primary_result:
  assumes "primary (sstate c)" "bstore c = Some bs" "log_open c" "seq_ok c"
  shows "parse_DELE row col c =
    Ok (let c1 = dele_numbered row col c
        in if cell_get (tbl c) (row, col) = None
           then reply (if map_has (tbl c) row then ''-ERR NULL colmn'' @ crlf else ''-ERR NULL row'' @ crlf) c1
           else reply (''+OK deleted'' @ crlf)
                  (c1\<lparr>tbl := cell_erase (row, col) (tbl c),
                      bstore := Some (bs_poll row col (seqID (sstate c) + 1) bs)\<rparr>))"
proof -
  have "map_has (row_of (tbl c) row) col \<longleftrightarrow> cell_get (tbl c) (row, col) \<noteq> None"
    by (simp add: map_has_def cell_get_def)
  then show ?thesis
    using assms(1,2) cell_has_row [of "tbl c" row col]
    by (auto simp: parse_DELE_def dele_log_def deleteToLog_eq [OF assms(3,4)] dele_cell_def Let_def
        dele_numbered_def)
qed

definition cput_wire :: "string \<Rightarrow> string \<Rightarrow> string" where
  "cput_wire old new =
     ''OLD'' @ crlf @ old @ ''.'' @ crlf @ ''NEW'' @ crlf @ new @ ''.'' @ crlf"

text \<open>When the comparison of a CPUT succeeds.\<close>

definition cput_match :: "string option \<Rightarrow> string \<Rightarrow> bool" where
  "cput_match cur old \<longleftrightarrow> cur = Some old \<or> cur = None \<and> old = ''NULL'' @ crlf"

lemma cput_values:
  assumes "wire_safe old" "wire_safe new" "ss_buf (ws c) = cput_wire old new @ more_input"
    and "fits (ss_buf (ws c))"
  shows "parse_CPUT row col c = cput_cell row col old new (c\<lparr>ws := ss_set (drop 1 more_input)\<rparr>)"
proof -
  let ?b = "ss_buf (ws c)" and ?m = "''NEW'' @ crlf @ new @ ''.'' @ crlf @ more_input"
  have b: "?b = ''OLD'' @ crlf @ old @ ''.'' @ crlf @ ?m"
    by (simp add: assms(3) cput_wire_def)
  have sk: "skips ''OLD''" by simp
  note v1 = value_after_header [OF assms(1) sk b assms(4)]
  have len: "length old + length ?m + 72 < npos"
    using assms(4) unfolding b by (simp add: fits_def crlf_def)
  have p1: "szadd (find ?b (''OLD'' @ crlf) 0) 5 = length ''OLD'' + 2"
    by (simp add: b find_start crlf_def npos_def)
  have "szadd (length ''OLD'' + length old) 3 = length old + 6" using len by simp
  moreover have "drop (length old + 6) ?b = crlf @ ?m"
    by (simp add: b crlf_def numeral_eq_Suc)
  moreover have "substr ?b (length old + 6) npos = Ok (drop (length old + 6) ?b)"
    by (rule substr_npos [OF _ assms(4)]) (simp add: b crlf_def)
  ultimately have rest: "substr ?b (szadd (length ''OLD'' + length old) 3) npos = Ok (crlf @ ?m)"
    by simp
  have old: "cput_old c = Ok (old, crlf @ ?m, c)"
    unfolding cput_old_def fetch_present [OF v1(2)] and_then.simps prod.case Let_def v1(1) p1 v1(3) rest
    by simp
  have b2: "crlf @ ?m = (crlf @ ''NEW'') @ crlf @ new @ ''.'' @ crlf @ more_input" by simp
  have fit2: "fits (crlf @ ?m)" using len by (simp add: fits_def crlf_def)
  note v2 = value_after_header [OF assms(2) skips_new b2 fit2]
  have p2: "szadd (find (crlf @ ?m) (''NEW'' @ crlf) 0) 5 = length (crlf @ ''NEW'') + 2"
    by (simp add: find_start crlf_def npos_def)
  have new: "cput_new (crlf @ ?m) c = Ok (new, c\<lparr>ws := ss_set (drop 1 more_input)\<rparr>)"
    unfolding cput_new_def fetch_present [OF v2(2)] and_then.simps prod.case Let_def v2(1) p2 v2(3) v2(4)
    by simp
  show ?thesis
    by (simp only: parse_CPUT_def old new and_then.simps prod.case)
qed

lemma cput_write_primary:
  assumes "primary (sstate c)" "bstore c = Some bs" "log_open c" "seq_ok c"
  shows "cput_write row col v c =
    and_then (bs_push row col v (seqID (sstate c) + 1) bs)
      (\<lambda>bs'. Ok (put_done row col v (ss_buf (ws c)) bs' (c\<lparr>ws := ss_set (ss_buf (ws c))\<rparr>)\<lparr>ws := ws c\<rparr>))"
  using assms(1,2)
  by (auto simp: cput_write_def putToLog_eq [OF assms(3,4)] push_update_def and_then_assoc put_done_def
      Let_def reply_def logged_def)

lemma cput_primary_result:
  assumes "primary (sstate c)" "bstore c = Some bs" "log_open c" "seq_ok c"
    and "wire_safe old" "wire_safe new" "ss_buf (ws c) = cput_wire old new @ more_input"
    and "fits (ss_buf (ws c))"
  shows "parse_CPUT row col c =
    (if cput_match (cell_get (tbl c) (row, col)) old then
       and_then (bs_push row col new (seqID (sstate c) + 1) bs)
         (\<lambda>bs'. Ok (put_done row col new (drop 1 more_input) bs' c))
     else Ok (reply (''-ERR'' @ crlf) (c\<lparr>ws := ss_set (drop 1 more_input)\<rparr>)))"
proof -
  let ?c = "c\<lparr>ws := ss_set (drop 1 more_input)\<rparr>"
  have "cput_write row col new ?c = and_then (bs_push row col new (seqID (sstate c) + 1) bs)
      (\<lambda>bs'. Ok (put_done row col new (drop 1 more_input) bs' c))"
    using assms(1-4) cput_write_primary [of ?c bs row col new]
    by (simp add: log_open_def seq_ok_def put_done_def Let_def reply_def logged_def)
  then show ?thesis
    unfolding cput_values [OF assms(5-8)]
    by (auto simp: cput_cell_def cput_match_def split: option.split)
qed

section \<open>The invariant of the server\<close>

text \<open>
  The table is well formed, every replica marked running has a connection, and a primary has a
  replica list.
\<close>

definition server_ok :: "worker \<Rightarrow> bool" where
  "server_ok c \<longleftrightarrow> table_ok (tbl c) \<and> (\<forall>bs. bstore c = Some bs \<longrightarrow> bs_ok bs) \<and>
     (primary (sstate c) \<longrightarrow> bstore c \<noteq> None)"

text \<open>Steps that touch neither the table, the replica list nor the role.\<close>

lemma server_ok_frame [wf_intros]:
  "server_ok c \<Longrightarrow> tbl c' = tbl c \<Longrightarrow> bstore c' = bstore c \<Longrightarrow> primary (sstate c') = primary (sstate c) \<Longrightarrow>
     server_ok c'"
  by (simp add: server_ok_def)

lemma server_ok_reply [simp]: "server_ok (reply s c) = server_ok c"
  by (simp add: server_ok_def)

lemma server_ok_fields [simp]:
  "server_ok (c\<lparr>ws := w\<rparr>) = server_ok c" "server_ok (c\<lparr>inp := i\<rparr>) = server_ok c"
  "server_ok (c\<lparr>run_flag := r\<rparr>) = server_ok c" "server_ok (c\<lparr>disk := d\<rparr>) = server_ok c"
  "server_ok (c\<lparr>sstate := updateSeq q (sstate c)\<rparr>) = server_ok c"
  by (simp_all add: server_ok_def)

lemma server_ok_tbl [wf_intros]: "server_ok c \<Longrightarrow> table_ok t \<Longrightarrow> server_ok (c\<lparr>tbl := t\<rparr>)"
  by (simp add: server_ok_def)

lemma server_ok_table: "server_ok c \<Longrightarrow> table_ok (tbl c)"
  by (simp add: server_ok_def)

lemma server_ok_bstore [wf_intros]: "server_ok c \<Longrightarrow> bs_ok bs \<Longrightarrow> server_ok (c\<lparr>bstore := Some bs\<rparr>)"
  by (simp add: server_ok_def)

lemma server_ok_logs:
  "putToLog d row col c = (n, c') \<Longrightarrow> server_ok c' = server_ok c"
  "deleteToLog row col c = (n, c') \<Longrightarrow> server_ok c' = server_ok c"
  by (simp_all add: server_ok_def putToLog_frame deleteToLog_frame)

lemma server_ok_log_seq [simp]:
  "server_ok (putToLog_seq n d row col c) = server_ok c"
  "server_ok (deleteToLog_seq n row col c) = server_ok c"
  by (simp_all add: putToLog_seq_def deleteToLog_seq_def Let_def)

lemma store_cell_server_ok: "store_cell row col d c = Ok c' \<Longrightarrow> server_ok c \<Longrightarrow> server_ok c'"
  by (auto simp: store_cell_eq intro!: server_ok_tbl table_ok_put server_ok_table split: if_splits)

lemma push_update_server_ok: "push_update row col d n c = Ok c' \<Longrightarrow> server_ok c \<Longrightarrow> server_ok c'"
proof (cases "primary (sstate c)")
  case True
  assume c': "push_update row col d n c = Ok c'" and ok: "server_ok c"
  from ok True obtain bs where bs: "bstore c = Some bs" "bs_ok bs" by (auto simp: server_ok_def)
  obtain bs' where "bs_push row col d n bs = Ok bs'" "bs_ok bs'" using bs_push_ok [OF bs(2)] by blast
  with c' True bs have "c' = c\<lparr>bstore := Some bs'\<rparr>" by (simp add: push_update_def)
  with ok \<open>bs_ok bs'\<close> show ?thesis by (simp add: server_ok_bstore)
qed (auto simp: push_update_def)

lemma after_value_server_ok: "after_value b n c = Ok c' \<Longrightarrow> server_ok c' = server_ok c"
  by (auto simp: after_value_def split: if_splits)

lemma put_log_value_server_ok: "put_log_value b n row col c = Ok (d, q, c') \<Longrightarrow> server_ok c' = server_ok c"
  by (auto simp: put_log_value_def Let_def dest: server_ok_logs split: if_splits prod.splits)

lemma parse_PUT_server_ok:
  assumes "parse_PUT row col c = Ok c'" "server_ok c"
  shows "server_ok c'"
proof -
  from assms(1) obtain b es d q c1 c2 c3 where
    "put_log_value b (find b terminator 0) row col (c\<lparr>inp := es\<rparr>) = Ok (d, q, c1)"
    "store_cell row col d c1 = Ok c2" "push_update row col d q c2 = Ok c3"
    "after_value b (find b terminator 0) (reply (''+OK'' @ crlf) c3) = Ok c'"
    by (auto simp: parse_PUT_def Let_def)
  with assms(2) show ?thesis
    using put_log_value_server_ok store_cell_server_ok push_update_server_ok after_value_server_ok
    by (metis server_ok_fields(2) server_ok_reply)
qed

lemma cput_write_server_ok: "cput_write row col d c = Ok c' \<Longrightarrow> server_ok c \<Longrightarrow> server_ok c'"
  by (auto simp: cput_write_def split: prod.splits
      dest!: server_ok_logs(1) push_update_server_ok intro!: server_ok_tbl table_ok_put server_ok_table)

lemma parse_CPUT_server_ok:
  assumes "parse_CPUT row col c = Ok c'" "server_ok c"
  shows "server_ok c'"
proof -
  from assms(1) obtain d b c1 d2 c2 where "cput_old c = Ok (d, b, c1)" "cput_new b c1 = Ok (d2, c2)"
      "cput_cell row col d d2 c2 = Ok c'"
    by (auto simp: parse_CPUT_def)
  moreover have "server_ok c1 = server_ok c" if "cput_old c = Ok (d, b, c1)"
    using that by (auto simp: cput_old_def Let_def)
  moreover have "server_ok c2 = server_ok c1" if "cput_new b c1 = Ok (d2, c2)"
    using that by (auto simp: cput_new_def Let_def dest!: after_value_server_ok)
  moreover have "server_ok c'" if "cput_cell row col d d2 c2 = Ok c'" "server_ok c2"
    using that by (auto simp: cput_cell_def dest: cput_write_server_ok split: option.splits if_splits)
  ultimately show ?thesis using assms(2) by blast
qed

lemma parse_DELE_server_ok:
  assumes "parse_DELE row col c = Ok c'" "server_ok c"
  shows "server_ok c'"
proof -
  from assms(1) obtain n c1 where log: "dele_log row col c = Ok (n, c1)" and del: "dele_cell row col n c1 = Ok c'"
    by (auto simp: parse_DELE_def)
  have "server_ok c1"
  proof (cases "primary (sstate c)")
    case True
    with log assms(2) show ?thesis using server_ok_logs(2) [of row col c n c1] by (simp add: dele_log_def)
  next
    case False
    with log assms(2) show ?thesis by (auto simp: dele_log_def Let_def split: if_splits)
  qed
  with del show ?thesis
    by (auto simp: dele_cell_def Let_def server_ok_def split: if_splits option.splits
        intro: table_ok_erase bs_poll_ok)
qed

lemma parse_PROMOTE_server_ok:
  "parse_PROMOTE command c = Ok c' \<Longrightarrow> server_ok c \<Longrightarrow> server_ok c'"
  by (auto simp: parse_PROMOTE_def Let_def server_ok_def setPrimary_def setPrimaryAddr_def
      new_BackStore_ok split: if_splits)

section \<open>Reads and commands\<close>

text \<open>The state when a chunk has been read and nothing of it has been processed.\<close>

definition received :: "string \<Rightarrow> rd list \<Rightarrow> worker \<Rightarrow> worker" where
  "received x es c = c\<lparr>inp := es, ws := \<lparr>ss_buf = x, ss_put = length x\<rparr>\<rparr>"

lemma received_simps [simp]:
  "tbl (received x es c) = tbl c" "sstate (received x es c) = sstate c" "bstore (received x es c) = bstore c"
  "disk (received x es c) = disk c" "task (received x es c) = task c" "net (received x es c) = net c"
  "run_flag (received x es c) = run_flag c" "inp (received x es c) = es" "ss_buf (ws (received x es c)) = x"
  by (simp_all add: received_def)

lemma received_ws [simp]: "(received x es c)\<lparr>ws := w\<rparr> = c\<lparr>inp := es, ws := w\<rparr>"
  by (simp add: received_def)

text \<open>A chunk that contains a whole line arrives at once in the empty buffer.\<close>

definition chunk_ok :: "string \<Rightarrow> bool" where
  "chunk_ok x \<longleftrightarrow> CHR 0x00 \<notin> set x \<and> contains x crlf \<and> length x \<le> rlen"

lemma run_step_chunk:
  assumes "ws c = ss_set []" "chunk_ok x" "inp c = Bytes x # es"
  shows "run_step c = run_commands (received x es c)"
proof -
  have "x \<noteq> []" using assms(2) by (auto simp: chunk_ok_def contains_def crlf_def)
  then have "do_read rlen (Bytes x # es) = Ok (True, x, es)"
    using assms(2) by (simp add: do_read_def read_until_Bytes rd_rest_def chunk_ok_def rlen_def)
  then show ?thesis
    using assms by (simp add: run_step_def chunk_ok_def received_def ss_write_def ss_set_def)
qed

lemma run_commands_next:
  assumes "ss_buf (ws c) = l @ crlf @ left" "CR \<notin> set l" "fits (ss_buf (ws c))"
    and "dispatch (l @ crlf) (c\<lparr>ws := ss_set left\<rparr>) = Ok c2"
  shows "run_commands c = run_commands c2"
  using extract_line [OF assms(1-3)] assms(4) by (subst run_commands.simps) simp

lemma run_commands_done: "ss_buf (ws c) = [] \<Longrightarrow> run_commands c = Ok c"
  by (subst run_commands.simps) (simp add: extract_none)

lemma dispatch_unknown:
  "\<forall>name \<in> set [''QUIT'', ''PUT'', ''CPUT'', ''GET'', ''DELETE'', ''ALIVE'', ''PROMOTE'', ''RECOVERY'',
      ''READY'', ''LOG'', ''CHECKPOINT'', ''CLOSEALL'', ''LIST'']. \<not> is_cmd command name \<Longrightarrow>
     dispatch command c = Ok (reply (''-ERR Not supported'' @ crlf) c)"
  by (simp add: dispatch_def)

lemma parse_READY_server_ok:
  assumes "parse_READY command c = Ok c'" "server_ok c"
  shows "server_ok c'"
proof -
  from assms(1) obtain a bs b bs' where bs: "bstore c = Some bs" "bs_reconnect (net c) a bs = Ok (b, bs')"
    and c': "c' = c\<lparr>bstore := Some bs', sstate := resumeCheckpoint (sstate c)\<rparr>"
    by (auto simp: parse_READY_def Let_def split: option.splits)
  have "bs_ok bs'" using bs assms(2) by (auto simp: server_ok_def dest: bs_reconnect_ok)
  with assms(2) bs(1) show ?thesis by (simp add: c' server_ok_def resumeCheckpoint_def)
qed

lemma parse_RECOVERY_server_ok: "parse_RECOVERY command c = Ok c' \<Longrightarrow> server_ok c \<Longrightarrow> server_ok c'"
  by (drule RECOVERY_result) (auto simp: server_ok_def pauseCheckpoint_def bs_recover_ok)

lemma server_ok_reply_list [simp]:
  "server_ok (foldl (\<lambda>c kv. reply (f kv) c) c xs) = server_ok c"
  by (induction xs arbitrary: c) auto

lemma dump_server_ok:
  "parse_GET row col c = Ok c' \<Longrightarrow> server_ok c \<Longrightarrow> server_ok c'"
  "parse_LOG c = Ok c' \<Longrightarrow> server_ok c \<Longrightarrow> server_ok c'"
  "parse_CHECKPOINT c = Ok c' \<Longrightarrow> server_ok c \<Longrightarrow> server_ok c'"
  "parse_LIST c = Ok c' \<Longrightarrow> server_ok c \<Longrightarrow> server_ok c'"
  by (auto simp: parse_GET_def parse_LOG_def parse_CHECKPOINT_def parse_LIST_def Let_def
      split: if_splits option.splits)

lemmas handler_server_ok =
  parse_PUT_server_ok parse_CPUT_server_ok parse_DELE_server_ok parse_PROMOTE_server_ok
  parse_READY_server_ok parse_RECOVERY_server_ok dump_server_ok

lemma dispatch_server_ok:
  assumes "dispatch command c = Ok c'" "server_ok c"
  shows "server_ok c'"
proof (cases rule: dispatch_cases [OF assms(1)])
  case 1
  with assms(2) show ?thesis by simp
next
  case 6
  with assms(2) show ?thesis by simp
next
  case 13
  with assms(2) show ?thesis by simp
qed (erule handler_server_ok, rule assms(2))+

lemma run_commands_server_ok: "run_commands c = Ok c' \<Longrightarrow> server_ok c \<Longrightarrow> server_ok c'"
proof (induction c arbitrary: c' rule: run_commands.induct)
  case (1 c)
  show ?case
  proof (cases "extract_command c")
    case None
    with "1.prems" show ?thesis by (simp add: run_commands.simps [of c])
  next
    case (Some x)
    then obtain command c1 where x: "extract_command c = Some (command, c1)" by (cases x) auto
    with "1.prems"(1) obtain c2 where d: "dispatch command c1 = Ok c2" "run_commands c2 = Ok c'"
      by (auto simp: run_commands.simps [of c] split: res.splits)
    have "server_ok c1"
      using x "1.prems"(2) by (auto simp: extract_command_def Let_def split: if_splits)
    with "1.IH" [OF x refl d(1) d(2)] dispatch_server_ok [OF d(1)] show ?thesis by blast
  qed
qed

lemma run_step_server_ok: "run_step c = Ok c' \<Longrightarrow> server_ok c \<Longrightarrow> server_ok c'"
  by (auto simp: run_step_def dest!: run_commands_server_ok split: res.splits)

lemma run_server_ok: "run c = Ok c' \<Longrightarrow> server_ok c \<Longrightarrow> server_ok c'"
proof (induction c arbitrary: c' rule: run.induct)
  case (1 c)
  show ?case
  proof (cases "run_flag c")
    case False
    with "1.prems" show ?thesis by (simp add: run.simps [of c])
  next
    case True
    with "1.prems"(1) obtain c1 where "run_step c = Ok c1" "run c1 = Ok c'"
      by (auto simp: run.simps [of c] split: res.splits)
    with "1.IH" [OF True] "1.prems"(2) run_step_server_ok show ?thesis by blast
  qed
qed

section \<open>Properties\<close>

text \<open>
  C14. Whatever bytes arrive on a connection, in whatever pieces, the data server keeps its
  invariant over every read and over the whole session: the table stays a well-formed two-level map,
  every replica marked running has a connection, and a primary always has its replica list.
\<close>

theorem server_invariant:
  "server_ok c \<Longrightarrow>
     (\<forall>c'. run_step c = Ok c' \<longrightarrow> server_ok c') \<and> (\<forall>c'. run c = Ok c' \<longrightarrow> server_ok c')"
  using run_step_server_ok run_server_ok by blast

definition demo_server :: "rd list \<Rightarrow> worker" where
  "demo_server es =
     \<lparr>tbl = [], sstate = (setFilePath ''d'' (new_ServerState (localhost 1)))\<lparr>primary := True\<rparr>,
      disk = \<lparr>fs_file = Map.empty, fs_open = \<lambda>_. True\<rparr>,
      bstore = Some \<lparr>nodes = [], myID = 0\<rparr>,
      net = \<lparr>can_socket = True, can_connect = \<lambda>_. True\<rparr>,
      inp = es, task = new_conn, ws = ss_new, run_flag = True\<rparr>"

lemma demo_server_ok [simp]: "server_ok (demo_server es)"
  by (simp add: demo_server_def server_ok_def bs_ok_def)

theorem server_invariant_witness:
  "\<exists>c'. run_step (demo_server [Bytes (''NOP'' @ crlf)]) = Ok c' \<and> server_ok c'"
proof -
  let ?c = "demo_server [Bytes (''NOP'' @ crlf)]"
  let ?c1 = "received (''NOP'' @ crlf) [] ?c"
  have "run_step ?c = run_commands ?c1"
    by (rule run_step_chunk)
       (simp_all add: demo_server_def ss_new_set chunk_ok_def contains_def crlf_def rlen_def)
  moreover have "run_commands ?c1 =
      run_commands (reply (''-ERR Not supported'' @ crlf) (?c1\<lparr>ws := ss_set []\<rparr>))"
  proof (rule run_commands_next)
    show "ss_buf (ws ?c1) = ''NOP'' @ crlf @ []" by simp
    show "fits (ss_buf (ws ?c1))" by (simp add: fits_def npos_def crlf_def)
    show "dispatch (''NOP'' @ crlf) (?c1\<lparr>ws := ss_set []\<rparr>) =
        Ok (reply (''-ERR Not supported'' @ crlf) (?c1\<lparr>ws := ss_set []\<rparr>))"
      by (rule dispatch_unknown) (simp add: is_cmd_prefix crlf_def)
  qed simp
  ultimately have "\<exists>c'. run_step ?c = Ok c'" by (simp add: run_commands_done)
  then show ?thesis using server_invariant [OF demo_server_ok] by blast
qed

text \<open>
  C11. A PUT on the primary: the value between \<open>DATA\<close> and the final dot is stored under row and
  column, its record is appended to the log before the store, the sequence number grows by one, the
  replicas are sent the update under that number, and the client gets \<open>+OK\<close>. What arrived behind
  the value stays buffered without its first byte.
\<close>

theorem put_primary:
  assumes "server_ok c" "primary (sstate c)" "log_open c" "seq_ok c" "wire_safe v"
    and "store_ok (tbl c) row col"
    and "ss_buf (ws c) = put_wire v @ more_input" "fits (ss_buf (ws c))"
  shows "\<exists>bs bs'. bstore c = Some bs \<and> bs_push row col v (seqID (sstate c) + 1) bs = Ok bs' \<and>
    parse_PUT row col c = Ok (put_done row col v (drop 1 more_input) bs' c)"
proof -
  obtain bs where bs: "bstore c = Some bs" "bs_ok bs"
    using assms(1,2) by (auto simp: server_ok_def)
  obtain bs' where "bs_push row col v (seqID (sstate c) + 1) bs = Ok bs'" using bs_push_ok [OF bs(2)] by blast
  with bs put_primary_result [OF assms(2) bs(1) assms(3-5,7,8)] assms(6) show ?thesis by simp
qed

lemma demo_simps [simp]:
  "tbl (demo_server es) = []" "inp (demo_server es) = es" "task (demo_server es) = new_conn"
  "ws (demo_server es) = ss_set []" "bstore (demo_server es) = Some \<lparr>nodes = [], myID = 0\<rparr>"
  "primary (sstate (demo_server es))" "seqID (sstate (demo_server es)) = 0"
  "log_open (demo_server es)" "seq_ok (demo_server es)"
  by (simp_all add: demo_server_def ss_new_set new_ServerState_def setFilePath_def log_open_def
      seq_ok_def long_max_def)

lemma demo_ws [simp]: "(demo_server es)\<lparr>ws := ss_set []\<rparr> = demo_server es"
  by (simp add: demo_server_def ss_new_set)

theorem put_primary_witness:
  "\<exists>c' bs'. parse_PUT ''r'' ''c'' ((demo_server [])\<lparr>ws := ss_set (put_wire (''v'' @ crlf))\<rparr>) = Ok c' \<and>
     c' = put_done ''r'' ''c'' (''v'' @ crlf) [] bs' ((demo_server [])\<lparr>ws := ss_set (put_wire (''v'' @ crlf))\<rparr>)"
proof -
  let ?c = "(demo_server [])\<lparr>ws := ss_set (put_wire (''v'' @ crlf))\<rparr>"
  have "server_ok ?c" by simp
  moreover have "log_open ?c" "seq_ok ?c"
    using demo_simps(8,9) [of "[]"] by (simp_all add: log_open_def seq_ok_def)
  moreover have "wire_safe (''v'' @ crlf)" by (simp add: wire_safe_def terminator_def crlf_def)
  moreover have "fits (ss_buf (ws ?c))" by (simp add: put_wire_def fits_def npos_def crlf_def)
  ultimately have "\<exists>bs bs'. bstore ?c = Some bs \<and> bs_push ''r'' ''c'' (''v'' @ crlf) (seqID (sstate ?c) + 1) bs = Ok bs' \<and>
      parse_PUT ''r'' ''c'' ?c = Ok (put_done ''r'' ''c'' (''v'' @ crlf) (drop 1 []) bs' ?c)"
    by (intro put_primary) (simp_all add: store_ok_def map_has_def)
  then show ?thesis by auto
qed

text \<open>
  The existence test of PUT looks for the column among the rows: when the row exists, some
  other row is named like the column, and the row has no such column yet, the server dereferences
  the null cell it has just created and dies, after the value has been written to the log.
\<close>

theorem put_column_named_like_row:
  assumes "primary (sstate c)" "bstore c = Some bs" "log_open c" "seq_ok c" "wire_safe v"
    and "ss_buf (ws c) = put_wire v @ more_input" "fits (ss_buf (ws c))"
    and "map_has (tbl c) row" "map_has (tbl c) col" "cell_get (tbl c) (row, col) = None"
  shows "parse_PUT row col c = Throw Null_deref"
  using put_primary_result [OF assms(1-7), of row col] assms(8-10) by (simp add: store_ok_def)

theorem put_column_named_like_row_witness:
  "parse_PUT ''r'' ''r''
     ((demo_server [])\<lparr>tbl := cell_put (''r'', ''c'') ''x'' [], ws := ss_set (put_wire (''v'' @ crlf))\<rparr>) =
   Throw Null_deref"
proof (rule put_column_named_like_row [where more_input = "[]" and v = "''v'' @ crlf"])
  let ?c = "(demo_server [])\<lparr>tbl := cell_put (''r'', ''c'') ''x'' [], ws := ss_set (put_wire (''v'' @ crlf))\<rparr>"
  show "log_open ?c" "seq_ok ?c"
    using demo_simps(8,9) [of "[]"] by (simp_all add: log_open_def seq_ok_def)
qed (simp_all add: wire_safe_def terminator_def crlf_def put_wire_def fits_def npos_def map_has_def
    cell_put_def row_of_def cell_get_def)

text \<open>
  A PUT on a replica, as the primary sends it: the sequence number is taken over, the record is
  logged under the primary's number, the value is stored, and nothing is forwarded.
\<close>

theorem put_replica:
  assumes "\<not> primary (sstate c)" "log_open c" "wire_safe v" "0 \<le> seq" "seq \<le> long_max"
    and "store_ok (tbl c) row col"
    and "ss_buf (ws c) = show_int seq @ crlf @ v @ ''.'' @ crlf @ more_input" "fits (ss_buf (ws c))"
  shows "parse_PUT row col c = Ok (put_applied row col v seq (drop 1 more_input) c)"
  using put_replica_result [OF assms(1-5,7,8), of row col] assms(6) by simp

definition demo_replica :: "rd list \<Rightarrow> worker" where
  "demo_replica es = (demo_server es)\<lparr>sstate := setFilePath ''d'' (new_ServerState (localhost 1)), bstore := None\<rparr>"

lemma demo_replica_simps [simp]:
  "tbl (demo_replica es) = []" "inp (demo_replica es) = es" "task (demo_replica es) = new_conn"
  "ws (demo_replica es) = ss_set []" "\<not> primary (sstate (demo_replica es))"
  "seqID (sstate (demo_replica es)) = 0" "log_open (demo_replica es)"
  by (simp_all add: demo_replica_def demo_server_def ss_new_set new_ServerState_def setFilePath_def
      log_open_def)

theorem put_replica_witness:
  "parse_PUT ''r'' ''c'' ((demo_replica [])\<lparr>ws := ss_set (show_int 7 @ crlf @ (''v'' @ crlf) @ ''.'' @ crlf)\<rparr>) =
     Ok (put_applied ''r'' ''c'' (''v'' @ crlf) 7 []
       ((demo_replica [])\<lparr>ws := ss_set (show_int 7 @ crlf @ (''v'' @ crlf) @ ''.'' @ crlf)\<rparr>))"
proof -
  let ?c = "(demo_replica [])\<lparr>ws := ss_set (show_int 7 @ crlf @ (''v'' @ crlf) @ ''.'' @ crlf)\<rparr>"
  have "log_open ?c" using demo_replica_simps(7) [of "[]"] by (simp add: log_open_def)
  moreover have "wire_safe (''v'' @ crlf)" by (simp add: wire_safe_def terminator_def crlf_def)
  moreover have "store_ok (tbl ?c) ''r'' ''c''" by (simp add: store_ok_def map_has_def)
  moreover have "fits (ss_buf (ws ?c))"
    by (simp add: fits_def npos_def crlf_def show_int_def show_nat.simps)
  ultimately have "parse_PUT ''r'' ''c'' ?c = Ok (put_applied ''r'' ''c'' (''v'' @ crlf) 7 (drop 1 []) ?c)"
    by (intro put_replica) (simp_all add: long_max_def)
  then show ?thesis by simp
qed

text \<open>
  C18. A GET changes nothing but the connection and answers with exactly the stored value, framed by
  \<open>DATA\<close> and the dot, or with the error that tells a missing row from a missing column.
\<close>

theorem get_reply:
  "parse_GET row col c =
     Ok (case cell_get (tbl c) (row, col) of
           Some v \<Rightarrow> reply (''.'' @ crlf) (reply v (reply (''DATA'' @ crlf) c))
         | None \<Rightarrow> if map_has (tbl c) row then reply (''-ERR NULL colmn'' @ crlf) c
                   else reply (''-ERR NULL row'' @ crlf) c)"
  by (rule parse_GET_result)

text \<open>
  C12. A DELETE on the primary: it is numbered and logged in any case; if the cell exists it is
  removed, the replicas are told and the client gets \<open>+OK deleted\<close>, otherwise only the error.
\<close>

theorem delete_primary:
  assumes "primary (sstate c)" "bstore c = Some bs" "log_open c" "seq_ok c"
  shows "parse_DELE row col c =
    Ok (let c1 = dele_numbered row col c
        in if cell_get (tbl c) (row, col) = None
           then reply (if map_has (tbl c) row then ''-ERR NULL colmn'' @ crlf else ''-ERR NULL row'' @ crlf) c1
           else reply (''+OK deleted'' @ crlf)
                  (c1\<lparr>tbl := cell_erase (row, col) (tbl c),
                      bstore := Some (bs_poll row col (seqID (sstate c) + 1) bs)\<rparr>))"
  using assms by (rule dele_primary_result)

theorem delete_primary_witness:
  "parse_DELE ''r'' ''c'' (demo_server []) =
     Ok (reply (''-ERR NULL row'' @ crlf) (dele_numbered ''r'' ''c'' (demo_server [])))"
  using delete_primary [of "demo_server []" "\<lparr>nodes = [], myID = 0\<rparr>" "''r''" "''c''"]
  by (simp add: map_has_def cell_get_def row_of_def)

text \<open>
  C12. A CPUT on the primary is a compare-and-swap: it behaves like the PUT of the new value when the
  current value is the old one given (or the cell is missing and the old value given is \<open>NULL\<close>), and
  otherwise leaves table, log, sequence number and replicas alone and answers \<open>-ERR\<close>.
\<close>

theorem cput_compare_and_swap:
  assumes "server_ok c" "primary (sstate c)" "log_open c" "seq_ok c"
    and "wire_safe old" "wire_safe new" "ss_buf (ws c) = cput_wire old new @ more_input"
    and "fits (ss_buf (ws c))"
  shows "if cput_match (cell_get (tbl c) (row, col)) old
    then \<exists>bs bs'. bstore c = Some bs \<and> bs_push row col new (seqID (sstate c) + 1) bs = Ok bs' \<and>
           parse_CPUT row col c = Ok (put_done row col new (drop 1 more_input) bs' c)
    else parse_CPUT row col c = Ok (reply (''-ERR'' @ crlf) (c\<lparr>ws := ss_set (drop 1 more_input)\<rparr>))"
proof -
  obtain bs where bs: "bstore c = Some bs" "bs_ok bs"
    using assms(1,2) by (auto simp: server_ok_def)
  obtain bs' where "bs_push row col new (seqID (sstate c) + 1) bs = Ok bs'" using bs_push_ok [OF bs(2)] by blast
  with bs cput_primary_result [OF assms(2) bs(1) assms(3-8), of row col] show ?thesis by simp
qed

theorem cput_compare_and_swap_witness:
  "parse_CPUT ''r'' ''c'' ((demo_server [])\<lparr>ws := ss_set (cput_wire (''a'' @ crlf) (''b'' @ crlf))\<rparr>) =
     Ok (reply (''-ERR'' @ crlf) (demo_server []))"
proof -
  let ?c = "(demo_server [])\<lparr>ws := ss_set (cput_wire (''a'' @ crlf) (''b'' @ crlf))\<rparr>"
  have "log_open ?c" "seq_ok ?c"
    using demo_simps(8,9) [of "[]"] by (simp_all add: log_open_def seq_ok_def)
  moreover have "wire_safe (''a'' @ crlf)" "wire_safe (''b'' @ crlf)"
    by (simp_all add: wire_safe_def terminator_def crlf_def)
  moreover have "fits (ss_buf (ws ?c))" by (simp add: cput_wire_def fits_def npos_def crlf_def)
  moreover have "\<not> cput_match (cell_get (tbl ?c) (''r'', ''c'')) (''a'' @ crlf)"
    by (simp add: cput_match_def cell_get_def row_of_def crlf_def)
  ultimately show ?thesis
    using cput_compare_and_swap [of ?c "''a'' @ crlf" "''b'' @ crlf" "[]" "''r''" "''c''"] by simp
qed

section \<open>What goes wrong on the wire\<close>

text \<open>A line that is no command.\<close>

definition inert :: "string \<Rightarrow> bool" where
  "inert command \<longleftrightarrow>
     (\<forall>name \<in> set [''QUIT'', ''PUT'', ''CPUT'', ''GET'', ''DELETE'', ''ALIVE'', ''PROMOTE'', ''RECOVERY'',
        ''READY'', ''LOG'', ''CHECKPOINT'', ''CLOSEALL'', ''LIST'']. \<not> is_cmd command name)"

lemma run_inert:
  assumes "ss_buf (ws c) = l @ crlf @ left" "CR \<notin> set l" "fits (ss_buf (ws c))" "inert (l @ crlf)"
  shows "run_commands c = run_commands (reply (''-ERR Not supported'' @ crlf) (c\<lparr>ws := ss_set left\<rparr>))"
  by (rule run_commands_next [OF assms(1-3)]) (use assms(4) in \<open>simp add: dispatch_unknown inert_def\<close>)

lemma toupper_digit: "is_digit x \<Longrightarrow> toupper x = x"
  by (auto simp: toupper_def is_digit_def less_eq_char_def)

lemma inert_number: "0 \<le> n \<Longrightarrow> inert (show_int n @ crlf)"
proof -
  assume "0 \<le> n"
  obtain x xs where s: "show_nat (nat n) = x # xs" by (cases "show_nat (nat n)") simp_all
  have d: "is_digit x" using show_nat_hd [of "nat n"] by (simp add: s)
  then have "x \<noteq> CHR 0x00" by (auto simp: is_digit_def)
  moreover have "x \<notin> set ''QPCGDARL''" using d by (auto simp: is_digit_def)
  ultimately show ?thesis
    using d \<open>0 \<le> n\<close> by (auto simp: inert_def is_cmd_prefix show_int_def s toupper_digit)
qed

lemma toupper_dot [simp]: "toupper CHR ''.'' = CHR ''.''"
  by (simp add: toupper_def less_eq_char_def)

lemma inert_dot: "inert (''.'' @ crlf)" and inert_UT: "inert (''UT'' @ z)"
  by (simp_all add: inert_def is_cmd_prefix crlf_def)

lemma push_command_line:
  "push_command row col v seq = command_line ''PUT'' row col @ show_int seq @ crlf @ v @ ''.'' @ crlf"
  by (simp add: push_command_def command_line_def)

definition plain_name :: "string \<Rightarrow> bool" where
  "plain_name k \<longleftrightarrow> name_ok k \<and> CR \<notin> set k \<and> CHR 0x00 \<notin> set k"

lemma fits_drop: "fits s \<Longrightarrow> fits (drop k s)"
  by (simp add: fits_def)

text \<open>
  C13. Two updates that reach a replica in one read: the first is applied, the second loses its
  first byte (six bytes are skipped for the five of the terminator), is answered line by line with
  \<open>-ERR\<close> and never applied. The primary does send updates back to back on one connection.
\<close>

theorem pipelined_update_lost:
  assumes "\<not> primary (sstate c)" "log_open c" "wire_safe v1" "store_ok (tbl c) r1 c1"
    and "plain_name r1" "plain_name c1" "plain_name r2" "plain_name c2"
    and "0 \<le> n1" "n1 \<le> long_max" "0 \<le> n2" "CR \<notin> set w" "inert (w @ crlf)"
    and "ss_buf (ws c) = push_command r1 c1 v1 n1 @ push_command r2 c2 (w @ crlf) n2"
    and "fits (ss_buf (ws c))"
  shows "\<exists>c'. run_commands c = Ok c' \<and> tbl c' = cell_put (r1, c1) v1 (tbl c) \<and>
    seqID (sstate c') = max (seqID (sstate c)) n1 \<and> ss_buf (ws c') = []"
proof -
  let ?l1 = "''PUT <'' @ r1 @ ''> <'' @ c1 @ ''>''"
  let ?more = "push_command r2 c2 (w @ crlf) n2"
  let ?left = "show_int n1 @ crlf @ v1 @ ''.'' @ crlf @ ?more"
  let ?c1 = "c\<lparr>ws := ss_set ?left\<rparr>"
  let ?c2 = "put_applied r1 c1 v1 n1 (drop 1 ?more) ?c1"
  have buf: "ss_buf (ws c) = ?l1 @ crlf @ ?left"
    by (simp add: assms(14) push_command_def)
  have fit: "fits ?left" "fits (drop 1 ?more)"
    using assms(15) by (simp_all add: buf fits_def)
  have cmd: "?l1 @ crlf = command_line ''PUT'' r1 c1" by (simp add: command_line_def)
  have "fits (command_line ''PUT'' r1 c1)"
    using assms(15) unfolding buf by (simp add: fits_def command_line_def)
  then have names: "parse_command (command_line ''PUT'' r1 c1) = Ok (r1, c1)"
    using assms(5,6) by (intro parse_command_line) (auto simp: plain_name_def)
  have "parse_PUT r1 c1 ?c1 = Ok ?c2"
    using assms(1-4,9,10) fit(1) put_replica_result [of ?c1 v1 n1 ?more r1 c1]
    by (simp add: log_open_def)
  then have "dispatch (?l1 @ crlf) ?c1 = Ok ?c2"
    unfolding cmd dispatch_line(1) names by simp
  moreover have "CR \<notin> set ?l1" using assms(5,6) by (auto simp: plain_name_def)
  ultimately have s1: "run_commands c = run_commands ?c2"
    by (intro run_commands_next [OF buf _ assms(15)])
  let ?err = "reply (''-ERR Not supported'' @ crlf)"
  let ?l2 = "''UT <'' @ r2 @ ''> <'' @ c2 @ ''>''"
  have b2: "drop 1 ?more = ?l2 @ crlf @ show_int n2 @ crlf @ w @ crlf @ ''.'' @ crlf @ []"
    by (simp add: push_command_def)
  have fits_left: "fits (show_int n2 @ crlf @ w @ crlf @ ''.'' @ crlf @ [])"
      "fits (w @ crlf @ ''.'' @ crlf @ [])" "fits (''.'' @ crlf @ [])"
    using fit(2) unfolding b2 by (simp_all add: fits_def)
  have "run_commands ?c2 = run_commands (?err (?c2\<lparr>ws := ss_set (show_int n2 @ crlf @ w @ crlf @ ''.'' @ crlf @ [])\<rparr>))"
    (is "_ = run_commands ?c3")
  proof (rule run_inert)
    show buf2: "ss_buf (ws ?c2) = ?l2 @ crlf @ show_int n2 @ crlf @ w @ crlf @ ''.'' @ crlf @ []"
      unfolding put_applied_def b2 by simp
    show "fits (ss_buf (ws ?c2))" using fit(2) unfolding b2 by (simp add: put_applied_def)
    show "CR \<notin> set ?l2" using assms(7,8) by (auto simp: plain_name_def)
    show "inert (?l2 @ crlf)" using inert_UT [of "'' <'' @ r2 @ ''> <'' @ c2 @ ''>'' @ crlf"] by simp
  qed
  also have "\<dots> = run_commands (?err (?c3\<lparr>ws := ss_set (w @ crlf @ ''.'' @ crlf @ [])\<rparr>))" (is "_ = run_commands ?c4")
    by (rule run_inert [of _ "show_int n2"]) (use fits_left inert_number assms(11) in auto)
  also have "\<dots> = run_commands (?err (?c4\<lparr>ws := ss_set (''.'' @ crlf @ [])\<rparr>))" (is "_ = run_commands ?c5")
    by (rule run_inert [of _ w]) (use fits_left assms(12,13) in auto)
  also have "\<dots> = run_commands (?err (?c5\<lparr>ws := ss_set []\<rparr>))"
    by (rule run_inert [of _ "''.''"]) (use fits_left inert_dot in auto)
  finally show ?thesis unfolding s1 by (simp add: run_commands_done put_applied_def)
qed

theorem pipelined_update_lost_witness:
  "\<exists>c'. run_commands ((demo_replica [])\<lparr>ws := ss_set
       (push_command ''r'' ''a'' (''1'' @ crlf) 1 @ push_command ''r'' ''b'' (''2'' @ crlf) 2)\<rparr>) = Ok c' \<and>
     cell_get (tbl c') (''r'', ''a'') = Some (''1'' @ crlf) \<and> cell_get (tbl c') (''r'', ''b'') = None"
proof -
  let ?c = "(demo_replica [])\<lparr>ws := ss_set
       (push_command ''r'' ''a'' (''1'' @ crlf) 1 @ push_command ''r'' ''b'' (''2'' @ crlf) 2)\<rparr>"
  have "log_open ?c" using demo_replica_simps(7) [of "[]"] by (simp add: log_open_def)
  moreover have "wire_safe (''1'' @ crlf)" by (simp add: wire_safe_def terminator_def crlf_def)
  moreover have "store_ok (tbl ?c) ''r'' ''a''" by (simp add: store_ok_def map_has_def)
  moreover have "inert (''2'' @ crlf)"
    by (simp add: inert_def is_cmd_prefix crlf_def toupper_digit is_digit_def)
  moreover have "fits (ss_buf (ws ?c))"
    by (simp add: push_command_def fits_def npos_def crlf_def show_int_def show_nat.simps)
  ultimately have "\<exists>c'. run_commands ?c = Ok c' \<and> tbl c' = cell_put (''r'', ''a'') (''1'' @ crlf) (tbl ?c) \<and>
      seqID (sstate c') = max (seqID (sstate ?c)) 1 \<and> ss_buf (ws c') = []"
    by (intro pipelined_update_lost [of _ _ _ _ "''r''" "''b''" 1 2 "''2''"])
       (simp_all add: plain_name_def name_ok_def long_max_def)
  moreover have "cell_get [] (''r'', ''b'') = None" by (simp add: cell_get_def row_of_def)
  ultimately show ?thesis by auto
qed

lemma read_until_silent:
  "sfind pat (acc @ concat cs) = None \<Longrightarrow> CHR 0x00 \<notin> set (acc @ concat cs) \<Longrightarrow>
   length (acc @ concat cs) < len \<Longrightarrow> read_until pat len acc (map Bytes cs) = Block"
proof (induction cs arbitrary: acc)
  case (Cons x cs)
  have none: "\<not> contains (acc @ x) pat"
    using Cons.prems(1) sfind_append [of pat "acc @ x" _ "concat cs"]
    by (cases "sfind pat (acc @ x)") (auto simp: contains_def)
  have "take (len - length acc) x = x" "rd_rest (len - length acc) x (map Bytes cs) = map Bytes cs"
    using Cons.prems(3) by (simp_all add: rd_rest_def)
  with Cons none show ?case by (simp add: read_until_Bytes Let_def)
qed simp

text \<open>
  A replica whose DELETE is cut after the command line never finishes it: it waits for the end of
  a value, which a delete does not have, so the sequence number that follows does not wake it up.
\<close>

theorem replica_delete_blocks:
  assumes "\<not> primary (sstate c)" "ss_buf (ws c) = []" "inp c = map Bytes cs"
    and "sfind terminator (concat cs) = None" "CHR 0x00 \<notin> set (concat cs)" "length (concat cs) < rlen"
  shows "parse_DELE row col c = Block"
proof -
  have "do_read_data rlen (map Bytes cs) = Block"
    using read_until_silent [of terminator "[]" cs rlen] assms(4-6) by (simp add: do_read_data_def)
  moreover have "find [] crlf 0 = npos" by (simp add: find_start crlf_def)
  ultimately have "fetch crlf [] (map Bytes cs) = Block" by (simp add: fetch.simps [of crlf "[]"])
  then show ?thesis using assms(1-3) by (simp add: parse_DELE_def dele_log_def)
qed

theorem replica_delete_blocks_witness:
  "parse_DELE ''r'' ''c'' (demo_replica [Bytes (''9'' @ crlf)]) = Block"
  by (rule replica_delete_blocks [where cs = "[''9'' @ crlf]"])
     (simp_all add: terminator_def crlf_def rlen_def)

end
