(* ===== verification/Recovery.thy ===== *)
theory Recovery
  imports Worker_Props
begin

text \<open>
  \<open>kvstore/dataserver.cc\<close>: the start of a data server, the periodic checkpoint, and the recovery of a
  restarted server: it asks the master for the primary, announces itself there, takes over
  checkpoint and log, and reports that it is ready. What master and primary send is given as the
  results of the reads on the two connections; what was written to them is part of the result.
\<close>

section \<open>The state of a starting server\<close>

record boot =
  b_tbl :: bmap
  b_state :: serverState
  b_disk :: filesys

section \<open>Talking to master and primary\<close>

definition recover_rlen :: nat where
  "recover_rlen = 1000"

text \<open>A request and the first line of the answer: what is left to read and the answer.\<close>

definition contactServer :: "string \<Rightarrow> rd list \<times> wconn \<Rightarrow> (string \<times> rd list \<times> wconn) res" where
  "contactServer request conn =
     (case conn of (es, out) \<Rightarrow>
        let out' = snd (conn_write out request)
        in and_then (do_read recover_rlen es) (\<lambda>(_, buf, es'). Ok (cstr buf, es', out')))"

text \<open>
  The loop of \<open>receiveCheckpoint\<close> and \<open>receiveLog\<close>: the end marker is looked for in the last
  buffer only.
\<close>

function receive_loop :: "string \<Rightarrow> string \<Rightarrow> rd list \<Rightarrow> (string \<times> rd list) res" where
  "receive_loop marker buffer es =
     (case do_read recover_rlen es of
        Ok (_, buf, es') \<Rightarrow>
          (if contains (cstr buf) (marker @ crlf) then Ok (buffer @ cstr buf, es')
           else receive_loop marker (buffer @ cstr buf) es')
      | Throw e \<Rightarrow> Throw e
      | Block \<Rightarrow> Block)"
  by pat_completeness auto
termination
proof (relation "measure (\<lambda>(marker, buffer, es). sum_list (map rd_size es))")
  fix marker buffer :: string and es q :: "rd list" and r p x y
  assume "do_read recover_rlen es = Ok r" "(x, p) = r" "(y, q) = p"
  then show "((marker, buffer @ cstr y, q), marker, buffer, es) \<in>
      measure (\<lambda>(marker, buffer, es). sum_list (map rd_size es))"
    using read_until_smaller [of crlf recover_rlen "[]" es x y q]
    by (auto simp: do_read_def recover_rlen_def)
qed simp

declare receive_loop.simps [simp del]

definition receiveCheckpoint :: "rd list \<Rightarrow> (string \<times> rd list) res" where
  "receiveCheckpoint es =
     and_then (receive_loop ''CHECKPOINT END'' [] es) (\<lambda>(tem, es').
     and_then (substr tem 0 (find tem ''CHECKPOINT END'' 0)) (\<lambda>data. Ok (data, es')))"

definition receiveLog :: "rd list \<Rightarrow> (string \<times> rd list) res" where
  "receiveLog es =
     and_then (receive_loop ''LOG END'' [] es) (\<lambda>(tem, es').
     and_then (substr tem 0 (find tem ''LOG END'' 0)) (\<lambda>data. Ok (data, es')))"

section \<open>Recovery\<close>

definition primary_request :: "int \<Rightarrow> string" where
  "primary_request node = ''PRIMARY '' @ show_int node @ crlf"

definition recovery_request :: "int \<Rightarrow> sockaddr_in \<Rightarrow> string" where
  "recovery_request seq a = ''RECOVERY '' @ show_int seq @ '' '' @ ip_to_string a @ crlf"

definition ready_request :: "sockaddr_in \<Rightarrow> string" where
  "ready_request a = ''READY '' @ ip_to_string a @ crlf"

text \<open>Steps 1 and 2: the master names the primary. \<open>None\<close> is the return value false.\<close>

definition ask_primary :: "netenv \<Rightarrow> rd list \<Rightarrow> serverState \<Rightarrow> (serverState option \<times> wconn) res" where
  "ask_primary nv es s =
     (if \<not> can_socket nv \<or> \<not> can_connect nv (master_addr s) then Ok (None, new_conn)
      else and_then (contactServer (primary_request (nodeID s)) (es, new_conn)) (\<lambda>(response, es, out).
           and_then (substr response 0 (find response '' '' 0)) (\<lambda>verb.
           if verb = ''+OK'' then
             and_then (substr response (szadd (find response '' '' 0) 1)
                         (szsub (szsub (find response crlf 0) (find response '' '' 0)) 1)) (\<lambda>newPrimaryAddr.
             and_then (setPrimaryAddr newPrimaryAddr s) (\<lambda>s'.
             and_then (contactServer (''QUIT'' @ crlf) (es, out)) (\<lambda>(_, _, out).
             Ok (Some s', out))))
           else Ok (None, out))))"

text \<open>Steps 5 and 6: local files if the primary answers +OK, otherwise its checkpoint.\<close>

definition recover_checkpoint_step ::
    "string \<Rightarrow> rd list \<Rightarrow> wconn \<Rightarrow> boot \<Rightarrow> (rd list \<times> wconn \<times> boot) res" where
  "recover_checkpoint_step response es out b =
     and_then (substr response 0 (find response '' '' 0)) (\<lambda>verb.
     if verb = ''+OK'' then
       and_then (recoverCheckpoint (b_state b) (b_disk b) (b_tbl b)) (\<lambda>(_, t1).
       and_then (recoverLog (b_state b) (b_disk b) t1) (\<lambda>(_, t2).
       Ok (es, out, b\<lparr>b_tbl := t2\<rparr>)))
     else
       and_then (receiveCheckpoint es) (\<lambda>(contents, es').
       let fs' = snd (write_file (b_disk b) (CHECKPOINTING_PATH (b_state b)) contents)
       in and_then (recoverCheckpoint (b_state b) fs' (b_tbl b)) (\<lambda>(_, t1).
          Ok (es', snd (conn_write out (''CHECKPOINT'' @ crlf)), b\<lparr>b_tbl := t1, b_disk := fs'\<rparr>))))"

text \<open>Step 7: the primary's log.\<close>

definition recover_log_step :: "rd list \<Rightarrow> wconn \<Rightarrow> boot \<Rightarrow> (rd list \<times> wconn \<times> boot) res" where
  "recover_log_step es out b =
     and_then (receiveLog es) (\<lambda>(contents, es').
     let fs' = snd (write_file (b_disk b) (LOG_PATH (b_state b)) contents)
     in and_then (recoverLog (b_state b) fs' (b_tbl b)) (\<lambda>(_, t).
        Ok (es', snd (conn_write out (''LOG'' @ crlf)), b\<lparr>b_tbl := t, b_disk := fs'\<rparr>)))"

text \<open>The whole recovery: the return value, what the primary was sent, and the server.\<close>

definition recoverProcess ::
    "netenv \<Rightarrow> rd list \<Rightarrow> rd list \<Rightarrow> boot \<Rightarrow> (bool \<times> wconn \<times> boot) res" where
  "recoverProcess nv from_master from_primary b =
     and_then (ask_primary nv from_master (b_state b)) (\<lambda>(asked, _).
     case asked of
       None \<Rightarrow> Ok (False, new_conn, b)
     | Some s \<Rightarrow>
         let b = b\<lparr>b_state := s\<rparr>
         in and_then (lastLogSeq s (b_disk b)) (\<lambda>seq.
            if \<not> can_connect nv (primary_addr s) then Ok (False, new_conn, b)
            else
              and_then (contactServer (recovery_request seq (my_addr s)) (from_primary, new_conn))
                (\<lambda>(response, es, out).
              and_then (recover_checkpoint_step response es out b) (\<lambda>(es, out, b).
              and_then (recover_log_step es out b) (\<lambda>(_, out, b).
              let out = snd (conn_write out (ready_request (my_addr s)));
                  out = snd (conn_write out (''QUIT'' @ crlf))
              in Ok (True, out, b))))))"

section \<open>Start and checkpoint thread\<close>

text \<open>The options of the command line, as \<open>getopt\<close> delivers them.\<close>

record options =
  opt_path :: "string option"
  opt_recover :: bool

text \<open>
  The part of \<open>main\<close> between the options and the accept loop; \<open>None\<close> is \<open>exit(1)\<close>. The bind is
  taken to succeed. A normal start deletes log and checkpoint.
\<close>

definition server_start ::
    "(nat \<Rightarrow> nat) \<Rightarrow> sockaddr_in \<Rightarrow> netenv \<Rightarrow> rd list \<Rightarrow> rd list \<Rightarrow> options \<Rightarrow>
     string \<Rightarrow> string \<Rightarrow> string \<Rightarrow> filesys \<Rightarrow> (boot \<times> backStore option) option res" where
  "server_start g junk nv from_master from_primary opts config node rep fs =
     (let s0 = (new_ServerState junk)\<lparr>status := 1\<rparr>;
          s1 = (case opt_path opts of None \<Rightarrow> s0 | Some p \<Rightarrow> setFilePath p s0);
          s2 = (if opt_recover opts then s1\<lparr>status := 2\<rparr> else s1);
          s3 = s2\<lparr>nodeID := atoi node, repID := atoi rep\<rparr>
      in and_then (server_init g junk fs config s3) (\<lambda>(_, s).
         let bs = (if primary s then Some (new_BackStore nv (server_list s) (repID s)) else None)
         in if status s = 2 then
              and_then (recoverProcess nv from_master from_primary
                          \<lparr>b_tbl = [], b_state = s\<lparr>primary := False\<rparr>, b_disk = fs\<rparr>) (\<lambda>(ok, _, b).
              if ok then Ok (Some (b\<lparr>b_state := (b_state b)\<lparr>status := 1\<rparr>\<rparr>, bs)) else Ok None)
            else
              let fs1 = (if file_exist fs (LOG_PATH s) then snd (delete_file fs (LOG_PATH s)) else fs);
                  fs2 = (if file_exist fs1 (CHECKPOINTING_PATH s)
                         then snd (delete_file fs1 (CHECKPOINTING_PATH s)) else fs1)
              in Ok (Some (\<lparr>b_tbl = [], b_state = s\<lparr>status := 1\<rparr>, b_disk = fs2\<rparr>, bs))))"

text \<open>One round of the checkpoint thread, every 30 seconds.\<close>

definition checkPointingThread :: "worker \<Rightarrow> worker" where
  "checkPointingThread c =
     (if canCheckpoint (sstate c) then c\<lparr>disk := snd (writeToDisk (sstate c) (tbl c) (disk c))\<rparr> else c)"

text \<open>
  The connection made for an accepted descriptor: its count and whether the descriptor is still
  open. A connection from the master is closed before it is queued.
\<close>

definition accept_task :: "serverState \<Rightarrow> sockaddr_in \<Rightarrow> int \<Rightarrow> (int \<times> bool) \<times> int" where
  "accept_task s client count =
     (if ip_to_string client = ip_to_string (master_addr s) then ((0, False), count)
      else if ip_to_string client = ip_to_string (primary_addr s) then ((0, True), count)
      else ((wrap_long (count + 1), True), wrap_long (count + 1)))"

section \<open>Properties\<close>

lemma ip_to_string_chars: "CHR '' '' \<notin> set (ip_to_string a)" "CHR '':'' \<in> set (ip_to_string a)"
  by (cases "sin_addr a", simp add: ip_to_string_def)+

lemma show_int_no_colon: "CHR '':'' \<notin> set (show_int i)"
  by (rule show_int_absent) (simp_all add: is_digit_def)

lemma recover_number: "bs_recover (show_int seq) bs = (False, bs)"
proof (rule recover_unknown)
  have "ip_to_string (r_addr r) \<noteq> show_int seq" for r :: replicate
    using ip_to_string_chars(2) [of "r_addr r"] show_int_no_colon [of seq] by metis
  then show "node_at bs (show_int seq) = None"
    by (simp add: node_at_def find_None_iff)
qed

lemma ip_length: "addr_ok a \<Longrightarrow> length (ip_to_string a) \<le> 30"
proof -
  assume ok: "addr_ok a"
  obtain p q r s where o4: "sin_addr a = (p, q, r, s)" by (cases "sin_addr a")
  have "length (show_nat n) \<le> 3" if "n < 256" for n using show_nat_short [of n 3] that by simp
  then have "length (show_nat p) \<le> 3" "length (show_nat q) \<le> 3" "length (show_nat r) \<le> 3"
      "length (show_nat s) \<le> 3"
    using ok by (simp_all add: addr_ok_def o4)
  moreover have "length (show_nat (sin_port a)) \<le> 5"
    using show_nat_short [of "sin_port a" 5] ok by (simp add: addr_ok_def)
  moreover have "length (ip_to_string a) = length (show_nat p) + length (show_nat q) + length (show_nat r) +
      length (show_nat s) + length (show_nat (sin_port a)) + 4"
    by (simp add: ip_to_string_def o4)
  ultimately show ?thesis by linarith
qed

text \<open>
  The recovery request is misread: a restarting server sends the sequence number before its
  address, the primary's worker expects the address first. So no replica is marked as recovering (the
  updates made during the transfer are not held back for it), and whether it gets the log or the
  checkpoint depends on the first number of its IP address instead of its sequence number.
\<close>

theorem recovery_request_misread:
  assumes "bstore c = Some bs" "0 \<le> seq" "seq \<le> long_max" "addr_ok a" "sin_addr a = (p, q, r, s)"
    and "findVersionNum (sstate c) (disk c) = Ok vn"
  shows "parse_RECOVERY (recovery_request seq a) c =
    Ok (reply (if vn \<le> int p then ''+OK tansfering log'' @ crlf else ''-ERR tansfering checkpoint file'' @ crlf)
          (c\<lparr>sstate := pauseCheckpoint (sstate c)\<rparr>))"
proof -
  let ?n = "show_int seq" and ?ip = "ip_to_string a"
  let ?rest = "?n @ '' '' @ ?ip @ crlf"
  have n: "length ?n \<le> 20" using assms(2,3) by (rule show_int_short)
  have ip: "length ?ip \<le> 30" using assms(4) by (rule ip_length)
  have cmd: "recovery_request seq a = ''RECOVERY'' @ CHR '' '' # ?rest" by (simp add: recovery_request_def)
  have s1: "find (''RECOVERY'' @ CHR '' '' # ?rest) '' '' 0 = length ''RECOVERY''" by (rule find_char) simp
  have a1: "szadd (length ''RECOVERY'') 1 = 9" by (simp add: npos_def)
  have r1: "substr (''RECOVERY'' @ CHR '' '' # ?rest) 9 npos = Ok ?rest"
    using n ip by (simp add: npos_def crlf_def)
  have s2: "find ?rest '' '' 0 = length ?n"
    using find_char [of "CHR '' ''" ?n "?ip @ crlf"] by simp
  have r2: "substr ?rest 0 (length ?n) = Ok ?n" by simp
  have a2: "szadd (length ?n) 1 = length ?n + 1" using n by (simp add: npos_def)
  have r3: "substr ?rest (length ?n + 1) npos = Ok (?ip @ crlf)"
    using n ip by (simp add: npos_def crlf_def)
  have s3: "find (?ip @ crlf) '' '' 0 = npos"
    by (rule find_npos) (simp add: ip_to_string_chars crlf_def)
  have r4: "substr (?ip @ crlf) 0 npos = Ok (?ip @ crlf)" using ip by (simp add: npos_def crlf_def)
  have "strtol (show_nat p @ (''.'' @ show_nat q @ ''.'' @ show_nat r @ ''.'' @ show_nat s @ '':'' @
      show_nat (sin_port a) @ crlf)) = Some (int p)"
    by (rule strtol_show_nat) (simp add: is_digit_def)
  then have num: "stol (?ip @ crlf) = Ok (int p)"
    using assms(4) by (simp add: stol_def ip_to_string_def assms(5) addr_ok_def long_max_def long_min_def)
  let ?c = "c\<lparr>sstate := pauseCheckpoint (sstate c)\<rparr>"
  have bst: "bstore ?c = Some bs" by (simp add: assms(1))
  have version: "findVersionNum (pauseCheckpoint (sstate c)) (disk c) = Ok vn"
  proof -
    have "findVersionNum (pauseCheckpoint (sstate c)) (disk c) = findVersionNum (sstate c) (disk c)"
      by (simp add: findVersionNum_def pauseCheckpoint_def)
    with assms(6) show ?thesis by simp
  qed
  have same: "?c\<lparr>bstore := Some bs\<rparr> = ?c" using assms(1) by simp
  show ?thesis
    unfolding parse_RECOVERY_def Let_def cmd s1 a1 r1 and_then.simps s2 r2 bst option.case recover_number
      snd_conv a2 r3 s3 r4 num same
    by (simp add: version)
qed

theorem recovery_request_misread_witness:
  "parse_RECOVERY (recovery_request 500 (localhost 5000)) (demo_server []) =
     Ok (reply (''+OK tansfering log'' @ crlf)
          ((demo_server [])\<lparr>sstate := pauseCheckpoint (sstate (demo_server []))\<rparr>))"
proof -
  have "findVersionNum (sstate (demo_server [])) (disk (demo_server [])) = Ok 0"
    by (simp add: findVersionNum_def file_exist_def demo_server_def)
  then have "parse_RECOVERY (recovery_request 500 (localhost 5000)) (demo_server []) =
    Ok (reply (if 0 \<le> int 127 then ''+OK tansfering log'' @ crlf else ''-ERR tansfering checkpoint file'' @ crlf)
          ((demo_server [])\<lparr>sstate := pauseCheckpoint (sstate (demo_server []))\<rparr>))"
    by (intro recovery_request_misread) (simp_all add: long_max_def localhost_def addr_ok_def)
  then show ?thesis by simp
qed

lemma receive_loop_chunk:
  assumes "CHR 0x00 \<notin> set x" "length x < recover_rlen" "contains x crlf"
  shows "receive_loop marker buffer (Bytes x # es) =
    (if contains x (marker @ crlf) then Ok (buffer @ x, es) else receive_loop marker (buffer @ x) es)"
proof -
  have "do_read recover_rlen (Bytes x # es) = Ok (True, x, es)"
    using assms by (simp add: do_read_def read_until_Bytes rd_rest_def recover_rlen_def)
  then show ?thesis using assms(1) by (simp add: receive_loop.simps [of marker buffer "Bytes x # es"])
qed

lemma receive_loop_silent: "receive_loop marker buffer [] = Block"
  by (simp add: receive_loop.simps [of marker buffer "[]"] do_read_def recover_rlen_def)

text \<open>
  The log transfer: an end marker that arrives in one piece with the log ends it, and the log is
  taken over unchanged. An end marker cut by the network after a complete line is missed, and the
  restarting server waits for ever.
\<close>

theorem log_transfer:
  assumes "CHR 0x00 \<notin> set logged_text" "length logged_text < 900"
    and "sfind ''LOG END'' (logged_text @ ''LOG END'' @ crlf) = Some (length logged_text)"
  shows "receiveLog (Bytes (logged_text @ ''LOG END'' @ crlf) # es) = Ok (logged_text, es) \<and>
    receiveLog [Bytes (logged_text @ crlf @ ''LOG EN''), Bytes (''D'' @ crlf)] = Block"
proof -
  let ?x = "logged_text @ ''LOG END'' @ crlf"
  have nul: "CHR 0x00 \<notin> set ?x" using assms(1) by (simp add: crlf_def)
  have len: "length ?x < recover_rlen" using assms(2) by (simp add: recover_rlen_def crlf_def)
  have c1: "contains ?x crlf" "contains ?x (''LOG END'' @ crlf)"
    using sfind_middle [of crlf "logged_text @ ''LOG END''" "[]"] sfind_middle [of "''LOG END'' @ crlf" logged_text "[]"]
    by (simp_all add: contains_def)
  have pos: "find ?x ''LOG END'' 0 = length logged_text" using assms(3) by (simp add: find_start)
  have one: "receiveLog (Bytes ?x # es) = Ok (logged_text, es)"
    unfolding receiveLog_def receive_loop_chunk [OF nul len c1(1)] by (simp add: c1(2) [simplified] pos [simplified])
  let ?y = "logged_text @ crlf @ ''LOG EN''"
  have "CHR 0x00 \<notin> set ?y" "length ?y < recover_rlen" "contains ?y crlf"
    using assms(1,2) sfind_middle [of crlf logged_text "''LOG EN''"]
    by (simp_all add: recover_rlen_def crlf_def contains_def)
  note y = receive_loop_chunk [OF this]
  have "sfind ''LOG END'' logged_text = None"
    using assms(3) sfind_append [of "''LOG END''" logged_text _ "''LOG END'' @ crlf"] sfind_length [of "''LOG END''" logged_text]
    by (cases "sfind ''LOG END'' logged_text") fastforce+
  then have "sfind ''LOG END'' ((logged_text @ CR # [LF]) @ ''LOG EN'') = None"
    using sfind_barrier [of CR "''LOG END''" logged_text "LF # ''LOG EN''"] by simp
  then have "\<not> contains ?y (''LOG END'' @ crlf)"
    using sfind_prefix [of "''LOG END''" ?y crlf] by (simp add: contains_def crlf_def)
  moreover have "receive_loop ''LOG END'' ?y [Bytes (''D'' @ crlf)] = Block"
    using receive_loop_chunk [of "''D'' @ crlf" "''LOG END''" ?y "[]"] receive_loop_silent
    by (simp add: crlf_def recover_rlen_def contains_def)
  ultimately have "receiveLog [Bytes ?y, Bytes (''D'' @ crlf)] = Block"
    unfolding receiveLog_def y by simp
  with one show ?thesis by blast
qed

theorem log_transfer_witness:
  "receiveLog [Bytes (delete_record ''r'' ''c'' 1 @ ''LOG END'' @ crlf)] = Ok (delete_record ''r'' ''c'' 1, [])"
proof -
  have one: "show_int 1 = [digit_char 1]" by (simp add: show_int_def show_nat.simps)
  have d: "is_digit (digit_char 1)" by (rule is_digit_char) simp
  have "digit_char 1 \<noteq> x" if "\<not> is_digit x" for x using d that by metis
  from this [of "CHR 0x00"] this [of "CHR ''L''"] this [of CR]
  have "digit_char 1 \<noteq> CHR 0x00 \<and> digit_char 1 \<noteq> CHR ''L'' \<and> digit_char 1 \<noteq> CR"
    by (simp add: is_digit_def)
  then have "receiveLog (Bytes (delete_record ''r'' ''c'' 1 @ ''LOG END'' @ crlf) # []) = Ok (delete_record ''r'' ''c'' 1, []) \<and>
    receiveLog [Bytes (delete_record ''r'' ''c'' 1 @ crlf @ ''LOG EN''), Bytes (''D'' @ crlf)] = Block"
    by (intro log_transfer) (auto simp: delete_record_def one)
  then show ?thesis by simp
qed

end
