(* ===== verification/Master.thy ===== *)
theory Master
  imports Worker_Props "HOL-Library.Multiset"
begin

text \<open>
  \<open>kvstore/master\<close>: the master's configuration (\<open>master.cc\<close>), the nodes with their heartbeat and
  promotion (\<open>master.h\<close>), and the worker that tells clients which node stores a row
  (\<open>masterWorker.cc\<close>). Which servers accept connections is the parameter \<open>up\<close>; a server that
  accepts one is taken to answer.
\<close>

section \<open>Nodes\<close>

record node =
  rep_addrs :: "sockaddr_in list"
  n_primary :: sockaddr_in
  n_id :: int
  row_num :: int
  running :: bool

text \<open>A message that reached a server.\<close>

type_synonym message = "sockaddr_in \<times> string"

text \<open>
  The loop of \<open>multicastNodes\<close>: the connection object of an iteration closes the socket when it is
  destroyed, so after the first success the descriptor is not open any more.
\<close>

fun multicast_loop :: "(sockaddr_in \<Rightarrow> bool) \<Rightarrow> string \<Rightarrow> bool \<Rightarrow> sockaddr_in list \<Rightarrow> message list" where
  "multicast_loop up command fd_open [] = []"
| "multicast_loop up command fd_open (a # as) =
     (if fd_open \<and> up a then (a, command) # multicast_loop up command False as
      else multicast_loop up command fd_open as)"

definition multicastNodes :: "(sockaddr_in \<Rightarrow> bool) \<Rightarrow> string \<Rightarrow> node \<Rightarrow> message list" where
  "multicastNodes up command n = multicast_loop up command True (rep_addrs n)"

definition promote_request :: "sockaddr_in \<Rightarrow> string" where
  "promote_request a = ''PROMOTE '' @ ip_to_string a @ crlf"

fun promote_loop :: "(sockaddr_in \<Rightarrow> bool) \<Rightarrow> node \<Rightarrow> sockaddr_in list \<Rightarrow> message list \<times> node" where
  "promote_loop up n [] = ([], n)"
| "promote_loop up n (a # as) =
     (if up a then (multicastNodes up (promote_request a) n, n\<lparr>n_primary := a, running := True\<rparr>)
      else promote_loop up n as)"

definition promoteNewPrimary :: "(sockaddr_in \<Rightarrow> bool) \<Rightarrow> node \<Rightarrow> message list \<times> node" where
  "promoteNewPrimary up n = promote_loop up n (rep_addrs n)"

text \<open>\<open>alive_ok\<close>: does the write of \<open>ALIVE\<close> on the connection to the primary succeed?\<close>

definition heartbeat :: "(sockaddr_in \<Rightarrow> bool) \<Rightarrow> bool \<Rightarrow> node \<Rightarrow> message list \<times> node" where
  "heartbeat up alive_ok n =
     (if \<not> running n then promoteNewPrimary up n
      else if alive_ok then ([(n_primary n, ''ALIVE'' @ crlf)], n)
      else promoteNewPrimary up (n\<lparr>running := False\<rparr>))"

section \<open>Configuration\<close>

record master =
  m_addr :: sockaddr_in
  nodes_list :: "node list"
  node_index :: "(string, int) smap"

text \<open>
  One line: the primary is the first address, the replicas are all of them. (When there is no comma,
  \<open>line.substr(pos + 1)\<close> is the whole line, but the loop over it does not run.)
\<close>

definition init_node :: "sockaddr_in \<Rightarrow> int \<Rightarrow> string \<Rightarrow> node res" where
  "init_node junk i line =
     and_then (map_res (string_to_ip junk) (split_on CHR '','' line)) (\<lambda>as.
     Ok \<lparr>rep_addrs = as, n_primary = hd as, n_id = i, row_num = 0, running = False\<rparr>)"

fun init_nodes :: "sockaddr_in \<Rightarrow> int \<Rightarrow> string list \<Rightarrow> node list res" where
  "init_nodes junk i [] = Ok []"
| "init_nodes junk i (line # ls) =
     and_then (init_node junk i line) (\<lambda>n.
     and_then (init_nodes junk (i + 1) ls) (\<lambda>ns. Ok (n # ns)))"

definition master_init :: "sockaddr_in \<Rightarrow> filesys \<Rightarrow> string \<Rightarrow> master option res" where
  "master_init junk fs filename =
     (case fs_file fs filename of
        None \<Rightarrow> Ok None
      | Some contents \<Rightarrow>
          (let ls = getlines contents; m_addr_str = (case ls of [] \<Rightarrow> [] | l # _ \<Rightarrow> l)
           in and_then (string_to_ip junk m_addr_str) (\<lambda>a.
              and_then (init_nodes junk 0 (tl ls)) (\<lambda>ns.
              Ok (Some \<lparr>m_addr = a, nodes_list = ns, node_index = []\<rparr>)))))"

text \<open>One round of the heartbeat thread over all nodes.\<close>

definition heartbeat_round ::
    "(sockaddr_in \<Rightarrow> bool) \<Rightarrow> (sockaddr_in \<Rightarrow> bool) \<Rightarrow> master \<Rightarrow> message list \<times> master" where
  "heartbeat_round up alive_ok m =
     (let rs = map (\<lambda>n. heartbeat up (alive_ok (n_primary n)) n) (nodes_list m)
      in (concat (map fst rs), m\<lparr>nodes_list := map snd rs\<rparr>))"

section \<open>The worker\<close>

record mworker =
  mst :: master
  m_inp :: "rd list"
  m_task :: wconn
  m_wait :: string
  m_run :: bool

definition m_rlen :: nat where
  "m_rlen = 1000"

definition m_reply :: "string \<Rightarrow> mworker \<Rightarrow> mworker" where
  "m_reply s c = c\<lparr>m_task := snd (conn_write (m_task c) s)\<rparr>"

definition m_strnicmp :: "string \<Rightarrow> string \<Rightarrow> nat \<Rightarrow> int" where
  "m_strnicmp s1 s2 n = strnicmp s1 s2 n"

definition m_extract_command :: "string \<Rightarrow> (string \<times> string) option" where
  "m_extract_command buf =
     (let s = find buf crlf 0
      in if s \<noteq> npos then Some (take (s + 2) buf, drop (s + 2) buf) else None)"

definition m_parse_LIST :: "mworker \<Rightarrow> mworker" where
  "m_parse_LIST c =
     m_reply (''.'' @ crlf) (foldl (\<lambda>c e. m_reply (fst e @ crlf) c) c (node_index (mst c)))"

definition state_line :: "(sockaddr_in \<Rightarrow> bool) \<Rightarrow> nat \<Rightarrow> nat \<Rightarrow> sockaddr_in \<Rightarrow> string" where
  "state_line up i j a =
     show_nat i @ ''|'' @ show_nat j @ ''|'' @ ip_to_string a @ ''|'' @
     (if up a then ''alive'' else ''down'') @ [LF]"

definition m_parse_STATES :: "(sockaddr_in \<Rightarrow> bool) \<Rightarrow> mworker \<Rightarrow> mworker" where
  "m_parse_STATES up c =
     m_reply crlf (foldl (\<lambda>c s. m_reply s c) c
       (concat (map (\<lambda>(i, n). map (\<lambda>(j, a). state_line up i j a) (enumerate 0 (rep_addrs n)))
          (enumerate 0 (nodes_list (mst c))))))"

definition m_parse_PRIMARY :: "string \<Rightarrow> mworker \<Rightarrow> mworker res" where
  "m_parse_PRIMARY command c =
     (let pos = szadd (find command '' '' 0) 1
      in and_then (substr command pos (szsub (find command crlf 0) pos)) (\<lambda>s.
         let node_no = atoi (cstr s)
         in if 0 \<le> node_no \<and> node_no < int (length (nodes_list (mst c)))
            then Ok (m_reply (''+OK '' @ ip_to_string (n_primary (nodes_list (mst c) ! nat node_no)) @ crlf) c)
            else Ok (m_reply (''-ERR'' @ crlf) c)))"

subsection \<open>WHERE\<close>

text \<open>
  The search for the node with the fewest rows, from index \<open>i\<close> on.
\<close>

fun min_loop :: "node list \<Rightarrow> int \<Rightarrow> int \<Rightarrow> int" where
  "min_loop [] mn minID = minID"
| "min_loop (n # ns) mn minID =
     (if row_num n < mn then min_loop ns (row_num n) (n_id n) else min_loop ns mn minID)"

definition server_reply :: "sockaddr_in \<Rightarrow> string" where
  "server_reply a = ''SERVER <'' @ ip_to_string a @ ''>'' @ crlf"

text \<open>
  The two parts of \<open>parse_WHERE\<close>: the test under the first lock, and what follows it. Between them
  another worker may run.
\<close>

definition where_exists :: "string \<Rightarrow> master \<Rightarrow> bool" where
  "where_exists row m = map_has (node_index m) row"

definition where_finish :: "string \<Rightarrow> bool \<Rightarrow> master \<Rightarrow> (string \<times> master) res" where
  "where_finish row is_exist m =
     (if \<not> is_exist then
        (case nodes_list m of
           [] \<Rightarrow> Throw Bad_index
         | n0 # _ \<Rightarrow>
             let minID = min_loop (nodes_list m) (row_num n0) 0; k = nat minID
             in if 0 \<le> minID \<and> minID < int (length (nodes_list m)) then
                  Ok (server_reply (n_primary (nodes_list m ! k)),
                      m\<lparr>node_index := map_insert row minID (node_index m),
                        nodes_list := (nodes_list m)[k := (nodes_list m ! k)\<lparr>row_num := wrap_int (row_num (nodes_list m ! k) + 1)\<rparr>]\<rparr>)
                else Throw Bad_index)
      else
        (case map_at (node_index m) row of
           None \<Rightarrow> Throw Bad_index
         | Some node_no \<Rightarrow>
             if 0 \<le> node_no \<and> node_no < int (length (nodes_list m))
             then Ok (server_reply (n_primary (nodes_list m ! nat node_no)), m)
             else Throw Bad_index))"

definition where_row :: "string \<Rightarrow> string res" where
  "where_row command =
     (let startPos = szadd (find command ''<'' 0) 1
      in substr command startPos (szsub (find command ''>'' 0) startPos))"

definition m_parse_WHERE :: "string \<Rightarrow> mworker \<Rightarrow> mworker res" where
  "m_parse_WHERE command c =
     and_then (where_row command) (\<lambda>row.
     and_then (where_finish row (where_exists row (mst c)) (mst c)) (\<lambda>(r, m').
     Ok (m_reply r (c\<lparr>mst := m'\<rparr>))))"

subsection \<open>The loop\<close>

definition m_is_cmd :: "string \<Rightarrow> string \<Rightarrow> bool" where
  "m_is_cmd command name \<longleftrightarrow> m_strnicmp (cstr command) name (length name) = 0"

definition m_dispatch :: "(sockaddr_in \<Rightarrow> bool) \<Rightarrow> string \<Rightarrow> mworker \<Rightarrow> mworker res" where
  "m_dispatch up command c =
     (if m_is_cmd command ''QUIT'' then
        Ok ((m_reply (''+OK server signing off'' @ crlf) c)\<lparr>m_run := False\<rparr>)
      else if m_is_cmd command ''WHERE'' then m_parse_WHERE command c
      else if m_is_cmd command ''PRIMARY'' then m_parse_PRIMARY command c
      else if m_is_cmd command ''LIST'' then Ok (m_parse_LIST c)
      else if m_is_cmd command ''STATES'' then Ok (m_parse_STATES up c)
      else Ok (m_reply (''-ERR Not supported'' @ crlf) c))"

text \<open>Every complete line in \<open>wait\<close>; what is left stays there.\<close>

function m_commands :: "(sockaddr_in \<Rightarrow> bool) \<Rightarrow> string \<Rightarrow> mworker \<Rightarrow> (string \<times> mworker) res" where
  "m_commands up w c =
     (case m_extract_command w of
        None \<Rightarrow> Ok (w, c)
      | Some (command, w') \<Rightarrow> and_then (m_dispatch up command c) (m_commands up w'))"
  by pat_completeness auto
termination
proof (relation "measure (\<lambda>(up, w, c). length w)")
  fix up :: "sockaddr_in \<Rightarrow> bool" and w w' command c c' x
  assume "m_extract_command w = Some x" "(command, w') = x"
  then have "w' = drop (find w crlf 0 + 2) w" "find w crlf 0 \<noteq> npos"
    by (auto simp: m_extract_command_def Let_def split: if_split_asm)
  moreover from this(2) have "find w crlf 0 + 2 \<le> length w"
    using find_cases [of w crlf 0 "find w crlf 0 + 2 \<le> length w"] by (simp add: crlf_def)
  ultimately show "((up, w', c'), up, w, c) \<in> measure (\<lambda>(up, w, c). length w)" by simp
qed simp

declare m_commands.simps [simp del]

text \<open>
  One round of \<open>run\<close>. \<open>wait\<close> has 1000 bytes: a longer line overruns it.
\<close>

definition m_run_step :: "(sockaddr_in \<Rightarrow> bool) \<Rightarrow> mworker \<Rightarrow> mworker res" where
  "m_run_step up c =
     and_then (master_do_read m_rlen (m_inp c)) (\<lambda>(_, buf, rest).
     if length (m_wait c @ cstr buf) < m_rlen
     then and_then (m_commands up (m_wait c @ cstr buf) (c\<lparr>m_inp := rest\<rparr>)) (\<lambda>(w, c').
          Ok (c'\<lparr>m_wait := w\<rparr>))
     else Throw Bad_index)"

section \<open>The directory of rows\<close>

text \<open>The rows assigned to a node.\<close>

definition rows_at :: "master \<Rightarrow> int \<Rightarrow> nat" where
  "rows_at m i = size (filter_mset (\<lambda>e. snd e = i) (mset (node_index m)))"

definition master_ok :: "master \<Rightarrow> bool" where
  "master_ok m \<longleftrightarrow>
     (\<forall>i < length (nodes_list m). n_id (nodes_list m ! i) = int i \<and>
        row_num (nodes_list m ! i) = int (rows_at m (int i))) \<and>
     (\<forall>e \<in> set (node_index m). 0 \<le> snd e \<and> snd e < int (length (nodes_list m)))"

text \<open>No node has two rows more than another.\<close>

definition balanced :: "master \<Rightarrow> bool" where
  "balanced m \<longleftrightarrow> (\<forall>i < length (nodes_list m). \<forall>j < length (nodes_list m).
     row_num (nodes_list m ! i) \<le> row_num (nodes_list m ! j) + 1)"

lemma mset_map_insert: "map_at m k = None \<Longrightarrow> mset (map_insert k v m) = add_mset (k, v) (mset m)"
  by (induction k v m rule: map_insert.induct) (auto split: if_splits)

text \<open>The search finds a node with the fewest rows.\<close>

lemma min_loop_least:
  assumes "\<forall>i < length (pre @ ns). n_id ((pre @ ns) ! i) = int i"
    and "0 \<le> minID" "minID < int (length (pre @ ns))" "mn = row_num ((pre @ ns) ! nat minID)"
    and "\<forall>i < length pre. mn \<le> row_num (pre ! i)"
  shows "0 \<le> min_loop ns mn minID \<and> min_loop ns mn minID < int (length (pre @ ns)) \<and>
    (\<forall>i < length (pre @ ns). row_num ((pre @ ns) ! nat (min_loop ns mn minID)) \<le> row_num ((pre @ ns) ! i))"
  using assms
proof (induction ns arbitrary: pre mn minID)
  case (Cons n ns)
  have all: "(pre @ [n]) @ ns = pre @ n # ns" by simp
  have id: "n_id n = int (length pre)"
    using Cons.prems(1) by (metis length_append_singleton length_append length_Cons less_add_Suc1
        nth_append_length append_assoc)
  show ?case
  proof (cases "row_num n < mn")
    case True
    have "\<forall>i < length (pre @ [n]). row_num n \<le> row_num ((pre @ [n]) ! i)"
      using True Cons.prems(5) by (auto simp: nth_append less_Suc_eq)
    with Cons.IH [of "pre @ [n]" "n_id n" "row_num n"] Cons.prems(1) True show ?thesis
      by (simp add: id nth_append)
  next
    case False
    have "\<forall>i < length (pre @ [n]). mn \<le> row_num ((pre @ [n]) ! i)"
      using False Cons.prems(5) by (auto simp: nth_append less_Suc_eq)
    with Cons.IH [of "pre @ [n]" minID mn] Cons.prems False show ?thesis by simp
  qed
qed simp

lemma where_new:
  assumes "master_ok m" "nodes_list m \<noteq> []" "map_at (node_index m) row = None"
    and "length (node_index m) < 2147483647"
  shows "\<exists>k < length (nodes_list m).
    (\<forall>i < length (nodes_list m). row_num (nodes_list m ! k) \<le> row_num (nodes_list m ! i)) \<and>
    where_finish row False m = Ok (server_reply (n_primary (nodes_list m ! k)),
      m\<lparr>node_index := map_insert row (int k) (node_index m),
        nodes_list := (nodes_list m)[k := (nodes_list m ! k)\<lparr>row_num := row_num (nodes_list m ! k) + 1\<rparr>]\<rparr>)"
proof -
  let ?ns = "nodes_list m"
  obtain n0 rest where ns: "?ns = n0 # rest" using assms(2) by (cases ?ns) auto
  let ?r = "min_loop ?ns (row_num n0) 0"
  have r: "0 \<le> ?r \<and> ?r < int (length ?ns) \<and> (\<forall>i < length ?ns. row_num (?ns ! nat ?r) \<le> row_num (?ns ! i))"
    using min_loop_least [of "[]" ?ns 0 "row_num n0"] assms(1) by (simp add: master_ok_def ns)
  then obtain k where k: "?r = int k" "k < length ?ns" by (metis nat_0_le of_nat_less_iff)
  have "row_num (?ns ! k) = int (rows_at m (int k))" using assms(1) k(2) by (simp add: master_ok_def)
  moreover have "rows_at m (int k) \<le> length (node_index m)"
    unfolding rows_at_def by (metis size_filter_mset_lesseq size_mset)
  ultimately have "wrap_int (row_num (?ns ! k) + 1) = row_num (?ns ! k) + 1"
    using assms(4) by (simp add: wrap_int_def)
  with r k show ?thesis
    by (intro exI [of _ k]) (simp add: where_finish_def ns Let_def)
qed

lemma rows_at_new:
  "map_at (node_index m) row = None \<Longrightarrow>
     rows_at (m\<lparr>node_index := map_insert row v (node_index m), nodes_list := ns\<rparr>) i =
     (if i = v then Suc (rows_at m i) else rows_at m i)"
  by (simp add: rows_at_def mset_map_insert)

lemma where_new_ok:
  assumes "master_ok m" "balanced m" "map_at (node_index m) row = None" "k < length (nodes_list m)"
    and "\<forall>i < length (nodes_list m). row_num (nodes_list m ! k) \<le> row_num (nodes_list m ! i)"
    and "m' = m\<lparr>node_index := map_insert row (int k) (node_index m),
        nodes_list := (nodes_list m)[k := (nodes_list m ! k)\<lparr>row_num := row_num (nodes_list m ! k) + 1\<rparr>]\<rparr>"
  shows "master_ok m' \<and> balanced m'"
proof
  have num: "row_num (nodes_list m' ! i) = row_num (nodes_list m ! i) + (if i = k then 1 else 0)"
    if "i < length (nodes_list m)" for i
    using that assms(4) by (simp add: assms(6) nth_list_update)
  have id: "n_id (nodes_list m' ! i) = n_id (nodes_list m ! i)" if "i < length (nodes_list m)" for i
    using that assms(4) by (simp add: assms(6) nth_list_update)
  have len: "length (nodes_list m') = length (nodes_list m)" by (simp add: assms(6))
  have rows: "rows_at m' (int i) = rows_at m (int i) + (if i = k then 1 else 0)" for i
    using rows_at_new [OF assms(3)] by (simp add: assms(6))
  have "set (node_index m') \<subseteq> insert (row, int k) (set (node_index m))"
    using set_map_insert [of row "int k" "node_index m"] by (simp add: assms(6))
  then have "\<forall>e \<in> set (node_index m'). 0 \<le> snd e \<and> snd e < int (length (nodes_list m))"
    using assms(1,4) by (auto simp: master_ok_def)
  then show "master_ok m'"
    using assms(1) num id rows by (simp add: master_ok_def len)
  show "balanced m'"
    unfolding balanced_def len
  proof (intro allI impI)
    fix i j assume i: "i < length (nodes_list m)" and j: "j < length (nodes_list m)"
    have "row_num (nodes_list m ! i) \<le> row_num (nodes_list m ! j) + 1"
      using assms(2) i j by (simp add: balanced_def)
    moreover have "row_num (nodes_list m ! k) \<le> row_num (nodes_list m ! j)" using assms(5) j by simp
    ultimately show "row_num (nodes_list m' ! i) \<le> row_num (nodes_list m' ! j) + 1"
      using i j by (cases "j = k") (simp_all add: num)
  qed
qed

text \<open>The primary of a node does not change when rows are assigned.\<close>

definition same_primaries :: "master \<Rightarrow> master \<Rightarrow> bool" where
  "same_primaries m m' \<longleftrightarrow> map n_primary (nodes_list m) = map n_primary (nodes_list m')"

lemma where_known:
  assumes "master_ok m" "map_at (node_index m) row = Some i"
  shows "where_finish row True m = Ok (server_reply (n_primary (nodes_list m ! nat i)), m)"
proof -
  have "(row, i) \<in> set (node_index m)" using assms(2) by (simp add: map_at_map_of map_of_SomeD)
  with assms show ?thesis by (auto simp: where_finish_def master_ok_def)
qed

text \<open>
  C22. The directory of the master: a WHERE for a known row changes nothing; a new row goes to a node
  with the fewest rows. In both cases the row counts stay those of the directory and no two nodes
  differ by more than one row, other rows keep their node, and asking again gives the same server.
\<close>

theorem where_sticky_balanced:
  assumes "master_ok m" "balanced m" "nodes_list m \<noteq> []" "length (node_index m) < 2147483647"
  shows "\<exists>r m'. where_finish row (where_exists row m) m = Ok (r, m') \<and> master_ok m' \<and> balanced m' \<and>
    (\<forall>row'. row' \<noteq> row \<longrightarrow> map_at (node_index m') row' = map_at (node_index m) row') \<and>
    (where_exists row m \<longrightarrow> m' = m) \<and> where_finish row (where_exists row m') m' = Ok (r, m')"
proof (cases "map_at (node_index m) row")
  case (Some i)
  then have ex: "where_exists row m = True" by (simp add: where_exists_def map_has_def)
  show ?thesis unfolding ex using where_known [OF assms(1) Some] assms(1,2) ex by auto
next
  case None
  then have ex: "where_exists row m = False" by (simp add: where_exists_def map_has_def)
  obtain k m' where k: "k < length (nodes_list m)"
      "\<forall>i < length (nodes_list m). row_num (nodes_list m ! k) \<le> row_num (nodes_list m ! i)"
    and m': "m' = m\<lparr>node_index := map_insert row (int k) (node_index m),
        nodes_list := (nodes_list m)[k := (nodes_list m ! k)\<lparr>row_num := row_num (nodes_list m ! k) + 1\<rparr>]\<rparr>"
    and run: "where_finish row False m = Ok (server_reply (n_primary (nodes_list m ! k)), m')"
    using where_new [OF assms(1,3) None assms(4)] by blast
  note ok = where_new_ok [OF assms(1,2) None k m']
  have at: "map_at (node_index m') row = Some (int k)" by (simp add: m')
  then have ex': "where_exists row m' = True" by (simp add: where_exists_def map_has_def)
  have "n_primary (nodes_list m' ! k) = n_primary (nodes_list m ! k)" using k(1) by (simp add: m')
  then have "where_finish row True m' = Ok (server_reply (n_primary (nodes_list m ! k)), m')"
    using where_known [OF _ at] ok by simp
  moreover have "\<forall>row'. row' \<noteq> row \<longrightarrow> map_at (node_index m') row' = map_at (node_index m) row'"
    by (simp add: m')
  ultimately show ?thesis
    unfolding ex using run ok ex' by auto
qed

definition demo_node :: "nat \<Rightarrow> node" where
  "demo_node i = \<lparr>rep_addrs = [localhost (8000 + i), localhost (5000 + i)], n_primary = localhost (8000 + i),
     n_id = int i, row_num = 0, running = False\<rparr>"

definition demo_master :: master where
  "demo_master = \<lparr>m_addr = localhost 10000, nodes_list = [demo_node 0, demo_node 1], node_index = []\<rparr>"

lemma demo_master_ok: "master_ok demo_master" "balanced demo_master"
  by (auto simp: master_ok_def balanced_def demo_master_def demo_node_def rows_at_def less_Suc_eq numeral_2_eq_2)

theorem where_sticky_balanced_witness:
  "\<exists>r m'. where_finish ''row'' (where_exists ''row'' demo_master) demo_master = Ok (r, m') \<and> balanced m' \<and>
     where_finish ''row'' (where_exists ''row'' m') m' = Ok (r, m')"
  using where_sticky_balanced [OF demo_master_ok, of "''row''"] by (auto simp: demo_master_def)

text \<open>
  The test and the assignment of WHERE are two critical sections. When two clients ask for the
  same new row of a fresh cluster and both tests come first, they are sent to two different
  servers, and only the second one is remembered: what the first client stores is lost to others.
\<close>

theorem where_race:
  assumes "nodes_list m = n0 # n1 # ns" "\<forall>n \<in> set (nodes_list m). row_num n = 0" "n_id n1 = 1"
    and "\<not> where_exists row m" "addr_ok (n_primary n0)" "addr_ok (n_primary n1)" "n_primary n0 \<noteq> n_primary n1"
  shows "\<exists>rA rB m1 m2. where_finish row (where_exists row m) m = Ok (rA, m1) \<and>
    where_finish row (where_exists row m) m1 = Ok (rB, m2) \<and> rA \<noteq> rB \<and>
    map_at (node_index m2) row = Some 1 \<and> rB = server_reply (n_primary n1)"
proof -
  have zero: "row_num n0 = 0" "row_num n1 = 0" "\<forall>n \<in> set ns. row_num n = 0"
    using assms(1,2) by simp_all
  have skip: "min_loop xs 0 i = i" if "\<forall>n \<in> set xs. row_num n = 0" for xs and i :: int
    using that by (induction xs) auto
  have ex: "where_exists row m = False" using assms(4) by simp
  let ?m1 = "m\<lparr>node_index := map_insert row 0 (node_index m), nodes_list := n0\<lparr>row_num := 1\<rparr> # n1 # ns\<rparr>"
  let ?m2 = "?m1\<lparr>node_index := map_insert row 1 (map_insert row 0 (node_index m)),
      nodes_list := n0\<lparr>row_num := 1\<rparr> # n1\<lparr>row_num := 1\<rparr> # ns\<rparr>"
  have one: "wrap_int 1 = 1" by (simp add: wrap_int_def)
  have s1: "where_finish row False m = Ok (server_reply (n_primary n0), ?m1)"
    using zero by (simp add: where_finish_def assms(1) skip one)
  have s2: "where_finish row False ?m1 = Ok (server_reply (n_primary n1), ?m2)"
    using zero assms(3) by (simp add: where_finish_def skip one)
  have "ip_to_string (n_primary n0) \<noteq> ip_to_string (n_primary n1)"
    using string_to_ip_shown [OF assms(5)] string_to_ip_shown [OF assms(6)] assms(7) by (metis res.inject(1))
  then have "server_reply (n_primary n0) \<noteq> server_reply (n_primary n1)" by (simp add: server_reply_def)
  with s1 s2 show ?thesis unfolding ex by simp
qed

theorem where_race_witness:
  "\<exists>rA rB m1 m2. where_finish ''row'' (where_exists ''row'' demo_master) demo_master = Ok (rA, m1) \<and>
    where_finish ''row'' (where_exists ''row'' demo_master) m1 = Ok (rB, m2) \<and> rA \<noteq> rB \<and>
    map_at (node_index m2) ''row'' = Some 1 \<and> rB = server_reply (n_primary (demo_node 1))"
  by (rule where_race [of _ "demo_node 0" "demo_node 1" "[]"])
     (simp_all add: demo_master_def demo_node_def where_exists_def map_has_def, simp add: localhost_def)

section \<open>Heartbeat and promotion\<close>

lemma multicast_closed: "multicast_loop up command False as = []"
  by (induction as) auto

lemma multicast_first:
  "multicast_loop up command True as = (case List.find up as of None \<Rightarrow> [] | Some a \<Rightarrow> [(a, command)])"
  by (induction as) (auto simp: multicast_closed)

lemma promote_loop_find:
  "promote_loop up n as =
     (case List.find up as of
        None \<Rightarrow> ([], n)
      | Some a \<Rightarrow> (multicastNodes up (promote_request a) n, n\<lparr>n_primary := a, running := True\<rparr>))"
  by (induction as) auto

text \<open>
  C23. When a node has no running primary, one heartbeat makes its first reachable server (in the
  order of the configuration) the primary and tells that server so; without a reachable server the
  node stays down. No other server of the node is told, although \<open>multicastNodes\<close> goes over all of
  them: its socket is closed after the first.
\<close>

theorem heartbeat_promotes_first:
  assumes "\<not> running n \<or> \<not> alive_ok"
  shows "heartbeat up alive_ok n =
    (case List.find up (rep_addrs n) of
       None \<Rightarrow> ([], n\<lparr>running := False\<rparr>)
     | Some a \<Rightarrow> ([(a, promote_request a)], n\<lparr>n_primary := a, running := True\<rparr>))"
proof -
  have down: "\<not> running n \<Longrightarrow> n\<lparr>running := False\<rparr> = n" by simp
  show ?thesis
    using assms
    by (auto simp: heartbeat_def promoteNewPrimary_def promote_loop_find multicastNodes_def multicast_first
        down split: option.split)
qed

theorem heartbeat_promotes_first_witness:
  "heartbeat (\<lambda>a. True) False (demo_node 0) =
     ([(localhost 8000, promote_request (localhost 8000))],
      (demo_node 0)\<lparr>n_primary := localhost 8000, running := True\<rparr>)"
  using heartbeat_promotes_first [of "demo_node 0" False "\<lambda>a. True"] by (simp add: demo_node_def)

lemma promote_request_address:
  assumes "addr_ok a"
  shows "substr (promote_request a) (szadd (find (promote_request a) '' '' 0) 1)
    (szsub (find (promote_request a) crlf 0) (szadd (find (promote_request a) '' '' 0) 1)) = Ok (ip_to_string a)"
proof -
  let ?ip = "ip_to_string a"
  have req: "promote_request a = ''PROMOTE'' @ CHR '' '' # ?ip @ crlf" by (simp add: promote_request_def)
  have sp: "find (promote_request a) '' '' 0 = 7"
    unfolding req using find_char [of "CHR '' ''" "''PROMOTE''"] by simp
  have "CR \<notin> set ?ip" by (cases "sin_addr a") (simp add: ip_to_string_def)
  then have "sfind crlf ((''PROMOTE '' @ ?ip) @ crlf) = Some (length (''PROMOTE '' @ ?ip))"
    by (simp add: crlf_def sfind_skip)
  then have cr: "find (promote_request a) crlf 0 = length ?ip + 8"
    by (simp add: find_start promote_request_def)
  have len: "length ?ip < 100" using string_to_ip_shown [OF assms] assms
  proof -
    obtain p q r s where o4: "sin_addr a = (p, q, r, s)" by (cases "sin_addr a")
    have small: "length (show_nat n) \<le> 6" if "n < 65536" for n using show_nat_short [of n 6] that by simp
    have "p < 65536" "q < 65536" "r < 65536" "s < 65536" "sin_port a < 65536"
      using assms by (simp_all add: addr_ok_def o4)
    then show ?thesis using small [of p] small [of q] small [of r] small [of s] small [of "sin_port a"]
      by (simp add: ip_to_string_def o4)
  qed
  have ar: "szadd 7 1 = 8" "szsub (length ?ip + 8) 8 = length ?ip" using len by (simp_all add: npos_def)
  show ?thesis unfolding sp cr ar by (simp add: promote_request_def)
qed

text \<open>
  C21. The promotion arrives: the server named in a PROMOTE becomes primary with a replica list over the
  servers of its own configuration, any other server that is sent the command notes the new
  primary's address; both answer \<open>+OK\<close>.
\<close>

theorem promote_accepted:
  assumes "addr_ok a" "addr_ok (my_addr (sstate c))"
  shows "parse_PROMOTE (promote_request a) c =
    Ok (reply (''+OK'' @ crlf)
      (if my_addr (sstate c) = a then
         c\<lparr>sstate := (sstate c)\<lparr>primary := True\<rparr>,
           bstore := Some (new_BackStore (net c) (server_list (sstate c)) (repID (sstate c)))\<rparr>
       else c\<lparr>sstate := (sstate c)\<lparr>primary_addr := a\<rparr>\<rparr>))"
proof -
  have "ip_to_string a = ip_to_string (my_addr (sstate c)) \<longleftrightarrow> my_addr (sstate c) = a"
    using string_to_ip_shown [OF assms(1)] string_to_ip_shown [OF assms(2)] by (metis res.inject(1))
  then show ?thesis
    unfolding parse_PROMOTE_def Let_def promote_request_address [OF assms(1)]
    by (simp add: setPrimary_def setPrimaryAddr_def string_to_ip_shown [OF assms(1)])
qed

theorem promote_accepted_witness:
  "\<exists>c'. parse_PROMOTE (promote_request (localhost 5000))
      ((demo_replica [])\<lparr>sstate := (sstate (demo_replica []))\<lparr>my_addr := localhost 5000\<rparr>\<rparr>) = Ok c' \<and>
    primary (sstate c') \<and> bstore c' \<noteq> None"
  using promote_accepted [of "localhost 5000"
      "(demo_replica [])\<lparr>sstate := (sstate (demo_replica []))\<lparr>my_addr := localhost 5000\<rparr>\<rparr>"]
  by simp

lemma init_nodes_config:
  assumes "\<forall>as \<in> set groups. as \<noteq> [] \<and> (\<forall>a \<in> set as. addr_ok a)"
  shows "init_nodes junk i (map config_line groups) =
    Ok (map (\<lambda>(j, as). \<lparr>rep_addrs = as, n_primary = hd as, n_id = i + int j, row_num = 0, running = False\<rparr>)
      (enumerate 0 groups))"
  using assms
proof (induction groups arbitrary: i)
  case (Cons as groups)
  have "map_res (string_to_ip junk) (split_on CHR '','' (config_line as)) = Ok as"
    using line_addrs_shown [of as junk] Cons.prems by (simp add: line_addrs_def config_line_def)
  moreover have "enumerate (Suc 0) groups = map (\<lambda>(j, as). (Suc j, as)) (enumerate 0 groups)"
    by (auto simp: enumerate_Suc_eq apfst_def)
  ultimately show ?case
    using Cons.IH [of "i + 1"] Cons.prems by (simp add: init_node_def case_prod_beta comp_def algebra_simps)
qed simp

text \<open>
  The master's configuration reader takes every line of a well-formed file as one node, with all
  its servers and the first as primary, and starts from an empty, balanced directory.
\<close>

theorem master_init_config:
  assumes "config_ok a groups" "fs_file fs f = Some (config_text a groups)"
  shows "\<exists>m. master_init junk fs f = Ok (Some m) \<and> m_addr m = a \<and> map rep_addrs (nodes_list m) = groups \<and>
    map n_primary (nodes_list m) = map hd groups \<and> master_ok m \<and> balanced m"
proof -
  let ?ns = "map (\<lambda>(j, as). \<lparr>rep_addrs = as, n_primary = hd as, n_id = int j, row_num = 0, running = False\<rparr>)
      (enumerate 0 groups)"
  have "init_nodes junk 0 (map config_line groups) = Ok ?ns"
    using init_nodes_config [of groups junk 0] assms(1) by (simp add: config_ok_def)
  then have "master_init junk fs f = Ok (Some \<lparr>m_addr = a, nodes_list = ?ns, node_index = []\<rparr>)"
    using assms(1) by (simp add: master_init_def assms(2) getlines_config config_ok_def string_to_ip_shown)
  moreover have "map rep_addrs ?ns = groups" "map n_primary ?ns = map hd groups"
    by (rule nth_equalityI; simp add: nth_enumerate_eq)+
  ultimately show ?thesis
    by (auto simp: master_ok_def balanced_def rows_at_def nth_enumerate_eq)
qed

theorem master_init_config_witness:
  "\<exists>m. master_init (localhost 0)
     \<lparr>fs_file = [''serverlist.txt'' \<mapsto> config_text (localhost 10000)
         [[localhost 8000, localhost 5000], [localhost 8001, localhost 5001]]], fs_open = \<lambda>_. True\<rparr>
     ''serverlist.txt'' = Ok (Some m) \<and> map n_primary (nodes_list m) = [localhost 8000, localhost 8001]"
  using master_init_config [of "localhost 10000" "[[localhost 8000, localhost 5000], [localhost 8001, localhost 5001]]"
      "\<lparr>fs_file = [''serverlist.txt'' \<mapsto> config_text (localhost 10000)
         [[localhost 8000, localhost 5000], [localhost 8001, localhost 5001]]], fs_open = \<lambda>_. True\<rparr>"
      "''serverlist.txt''" "localhost 0"]
  by (auto simp: config_ok_def)

end
