(* ===== verification/Thread_Pool.thy ===== *)
theory Thread_Pool
  imports Main
begin

text \<open>
  \<open>kvstore/ThreadPool.cc\<close> (its copy for the master is in \<open>Master_Process\<close>): a queue of connections
  and a fixed number of threads that serve them. A run is a sequence of events; each event is
  what one thread does while it holds the mutex, or one of its unlocked steps.
\<close>

section \<open>The queue\<close>

text \<open>What the pool relies on: the front is the oldest element.\<close>

locale fifo =
  fixes qempty :: "'q"
    and qpush :: "'a \<Rightarrow> 'q \<Rightarrow> 'q"
    and qpop :: "'q \<Rightarrow> ('a \<times> 'q) option"
    and qlist :: "'q \<Rightarrow> 'a list"
  assumes list_empty: "qlist qempty = []"
    and list_push: "qlist (qpush x q) = qlist q @ [x]"
    and list_pop: "qlist q = x # xs \<Longrightarrow> \<exists>q'. qpop q = Some (x, q') \<and> qlist q' = xs"
    and pop_none: "qlist q = [] \<Longrightarrow> qpop q = None"
begin

lemma pop_list: "qpop q = Some (x, q') \<Longrightarrow> qlist q = x # qlist q'"
proof (cases "qlist q")
  case Nil
  then show "qpop q = Some (x, q') \<Longrightarrow> ?thesis" by (simp add: pop_none)
next
  case (Cons y ys)
  then show "qpop q = Some (x, q') \<Longrightarrow> ?thesis" using list_pop [OF Cons] by auto
qed

lemma pop_enabled: "qlist q \<noteq> [] \<Longrightarrow> qpop q \<noteq> None"
  using list_pop by (cases "qlist q") fastforce+

lemma history_push: "done @ qlist q = hist \<Longrightarrow> done @ qlist (qpush x q) = hist @ [x]"
  by (simp add: list_push)

lemma history_pop: "done @ qlist q = hist \<Longrightarrow> qpop q = Some (x, q') \<Longrightarrow> (done @ [x]) @ qlist q' = hist"
  by (auto dest: pop_list)

end

text \<open>\<open>std::list\<close> with \<open>push_back\<close>, \<open>front\<close> and \<open>pop_front\<close>.\<close>

definition push_back :: "'a \<Rightarrow> 'a list \<Rightarrow> 'a list" where
  "push_back x q = q @ [x]"

definition take_front :: "'a list \<Rightarrow> ('a \<times> 'a list) option" where
  "take_front q = (case q of [] \<Rightarrow> None | x # xs \<Rightarrow> Some (x, xs))"

interpretation work: fifo "[]" push_back take_front "\<lambda>q. q"
  by unfold_locales (auto simp: push_back_def take_front_def)

section \<open>The pool\<close>

text \<open>
  A thread waits, has taken a task but not yet entered it in \<open>ongoing\<close>, serves it, or has left its
  loop. \<open>started\<close> and \<open>deleted\<close> record what happened to the tasks.
\<close>

datatype 't thread = Idle | Popped 't | Running 't | Exited

record 't pool =
  workQueue :: "'t list"
  ongoing :: "'t set"
  closed :: bool
  threads :: "nat \<Rightarrow> 't thread"
  started :: "'t list"
  deleted :: "'t list"

definition new_ThreadPool :: "'t pool" where
  "new_ThreadPool =
     \<lparr>workQueue = [], ongoing = {}, closed = False, threads = (\<lambda>_. Idle), started = [], deleted = []\<rparr>"

definition addTask :: "'t \<Rightarrow> 't pool \<Rightarrow> 't pool" where
  "addTask t p = p\<lparr>workQueue := push_back t (workQueue p)\<rparr>"

text \<open>The return value and the next state; the tasks in \<open>ongoing\<close> are deleted but stay there.\<close>

definition closeAll :: "'t list \<Rightarrow> 't pool \<Rightarrow> int \<times> 't pool" where
  "closeAll order p =
     (if closed p then (-1, p) else (0, p\<lparr>closed := True, deleted := deleted p @ order\<rparr>))"

text \<open>
  The steps of \<open>ThreadFun\<close>: leave the loop when closed, take the front task, enter it in
  \<open>ongoing\<close>, and after \<open>run\<close> either leave (closed) or clean up.
\<close>

datatype 't event = Add 't | Take nat | Begin nat | Finish nat | Leave nat | Close "'t list"

fun pool_step :: "nat \<Rightarrow> 't event \<Rightarrow> 't pool \<Rightarrow> 't pool option" where
  "pool_step thread_num (Add t) p = Some (addTask t p)"
| "pool_step thread_num (Take i) p =
     (if i < thread_num \<and> threads p i = Idle \<and> \<not> closed p then
        (case take_front (workQueue p) of
           None \<Rightarrow> None
         | Some (t, q) \<Rightarrow>
             Some (p\<lparr>workQueue := q, threads := (threads p)(i := Popped t), started := started p @ [t]\<rparr>))
      else None)"
| "pool_step thread_num (Begin i) p =
     (case threads p i of
        Popped t \<Rightarrow> Some (p\<lparr>ongoing := insert t (ongoing p), threads := (threads p)(i := Running t)\<rparr>)
      | _ \<Rightarrow> None)"
| "pool_step thread_num (Finish i) p =
     (case threads p i of
        Running t \<Rightarrow>
          (if closed p then Some (p\<lparr>threads := (threads p)(i := Exited)\<rparr>)
           else Some (p\<lparr>ongoing := ongoing p - {t}, threads := (threads p)(i := Idle),
                        deleted := deleted p @ [t]\<rparr>))
      | _ \<Rightarrow> None)"
| "pool_step thread_num (Leave i) p =
     (if i < thread_num \<and> threads p i = Idle \<and> closed p
      then Some (p\<lparr>threads := (threads p)(i := Exited)\<rparr>) else None)"
| "pool_step thread_num (Close order) p =
     (if set order = ongoing p \<and> distinct order then Some (snd (closeAll order p)) else None)"

inductive pool_reach :: "nat \<Rightarrow> 't event list \<Rightarrow> 't pool \<Rightarrow> bool" for thread_num where
  start: "pool_reach thread_num [] new_ThreadPool"
| event: "pool_reach thread_num es p \<Longrightarrow> pool_step thread_num e p = Some p' \<Longrightarrow> pool_reach thread_num (es @ [e]) p'"

inductive_cases pool_reach_snoc: "pool_reach n (es @ [e]) p"

text \<open>The tasks handed to the pool, in order.\<close>

fun added :: "'t event list \<Rightarrow> 't list" where
  "added [] = []"
| "added (Add t # es) = t # added es"
| "added (_ # es) = added es"

lemma added_append [simp]: "added (es @ fs) = added es @ added fs"
  by (induction es rule: added.induct) auto

text \<open>The task a thread works on.\<close>

fun held :: "'t thread \<Rightarrow> 't option" where
  "held (Popped t) = Some t"
| "held (Running t) = Some t"
| "held _ = None"

definition pool_ok :: "'t event list \<Rightarrow> 't pool \<Rightarrow> bool" where
  "pool_ok es p \<longleftrightarrow>
     started p @ workQueue p = added es \<and>
     (\<forall>i t. held (threads p i) = Some t \<longrightarrow> t \<in> set (started p)) \<and>
     (\<forall>i j t. held (threads p i) = Some t \<longrightarrow> held (threads p j) = Some t \<longrightarrow> i = j)"

text \<open>While the pool is open, a task in service has not been deleted, and \<open>ongoing\<close> is exact.\<close>

definition pool_open_ok :: "'t pool \<Rightarrow> bool" where
  "pool_open_ok p \<longleftrightarrow>
     distinct (deleted p) \<and> set (deleted p) \<subseteq> set (started p) \<and>
     (\<forall>i t. held (threads p i) = Some t \<longrightarrow> t \<notin> set (deleted p)) \<and>
     (\<forall>t. t \<in> ongoing p \<longleftrightarrow> (\<exists>i. threads p i = Running t))"

lemma pool_ok_start: "pool_ok [] new_ThreadPool" "pool_open_ok new_ThreadPool"
  by (simp_all add: pool_ok_def pool_open_ok_def new_ThreadPool_def)

lemma take_history:
  assumes "pool_ok es p" "distinct (added es)" "take_front (workQueue p) = Some (t, q)"
  shows "(started p @ [t]) @ q = added es" "t \<notin> set (started p)" "held (threads p j) \<noteq> Some t"
proof -
  show hist: "(started p @ [t]) @ q = added es"
    using work.history_pop [OF _ assms(3), of "started p"] assms(1) by (simp add: pool_ok_def)
  show fresh: "t \<notin> set (started p)"
    using assms(2) unfolding hist [symmetric] by simp
  with assms(1) show "held (threads p j) \<noteq> Some t" by (auto simp: pool_ok_def)
qed

lemma pool_ok_step:
  assumes "pool_ok es p" "distinct (added es)" "pool_step n e p = Some p'"
  shows "pool_ok (es @ [e]) p'"
proof (cases e)
  case (Take i)
  then obtain t q where q: "take_front (workQueue p) = Some (t, q)"
    and p': "p' = p\<lparr>workQueue := q, threads := (threads p)(i := Popped t), started := started p @ [t]\<rparr>"
    using assms(3) by (auto split: if_splits option.splits)
  note h = take_history [OF assms(1,2) q]
  show ?thesis using assms(1) h by (auto simp: pool_ok_def p' Take split: if_splits)
next
  case (Add t)
  with assms(1,3) work.history_push [of "started p" "workQueue p" "added es" t] show ?thesis
    by (auto simp: pool_ok_def addTask_def)
next
  case (Begin i)
  then obtain t where t: "threads p i = Popped t"
      "p' = p\<lparr>ongoing := insert t (ongoing p), threads := (threads p)(i := Running t)\<rparr>"
    using assms(3) by (auto split: thread.splits)
  then have "held (threads p' j) = held (threads p j)" for j by auto
  with assms(1) t(2) show ?thesis by (simp add: pool_ok_def Begin)
next
  case (Finish i)
  then have "workQueue p' = workQueue p" "started p' = started p"
      "held (threads p' j) = (if j = i then None else held (threads p j))" for j
    using assms(3) by (auto split: thread.splits if_splits)
  with assms(1) show ?thesis by (auto simp: pool_ok_def Finish split: if_splits)
next
  case (Leave i)
  then have "workQueue p' = workQueue p" "started p' = started p"
      "held (threads p' j) = (if j = i then None else held (threads p j))" for j
    using assms(3) by (auto split: if_splits)
  with assms(1) show ?thesis by (auto simp: pool_ok_def Leave split: if_splits)
next
  case (Close order)
  with assms(1,3) show ?thesis by (auto simp: pool_ok_def closeAll_def split: if_splits)
qed

lemma pool_open_step:
  assumes "pool_ok es p" "distinct (added es)" "pool_step n e p = Some p'" "\<not> closed p'"
    and "pool_open_ok p"
  shows "\<not> closed p \<and> pool_open_ok p'"
proof (cases e)
  case (Take i)
  then obtain t q where q: "take_front (workQueue p) = Some (t, q)" "threads p i = Idle"
    and p': "p' = p\<lparr>workQueue := q, threads := (threads p)(i := Popped t), started := started p @ [t]\<rparr>"
    using assms(3) by (auto split: if_splits option.splits)
  note h = take_history [OF assms(1,2) q(1)]
  have "(\<exists>j. threads p' j = Running u) \<longleftrightarrow> (\<exists>j. threads p j = Running u)" for u
    using q(2) by (auto simp: p') (metis thread.distinct(3))+
  with assms(4,5) h show ?thesis
    by (auto simp: pool_open_ok_def p' split: if_splits)
next
  case (Begin i)
  then obtain t where t: "threads p i = Popped t"
      and p': "p' = p\<lparr>ongoing := insert t (ongoing p), threads := (threads p)(i := Running t)\<rparr>"
    using assms(3) by (auto split: thread.splits)
  have "held (threads p' j) = held (threads p j)" for j using t by (auto simp: p')
  moreover have "(\<exists>j. threads p' j = Running u) \<longleftrightarrow> u = t \<or> (\<exists>j. threads p j = Running u)" for u
    using t by (auto simp: p') (metis thread.distinct(7))+
  ultimately show ?thesis using assms(4,5) by (auto simp: pool_open_ok_def p')
next
  case (Finish i)
  show ?thesis
  proof (cases "threads p i")
    case (Running t)
    with Finish assms(3,4) have cl: "\<not> closed p"
      and p': "p' = p\<lparr>ongoing := ongoing p - {t}, threads := (threads p)(i := Idle), deleted := deleted p @ [t]\<rparr>"
      by (auto split: if_splits)
    have uniq: "threads p j = Running t \<longleftrightarrow> j = i" for j
      using assms(1) Running by (auto simp: pool_ok_def)
    have other: "held (threads p j) \<noteq> Some t" if "j \<noteq> i" for j
      using assms(1) Running that by (auto simp: pool_ok_def)
    have "(\<exists>j. threads p' j = Running u) \<longleftrightarrow> u \<noteq> t \<and> (\<exists>j. threads p j = Running u)" for u
    proof (cases "u = t")
      case False
      then have "threads p' j = Running u \<longleftrightarrow> threads p j = Running u" for j
        using Running by (auto simp: p')
      with False show ?thesis by simp
    qed (use uniq in \<open>auto simp: p'\<close>)
    moreover have "held (threads p i) = Some t" using Running by simp
    then have "t \<in> set (started p)" "t \<notin> set (deleted p)"
      using assms(1,5) unfolding pool_ok_def pool_open_ok_def by blast+
    ultimately show ?thesis using assms(5) cl other
      by (auto simp: pool_open_ok_def p')
  qed (use Finish assms(3) in auto)
next
  case (Add t)
  with assms(3-5) show ?thesis by (auto simp: pool_open_ok_def addTask_def)
next
  case (Leave i)
  with assms(3,4) show ?thesis by (auto split: if_splits)
next
  case (Close order)
  with assms(3,4) show ?thesis by (auto simp: closeAll_def split: if_splits)
qed

lemma pool_invariant:
  "pool_reach n es p \<Longrightarrow> distinct (added es) \<Longrightarrow> pool_ok es p \<and> (\<not> closed p \<longrightarrow> pool_open_ok p)"
proof (induction rule: pool_reach.induct)
  case start
  show ?case by (simp add: pool_ok_start)
next
  case (event es p e p')
  have d: "distinct (added es)" using event.prems by simp
  with event.IH have ok: "pool_ok es p" "\<not> closed p \<longrightarrow> pool_open_ok p" by simp_all
  have "closed p \<Longrightarrow> closed p'"
    using event.hyps(2)
    by (cases e) (auto simp: addTask_def closeAll_def split: if_splits option.splits thread.splits)
  then show ?case
    using pool_ok_step [OF ok(1) d event.hyps(2)] pool_open_step [OF ok(1) d event.hyps(2)] ok(2) by blast
qed

section \<open>Properties\<close>

text \<open>
  C34. Connections are served in the order of their arrival, each by one thread: in every reachable
  state of the pool the tasks started, followed by those still queued, are exactly the tasks handed
  in, and no two threads hold the same task. While the pool is open, a task in service has not been
  deleted, none is deleted twice, and \<open>ongoing\<close> holds exactly the tasks being served.
\<close>

theorem pool_serves_in_order:
  assumes "pool_reach n es p" "distinct (added es)"
  shows "started p @ workQueue p = added es \<and>
    (\<forall>i j t. held (threads p i) = Some t \<longrightarrow> held (threads p j) = Some t \<longrightarrow> i = j) \<and>
    (\<not> closed p \<longrightarrow> distinct (deleted p) \<and>
       (\<forall>i t. held (threads p i) = Some t \<longrightarrow> t \<notin> set (deleted p)) \<and>
       (\<forall>t. t \<in> ongoing p \<longleftrightarrow> (\<exists>i. threads p i = Running t)))"
  using pool_invariant [OF assms] by (auto simp: pool_ok_def pool_open_ok_def)

theorem pool_serves_in_order_witness:
  "\<exists>p. pool_reach 2 [Add (1::nat), Add 2, Take 0, Take 1] p \<and> started p = [1, 2] \<and> workQueue p = []"
proof -
  let ?p1 = "addTask (1::nat) new_ThreadPool"
  let ?p2 = "addTask 2 ?p1"
  let ?p3 = "?p2\<lparr>workQueue := [2], threads := (threads ?p2)(0 := Popped 1), started := [1]\<rparr>"
  let ?p4 = "?p3\<lparr>workQueue := [], threads := (threads ?p3)(1 := Popped 2), started := [1, 2]\<rparr>"
  have "pool_reach 2 ([] @ [Add 1]) ?p1" by (rule pool_reach.event [OF pool_reach.start]) simp
  then have "pool_reach 2 (([] @ [Add 1]) @ [Add 2]) ?p2" by (rule pool_reach.event) simp
  then have "pool_reach 2 ((([] @ [Add 1]) @ [Add 2]) @ [Take 0]) ?p3"
    by (rule pool_reach.event) (simp add: addTask_def push_back_def take_front_def new_ThreadPool_def)
  then have r: "pool_reach 2 (((([] @ [Add 1]) @ [Add 2]) @ [Take 0]) @ [Take 1]) ?p4"
    by (rule pool_reach.event) (simp add: addTask_def push_back_def take_front_def new_ThreadPool_def)
  have "distinct (added (((([] @ [Add (1::nat)]) @ [Add 2]) @ [Take 0]) @ [Take 1]))" by simp
  from pool_serves_in_order [OF r this] r show ?thesis by (intro exI [of _ ?p4]) simp
qed

end
