(* ===== verification/Master_Process.thy ===== *)
theory Master_Process
  imports Master Thread_Pool
begin

text \<open>
  \<open>kvstore/master/master.cc\<close> as a process: the options, the loop that accepts connections, the pool of
  threads (\<open>masterThreadPool.cc\<close>) that run a worker each, and the heartbeat thread, over one directory.
  A run is a sequence of events. A worker goes statement by statement where it changes the directory: the
  test of WHERE, each step of the search, the assignment, the reading and the writing of the counter and the
  answer are events of their own, between which the other threads run.
\<close>

section \<open>Start\<close>

text \<open>\<open>getopt\<close> knows the option \<open>p\<close>, but the switch sends it to \<open>abort\<close>.\<close>

datatype m_option = M_verbose | M_port string | M_bad

datatype 'a m_started = M_exit int | M_abort | M_serves 'a

fun m_options :: "m_option list \<Rightarrow> bool \<Rightarrow> bool m_started" where
  "m_options [] v_flag = M_serves v_flag"
| "m_options (M_verbose # os) v_flag = m_options os True"
| "m_options (M_port optarg # os) v_flag = M_abort"
| "m_options (M_bad # os) v_flag = M_exit 1"

type_synonym mconn = "nat \<times> int"

text \<open>
  Where a worker is: before its read; before the next command; in WHERE behind the test of the row, in the
  search (next node, smallest count and its node), before the assignment, before the counter is read, before
  it is written, before the answer.
\<close>

datatype m_at =
    M_reading
  | M_working
  | M_tested string bool
  | M_scan string nat int int
  | M_least string int
  | M_counting int
  | M_storing int int
  | M_answer int

record mproc =
  mp_master :: master
  mp_pool :: "mconn pool"
  connection_count :: int
  mp_workers :: "nat \<Rightarrow> mworker"
  mp_at :: "nat \<Rightarrow> m_at"
  mp_sent :: "message list"

definition new_masterWorker :: "master \<Rightarrow> mworker" where
  "new_masterWorker m = \<lparr>mst = m, m_inp = [], m_task = \<lparr>alive = True, sent = []\<rparr>, m_wait = [], m_run = True\<rparr>"

definition masterThreadPool :: "mconn pool" where
  "masterThreadPool = new_ThreadPool"

definition m_start :: "master \<Rightarrow> mproc" where
  "m_start m = \<lparr>mp_master = m, mp_pool = masterThreadPool, connection_count = 0,
     mp_workers = (\<lambda>_. new_masterWorker m), mp_at = (\<lambda>_. M_reading), mp_sent = []\<rparr>"

text \<open>The part of \<open>main\<close> before the loop; the socket calls are taken to succeed.\<close>

definition m_main :: "sockaddr_in \<Rightarrow> filesys \<Rightarrow> m_option list \<Rightarrow> string option \<Rightarrow> mproc m_started res" where
  "m_main junk fs os file_path =
     (case m_options os False of
        M_exit k \<Rightarrow> Ok (M_exit k)
      | M_abort \<Rightarrow> Ok M_abort
      | M_serves v_flag \<Rightarrow>
          (case file_path of
             None \<Rightarrow> Ok (M_exit 1)
           | Some f \<Rightarrow> and_then (master_init junk fs f) (\<lambda>im.
               case im of None \<Rightarrow> Ok (M_exit 1) | Some m \<Rightarrow> Ok (M_serves (m_start m)))))"

section \<open>The pool of the master\<close>

definition m_addTask :: "mconn \<Rightarrow> mconn pool \<Rightarrow> mconn pool" where
  "m_addTask t p = p\<lparr>workQueue := push_back t (workQueue p)\<rparr>"

definition m_closeAll :: "mconn list \<Rightarrow> mconn pool \<Rightarrow> int \<times> (mconn \<times> string) list \<times> mconn pool" where
  "m_closeAll order p =
     (if closed p then (-1, [], p)
      else (0, map (\<lambda>t. (t, ''-ERR Server shutting down '' @ crlf)) order, p\<lparr>closed := True, deleted := deleted p @ order\<rparr>))"

text \<open>The steps of \<open>ThreadFun\<close>; \<open>run\<close> is the worker's.\<close>

datatype m_thread = M_take | M_begin | M_finish | M_leave

definition m_ThreadFun :: "nat \<Rightarrow> nat \<Rightarrow> m_thread \<Rightarrow> mconn pool \<Rightarrow> mconn pool option" where
  "m_ThreadFun thread_num i e p =
     (case e of
        M_take \<Rightarrow>
          (if i < thread_num \<and> threads p i = Idle \<and> \<not> closed p then
             (case take_front (workQueue p) of
                None \<Rightarrow> None
              | Some (t, q) \<Rightarrow>
                  Some (p\<lparr>workQueue := q, threads := (threads p)(i := Popped t), started := started p @ [t]\<rparr>))
           else None)
      | M_begin \<Rightarrow>
          (case threads p i of
             Popped t \<Rightarrow> Some (p\<lparr>ongoing := insert t (ongoing p), threads := (threads p)(i := Running t)\<rparr>)
           | _ \<Rightarrow> None)
      | M_finish \<Rightarrow>
          (case threads p i of
             Running t \<Rightarrow>
               (if closed p then Some (p\<lparr>threads := (threads p)(i := Exited)\<rparr>)
                else Some (p\<lparr>ongoing := ongoing p - {t}, threads := (threads p)(i := Idle), deleted := deleted p @ [t]\<rparr>))
           | _ \<Rightarrow> None)
      | M_leave \<Rightarrow>
          (if i < thread_num \<and> threads p i = Idle \<and> closed p
           then Some (p\<lparr>threads := (threads p)(i := Exited)\<rparr>) else None))"

text \<open>It is the pool of the data server with other names.\<close>

fun pool_event :: "nat \<Rightarrow> m_thread \<Rightarrow> mconn event" where
  "pool_event i M_take = Take i"
| "pool_event i M_begin = Begin i"
| "pool_event i M_finish = Finish i"
| "pool_event i M_leave = Leave i"

lemma m_ThreadFun_pool: "m_ThreadFun n i e p = pool_step n (pool_event i e) p"
  by (cases e) (simp_all add: m_ThreadFun_def)

section \<open>The statements of a worker\<close>

definition m_read_section :: "rd list \<Rightarrow> mworker \<Rightarrow> (m_at \<times> mworker) res" where
  "m_read_section es c =
     and_then (master_do_read m_rlen es) (\<lambda>(_, buf, rest).
     if length (m_wait c @ cstr buf) < m_rlen then Ok (M_working, c\<lparr>m_inp := rest, m_wait := m_wait c @ cstr buf\<rparr>)
     else Throw Bad_index)"

definition node_at :: "int \<Rightarrow> master \<Rightarrow> node res" where
  "node_at k m = (if 0 \<le> k \<and> k < int (length (nodes_list m)) then Ok (nodes_list m ! nat k) else Throw Bad_index)"

text \<open>\<open>node_index[row]\<close> makes a missing entry; the other commands are one step.\<close>

definition m_work_section :: "(sockaddr_in \<Rightarrow> bool) \<Rightarrow> m_at \<Rightarrow> mworker \<Rightarrow> (m_at \<times> mworker) res" where
  "m_work_section up a c =
     (case a of
        M_reading \<Rightarrow> Ok (M_reading, c)
      | M_working \<Rightarrow>
          (case m_extract_command (m_wait c) of
             None \<Rightarrow> Ok (M_reading, c)
           | Some (command, w) \<Rightarrow>
               if \<not> m_is_cmd command ''QUIT'' \<and> m_is_cmd command ''WHERE''
               then and_then (where_row command) (\<lambda>row. Ok (M_tested row (where_exists row (mst c)), c\<lparr>m_wait := w\<rparr>))
               else and_then (m_dispatch up command (c\<lparr>m_wait := w\<rparr>)) (\<lambda>c'. Ok (M_working, c')))
      | M_tested row is_exist \<Rightarrow>
          if is_exist then
            (case map_at (node_index (mst c)) row of
               None \<Rightarrow> Ok (M_answer 0, c\<lparr>mst := (mst c)\<lparr>node_index := map_insert row 0 (node_index (mst c))\<rparr>\<rparr>)
             | Some k \<Rightarrow> Ok (M_answer k, c))
          else
            (case nodes_list (mst c) of
               [] \<Rightarrow> Throw Bad_index
             | n0 # _ \<Rightarrow> Ok (M_scan row 0 (row_num n0) 0, c))
      | M_scan row i mn minID \<Rightarrow>
          if i < length (nodes_list (mst c)) then
            (let n = nodes_list (mst c) ! i
             in if row_num n < mn then Ok (M_scan row (i + 1) (row_num n) (n_id n), c)
                else Ok (M_scan row (i + 1) mn minID, c))
          else Ok (M_least row minID, c)
      | M_least row minID \<Rightarrow>
          Ok (M_counting minID, c\<lparr>mst := (mst c)\<lparr>node_index := map_insert row minID (node_index (mst c))\<rparr>\<rparr>)
      | M_counting k \<Rightarrow> and_then (node_at k (mst c)) (\<lambda>n. Ok (M_storing k (row_num n), c))
      | M_storing k v \<Rightarrow>
          and_then (node_at k (mst c)) (\<lambda>n. Ok (M_answer k,
            c\<lparr>mst := (mst c)\<lparr>nodes_list := (nodes_list (mst c))[nat k := n\<lparr>row_num := wrap_int (v + 1)\<rparr>]\<rparr>\<rparr>))
      | M_answer k \<Rightarrow>
          and_then (node_at k (mst c)) (\<lambda>n. Ok (M_working, m_reply (server_reply (n_primary n)) c)))"

section \<open>The process\<close>

datatype m_event =
    M_accept nat
  | M_thread nat m_thread
  | M_read nat "rd list"
  | M_work nat "sockaddr_in \<Rightarrow> bool"
  | M_beat "sockaddr_in \<Rightarrow> bool" "sockaddr_in \<Rightarrow> bool"

definition m_accept :: "nat \<Rightarrow> mproc \<Rightarrow> mproc" where
  "m_accept fd p =
     (let count = wrap_long (connection_count p + 1)
      in p\<lparr>connection_count := count, mp_pool := m_addTask (fd, count) (mp_pool p)\<rparr>)"

definition is_running :: "nat \<Rightarrow> mproc \<Rightarrow> bool" where
  "is_running i p = (case threads (mp_pool p) i of Running t \<Rightarrow> True | _ \<Rightarrow> False)"

text \<open>A worker acts on the common directory; a statement that blocks or ends the process has no next state.\<close>

definition m_put :: "nat \<Rightarrow> (m_at \<times> mworker) res \<Rightarrow> mproc \<Rightarrow> mproc option" where
  "m_put i r p =
     (case r of
        Ok (a, c) \<Rightarrow> Some (p\<lparr>mp_master := mst c, mp_workers := (mp_workers p)(i := c), mp_at := (mp_at p)(i := a)\<rparr>)
      | _ \<Rightarrow> None)"

text \<open>
  A thread leaves \<open>run\<close> when its worker's flag is off, which only QUIT does, and the commands read are done.
  \<open>None\<close> is an event that cannot happen.
\<close>

fun m_step :: "nat \<Rightarrow> m_event \<Rightarrow> mproc \<Rightarrow> mproc option" where
  "m_step thread_num (M_accept fd) p = Some (m_accept fd p)"
| "m_step thread_num (M_thread i e) p =
     (if e = M_finish \<and> (m_run (mp_workers p i) \<or> mp_at p i \<noteq> M_reading) then None
      else map_option (\<lambda>q. p\<lparr>mp_pool := q,
             mp_workers := (if e = M_begin then (mp_workers p)(i := new_masterWorker (mp_master p)) else mp_workers p),
             mp_at := (if e = M_begin then (mp_at p)(i := M_reading) else mp_at p)\<rparr>)
           (m_ThreadFun thread_num i e (mp_pool p)))"
| "m_step thread_num (M_read i es) p =
     (if is_running i p \<and> m_run (mp_workers p i) \<and> mp_at p i = M_reading
      then m_put i (m_read_section es ((mp_workers p i)\<lparr>mst := mp_master p\<rparr>)) p else None)"
| "m_step thread_num (M_work i up) p =
     (if is_running i p \<and> mp_at p i \<noteq> M_reading
      then m_put i (m_work_section up (mp_at p i) ((mp_workers p i)\<lparr>mst := mp_master p\<rparr>)) p else None)"
| "m_step thread_num (M_beat up alive_ok) p =
     (case heartbeat_round up alive_ok (mp_master p) of
        (ms, m) \<Rightarrow> Some (p\<lparr>mp_master := m, mp_sent := mp_sent p @ ms\<rparr>))"

fun m_run_all :: "nat \<Rightarrow> m_event list \<Rightarrow> mproc \<Rightarrow> mproc option" where
  "m_run_all n [] p = Some p"
| "m_run_all n (e # es) p = (case m_step n e p of None \<Rightarrow> None | Some p' \<Rightarrow> m_run_all n es p')"

lemma m_run_all_append: "m_run_all n (es @ fs) p = (case m_run_all n es p of None \<Rightarrow> None | Some q \<Rightarrow> m_run_all n fs q)"
  by (induction es arbitrary: p) (simp_all split: option.splits)

text \<open>The signal handler: the connections in service are closed, and the process ends with status 0.\<close>

definition m_signalHandler :: "mconn list \<Rightarrow> mproc \<Rightarrow> (mconn \<times> string) list \<times> int" where
  "m_signalHandler order p = (fst (snd (m_closeAll order (mp_pool p))), 0)"

lemma m_put_cases:
  assumes "m_put i r p = Some p'"
  obtains a c where "r = Ok (a, c)" "mp_master p' = mst c" "mp_at p' = (mp_at p)(i := a)" "mp_pool p' = mp_pool p"
    "connection_count p' = connection_count p" "mp_workers p' = (mp_workers p)(i := c)"
  using assms by (auto simp: m_put_def split: res.splits prod.splits)

section \<open>A worker that is not disturbed\<close>

text \<open>The statements of a round in a row are \<open>m_run_step\<close>.\<close>

fun m_sections :: "(sockaddr_in \<Rightarrow> bool) \<Rightarrow> nat \<Rightarrow> m_at \<Rightarrow> mworker \<Rightarrow> (m_at \<times> mworker) res" where
  "m_sections up 0 a c = Ok (a, c)"
| "m_sections up (Suc k) a c = and_then (m_work_section up a c) (\<lambda>(a', c'). m_sections up k a' c')"

lemma m_sections_append:
  "m_sections up (j + k) a c = and_then (m_sections up j a c) (\<lambda>(a', c'). m_sections up k a' c')"
proof (induction j arbitrary: a c)
  case (Suc j)
  then show ?case by (cases "m_work_section up a c") (auto split: prod.split)
qed simp

lemma sections_then:
  assumes "m_sections up j a c = Ok (a1, c1)" "\<exists>k. m_sections up k a1 c1 = Ok r"
  shows "\<exists>k. m_sections up k a c = Ok r"
proof -
  obtain k where "m_sections up k a1 c1 = Ok r" using assms(2) by blast
  then have "m_sections up (j + k) a c = Ok r" using assms(1) by (simp add: m_sections_append)
  then show ?thesis ..
qed

lemma one_section: "m_work_section up a c = Ok (a1, c1) \<Longrightarrow> m_sections up 1 a c = Ok (a1, c1)"
  by simp

lemma reply_mst [simp]: "mst (m_reply s c) = mst c"
  by (simp add: m_reply_def)

lemma replies_mst [simp]: "mst (foldl (\<lambda>c s. m_reply (f s) c) c ss) = mst c"
  by (induction ss arbitrary: c) simp_all

lemma reply_wait: "m_reply s (c\<lparr>m_wait := w\<rparr>) = (m_reply s c)\<lparr>m_wait := w\<rparr>"
  by (simp add: m_reply_def)

lemma replies_wait: "foldl (\<lambda>c s. m_reply (f s) c) (c\<lparr>m_wait := w\<rparr>) ss = (foldl (\<lambda>c s. m_reply (f s) c) c ss)\<lparr>m_wait := w\<rparr>"
  by (induction ss arbitrary: c) (simp_all add: reply_wait)

lemma dispatch_wait:
  assumes "\<not> (\<not> m_is_cmd command ''QUIT'' \<and> m_is_cmd command ''WHERE'')" "m_dispatch up command c = Ok c'"
  shows "m_dispatch up command (c\<lparr>m_wait := w\<rparr>) = Ok (c'\<lparr>m_wait := w\<rparr>)"
proof -
  note r = replies_wait [of "\<lambda>s. s"] replies_wait [of "\<lambda>e. fst e @ crlf"]
  have q: "m_is_cmd command ''QUIT'' \<or> \<not> m_is_cmd command ''WHERE''" using assms(1) by blast
  have pr: "m_parse_PRIMARY command (c\<lparr>m_wait := w\<rparr>) = and_then (m_parse_PRIMARY command c) (\<lambda>c'. Ok (c'\<lparr>m_wait := w\<rparr>))"
  proof (cases "substr command (szadd (find command '' '' 0) 1) (szsub (find command crlf 0) (szadd (find command '' '' 0) 1))")
    case (Ok x)
    then show ?thesis by (simp add: m_parse_PRIMARY_def Let_def reply_wait)
  qed (simp_all add: m_parse_PRIMARY_def Let_def)
  show ?thesis
    using assms(2) q unfolding m_dispatch_def pr
    by (auto simp: m_parse_LIST_def m_parse_STATES_def reply_wait r split: if_splits)
qed

lemma scan_alone:
  "i \<le> length (nodes_list (mst c)) \<Longrightarrow>
     \<exists>k. m_sections up k (M_scan row i mn minID) c = Ok (M_least row (min_loop (drop i (nodes_list (mst c))) mn minID), c)"
proof (induction "length (nodes_list (mst c)) - i" arbitrary: i mn minID)
  case 0
  then have "m_sections up 1 (M_scan row i mn minID) c = Ok (M_least row minID, c)" by (simp add: m_work_section_def)
  then show ?case using 0 by (intro exI [of _ 1]) simp
next
  case (Suc d)
  let ?ns = "nodes_list (mst c)"
  have i: "i < length ?ns" using Suc.hyps(2) by simp
  then have d: "drop i ?ns = ?ns ! i # drop (i + 1) ?ns" by (simp add: Cons_nth_drop_Suc)
  let ?mn = "if row_num (?ns ! i) < mn then row_num (?ns ! i) else mn"
  let ?id = "if row_num (?ns ! i) < mn then n_id (?ns ! i) else minID"
  have "m_sections up 1 (M_scan row i mn minID) c = Ok (M_scan row (i + 1) ?mn ?id, c)"
    using i by (simp add: m_work_section_def Let_def)
  moreover have "\<exists>k. m_sections up k (M_scan row (i + 1) ?mn ?id) c = Ok (M_least row (min_loop (drop (i + 1) ?ns) ?mn ?id), c)"
    using Suc.hyps(1) [of "i + 1" ?mn ?id] Suc.hyps(2) i by simp
  ultimately have "\<exists>k. m_sections up k (M_scan row i mn minID) c = Ok (M_least row (min_loop (drop (i + 1) ?ns) ?mn ?id), c)"
    by (rule sections_then)
  moreover have "min_loop (drop i ?ns) mn minID = min_loop (drop (i + 1) ?ns) ?mn ?id" unfolding d by simp
  ultimately show ?case by simp
qed

lemma where_alone:
  assumes "where_finish row (where_exists row (mst c)) (mst c) = Ok (r, m')"
  shows "\<exists>k. m_sections up k (M_tested row (where_exists row (mst c))) c = Ok (M_working, m_reply r (c\<lparr>mst := m'\<rparr>))"
proof (cases "where_exists row (mst c)")
  case True
  then obtain k where k: "map_at (node_index (mst c)) row = Some k" by (auto simp: where_exists_def map_has_def)
  have f: "where_finish row True (mst c) = Ok (r, m')" using assms True by simp
  have kk: "0 \<le> k \<and> k < int (length (nodes_list (mst c)))" "m' = mst c" "r = server_reply (n_primary (nodes_list (mst c) ! nat k))"
    using f k by (auto simp: where_finish_def split: if_splits)
  have "m_sections up 1 (M_tested row True) c = Ok (M_answer k, c)" using k by (simp add: m_work_section_def)
  moreover have "m_sections up 1 (M_answer k) c = Ok (M_working, m_reply r (c\<lparr>mst := m'\<rparr>))"
    using kk by (simp add: m_work_section_def node_at_def)
  ultimately show ?thesis using True sections_then by (metis (full_types))
next
  case False
  let ?m = "mst c"
  have f: "where_finish row False ?m = Ok (r, m')" using assms False by simp
  then obtain n0 ns where ns: "nodes_list ?m = n0 # ns" by (cases "nodes_list ?m") (simp_all add: where_finish_def)
  let ?id = "min_loop (nodes_list ?m) (row_num n0) 0"
  have id: "0 \<le> ?id \<and> ?id < int (length (nodes_list ?m))" "r = server_reply (n_primary (nodes_list ?m ! nat ?id))"
    "m' = ?m\<lparr>node_index := map_insert row ?id (node_index ?m),
      nodes_list := (nodes_list ?m)[nat ?id := (nodes_list ?m ! nat ?id)\<lparr>row_num := wrap_int (row_num (nodes_list ?m ! nat ?id) + 1)\<rparr>]\<rparr>"
    using f ns by (simp_all add: where_finish_def Let_def split: if_splits)
  let ?c1 = "c\<lparr>mst := ?m\<lparr>node_index := map_insert row ?id (node_index ?m)\<rparr>\<rparr>" and ?v = "row_num (nodes_list ?m ! nat ?id)"
  have s1: "m_sections up 1 (M_tested row False) c = Ok (M_scan row 0 (row_num n0) 0, c)" using ns by (simp add: m_work_section_def)
  have s2: "\<exists>k. m_sections up k (M_scan row 0 (row_num n0) 0) c = Ok (M_least row ?id, c)"
    using scan_alone [of 0 c up row "row_num n0" 0] by simp
  have s3: "m_sections up 1 (M_least row ?id) c = Ok (M_counting ?id, ?c1)" by (simp add: m_work_section_def)
  have s4: "m_sections up 1 (M_counting ?id) ?c1 = Ok (M_storing ?id ?v, ?c1)" using id(1) by (simp add: m_work_section_def node_at_def)
  have s5: "m_sections up 1 (M_storing ?id ?v) ?c1 = Ok (M_answer ?id, c\<lparr>mst := m'\<rparr>)"
    using id(1) by (simp add: m_work_section_def node_at_def id(3))
  have s6: "\<exists>k. m_sections up k (M_answer ?id) (c\<lparr>mst := m'\<rparr>) = Ok (M_working, m_reply r (c\<lparr>mst := m'\<rparr>))"
    using id by (intro exI [of _ 1]) (simp add: m_work_section_def node_at_def nat_less_iff)
  note rest = sections_then [OF s3 sections_then [OF s4 sections_then [OF s5 s6]]]
  obtain k where "m_sections up k (M_scan row 0 (row_num n0) 0) c = Ok (M_least row ?id, c)" using s2 by blast
  from sections_then [OF s1 sections_then [OF this rest]] show ?thesis using False by simp
qed

lemma commands_alone:
  "m_commands up w c = Ok (w', c') \<Longrightarrow> \<exists>k. m_sections up k M_working (c\<lparr>m_wait := w\<rparr>) = Ok (M_reading, c'\<lparr>m_wait := w'\<rparr>)"
proof (induction up w c arbitrary: w' c' rule: m_commands.induct)
  case (1 up w c)
  show ?case
  proof (cases "m_extract_command w")
    case None
    then have "w' = w" "c' = c" using "1.prems" by (simp_all add: m_commands.simps [of up w c])
    then show ?thesis using None by (intro exI [of _ 1]) (simp add: m_work_section_def)
  next
    case (Some x)
    obtain command w1 where x: "x = (command, w1)" by (cases x)
    obtain c1 where c1: "m_dispatch up command c = Ok c1" "m_commands up w1 c1 = Ok (w', c')"
      using "1.prems" by (auto simp: m_commands.simps [of up w c] Some x)
    have IH: "\<exists>k. m_sections up k M_working (c1\<lparr>m_wait := w1\<rparr>) = Ok (M_reading, c'\<lparr>m_wait := w'\<rparr>)"
      using "1.IH" [OF Some x [symmetric] c1] .
    show ?thesis
    proof (cases "\<not> m_is_cmd command ''QUIT'' \<and> m_is_cmd command ''WHERE''")
      case True
      then obtain row r m' where r: "where_row command = Ok row" "where_finish row (where_exists row (mst c)) (mst c) = Ok (r, m')"
        "c1 = m_reply r (c\<lparr>mst := m'\<rparr>)"
        using c1(1) by (auto simp: m_dispatch_def m_parse_WHERE_def)
      have s1: "m_sections up 1 M_working (c\<lparr>m_wait := w\<rparr>) = Ok (M_tested row (where_exists row (mst c)), c\<lparr>m_wait := w1\<rparr>)"
        using True Some x r(1) by (simp add: m_work_section_def)
      have "m_reply r ((c\<lparr>m_wait := w1\<rparr>)\<lparr>mst := m'\<rparr>) = c1\<lparr>m_wait := w1\<rparr>" unfolding r(3) by (simp add: m_reply_def)
      then obtain k where "m_sections up k (M_tested row (where_exists row (mst c))) (c\<lparr>m_wait := w1\<rparr>) = Ok (M_working, c1\<lparr>m_wait := w1\<rparr>)"
        using where_alone [of row "c\<lparr>m_wait := w1\<rparr>" r m' up] r(2) by auto
      from sections_then [OF s1 sections_then [OF this IH]] show ?thesis .
    next
      case False
      have "m_sections up 1 M_working (c\<lparr>m_wait := w\<rparr>) = Ok (M_working, c1\<lparr>m_wait := w1\<rparr>)"
        using dispatch_wait [OF False c1(1), of w1] False Some x by (simp add: m_work_section_def)
      from sections_then [OF this IH] show ?thesis .
    qed
  qed
qed

lemma round_alone:
  assumes "m_run_step up c = Ok c'"
  shows "\<exists>c1 k. m_read_section (m_inp c) c = Ok (M_working, c1) \<and> m_sections up k M_working c1 = Ok (M_reading, c')"
proof -
  obtain b buf rest where r: "master_do_read m_rlen (m_inp c) = Ok (b, buf, rest)" "length (m_wait c @ cstr buf) < m_rlen"
    using assms by (auto simp: m_run_step_def split: if_splits)
  let ?w = "m_wait c @ cstr buf"
  obtain w c2 where w: "m_commands up ?w (c\<lparr>m_inp := rest\<rparr>) = Ok (w, c2)" "c' = c2\<lparr>m_wait := w\<rparr>"
    using assms r by (auto simp: m_run_step_def)
  show ?thesis using commands_alone [OF w(1)] w(2) r by (simp add: m_read_section_def)
qed


section \<open>What holds in every run\<close>

definition in_range :: "master \<Rightarrow> int \<Rightarrow> bool" where
  "in_range m k \<longleftrightarrow> 0 \<le> k \<and> k < int (length (nodes_list m))"

definition valid_dir :: "master \<Rightarrow> bool" where
  "valid_dir m \<longleftrightarrow> (\<forall>i < length (nodes_list m). n_id (nodes_list m ! i) = int i) \<and> (\<forall>e \<in> set (node_index m). in_range m (snd e))"

definition place_ok :: "master \<Rightarrow> m_at \<Rightarrow> bool" where
  "place_ok m a \<longleftrightarrow>
     (case a of
        M_reading \<Rightarrow> True
      | M_working \<Rightarrow> True
      | M_tested row is_exist \<Rightarrow> is_exist \<longrightarrow> map_has (node_index m) row
      | M_scan row i mn minID \<Rightarrow> in_range m minID
      | M_least row minID \<Rightarrow> in_range m minID
      | M_counting k \<Rightarrow> in_range m k
      | M_storing k v \<Rightarrow> in_range m k
      | M_answer k \<Rightarrow> in_range m k)"

definition extends :: "master \<Rightarrow> master \<Rightarrow> bool" where
  "extends m m' \<longleftrightarrow> length (nodes_list m') = length (nodes_list m) \<and> length (node_index m) \<le> length (node_index m') \<and>
     (\<forall>row. map_has (node_index m) row \<longrightarrow> map_has (node_index m') row)"

lemma extends_refl [simp]: "extends m m"
  by (simp add: extends_def)

lemma extends_trans: "extends m1 m2 \<Longrightarrow> extends m2 m3 \<Longrightarrow> extends m1 m3"
  by (auto simp: extends_def)

lemma place_extends: "extends m m' \<Longrightarrow> place_ok m a \<Longrightarrow> place_ok m' a"
  by (cases a) (auto simp: extends_def place_ok_def in_range_def)

lemma dispatch_keeps:
  assumes "\<not> (\<not> m_is_cmd command ''QUIT'' \<and> m_is_cmd command ''WHERE'')" "m_dispatch up command c = Ok c'"
  shows "mst c' = mst c"
proof -
  have "mst (m_parse_LIST c) = mst c" "mst (m_parse_STATES up c) = mst c"
    using replies_mst [of "\<lambda>s. s" c] replies_mst [of "\<lambda>e. fst e @ crlf" c]
    by (simp_all add: m_parse_LIST_def m_parse_STATES_def)
  then show ?thesis using assms unfolding m_dispatch_def
    by (auto simp: m_parse_PRIMARY_def Let_def split: if_splits)
qed

lemma map_insert_length: "length m \<le> length (map_insert k v m)"
  by (induction k v m rule: map_insert.induct) auto

lemma valid_insert:
  assumes "valid_dir m" "in_range m k"
  shows "valid_dir (m\<lparr>node_index := map_insert row k (node_index m)\<rparr>) \<and> extends m (m\<lparr>node_index := map_insert row k (node_index m)\<rparr>)"
  using assms set_map_insert [of row k "node_index m"] map_insert_length [of "node_index m" row k]
  by (auto simp: valid_dir_def extends_def in_range_def map_has_def)

lemma working_keeps:
  assumes "m_work_section up M_working c = Ok (a', c')"
  shows "mst c' = mst c \<and> (a' = M_reading \<or> a' = M_working \<or> (\<exists>row. a' = M_tested row (where_exists row (mst c))))"
proof (cases "m_extract_command (m_wait c)")
  case (Some x)
  obtain command w where x: "x = (command, w)" by (cases x)
  show ?thesis
  proof (cases "\<not> m_is_cmd command ''QUIT'' \<and> m_is_cmd command ''WHERE''")
    case True
    then show ?thesis using assms Some x by (auto simp: m_work_section_def)
  next
    case False
    then obtain c1 where "m_dispatch up command (c\<lparr>m_wait := w\<rparr>) = Ok c1" "c' = c1" "a' = M_working"
      using assms Some x by (auto simp: m_work_section_def split: if_splits)
    then show ?thesis using dispatch_keeps [OF False, of up "c\<lparr>m_wait := w\<rparr>" c1] by simp
  qed
qed (use assms in \<open>simp add: m_work_section_def\<close>)

lemma work_valid:
  assumes "m_work_section up a c = Ok (a', c')" "valid_dir (mst c)" "place_ok (mst c) a"
  shows "extends (mst c) (mst c') \<and> valid_dir (mst c') \<and> place_ok (mst c') a'"
proof (cases a)
  case M_working
  then show ?thesis
    using assms(1,2) working_keeps [of up c a' c'] by (auto simp: place_ok_def where_exists_def)
next
  case (M_tested row ex)
  then show ?thesis using assms
    by (auto simp: m_work_section_def place_ok_def map_has_def in_range_def valid_dir_def map_at_map_of
        split: option.splits if_splits list.splits dest!: map_of_SomeD)
next
  case (M_scan row i mn minID)
  then show ?thesis using assms
    by (auto simp: m_work_section_def place_ok_def Let_def in_range_def valid_dir_def split: if_splits)
next
  case (M_least row minID)
  then have r: "in_range (mst c) minID" using assms(3) by (simp add: place_ok_def)
  then have "in_range (mst c') minID" "a' = M_counting minID" using assms(1) M_least by (auto simp: m_work_section_def in_range_def)
  then show ?thesis using valid_insert [OF assms(2) r, of row] assms(1) M_least by (auto simp: m_work_section_def place_ok_def)
next
  case (M_storing k v)
  then show ?thesis using assms
    by (auto simp: m_work_section_def place_ok_def node_at_def in_range_def valid_dir_def extends_def nth_list_update split: if_splits) fastforce
qed (use assms in \<open>auto simp: m_work_section_def place_ok_def node_at_def split: if_splits\<close>)

definition proc_valid :: "nat \<Rightarrow> mproc \<Rightarrow> bool" where
  "proc_valid n p \<longleftrightarrow> valid_dir (mp_master p) \<and> (\<forall>i. place_ok (mp_master p) (mp_at p i)) \<and>
     (\<forall>i. \<not> is_running i p \<longrightarrow> mp_at p i = M_reading) \<and> (\<forall>i. n \<le> i \<longrightarrow> threads (mp_pool p) i = Idle)"

text \<open>A heartbeat changes neither the counts nor the index.\<close>

definition same_counts :: "master \<Rightarrow> master \<Rightarrow> bool" where
  "same_counts m m' \<longleftrightarrow> node_index m' = node_index m \<and> length (nodes_list m') = length (nodes_list m) \<and>
     (\<forall>i < length (nodes_list m). row_num (nodes_list m' ! i) = row_num (nodes_list m ! i) \<and>
        n_id (nodes_list m' ! i) = n_id (nodes_list m ! i))"

lemma promote_keeps: "row_num (snd (promote_loop up n as)) = row_num n \<and> n_id (snd (promote_loop up n as)) = n_id n"
  by (induction as) simp_all

lemma heartbeat_keeps: "row_num (snd (heartbeat up ok n)) = row_num n \<and> n_id (snd (heartbeat up ok n)) = n_id n"
  using promote_keeps [of up n "rep_addrs n"] promote_keeps [of up "n\<lparr>running := False\<rparr>" "rep_addrs n"]
  by (simp add: heartbeat_def promoteNewPrimary_def)

lemma beat_counts: "same_counts m (snd (heartbeat_round up ok m))"
  by (simp add: same_counts_def heartbeat_round_def Let_def heartbeat_keeps)

lemma counts_extend: "same_counts m m' \<Longrightarrow> valid_dir m \<Longrightarrow> extends m m' \<and> valid_dir m'"
  by (auto simp: same_counts_def extends_def valid_dir_def in_range_def)

lemma thread_moves:
  assumes "m_ThreadFun n i e p = Some q"
  shows "\<exists>t. threads q = (threads p)(i := t) \<and> (e = M_begin \<longrightarrow> (\<exists>x. threads p i = Popped x)) \<and>
    (e \<noteq> M_finish \<longrightarrow> (\<forall>x. threads p i \<noteq> Running x)) \<and> (n \<le> i \<longrightarrow> threads p i \<noteq> Idle)"
  using assms by (cases e) (auto simp: m_ThreadFun_def split: thread.splits if_splits option.splits)

lemma thread_places:
  assumes "m_step n (M_thread i e) p = Some p'" "proc_valid n p"
  shows "proc_valid n p' \<and> mp_master p' = mp_master p \<and> mp_at p' = mp_at p"
proof -
  have r: "\<And>j. \<not> is_running j p \<Longrightarrow> mp_at p j = M_reading" and idle: "\<And>j. n \<le> j \<Longrightarrow> threads (mp_pool p) j = Idle"
    using assms(2) by (simp_all add: proc_valid_def)
  have fin: "e = M_finish \<Longrightarrow> mp_at p i = M_reading" using assms(1) by (auto split: if_splits)
  obtain q where q: "m_ThreadFun n i e (mp_pool p) = Some q" "mp_pool p' = q" "mp_master p' = mp_master p"
    "mp_at p' = (if e = M_begin then (mp_at p)(i := M_reading) else mp_at p)"
    using assms(1) by (auto split: if_splits)
  obtain t where t: "threads q = (threads (mp_pool p))(i := t)" "e = M_begin \<Longrightarrow> \<exists>x. threads (mp_pool p) i = Popped x"
    "e \<noteq> M_finish \<Longrightarrow> \<forall>x. threads (mp_pool p) i \<noteq> Running x" "n \<le> i \<Longrightarrow> threads (mp_pool p) i \<noteq> Idle"
    using thread_moves [OF q(1)] by blast
  have i: "mp_at p i = M_reading"
  proof (cases "e = M_finish")
    case False
    then have "\<not> is_running i p" using t(3) by (simp add: is_running_def split: thread.split)
    then show ?thesis by (rule r)
  qed (rule fin)
  then have same: "mp_at p' = mp_at p" using q(4) by auto
  have "mp_at p j = M_reading" if "\<not> is_running j p'" for j
    using that i r [of j] t(1) q(2) by (cases "j = i") (simp_all add: is_running_def)
  moreover have "threads q j = Idle" if "n \<le> j" for j using t(1,4) idle [OF that] that by (cases "j = i") auto
  ultimately show ?thesis using assms(2) same q(2,3) by (simp add: proc_valid_def)
qed

lemma put_valid:
  assumes "m_put i (Ok (a, c)) p = Some p'" "proc_valid n p" "is_running i p" "extends (mp_master p) (mst c)" "valid_dir (mst c)" "place_ok (mst c) a"
  shows "extends (mp_master p) (mp_master p') \<and> proc_valid n p'"
proof -
  have p': "mp_master p' = mst c" "mp_at p' = (mp_at p)(i := a)" "mp_pool p' = mp_pool p"
    using assms(1) by (auto simp: m_put_def)
  then show ?thesis using assms(2-6) place_extends [OF assms(4)] by (auto simp: proc_valid_def is_running_def)
qed

lemma read_section_keeps: "m_read_section es c = Ok (a, c') \<Longrightarrow> a = M_working \<and> mst c' = mst c"
  by (auto simp: m_read_section_def split: if_splits)

lemma step_valid:
  assumes "m_step n e p = Some p'" "proc_valid n p"
  shows "extends (mp_master p) (mp_master p') \<and> proc_valid n p'"
proof (cases e)
  case (M_accept fd)
  then show ?thesis using assms by (auto simp: m_accept_def Let_def m_addTask_def proc_valid_def is_running_def)
next
  case (M_thread i t)
  then show ?thesis using thread_places [of n i t p p'] assms by simp
next
  case (M_read i es)
  let ?c = "(mp_workers p i)\<lparr>mst := mp_master p\<rparr>"
  have s: "m_put i (m_read_section es ?c) p = Some p'" "is_running i p" using assms(1) M_read by (auto split: if_splits)
  then obtain a c where r: "m_read_section es ?c = Ok (a, c)" by (auto elim: m_put_cases)
  have "a = M_working" "mst c = mp_master p" using read_section_keeps [OF r] by simp_all
  then show ?thesis using put_valid [OF s(1) [unfolded r] assms(2) s(2)] assms(2) by (simp add: proc_valid_def place_ok_def)
next
  case (M_work i up)
  let ?c = "(mp_workers p i)\<lparr>mst := mp_master p\<rparr>"
  have s: "m_put i (m_work_section up (mp_at p i) ?c) p = Some p'" "is_running i p" using assms(1) M_work by (auto split: if_splits)
  then obtain a c where r: "m_work_section up (mp_at p i) ?c = Ok (a, c)" by (auto elim: m_put_cases)
  have "valid_dir (mst ?c)" "place_ok (mst ?c) (mp_at p i)" using assms(2) by (simp_all add: proc_valid_def)
  from work_valid [OF r this] show ?thesis using put_valid [OF s(1) [unfolded r] assms(2) s(2)] by simp
next
  case (M_beat up ok)
  then have p': "mp_master p' = snd (heartbeat_round up ok (mp_master p))" "mp_at p' = mp_at p" "mp_pool p' = mp_pool p"
    using assms(1) by (auto split: prod.splits)
  have "valid_dir (mp_master p)" using assms(2) by (simp add: proc_valid_def)
  from counts_extend [OF beat_counts this, of up ok] show ?thesis
    using assms(2) p' place_extends by (auto simp: proc_valid_def is_running_def)
qed

lemma run_valid: "m_run_all n es p = Some p' \<Longrightarrow> proc_valid n p \<Longrightarrow> extends (mp_master p) (mp_master p') \<and> proc_valid n p'"
proof (induction es arbitrary: p)
  case (Cons e es)
  then obtain p1 where p1: "m_step n e p = Some p1" "m_run_all n es p1 = Some p'" by (auto split: option.splits)
  then show ?case using step_valid [OF p1(1) Cons.prems(2)] Cons.IH [OF p1(2)] extends_trans by blast
qed simp

section \<open>Runs in which new rows come one after another\<close>

text \<open>A worker between the test of a row that is not known and the write of the counter.\<close>

definition assigning :: "m_at \<Rightarrow> bool" where
  "assigning a = (case a of M_tested row is_exist \<Rightarrow> \<not> is_exist | M_scan _ _ _ _ \<Rightarrow> True | M_least _ _ \<Rightarrow> True
     | M_counting _ \<Rightarrow> True | M_storing _ _ \<Rightarrow> True | _ \<Rightarrow> False)"

definition one_assigns :: "nat \<Rightarrow> mproc \<Rightarrow> bool" where
  "one_assigns n p \<longleftrightarrow> (\<forall>i < n. \<forall>j < n. assigning (mp_at p i) \<and> assigning (mp_at p j) \<longrightarrow> i = j)"

fun where_apart :: "nat \<Rightarrow> m_event list \<Rightarrow> mproc \<Rightarrow> bool" where
  "where_apart n [] p = one_assigns n p"
| "where_apart n (e # es) p = (one_assigns n p \<and> (case m_step n e p of None \<Rightarrow> True | Some p' \<Rightarrow> where_apart n es p'))"

definition fresh_row :: "master \<Rightarrow> string \<Rightarrow> bool" where
  "fresh_row m row \<longleftrightarrow> master_ok m \<and> balanced m \<and> map_at (node_index m) row = None"

definition least :: "master \<Rightarrow> int \<Rightarrow> bool" where
  "least m k \<longleftrightarrow> in_range m k \<and> (\<forall>i < length (nodes_list m). row_num (nodes_list m ! nat k) \<le> row_num (nodes_list m ! i))"

text \<open>The row is in the index, the counter of its node is not yet increased.\<close>

definition half_done :: "master \<Rightarrow> int \<Rightarrow> bool" where
  "half_done m k \<longleftrightarrow> (\<exists>m0 row. fresh_row m0 row \<and> least m0 k \<and> m = m0\<lparr>node_index := map_insert row k (node_index m0)\<rparr>)"

definition assigning_ok :: "master \<Rightarrow> m_at \<Rightarrow> bool" where
  "assigning_ok m a \<longleftrightarrow>
     (case a of
        M_tested row is_exist \<Rightarrow> fresh_row m row
      | M_scan row i mn minID \<Rightarrow> fresh_row m row \<and> in_range m minID \<and> mn = row_num (nodes_list m ! nat minID) \<and>
          (\<forall>j < min i (length (nodes_list m)). mn \<le> row_num (nodes_list m ! j))
      | M_least row k \<Rightarrow> fresh_row m row \<and> least m k
      | M_counting k \<Rightarrow> half_done m k
      | M_storing k v \<Rightarrow> half_done m k \<and> v = row_num (nodes_list m ! nat k)
      | _ \<Rightarrow> False)"

definition dir_ok :: "mproc \<Rightarrow> bool" where
  "dir_ok p \<longleftrightarrow> (\<exists>i. assigning (mp_at p i) \<and> assigning_ok (mp_master p) (mp_at p i)) \<or>
     (\<forall>i. \<not> assigning (mp_at p i)) \<and> master_ok (mp_master p) \<and> balanced (mp_master p)"

lemma counts_ok:
  assumes "same_counts m m'"
  shows "master_ok m \<Longrightarrow> master_ok m'" "balanced m \<Longrightarrow> balanced m'" "fresh_row m row \<Longrightarrow> fresh_row m' row" "least m k \<Longrightarrow> least m' k"
proof -
  have c: "node_index m' = node_index m" "length (nodes_list m') = length (nodes_list m)"
    "\<And>i. i < length (nodes_list m) \<Longrightarrow> row_num (nodes_list m' ! i) = row_num (nodes_list m ! i) \<and> n_id (nodes_list m' ! i) = n_id (nodes_list m ! i)"
    using assms by (auto simp: same_counts_def)
  have rows: "rows_at m' i = rows_at m i" for i by (simp add: rows_at_def c(1))
  show ok: "master_ok m \<Longrightarrow> master_ok m'" by (auto simp: master_ok_def c rows)
  show bal: "balanced m \<Longrightarrow> balanced m'" by (simp add: balanced_def c)
  show "fresh_row m row \<Longrightarrow> fresh_row m' row" using ok bal by (simp add: fresh_row_def c)
  show "least m k \<Longrightarrow> least m' k" by (auto simp: least_def in_range_def c nat_less_iff)
qed

lemma counts_half:
  assumes "same_counts m m'" "half_done m k"
  shows "half_done m' k"
proof -
  obtain m0 row where m0: "fresh_row m0 row" "least m0 k" "m = m0\<lparr>node_index := map_insert row k (node_index m0)\<rparr>"
    using assms(2) by (auto simp: half_done_def)
  let ?m1 = "m'\<lparr>node_index := node_index m0\<rparr>"
  have s: "same_counts m0 ?m1" using assms(1) m0(3) by (simp add: same_counts_def)
  have "m' = ?m1\<lparr>node_index := map_insert row k (node_index ?m1)\<rparr>" using assms(1) m0(3) by (simp add: same_counts_def)
  then show ?thesis using counts_ok(3) [OF s m0(1)] counts_ok(4) [OF s m0(2)] unfolding half_done_def by blast
qed

lemma half_range: "half_done m k \<Longrightarrow> in_range m k"
  by (auto simp: half_done_def least_def in_range_def)

lemma counts_assigning: "same_counts m m' \<Longrightarrow> assigning_ok m a \<Longrightarrow> assigning_ok m' a"
proof (cases a)
  case (M_storing k v)
  assume a: "same_counts m m'" "assigning_ok m a"
  then have "in_range m k" using M_storing half_range by (simp add: assigning_ok_def)
  then show ?thesis using a M_storing counts_half [OF a(1)]
    by (auto simp: assigning_ok_def same_counts_def in_range_def nat_less_iff)
next
  case (M_scan row i mn minID)
  assume a: "same_counts m m'" "assigning_ok m a"
  then have "in_range m minID" using M_scan by (simp add: assigning_ok_def)
  then show ?thesis using a M_scan counts_ok(3) [OF a(1)]
    by (auto simp: assigning_ok_def same_counts_def in_range_def nat_less_iff)
qed (auto simp: assigning_ok_def counts_ok counts_half)

text \<open>The statements of the one worker that assigns a row.\<close>

lemma stored_ok:
  assumes "half_done m k" "length (node_index m) \<le> 2147483647"
    and "m' = m\<lparr>nodes_list := (nodes_list m)[nat k := (nodes_list m ! nat k)\<lparr>row_num := wrap_int (row_num (nodes_list m ! nat k) + 1)\<rparr>]\<rparr>"
  shows "master_ok m' \<and> balanced m'"
proof -
  obtain m0 row where m0: "fresh_row m0 row" "least m0 k" "m = m0\<lparr>node_index := map_insert row k (node_index m0)\<rparr>"
    using assms(1) by (auto simp: half_done_def)
  have f: "master_ok m0" "balanced m0" "map_at (node_index m0) row = None" using m0(1) by (simp_all add: fresh_row_def)
  have k: "nat k < length (nodes_list m0)" "int (nat k) = k" "\<forall>i < length (nodes_list m0). row_num (nodes_list m0 ! nat k) \<le> row_num (nodes_list m0 ! i)"
    using m0(2) by (auto simp: least_def in_range_def)
  have "length (node_index m) = Suc (length (node_index m0))"
    using arg_cong [OF mset_map_insert [OF f(3), of k], of size] by (simp add: m0(3))
  moreover have "row_num (nodes_list m0 ! nat k) = int (rows_at m0 k)" using f(1) k(1,2) by (metis master_ok_def)
  moreover have "rows_at m0 k \<le> length (node_index m0)" unfolding rows_at_def by (metis size_filter_mset_lesseq size_mset)
  ultimately have w: "wrap_int (row_num (nodes_list m0 ! nat k) + 1) = row_num (nodes_list m0 ! nat k) + 1"
    using assms(2) by (simp add: wrap_int_def)
  have nl: "nodes_list m = nodes_list m0" by (simp add: m0(3))
  have "m' = m0\<lparr>node_index := map_insert row (int (nat k)) (node_index m0),
      nodes_list := (nodes_list m0)[nat k := (nodes_list m0 ! nat k)\<lparr>row_num := row_num (nodes_list m0 ! nat k) + 1\<rparr>]\<rparr>"
    unfolding assms(3) nl w k(2) unfolding m0(3) ..
  then show ?thesis by (rule where_new_ok [OF f k(1,3)])
qed

lemma work_assigns:
  assumes "m_work_section up a c = Ok (a', c')" "assigning a" "assigning_ok (mst c) a" "length (node_index (mst c')) \<le> 2147483647"
  shows "(if assigning a' then assigning_ok (mst c') a' else master_ok (mst c') \<and> balanced (mst c')) \<and>
    (\<forall>row k. map_at (node_index (mst c)) row = Some k \<longrightarrow> map_at (node_index (mst c')) row = Some k)"
proof (cases a)
  case (M_tested row ex)
  then have ex: "\<not> ex" using assms(2) by (simp add: assigning_def)
  then obtain n0 ns where ns: "nodes_list (mst c) = n0 # ns" "a' = M_scan row 0 (row_num n0) 0" "c' = c"
    using assms(1) M_tested by (auto simp: m_work_section_def split: list.splits)
  then show ?thesis using assms(3) M_tested by (simp add: assigning_ok_def assigning_def in_range_def)
next
  case (M_scan row i mn minID)
  let ?m = "mst c"
  have o: "fresh_row ?m row" "in_range ?m minID" "mn = row_num (nodes_list ?m ! nat minID)"
    "\<forall>j < min i (length (nodes_list ?m)). mn \<le> row_num (nodes_list ?m ! j)"
    using assms(3) M_scan by (auto simp: assigning_ok_def)
  show ?thesis
  proof (cases "i < length (nodes_list ?m)")
    case True
    then have "n_id (nodes_list ?m ! i) = int i" using o(1) by (simp add: fresh_row_def master_ok_def)
    moreover have "row_num (nodes_list ?m ! i) \<le> row_num (nodes_list ?m ! j)"
      if "row_num (nodes_list ?m ! i) < mn" "j < i" for j
      using that o(4) True by (meson less_imp_le less_trans min_less_iff_conj order.strict_trans2)
    ultimately show ?thesis using assms(1) M_scan o True
      by (auto simp: m_work_section_def Let_def assigning_ok_def assigning_def in_range_def less_Suc_eq split: if_splits)
  next
    case False
    then have "least ?m minID" using o by (simp add: least_def)
    then show ?thesis using assms(1) M_scan o False by (auto simp: m_work_section_def assigning_ok_def assigning_def)
  qed
next
  case (M_least row k)
  then have o: "fresh_row (mst c) row" "least (mst c) k" using assms(3) by (simp_all add: assigning_ok_def)
  have c': "a' = M_counting k" "mst c' = (mst c)\<lparr>node_index := map_insert row k (node_index (mst c))\<rparr>"
    using assms(1) M_least by (auto simp: m_work_section_def)
  have "half_done (mst c') k" unfolding half_done_def using o c'(2) by blast
  moreover have "map_at (node_index (mst c')) r = Some j" if "map_at (node_index (mst c)) r = Some j" for r j
    using that o(1) c'(2) by (cases "r = row") (simp_all add: fresh_row_def)
  ultimately show ?thesis by (simp add: c'(1) assigning_def assigning_ok_def)
next
  case (M_counting k)
  then show ?thesis using assms by (auto simp: m_work_section_def node_at_def assigning_ok_def assigning_def split: if_splits)
next
  case (M_storing k v)
  then have o: "half_done (mst c) k" "v = row_num (nodes_list (mst c) ! nat k)" using assms(3) by (simp_all add: assigning_ok_def)
  have c': "a' = M_answer k" "node_index (mst c') = node_index (mst c)"
    "mst c' = (mst c)\<lparr>nodes_list := (nodes_list (mst c))[nat k := (nodes_list (mst c) ! nat k)\<lparr>row_num := wrap_int (v + 1)\<rparr>]\<rparr>"
    using assms(1) M_storing by (auto simp: m_work_section_def node_at_def split: if_splits)
  have "master_ok (mst c') \<and> balanced (mst c')"
    by (rule stored_ok [OF o(1)]) (use assms(4) c' o(2) in simp_all)
  then show ?thesis using c'(1,2) by (simp add: assigning_def)
qed (use assms(2) in \<open>simp_all add: assigning_def\<close>)

text \<open>The statements of the others.\<close>

lemma work_leaves:
  assumes "m_work_section up a c = Ok (a', c')" "\<not> assigning a" "place_ok (mst c) a"
  shows "mst c' = mst c \<and> (assigning a' \<longrightarrow> (\<exists>row. a' = M_tested row False \<and> map_at (node_index (mst c)) row = None))"
proof (cases a)
  case M_working
  then show ?thesis using working_keeps [of up c a' c'] assms(1) by (auto simp: assigning_def where_exists_def map_has_def)
next
  case (M_tested row ex)
  then show ?thesis using assms by (auto simp: m_work_section_def assigning_def place_ok_def map_has_def)
qed (use assms in \<open>auto simp: m_work_section_def assigning_def node_at_def split: if_splits\<close>)

definition sticky :: "master \<Rightarrow> master \<Rightarrow> bool" where
  "sticky m m' \<longleftrightarrow> (\<forall>row k. map_at (node_index m) row = Some k \<longrightarrow> map_at (node_index m') row = Some k)"

lemma step_apart:
  assumes "m_step n e p = Some p'" "proc_valid n p" "dir_ok p" "one_assigns n p" "length (node_index (mp_master p')) \<le> 2147483647"
  shows "dir_ok p' \<and> sticky (mp_master p) (mp_master p')"
proof (cases e)
  case (M_accept fd)
  then show ?thesis using assms(1,3) by (auto simp: m_accept_def Let_def dir_ok_def sticky_def)
next
  case (M_thread i t)
  then show ?thesis using thread_places [of n i t p p'] assms(1-3) by (simp add: dir_ok_def sticky_def)
next
  case (M_read i es)
  let ?c = "(mp_workers p i)\<lparr>mst := mp_master p\<rparr>"
  have s: "m_put i (m_read_section es ?c) p = Some p'" "mp_at p i = M_reading" using assms(1) M_read by (auto split: if_splits)
  then obtain a c where r: "m_read_section es ?c = Ok (a, c)" "mp_master p' = mst c" "mp_at p' = (mp_at p)(i := a)"
    by (auto elim: m_put_cases)
  have a: "a = M_working" "mst c = mp_master p" using read_section_keeps [OF r(1)] by simp_all
  have same: "assigning (mp_at p' j) = assigning (mp_at p j) \<and> (assigning (mp_at p j) \<longrightarrow> mp_at p' j = mp_at p j)" for j
    using s(2) by (simp add: r(3) a(1) assigning_def)
  show ?thesis using assms(3) same unfolding dir_ok_def sticky_def r(2) a(2) by metis
next
  case (M_beat up ok)
  then have p': "mp_master p' = snd (heartbeat_round up ok (mp_master p))" "mp_at p' = mp_at p"
    using assms(1) by (auto split: prod.splits)
  note c = beat_counts [of "mp_master p" up ok]
  have "sticky (mp_master p) (mp_master p')" using c by (simp add: p'(1) sticky_def same_counts_def)
  moreover have "dir_ok p'" using assms(3) counts_ok(1,2) [OF c] counts_assigning [OF c] unfolding dir_ok_def p' by blast
  ultimately show ?thesis by simp
next
  case (M_work i up)
  let ?c = "(mp_workers p i)\<lparr>mst := mp_master p\<rparr>"
  have s: "m_put i (m_work_section up (mp_at p i) ?c) p = Some p'" "is_running i p" using assms(1) M_work by (auto split: if_splits)
  then obtain a c where r: "m_work_section up (mp_at p i) ?c = Ok (a, c)" "mp_master p' = mst c" "mp_at p' = (mp_at p)(i := a)"
    by (auto elim: m_put_cases)
  have pl: "place_ok (mst ?c) (mp_at p i)" using assms(2) by (simp add: proc_valid_def)
  have low: "j < n" if "assigning (mp_at p j)" for j
  proof (rule ccontr)
    assume "\<not> j < n"
    then have "\<not> is_running j p" using assms(2) by (simp add: proc_valid_def is_running_def)
    then have "mp_at p j = M_reading" using assms(2) by (simp add: proc_valid_def)
    then show False using that by (simp add: assigning_def)
  qed
  show ?thesis
  proof (cases "assigning (mp_at p i)")
    case True
    have only: "j = i" if "assigning (mp_at p j)" for j
      using assms(4) low [OF that] low [OF True] that True unfolding one_assigns_def by blast
    obtain j where j: "assigning (mp_at p j)" "assigning_ok (mp_master p) (mp_at p j)"
      using assms(3) True unfolding dir_ok_def by blast
    from j(2) have "assigning_ok (mst ?c) (mp_at p i)" unfolding only [OF j(1)] by simp
    note w = work_assigns [OF r(1) True this]
    have "length (node_index (mst c)) \<le> 2147483647" using assms(5) r(2) by simp
    note w = w [OF this]
    have none: "\<not> assigning (mp_at p' j)" if "\<not> assigning a" for j
      using that only by (cases "j = i") (auto simp: r(3))
    have "dir_ok p'"
    proof (cases "assigning a")
      case True
      then show ?thesis using w r(2,3) by (auto simp: dir_ok_def intro!: exI [of _ i])
    next
      case False
      then show ?thesis using w r(2) none [OF False] by (simp add: dir_ok_def)
    qed
    then show ?thesis using w by (simp add: sticky_def r(2))
  next
    case False
    have w: "mst c = mp_master p" "assigning a \<Longrightarrow> \<exists>row. a = M_tested row False \<and> map_at (node_index (mp_master p)) row = None"
      using work_leaves [OF r(1) False pl] by simp_all
    have "dir_ok p'"
    proof (cases "\<exists>j. assigning (mp_at p j) \<and> assigning_ok (mp_master p) (mp_at p j)")
      case True
      then obtain j where j: "assigning (mp_at p j)" "assigning_ok (mp_master p) (mp_at p j)" by blast
      then have "j \<noteq> i" using False by auto
      then show ?thesis using j r(2,3) w(1) by (auto simp: dir_ok_def intro!: exI [of _ j])
    next
      case none: False
      then have ok: "\<forall>j. \<not> assigning (mp_at p j)" "master_ok (mp_master p)" "balanced (mp_master p)" using assms(3) by (auto simp: dir_ok_def)
      show ?thesis
      proof (cases "assigning a")
        case True
        then have "assigning_ok (mp_master p) a" using w(2) ok(2,3) by (auto simp: assigning_ok_def fresh_row_def)
        then show ?thesis using True r(2,3) w(1) by (auto simp: dir_ok_def intro!: exI [of _ i])
      next
        case False
        then show ?thesis using ok r(2,3) w(1) by (simp add: dir_ok_def)
      qed
    qed
    then show ?thesis using w(1) by (simp add: sticky_def r(2))
  qed
qed

lemma run_apart:
  assumes "m_run_all n es p = Some p'" "proc_valid n p" "dir_ok p" "where_apart n es p" "length (node_index (mp_master p')) \<le> 2147483647"
  shows "dir_ok p' \<and> sticky (mp_master p) (mp_master p')"
  using assms(1-4)
proof (induction es arbitrary: p)
  case Nil
  then show ?case using assms(1) by (simp add: sticky_def)
next
  case (Cons e es)
  then obtain p1 where p1: "m_step n e p = Some p1" "m_run_all n es p1 = Some p'" by (auto split: option.splits)
  have v: "proc_valid n p1" using step_valid [OF p1(1) Cons.prems(2)] by simp
  have "length (node_index (mp_master p1)) \<le> length (node_index (mp_master p'))"
    using run_valid [OF p1(2) v] by (simp add: extends_def)
  then have "length (node_index (mp_master p1)) \<le> 2147483647" using assms(5) by simp
  then have s: "dir_ok p1 \<and> sticky (mp_master p) (mp_master p1)"
    using step_apart [OF p1(1) Cons.prems(2,3)] Cons.prems(4) by simp
  have "where_apart n es p1" using Cons.prems(4) p1(1) by simp
  then have "dir_ok p' \<and> sticky (mp_master p1) (mp_master p')" using Cons.IH [OF p1(2) v] s by blast
  then show ?case using s by (auto simp: sticky_def)
qed

section \<open>The pool in every run\<close>

text \<open>The connections in the order of their arrival, with their numbers.\<close>

fun arrivals :: "m_event list \<Rightarrow> nat list" where
  "arrivals [] = []"
| "arrivals (M_accept fd # es) = fd # arrivals es"
| "arrivals (_ # es) = arrivals es"

lemma arrivals_append [simp]: "arrivals (es @ fs) = arrivals es @ arrivals fs"
  by (induction es rule: arrivals.induct) simp_all

definition numbered :: "nat list \<Rightarrow> mconn list" where
  "numbered fds = map (\<lambda>(k, fd). (fd, int k)) (enumerate 1 fds)"

lemma numbered_snoc: "numbered (fds @ [fd]) = numbered fds @ [(fd, int (length fds) + 1)]"
  by (simp add: numbered_def enumerate_append_eq)

lemma numbered_distinct: "distinct (numbered fds)"
proof -
  have "map snd (numbered fds) = map int [1..<Suc (length fds)]"
    by (rule nth_equalityI) (simp_all add: numbered_def nth_enumerate_eq del: upt_Suc)
  then have "distinct (map snd (numbered fds))" by (simp add: distinct_map)
  then show ?thesis by (simp add: distinct_map)
qed

text \<open>The pool is a run of the pool on the numbered connections.\<close>

definition mpool_ok :: "nat \<Rightarrow> m_event list \<Rightarrow> mproc \<Rightarrow> bool" where
  "mpool_ok n es p \<longleftrightarrow>
     (int (length (arrivals es)) \<le> long_max \<longrightarrow> connection_count p = int (length (arrivals es)) \<and>
        (\<exists>pes. pool_reach n pes (mp_pool p) \<and> added pes = numbered (arrivals es)))"

lemma m_addTask_pool: "pool_step n (Add t) p = Some (m_addTask t p)"
  by (simp add: addTask_def m_addTask_def)

lemma added_thread: "added [pool_event i e] = []"
  by (cases e) simp_all

lemma mpool_ok_step:
  assumes "mpool_ok n es p" "m_step n e p = Some p'"
  shows "mpool_ok n (es @ [e]) p'"
proof (cases e)
  case (M_accept fd)
  let ?k = "int (length (arrivals es)) + 1"
  have p': "p' = m_accept fd p" using assms(2) M_accept by simp
  show ?thesis
    unfolding mpool_ok_def
  proof (intro conjI impI)
    assume small: "int (length (arrivals (es @ [e]))) \<le> long_max"
    then have c: "connection_count p = int (length (arrivals es))"
      and ex: "\<exists>pes. pool_reach n pes (mp_pool p) \<and> added pes = numbered (arrivals es)"
      using assms(1) M_accept by (simp_all add: mpool_ok_def)
    have w: "wrap_long (connection_count p + 1) = ?k"
      unfolding c by (rule wrap_long_id) (use small M_accept in \<open>simp_all add: long_min_def\<close>)
    show "connection_count p' = int (length (arrivals (es @ [e])))"
      using w M_accept by (simp add: p' m_accept_def Let_def)
    from ex obtain pes where pes: "pool_reach n pes (mp_pool p)" "added pes = numbered (arrivals es)" by blast
    have "pool_reach n (pes @ [Add (fd, ?k)]) (mp_pool p')"
      using pool_reach.event [OF pes(1) m_addTask_pool [of n "(fd, ?k)"]] w by (simp add: p' m_accept_def Let_def)
    moreover have "added (pes @ [Add (fd, ?k)]) = numbered (arrivals (es @ [e]))"
      using pes(2) M_accept by (simp add: numbered_snoc)
    ultimately show "\<exists>pes. pool_reach n pes (mp_pool p') \<and> added pes = numbered (arrivals (es @ [e]))" by blast
  qed
next
  case (M_thread i t)
  then obtain q where q: "m_ThreadFun n i t (mp_pool p) = Some q" "mp_pool p' = q" "connection_count p' = connection_count p"
    using assms(2) by (auto split: if_splits)
  have "pool_reach n (pes @ [pool_event i t]) q \<and> added (pes @ [pool_event i t]) = added pes"
    if "pool_reach n pes (mp_pool p)" for pes
    using pool_reach.event [OF that] q(1) by (simp add: m_ThreadFun_pool added_thread)
  then show ?thesis using assms(1) q M_thread unfolding mpool_ok_def by fastforce
next
  case (M_read i xs)
  then have "mp_pool p' = mp_pool p" "connection_count p' = connection_count p"
    using assms(2) by (auto split: if_splits elim: m_put_cases)
  then show ?thesis using assms(1) M_read by (simp add: mpool_ok_def)
next
  case (M_work i up)
  then have "mp_pool p' = mp_pool p" "connection_count p' = connection_count p"
    using assms(2) by (auto split: if_splits elim: m_put_cases)
  then show ?thesis using assms(1) M_work by (simp add: mpool_ok_def)
next
  case (M_beat up ok)
  then have "mp_pool p' = mp_pool p" "connection_count p' = connection_count p"
    using assms(2) by (auto split: prod.splits)
  then show ?thesis using assms(1) M_beat by (simp add: mpool_ok_def)
qed

lemma m_run_pool: "m_run_all n es (m_start m0) = Some p \<Longrightarrow> mpool_ok n es p"
proof (induction es arbitrary: p rule: rev_induct)
  case Nil
  then show ?case
    using pool_reach.start [of n] by (auto simp: mpool_ok_def m_start_def masterThreadPool_def numbered_def intro!: exI [of _ "[]"])
next
  case (snoc e es)
  then obtain p1 where "m_run_all n es (m_start m0) = Some p1" "m_step n e p1 = Some p"
    by (auto simp: m_run_all_append split: option.splits)
  then show ?case using snoc.IH mpool_ok_step by blast
qed

section \<open>Properties\<close>

lemma start_valid: "master_ok m \<Longrightarrow> proc_valid n (m_start m)"
  by (auto simp: proc_valid_def m_start_def master_ok_def valid_dir_def in_range_def place_ok_def masterThreadPool_def new_ThreadPool_def)


text \<open>A client that has gone: its reads bring nothing, again and again.\<close>

fun gone_round :: "m_event \<Rightarrow> bool" where
  "gone_round (M_read i es) = (\<forall>e \<in> set es. e = Bytes [])"
| "gone_round _ = True"

definition all_busy :: "nat \<Rightarrow> mproc \<Rightarrow> bool" where
  "all_busy n p \<longleftrightarrow> (\<forall>i < n. (\<exists>t. threads (mp_pool p) i = Running t) \<and> m_run (mp_workers p i) \<and> mp_at p i = M_reading)"

lemma gone_blocks: "\<forall>e \<in> set es. e = Bytes [] \<Longrightarrow> m_read_section es c = Block"
proof -
  assume e: "\<forall>e \<in> set es. e = Bytes []"
  have "read_until crlf 1000 [] es = Block"
    using e
  proof (induction es)
    case (Cons e es)
    moreover have "\<not> contains [] crlf" by (simp add: contains_def crlf_def)
    ultimately show ?case by (simp add: read_until_Bytes rd_rest_def Let_def cstr_def)
  qed simp
  then show ?thesis by (simp add: m_read_section_def master_do_read_def m_rlen_def)
qed

lemma busy_step:
  assumes "all_busy n p" "gone_round e" "m_step n e p = Some p'" "\<forall>i. n \<le> i \<longrightarrow> threads (mp_pool p) i = Idle"
  shows "all_busy n p' \<and> started (mp_pool p') = started (mp_pool p) \<and> (\<forall>i. n \<le> i \<longrightarrow> threads (mp_pool p') i = Idle)"
proof (cases e)
  case (M_accept fd)
  then show ?thesis using assms by (auto simp: all_busy_def m_accept_def m_addTask_def Let_def)
next
  case (M_thread i t)
  show ?thesis
  proof (cases "i < n")
    case True
    then obtain u where "threads (mp_pool p) i = Running u" "m_run (mp_workers p i)"
      using assms(1) by (auto simp: all_busy_def)
    then show ?thesis using assms(3) M_thread by (cases t) (auto simp: m_ThreadFun_def)
  next
    case False
    then have "threads (mp_pool p) i = Idle" using assms(4) by simp
    then show ?thesis using assms(3) M_thread False by (cases t) (auto simp: m_ThreadFun_def split: if_splits)
  qed
next
  case (M_read i es)
  then show ?thesis using assms(2,3) gone_blocks [of es "(mp_workers p i)\<lparr>mst := mp_master p\<rparr>"]
    by (simp add: m_put_def split: if_splits)
next
  case (M_work i up)
  have "mp_at p i = M_reading"
  proof (cases "i < n")
    case False
    then show ?thesis using assms(3,4) M_work by (simp add: is_running_def)
  qed (use assms(1) in \<open>simp add: all_busy_def\<close>)
  then show ?thesis using assms(3) M_work by simp
next
  case (M_beat up ok)
  then show ?thesis using assms by (auto simp: all_busy_def split: prod.splits)
qed

lemma master_starved:
  assumes "all_busy n p" "\<forall>i. n \<le> i \<longrightarrow> threads (mp_pool p) i = Idle" "\<forall>e \<in> set es. gone_round e"
    and "m_run_all n es p = Some p'"
  shows "started (mp_pool p') = started (mp_pool p)"
  using assms
proof (induction es arbitrary: p)
  case (Cons e es)
  then obtain p1 where p1: "m_step n e p = Some p1" "m_run_all n es p1 = Some p'" by (auto split: option.splits)
  have "gone_round e" using Cons.prems(3) by simp
  note b = busy_step [OF Cons.prems(1) this p1(1) Cons.prems(2)]
  then show ?case using Cons.IH [OF _ _ _ p1(2)] Cons.prems(3) by simp
qed simp

text \<open>What the administration page does (\<open>getState\<close>): it connects, asks and reads the answer; nothing else is sent.\<close>

definition states_query :: "nat \<Rightarrow> (sockaddr_in \<Rightarrow> bool) \<Rightarrow> nat \<Rightarrow> m_event list" where
  "states_query fd up k = [M_accept fd, M_thread k M_take, M_thread k M_begin, M_read k [Bytes (''states'' @ crlf)],
     M_work k up, M_work k up]"

definition queried :: "nat \<Rightarrow> mproc \<Rightarrow> bool" where
  "queried k p \<longleftrightarrow> workQueue (mp_pool p) = [] \<and> \<not> closed (mp_pool p) \<and> all_busy k p \<and>
     (\<forall>i. k \<le> i \<longrightarrow> threads (mp_pool p) i = Idle)"

lemma reply_run [simp]: "m_run (m_reply s c) = m_run c"
  by (simp add: m_reply_def)

lemma replies_run [simp]: "m_run (foldl (\<lambda>c s. m_reply (f s) c) c ss) = m_run c"
  by (induction ss arbitrary: c) simp_all

lemma m_is_cmd_prefix:
  "m_is_cmd command name \<longleftrightarrow>
     cstr command \<noteq> [] \<and> name \<noteq> [] \<and> list_all (\<lambda>(a, b). toupper a = toupper b) (zip (cstr command) name)"
  by (simp add: m_is_cmd_def m_strnicmp_def strnicmp_prefix)

lemma toupper_lower: "toupper CHR ''s'' = CHR ''S''" "toupper CHR ''t'' = CHR ''T''" "toupper CHR ''a'' = CHR ''A''"
  "toupper CHR ''e'' = CHR ''E''" "toupper CHR ''W'' = CHR ''W''"
  by (simp_all add: toupper_def less_eq_char_def char_of_def bit_Suc_0_iff)

lemma states_round:
  assumes "m_wait c = []"
  shows "\<exists>c1 c2. m_read_section [Bytes (''states'' @ crlf)] c = Ok (M_working, c1) \<and> m_work_section up M_working c1 = Ok (M_working, c2) \<and>
    m_work_section up M_working c2 = Ok (M_reading, c2) \<and> m_run c1 = m_run c \<and> m_run c2 = m_run c \<and> mst c1 = mst c \<and> mst c2 = mst c"
proof -
  let ?q = "''states'' @ crlf"
  have "contains (cstr ?q) crlf" by (simp add: contains_def crlf_def cstr_def)
  then have r: "master_do_read 1000 [Bytes ?q] = Ok (True, ?q, [])"
    by (simp add: master_do_read_def read_until_Bytes rd_rest_def Let_def crlf_def)
  have f: "find ?q crlf 0 = 6" "find [] crlf 0 = npos"
    by (simp_all add: find_def crlf_def)
  have e: "m_extract_command ?q = Some (?q, [])" "m_extract_command [] = None"
    unfolding m_extract_command_def f by (simp_all add: crlf_def npos_def)
  have w: "\<not> (\<not> m_is_cmd ?q ''QUIT'' \<and> m_is_cmd ?q ''WHERE'')" by (simp add: m_is_cmd_prefix toupper_lower)
  have d: "m_dispatch up ?q c1 = Ok (m_parse_STATES up c1)" for c1
    by (simp add: m_dispatch_def m_is_cmd_prefix toupper_lower)
  let ?c1 = "c\<lparr>m_inp := [], m_wait := ?q\<rparr>" let ?c2 = "m_parse_STATES up (?c1\<lparr>m_wait := []\<rparr>)"
  have c2: "m_run ?c2 = m_run c" "mst ?c2 = mst c" "m_wait ?c2 = []"
    using replies_run [of "\<lambda>s. s"] replies_mst [of "\<lambda>s. s"] replies_wait [of "\<lambda>s. s" "[]"]
    by (simp_all add: m_parse_STATES_def reply_wait)
  have i: "cstr ?q = ?q" "length ?q < 1000" by (simp_all add: cstr_def crlf_def)
  have "m_read_section [Bytes ?q] c = Ok (M_working, ?c1)"
    unfolding m_read_section_def m_rlen_def r and_then.simps prod.case assms append_Nil i(1) if_P [OF i(2)] ..
  moreover have "m_work_section up M_working ?c1 = Ok (M_working, ?c2)"
  proof -
    have x: "m_wait ?c1 = ?q" by simp
    show ?thesis unfolding m_work_section_def m_at.case x e(1) option.case prod.case if_not_P [OF w] d and_then.simps ..
  qed
  moreover have "m_work_section up M_working ?c2 = Ok (M_reading, ?c2)"
    unfolding m_work_section_def m_at.case c2(3) e(2) option.case ..
  moreover have "m_run ?c1 = m_run c" "mst ?c1 = mst c" by simp_all
  ultimately show ?thesis using c2(1,2) by blast
qed

lemma query_step:
  assumes "queried k p" "k < n"
  shows "\<exists>p'. m_run_all n (states_query fd up k) p = Some p' \<and> queried (Suc k) p'"
proof -
  let ?t = "(fd, wrap_long (connection_count p + 1))" and ?c = "new_masterWorker (mp_master p)"
  have w: "m_wait ?c = []" by (simp add: new_masterWorker_def)
  obtain c1 c2 where c: "m_read_section [Bytes (''states'' @ crlf)] ?c = Ok (M_working, c1)"
    "m_work_section up M_working c1 = Ok (M_working, c2)" "m_work_section up M_working c2 = Ok (M_reading, c2)"
    "m_run c1 = m_run ?c" "m_run c2 = m_run ?c" "mst c1 = mst ?c" "mst c2 = mst ?c"
    using states_round [OF w] by blast
  have run: "m_run ?c" "mst ?c = mp_master p" by (simp_all add: new_masterWorker_def)
  have q: "workQueue (mp_pool p) = []" "\<not> closed (mp_pool p)" "threads (mp_pool p) k = Idle" "all_busy k p"
      "\<forall>i. k \<le> i \<longrightarrow> threads (mp_pool p) i = Idle"
    using assms(1) by (simp_all add: queried_def)
  define p1 where "p1 = m_accept fd p"
  have p1: "mp_pool p1 = (mp_pool p)\<lparr>workQueue := [?t]\<rparr>" "mp_master p1 = mp_master p" "mp_workers p1 = mp_workers p" "mp_at p1 = mp_at p"
    using q(1) by (simp_all add: p1_def m_accept_def m_addTask_def push_back_def Let_def)
  define p2 where "p2 = p1\<lparr>mp_pool := (mp_pool p)\<lparr>workQueue := [], threads := (threads (mp_pool p))(k := Popped ?t),
    started := started (mp_pool p) @ [?t]\<rparr>\<rparr>"
  have s2: "m_step n (M_thread k M_take) p1 = Some p2"
    using q assms(2) by (simp add: p1 m_ThreadFun_def take_front_def p2_def)
  define p3 where "p3 = p2\<lparr>mp_pool := (mp_pool p2)\<lparr>ongoing := insert ?t (ongoing (mp_pool p2)),
    threads := (threads (mp_pool p2))(k := Running ?t)\<rparr>, mp_workers := (mp_workers p)(k := ?c), mp_at := (mp_at p)(k := M_reading)\<rparr>"
  have s3: "m_step n (M_thread k M_begin) p2 = Some p3"
    by (simp add: m_ThreadFun_def p3_def p2_def p1)
  have p3: "is_running k p3" "m_run (mp_workers p3 k)" "mp_at p3 k = M_reading" "(mp_workers p3 k)\<lparr>mst := mp_master p3\<rparr> = ?c"
    "mp_master p3 = mp_master p"
    by (simp_all add: p3_def p2_def p1 is_running_def new_masterWorker_def)
  define p4 where "p4 = p3\<lparr>mp_master := mst c1, mp_workers := (mp_workers p3)(k := c1), mp_at := (mp_at p3)(k := M_working)\<rparr>"
  define p5 where "p5 = p4\<lparr>mp_master := mst c2, mp_workers := (mp_workers p4)(k := c2), mp_at := (mp_at p4)(k := M_working)\<rparr>"
  define p6 where "p6 = p5\<lparr>mp_master := mst c2, mp_workers := (mp_workers p5)(k := c2), mp_at := (mp_at p5)(k := M_reading)\<rparr>"
  have s4: "m_step n (M_read k [Bytes (''states'' @ crlf)]) p3 = Some p4"
    unfolding m_step.simps p3(4) c(1) using p3(1-3) by (simp add: m_put_def p4_def)
  have m4: "(mp_workers p4 k)\<lparr>mst := mp_master p4\<rparr> = c1" "is_running k p4" "mp_at p4 k = M_working"
    using p3(1) by (simp_all add: p4_def is_running_def)
  have s5: "m_step n (M_work k up) p4 = Some p5"
    unfolding m_step.simps m4(1,3) c(2) using m4(2) by (simp add: m_put_def p5_def)
  have m5: "(mp_workers p5 k)\<lparr>mst := mp_master p5\<rparr> = c2" "is_running k p5" "mp_at p5 k = M_working"
    using m4(2) by (simp_all add: p5_def is_running_def)
  have s6: "m_step n (M_work k up) p5 = Some p6"
    unfolding m_step.simps m5(1,3) c(3) using m5(2) by (simp add: m_put_def p6_def)
  have "m_run c2" using c(5) run(1) by simp
  then have "queried (Suc k) p6"
    using q p1(3,4) by (auto simp: queried_def all_busy_def less_Suc_eq p6_def p5_def p4_def p3_def p2_def)
  moreover have "m_run_all n (states_query fd up k) p = Some p6"
    unfolding states_query_def m_run_all.simps m_step.simps(1) option.case p1_def [symmetric] s2 s3 s4 s5 s6 ..
  ultimately show ?thesis by blast
qed

lemma queries_busy:
  "k \<le> n \<Longrightarrow> \<exists>p. m_run_all n (concat (map (\<lambda>i. states_query (fd i) up i) [0..<k])) (m_start m) = Some p \<and> queried k p"
proof (induction k)
  case 0
  then show ?case by (simp add: queried_def all_busy_def m_start_def masterThreadPool_def new_ThreadPool_def)
next
  case (Suc k)
  then obtain p where p: "m_run_all n (concat (map (\<lambda>i. states_query (fd i) up i) [0..<k])) (m_start m) = Some p" "queried k p"
    by auto
  then show ?case using query_step [OF p(2), of n "fd k" up] Suc.prems by (simp add: m_run_all_append)
qed

text \<open>
  C40. A worker of the master takes no notice of a read that brings nothing, and the administration page
  never sends QUIT (nor closes its socket). So after as many page views as the master has threads (100)
  no connection is taken up any more, however many arrive.
\<close>

theorem admin_exhausts_master:
  assumes "\<forall>e \<in> set es. gone_round e"
  shows "\<exists>p. m_run_all n (concat (map (\<lambda>i. states_query (fd i) up i) [0..<n])) (m_start m) = Some p \<and>
    (\<forall>p'. m_run_all n es p = Some p' \<longrightarrow> started (mp_pool p') = started (mp_pool p))"
proof -
  obtain p where p: "m_run_all n (concat (map (\<lambda>i. states_query (fd i) up i) [0..<n])) (m_start m) = Some p" "queried n p"
    using queries_busy [of n n] by blast
  then show ?thesis using master_starved [OF _ _ assms, of n p] by (auto simp: queried_def)
qed

theorem admin_exhausts_master_witness:
  "\<exists>p p'. m_run_all 2 (states_query 5 (\<lambda>_. True) 0 @ states_query 6 (\<lambda>_. True) 1) (m_start demo_master) = Some p \<and>
    m_run_all 2 [M_accept 7, M_accept 8] p = Some p' \<and> started (mp_pool p') = started (mp_pool p)"
proof -
  have l: "[0..<2] = [0, 1::nat]" by (simp add: upt_rec)
  obtain p where "m_run_all 2 (states_query 5 (\<lambda>_. True) 0 @ states_query 6 (\<lambda>_. True) 1) (m_start demo_master) = Some p"
    "\<forall>p'. m_run_all 2 [M_accept 7, M_accept 8] p = Some p' \<longrightarrow> started (mp_pool p') = started (mp_pool p)"
    using admin_exhausts_master [of "[M_accept 7, M_accept 8]" 2 "\<lambda>i. i + 5" "\<lambda>_. True" demo_master] by (auto simp: l)
  then show ?thesis by simp
qed


end
