(* ===== verification/File_Store.thy ===== *)
theory File_Store
  imports Net_Connection Cpp_Map
begin

text \<open>
  \<open>storage/\<close>: the library the web front end keeps a user's files with. \<open>fileHandler.cc\<close> codes
  file contents as hexadecimal text, \<open>masterConnect.cc\<close> asks the master for the user's data server,
  \<open>Storage.cc\<close> keeps folders as listings in cells and talks to the data server. The data server and
  the master are the parameters \<open>exchange\<close>, \<open>ask_master\<close> and \<open>connect_to\<close> of a record over a type
  of their states; other users act inside them. Debug output and the deletion of objects are left out.
\<close>

section \<open>File contents as text\<close>

definition hex_digit :: "nat \<Rightarrow> char" where
  "hex_digit d = char_of (if d < 10 then 48 + d else 87 + d)"

definition hex_byte :: "char \<Rightarrow> string" where
  "hex_byte c = [hex_digit (of_char c div 16), hex_digit (of_char c mod 16)]"

definition convert_binary_to_str :: "string \<Rightarrow> string" where
  "convert_binary_to_str content = concat (map hex_byte content)"

definition hex_val :: "char \<Rightarrow> nat option" where
  "hex_val c =
     (let n = of_char c :: nat
      in if 48 \<le> n \<and> n \<le> 57 then Some (n - 48)
         else if 97 \<le> n \<and> n \<le> 102 then Some (n - 87)
         else if 65 \<le> n \<and> n \<le> 70 then Some (n - 55)
         else None)"

text \<open>
  \<open>stringstream >> hex >> c\<close> into an \<open>unsigned int\<close>: blanks, a sign, \<open>0x\<close>, digits; 0 when
  there is no digit. The result is cut to a byte.
\<close>

definition hex_in :: "string \<Rightarrow> char" where
  "hex_in s =
     (let t = dropWhile is_space s;
          neg = (t \<noteq> [] \<and> hd t = CHR ''-'');
          u = (if t \<noteq> [] \<and> (hd t = CHR ''-'' \<or> hd t = CHR ''+'') then tl t else t);
          w = (if prefix ''0x'' u \<or> prefix ''0X'' u then drop 2 u else u);
          ds = takeWhile (\<lambda>c. hex_val c \<noteq> None) w;
          v = foldl (\<lambda>v c. 16 * v + int (the (hex_val c))) 0 ds
      in char_of (nat ((if neg then - v else v) mod 256)))"

text \<open>
  The loop bound \<open>str.length() - 1\<close> is unsigned: it wraps around for the empty text, and the loop
  runs on until \<open>substr\<close> throws.
\<close>

function from_hex :: "string \<Rightarrow> nat \<Rightarrow> string res" where
  "from_hex str i =
     (if i < szsub (length str) 1 then
        and_then (substr str i 2) (\<lambda>p.
          and_then (from_hex str (i + 2)) (\<lambda>r. Ok (hex_in p # r)))
      else Ok [])"
  by pat_completeness auto
termination
  by (relation "measure (\<lambda>(str, i). length str + 2 - i)") (auto simp: substr_def split: if_splits)

declare from_hex.simps [simp del]

definition convert_str_to_binary :: "string \<Rightarrow> string res" where
  "convert_str_to_binary str = from_hex str 0"

section \<open>Files and listings\<close>

record file_info =
  fi_name :: string
  fi_id :: string
  fi_file :: bool
  fi_time :: string
  fi_size :: string

text \<open>
  The loop that cuts \<open>name_id\<close> at every \<open>||\<close>. It tests each position, also the one right after the
  start of a separator, so \<open>|||\<close> would count twice: then \<open>i - previous\<close> is \<open>-1\<close> and \<open>substr\<close> takes
  the rest of the text. The bound \<open>length() - 1\<close> wraps around for the empty text (\<open>Bad_index\<close>).
\<close>

function cut_bars :: "string \<Rightarrow> nat \<Rightarrow> nat \<Rightarrow> string list res" where
  "cut_bars s i prev =
     (if i < szsub (length s) 1 then
        (if length s \<le> i + 1 then Throw Bad_index
         else if s ! i = CHR ''|'' \<and> s ! (i + 1) = CHR ''|'' then
           and_then (substr s prev (szsub i prev)) (\<lambda>x.
             and_then (cut_bars s (i + 1) (i + 2)) (\<lambda>r. Ok (x # r)))
         else cut_bars s (i + 1) prev)
      else and_then (substr s prev npos) (\<lambda>x. Ok [x]))"
  by pat_completeness auto
termination
  by (relation "measure (\<lambda>(s, i, prev). length s - i)") auto

declare cut_bars.simps [simp del]

definition parse_string_to_class :: "string \<Rightarrow> file_info res" where
  "parse_string_to_class str =
     and_then (substr str 0 1) (\<lambda>type.
     and_then (substr str 2 npos) (\<lambda>name_id.
     and_then (cut_bars name_id 0 0) (\<lambda>result.
       case result of
         i # n # t # s # _ \<Rightarrow>
           Ok \<lparr>fi_name = n, fi_id = i, fi_file = (type = ''f''), fi_time = t, fi_size = s\<rparr>
       | _ \<Rightarrow> Throw Bad_index)))"

text \<open>The lines of a listing; what follows the last line end is dropped.\<close>

fun cut_lines :: "string \<Rightarrow> string \<Rightarrow> string list" where
  "cut_lines acc [] = []"
| "cut_lines acc (c # cs) = (if c = LF then rev acc # cut_lines [] cs else cut_lines (c # acc) cs)"

definition parse_content_fileNames :: "string \<Rightarrow> string list" where
  "parse_content_fileNames str = (if length str = 0 then [] else cut_lines [] str)"

fun exist_same_fileName :: "string \<Rightarrow> string list \<Rightarrow> bool res" where
  "exist_same_fileName filename [] = Ok False"
| "exist_same_fileName filename (x # xs) =
     and_then (parse_string_to_class x) (\<lambda>f.
       if fi_name f = filename then Ok True else exist_same_fileName filename xs)"

text \<open>The line of a file (\<open>f:\<close>) or folder (\<open>o:\<close>), without its line end.\<close>

definition file_line :: "file_info \<Rightarrow> string" where
  "file_line f =
     (if fi_file f then ''f:'' else ''o:'') @ fi_id f @ ''||'' @ fi_name f @ ''||'' @ fi_time f @ ''||'' @ fi_size f"

definition command_parser :: "string \<Rightarrow> string \<Rightarrow> string" where
  "command_parser userName column_name = ''<'' @ userName @ ''> '' @ ''<'' @ column_name @ ''>'' @ crlf"

section \<open>Asking the master\<close>

text \<open>
  A \<open>read\<close> into a zeroed buffer of \<open>len\<close> bytes that is then taken as a C string: the count and the
  string. A full buffer without a zero byte is read past its end (\<open>Bad_index\<close>).
\<close>

definition c_read :: "nat \<Rightarrow> rd list \<Rightarrow> (int \<times> string \<times> rd list) res" where
  "c_read len es =
     (case es of
        [] \<Rightarrow> Block
      | Fail # es' \<Rightarrow> Ok (-1, [], es')
      | Bytes b # es' \<Rightarrow>
          if length b < len then Ok (int (length b), cstr b, es')
          else if CHR 0x00 \<in> set (take len b)
          then Ok (int len, cstr (take len b), if length b = len then es' else Bytes (drop len b) # es')
          else Throw Bad_index)"

lemma c_read_less:
  "c_read len es = Ok (n, s, es') \<Longrightarrow> 0 < len \<Longrightarrow> sum_list (map rd_size es') < sum_list (map rd_size es)"
  by (auto simp: c_read_def split: list.splits rd.splits if_splits)

lemma c_read_piece [simp]:
  "length b < len \<Longrightarrow> CHR 0x00 \<notin> set b \<Longrightarrow> c_read len (Bytes b # es) = Ok (int (length b), b, es)"
  by (simp add: c_read_def)

function mc_do_read :: "string \<Rightarrow> rd list \<Rightarrow> (string \<times> rd list) res" where
  "mc_do_read complete es =
     and_then (c_read 100 es) (\<lambda>(n, s, es').
       if contains (complete @ s) crlf then Ok (complete @ s, es')
       else mc_do_read (complete @ s) es')"
  by pat_completeness auto
termination
  by (relation "measure (\<lambda>(complete, es). sum_list (map rd_size es))") (auto dest: c_read_less)

declare mc_do_read.simps [simp del]

text \<open>The position of the last \<open><\<close> before the first \<open>>\<close>, and of that \<open>>\<close>.\<close>

fun angle_scan :: "string \<Rightarrow> nat \<Rightarrow> nat \<Rightarrow> nat \<times> nat" where
  "angle_scan [] i j = (i, j)"
| "angle_scan (c # cs) i j =
     (if c = CHR ''>'' then (i, j)
      else angle_scan cs (Suc i) (if c = CHR ''<'' then i else j))"

definition server_address :: "string \<Rightarrow> string res" where
  "server_address response =
     (case angle_scan response 0 0 of (i, j) \<Rightarrow> substr response (szadd j 1) (szsub (szsub i j) 1))"

text \<open>Cutting an address at the colon: the IP text for \<open>inet_pton\<close> and the port.\<close>

definition parse_addr :: "string \<Rightarrow> (string \<times> int) res" where
  "parse_addr address =
     (let i = (case sfind '':'' address of None \<Rightarrow> length address | Some i \<Rightarrow> i)
      in and_then (substr address 0 i) (\<lambda>ip.
         and_then (substr address (i + 1) npos) (\<lambda>port. Ok (ip, atoi port mod 65536))))"

record 'b backend =
  exchange :: "string \<Rightarrow> 'b \<Rightarrow> rd list \<times> 'b"
  ask_master :: "string \<Rightarrow> 'b \<Rightarrow> rd list \<times> 'b"
  connect_to :: "string \<times> int \<Rightarrow> 'b \<Rightarrow> 'b option"

text \<open>The request is built in a buffer of 100 bytes with \<open>strcat\<close>.\<close>

definition where_message :: "string \<Rightarrow> string res" where
  "where_message user =
     (let m = ''Where <'' @ user @ ''>'' @ crlf in if length m < 100 then Ok m else Throw Bad_index)"

definition sendto_backend :: "'b backend \<Rightarrow> string \<Rightarrow> 'b \<Rightarrow> (string \<times> 'b) res" where
  "sendto_backend E message b =
     (case ask_master E message b of (es, b1) \<Rightarrow>
        and_then (mc_do_read [] es) (\<lambda>(response, es').
        and_then (server_address response) (\<lambda>addr. Ok (addr, b1))))"

section \<open>The connection to the data server\<close>

record 'b storage =
  userName :: string
  cur_path :: "file_info list"
  files_in_path :: "(string, file_info) smap"
  crash_flag :: bool
  sock :: "rd list"
  peer :: "'b option"

text \<open>
  \<open>Storage\<close>: one attempt to connect. A socket that is not connected kills the process with SIGPIPE
  at the first \<open>write\<close>.
\<close>

definition root_folder :: file_info where
  "root_folder = \<lparr>fi_name = ''storage'', fi_id = ''storage'', fi_file = False, fi_time = ''0'', fi_size = ''0''\<rparr>"

definition new_Storage :: "'b backend \<Rightarrow> string \<Rightarrow> 'b \<Rightarrow> 'b storage res" where
  "new_Storage E user b =
     and_then (where_message user) (\<lambda>m.
     and_then (sendto_backend E m b) (\<lambda>(addr, b1).
     and_then (parse_addr addr) (\<lambda>a.
       Ok \<lparr>userName = user, cur_path = [], files_in_path = map_insert ''storage'' root_folder [],
          crash_flag = False, sock = [], peer = connect_to E a b1\<rparr>)))"

text \<open>\<open>server_recover\<close> connects again until the new server accepts.\<close>

definition server_recover :: "'b backend \<Rightarrow> 'b storage \<Rightarrow> 'b storage res" where
  "server_recover E st =
     (case peer st of
        None \<Rightarrow> Throw Killed
      | Some b \<Rightarrow>
          and_then (where_message (userName st)) (\<lambda>m.
          and_then (sendto_backend E m b) (\<lambda>(addr, b1).
          and_then (parse_addr addr) (\<lambda>a.
            case connect_to E a b1 of
              None \<Rightarrow> Block
            | Some b2 \<Rightarrow> Ok (st\<lparr>sock := [], peer := Some b2, crash_flag := False\<rparr>)))))"

text \<open>
  A PUT goes out in two writes and a CPUT in three. Here what they carry is one message to the data server, whose
  answers are read afterwards. The result of the writes is not looked at, as in the code.
\<close>

definition send_bytes :: "'b backend \<Rightarrow> string \<Rightarrow> 'b storage \<Rightarrow> 'b storage res" where
  "send_bytes E msg st =
     (case peer st of
        None \<Rightarrow> Throw Killed
      | Some b \<Rightarrow> (case exchange E msg b of (es, b1) \<Rightarrow> Ok (st\<lparr>sock := sock st @ es, peer := Some b1\<rparr>)))"

definition complete_data :: "string \<Rightarrow> bool" where
  "complete_data str \<longleftrightarrow> contains str terminator"

definition complete_reply :: "string \<Rightarrow> bool" where
  "complete_reply str \<longleftrightarrow> contains str crlf"

abbreviation shutting_down :: string where
  "shutting_down \<equiv> ''-ERR Server shutting down''"

text \<open>The replies of both readers: the text, whether the server crashed, and the rest of the socket.\<close>

function read_get_data :: "string \<Rightarrow> rd list \<Rightarrow> (string \<times> bool \<times> rd list) res" where
  "read_get_data acc es =
     and_then (c_read 7000000 es) (\<lambda>(count, s, es').
       let complete1 = acc @ s in
       if contains complete1 shutting_down \<or> count = 0 then Ok (''SERVER CRASH'', True, es')
       else if contains complete1 (''DATA'' @ crlf) \<and> complete_data complete1 then
         (if length complete1 \<le> 11 then Ok ([], False, es')
          else and_then (substr complete1 6 (length complete1 - 11)) (\<lambda>d. Ok (d, False, es')))
       else if contains complete1 ''-ERR NULL'' \<and> complete_reply complete1 then Ok (''-ERR NULL'', False, es')
       else read_get_data complete1 es')"
  by pat_completeness auto
termination
  by (relation "measure (\<lambda>(acc, es). sum_list (map rd_size es))") (auto dest: c_read_less)

text \<open>\<open>read_put_reply\<close> looks for the shutdown message before it appends what it has just read.\<close>

function read_put_reply :: "string \<Rightarrow> rd list \<Rightarrow> (string \<times> bool \<times> rd list) res" where
  "read_put_reply complete es =
     and_then (c_read 100 es) (\<lambda>(i, s, es').
       if contains complete shutting_down \<or> i = 0 then Ok (''SERVER CRASH'', True, es')
       else if contains (complete @ s) crlf then Ok (complete @ s, False, es')
       else read_put_reply (complete @ s) es')"
  by pat_completeness auto
termination
  by (relation "measure (\<lambda>(complete, es). sum_list (map rd_size es))") (auto dest: c_read_less)

declare read_get_data.simps [simp del] read_put_reply.simps [simp del]

definition receive_reply ::
    "(string \<Rightarrow> rd list \<Rightarrow> (string \<times> bool \<times> rd list) res) \<Rightarrow> 'b storage \<Rightarrow> (string \<times> 'b storage) res" where
  "receive_reply rd st =
     and_then (rd [] (sock st)) (\<lambda>(response, crashed, es').
       Ok (response, st\<lparr>sock := es', crash_flag := crash_flag st \<or> crashed\<rparr>))"

text \<open>
  The loop that the four \<open>send_\<close> functions share: send, read the reply; after a crash, connect to the
  new server, call the function itself, and then run the loop again, which sends the command once
  more. The fuel \<open>n\<close> bounds the nesting; without it left, the function has not returned (\<open>Block\<close>).
\<close>

fun send_loop ::
    "'b backend \<Rightarrow> (string \<Rightarrow> rd list \<Rightarrow> (string \<times> bool \<times> rd list) res) \<Rightarrow> string \<Rightarrow> nat \<Rightarrow> 'b storage \<Rightarrow>
     (string \<times> 'b storage) res" where
  "send_loop E rd msg 0 st = Block"
| "send_loop E rd msg (Suc n) st =
     and_then (send_bytes E msg st) (\<lambda>st1.
     and_then (receive_reply rd st1) (\<lambda>(response, st2).
       if response \<noteq> ''SERVER CRASH'' then Ok (response, st2)
       else and_then (server_recover E st2) (\<lambda>st3.
            and_then (send_loop E rd msg n st3) (\<lambda>(response', st4).
              send_loop E rd msg n st4))))"

definition send_get_command :: "'b backend \<Rightarrow> nat \<Rightarrow> string \<Rightarrow> 'b storage \<Rightarrow> (string \<times> 'b storage) res" where
  "send_get_command E n index st = send_loop E read_get_data (''GET '' @ index) n st"

definition send_put_command :: "'b backend \<Rightarrow> nat \<Rightarrow> string \<Rightarrow> string \<Rightarrow> 'b storage \<Rightarrow> (string \<times> 'b storage) res" where
  "send_put_command E n index data st =
     send_loop E read_put_reply (''PUT '' @ index @ ''DATA'' @ crlf @ data @ terminator) n st"

definition send_cput_command ::
    "'b backend \<Rightarrow> nat \<Rightarrow> string \<Rightarrow> string \<Rightarrow> string \<Rightarrow> 'b storage \<Rightarrow> (string \<times> 'b storage) res" where
  "send_cput_command E n index old_data new_data st =
     send_loop E read_put_reply
       (''CPUT '' @ index @ ''OLD'' @ crlf @ old_data @ terminator @ ''NEW'' @ crlf @ new_data @ terminator) n st"

definition send_delete_command :: "'b backend \<Rightarrow> nat \<Rightarrow> string \<Rightarrow> 'b storage \<Rightarrow> (string \<times> 'b storage) res" where
  "send_delete_command E n index st = send_loop E read_put_reply (''DELETE '' @ index) n st"

section \<open>Changing a listing\<close>

text \<open>
  The retry loop of \<open>send_cput_command_add\<close>: while the compare-and-swap fails, read the listing again.
  The loop ends without a reply (the response has been cleared) when the name is there already.
\<close>

fun cput_add_loop ::
    "'b backend \<Rightarrow> nat \<Rightarrow> string \<Rightarrow> string \<Rightarrow> string \<Rightarrow> string \<Rightarrow> 'b storage \<Rightarrow> (string \<times> 'b storage) res" where
  "cput_add_loop E n index data filename response st =
     (if \<not> contains response ''-ERR'' then Ok (response, st)
      else case n of
        0 \<Rightarrow> Block
      | Suc n' \<Rightarrow>
          and_then (send_get_command E n' index st) (\<lambda>(get_response, st1).
            if get_response = ''-ERR NULL'' then Ok (response, st1)
            else and_then (if 0 < length get_response
                           then exist_same_fileName filename (parse_content_fileNames get_response)
                           else Ok False) (\<lambda>test_exist.
              if test_exist then Ok ([], st1)
              else and_then (send_cput_command E n' index get_response (get_response @ data) st1) (\<lambda>(r, st2).
                   cput_add_loop E n' index data filename r st2))))"

declare cput_add_loop.simps [simp del]

definition send_cput_command_add ::
    "'b backend \<Rightarrow> nat \<Rightarrow> string \<Rightarrow> string \<Rightarrow> string \<Rightarrow> string \<Rightarrow> 'b storage \<Rightarrow> (string \<times> 'b storage) res" where
  "send_cput_command_add E n index old_data data filename st =
     and_then (if 0 < length old_data
               then exist_same_fileName filename (parse_content_fileNames old_data)
               else Ok False) (\<lambda>test_exist.
       if test_exist then Ok (''-ERR'', st)
       else and_then (send_cput_command E n index old_data (old_data @ data) st) (\<lambda>(r, st1).
            cput_add_loop E n index data filename r st1))"

text \<open>
  The lines kept when \<open>delete_name\<close> goes, and the flag \<open>has_deleted\<close>: it stays true while no line
  with that identifier was met, so it says that the entry had been deleted before.
\<close>

fun drop_entry :: "string \<Rightarrow> string list \<Rightarrow> (string \<times> bool) res" where
  "drop_entry delete_name [] = Ok ([], True)"
| "drop_entry delete_name (x # xs) =
     and_then (parse_string_to_class x) (\<lambda>f.
     and_then (drop_entry delete_name xs) (\<lambda>(rest, has_deleted).
       if fi_id f \<noteq> delete_name then Ok (x @ [LF] @ rest, has_deleted) else Ok (rest, False)))"

fun cput_delete_loop ::
    "'b backend \<Rightarrow> nat \<Rightarrow> string \<Rightarrow> string \<Rightarrow> bool \<Rightarrow> string \<Rightarrow> 'b storage \<Rightarrow> (bool \<times> string \<times> 'b storage) res" where
  "cput_delete_loop E n index delete_name has_deleted response st =
     (if \<not> contains response ''-ERR'' then Ok (has_deleted, response, st)
      else case n of
        0 \<Rightarrow> Block
      | Suc n' \<Rightarrow>
          and_then (send_get_command E n' index st) (\<lambda>(get_response, st1).
            if get_response = ''-ERR NULL'' \<or> length get_response = 0 then Ok (has_deleted, response, st1)
            else and_then (drop_entry delete_name (parse_content_fileNames get_response)) (\<lambda>(new_content1, d).
                 and_then (send_cput_command E n' index get_response new_content1 st1) (\<lambda>(r, st2).
                 cput_delete_loop E n' index delete_name (has_deleted \<and> d) r st2))))"

declare cput_delete_loop.simps [simp del]

definition send_cput_command_delete ::
    "'b backend \<Rightarrow> nat \<Rightarrow> string \<Rightarrow> string \<Rightarrow> string \<Rightarrow> 'b storage \<Rightarrow> (bool \<times> string \<times> 'b storage) res" where
  "send_cput_command_delete E n index old_data delete_name st =
     and_then (drop_entry delete_name (parse_content_fileNames old_data)) (\<lambda>(new_content, has_deleted).
     and_then (send_cput_command E n index old_data new_content st) (\<lambda>(r, st1).
       cput_delete_loop E n index delete_name has_deleted r st1))"

section \<open>Folders\<close>

definition entry_of :: "string \<Rightarrow> 'b storage \<Rightarrow> file_info res" where
  "entry_of name st = (case map_at (files_in_path st) name of None \<Rightarrow> Throw Null_deref | Some f \<Rightarrow> Ok f)"

definition nameToID :: "string \<Rightarrow> 'b storage \<Rightarrow> string res" where
  "nameToID name st = and_then (entry_of name st) (\<lambda>f. Ok (fi_id f))"

definition files_insert :: "file_info \<Rightarrow> (string, file_info) smap \<Rightarrow> (string, file_info) smap" where
  "files_insert f m = (if map_has m (fi_name f) then m else map_insert (fi_name f) f m)"

definition content_of :: "string \<Rightarrow> string \<Rightarrow> string" where
  "content_of user i = command_parser user (i @ '':content'')"

definition name_of :: "string \<Rightarrow> string \<Rightarrow> string" where
  "name_of user i = command_parser user (i @ '':name'')"

definition show_files :: "string \<Rightarrow> 'b storage \<Rightarrow> (file_info list \<times> 'b storage) res" where
  "show_files data st =
     and_then (map_res parse_string_to_class (parse_content_fileNames data)) (\<lambda>files.
       Ok (files, st\<lparr>files_in_path := foldl (\<lambda>m f. files_insert f m) [] files\<rparr>))"

definition open_folder ::
    "'b backend \<Rightarrow> nat \<Rightarrow> string \<Rightarrow> string \<Rightarrow> 'b storage \<Rightarrow> (file_info list option \<times> 'b storage) res" where
  "open_folder E n user foldername st =
     and_then (nameToID foldername st) (\<lambda>folderID.
     and_then (send_get_command E n (content_of user folderID) st) (\<lambda>(data, st1).
       if data = ''-ERR NULL'' then Ok (None, st1)
       else and_then (entry_of foldername st1) (\<lambda>g.
         let f = \<lparr>fi_name = foldername, fi_id = folderID, fi_file = False, fi_time = fi_time g, fi_size = fi_size g\<rparr>;
             st2 = st1\<lparr>cur_path := cur_path st1 @ [f], files_in_path := []\<rparr>
         in if length data = 0 then Ok (Some [], st2)
            else and_then (show_files data st2) (\<lambda>(files, st3). Ok (Some files, st3)))))"

definition path_at :: "nat \<Rightarrow> 'b storage \<Rightarrow> file_info res" where
  "path_at i st = (if i < length (cur_path st) then Ok (cur_path st ! i) else Throw Out_of_range)"

definition last_of_path :: "'b storage \<Rightarrow> file_info res" where
  "last_of_path st = path_at (szsub (length (cur_path st)) 1) st"

definition refresh_upload :: "'b backend \<Rightarrow> nat \<Rightarrow> 'b storage \<Rightarrow> (file_info list option \<times> 'b storage) res" where
  "refresh_upload E n st =
     and_then (last_of_path st) (\<lambda>folder.
     and_then (send_get_command E n (content_of (userName st) (fi_id folder)) st) (\<lambda>(data, st1).
       if data = ''-ERR NULL'' then Ok (None, st1)
       else if length data = 0 then Ok (Some [], st1\<lparr>files_in_path := []\<rparr>)
       else and_then (show_files data (st1\<lparr>files_in_path := []\<rparr>)) (\<lambda>(files, st2). Ok (Some files, st2))))"

definition goBack :: "'b backend \<Rightarrow> nat \<Rightarrow> int \<Rightarrow> 'b storage \<Rightarrow> (file_info list option \<times> 'b storage) res" where
  "goBack E n index st =
     (if index < -1 then Throw Out_of_range
      else refresh_upload E n (st\<lparr>cur_path := take (nat (index + 1)) (cur_path st)\<rparr>))"

text \<open>The comparison of \<open>index\<close> with \<open>size() - 1\<close> is unsigned.\<close>

definition reload_page :: "'b backend \<Rightarrow> nat \<Rightarrow> int \<Rightarrow> 'b storage \<Rightarrow> (file_info list option \<times> 'b storage) res" where
  "reload_page E n index st =
     (if nat (index mod int size_mod) < szsub (length (cur_path st)) 1 then goBack E n index st
      else refresh_upload E n st)"

definition get_accessible_movingPath :: "string \<Rightarrow> 'b storage \<Rightarrow> file_info list" where
  "get_accessible_movingPath filename st =
     filter (\<lambda>f. \<not> fi_file f \<and> fi_name f \<noteq> filename) (map snd (files_in_path st))"

section \<open>Accounts\<close>

definition resgister :: "'b backend \<Rightarrow> nat \<Rightarrow> string \<Rightarrow> string \<Rightarrow> 'b storage \<Rightarrow> (bool \<times> 'b storage) res" where
  "resgister E n user password st =
     (let index = command_parser user ''password''
      in and_then (send_get_command E n index st) (\<lambda>(data, st1).
         if data = ''-ERR NULL'' then
           and_then (send_cput_command E n index ''NULL'' password st1) (\<lambda>(temp, st2).
             if contains temp ''-ERR'' then Ok (False, st2)
             else
               and_then (send_put_command E n (command_parser user ''storage:name'') ''storage'' st2) (\<lambda>(_, st3).
               and_then (send_put_command E n (command_parser user ''storage:content'') [] st3) (\<lambda>(_, st4).
               and_then (send_get_command E n (command_parser user ''storage:name'') st4) (\<lambda>(_, st5).
               and_then (open_folder E n (userName st5) ''storage'' st5) (\<lambda>(_, st6). Ok (True, st6))))))
         else Ok (False, st1)))"

definition sign_in :: "'b backend \<Rightarrow> nat \<Rightarrow> string \<Rightarrow> string \<Rightarrow> 'b storage \<Rightarrow> (bool \<times> 'b storage) res" where
  "sign_in E n user password st =
     and_then (send_get_command E n (''<'' @ user @ ''> '' @ ''<'' @ ''password'' @ ''>'' @ crlf) st) (\<lambda>(data, st1).
       if data = password then
         and_then (open_folder E n (userName st1) ''storage'' st1) (\<lambda>(_, st2). Ok (True, st2))
       else Ok (False, st1))"

section \<open>Files\<close>

text \<open>\<open>fileID\<close> and \<open>time\<close> are what \<open>getTime_as_ID\<close> and \<open>create_time\<close> return.\<close>

definition upload_file ::
    "'b backend \<Rightarrow> nat \<Rightarrow> string \<Rightarrow> string \<Rightarrow> string \<Rightarrow> string \<Rightarrow> string \<Rightarrow> string \<Rightarrow> string \<Rightarrow> 'b storage \<Rightarrow>
     (bool \<times> 'b storage) res" where
  "upload_file E n fileID time user pathID filename content fsize st =
     (let index = content_of user pathID;
          f = \<lparr>fi_name = filename, fi_id = fileID, fi_file = True, fi_time = time, fi_size = fsize\<rparr>
      in and_then (send_get_command E n index st) (\<lambda>(complete, st1).
         if complete = ''-ERR NULL'' then Ok (False, st1)
         else
           (let names = parse_content_fileNames complete
            in and_then
                 (if names = [] then
                    and_then (send_cput_command_add E n index [] (file_line f @ [LF]) filename st1)
                      (\<lambda>(r, st2). Ok (Some r, st2))
                  else
                    and_then (exist_same_fileName filename names) (\<lambda>exist.
                      if exist then Ok (None, st1)
                      else and_then (send_cput_command_add E n index complete (file_line f @ [LF]) filename st1)
                             (\<lambda>(r, st2). Ok (Some r, st2))))
                 (\<lambda>(cput_reply, st2).
                    case cput_reply of
                      None \<Rightarrow> Ok (False, st2)
                    | Some r \<Rightarrow>
                        if contains r ''+OK'' then
                          and_then (send_put_command E n (name_of user fileID) filename st2) (\<lambda>(_, st3).
                          and_then (send_put_command E n (content_of user fileID) (convert_binary_to_str content) st3)
                            (\<lambda>(_, st4). Ok (True, st4\<lparr>files_in_path := files_insert f (files_in_path st4)\<rparr>)))
                        else Ok (False, st2)))))"

definition create_folder ::
    "'b backend \<Rightarrow> nat \<Rightarrow> string \<Rightarrow> string \<Rightarrow> string \<Rightarrow> string \<Rightarrow> string \<Rightarrow> 'b storage \<Rightarrow> (bool \<times> 'b storage) res" where
  "create_folder E n folderID time user pathID folderName st =
     (let index = content_of user pathID;
          f = \<lparr>fi_name = folderName, fi_id = folderID, fi_file = False, fi_time = time, fi_size = ''0''\<rparr>
      in and_then (send_get_command E n index st) (\<lambda>(data, st1).
         if data = ''-ERR NULL'' then Ok (False, st1)
         else and_then (if 0 < length data then exist_same_fileName folderName (parse_content_fileNames data)
                        else Ok False) (\<lambda>exist.
           if exist then Ok (False, st1)
           else and_then (send_cput_command_add E n index data (file_line f @ [LF]) folderName st1) (\<lambda>(cput_reply, st2).
             if contains cput_reply ''+OK'' then
               and_then (send_put_command E n (name_of user folderID) folderName st2) (\<lambda>(_, st3).
               and_then (send_put_command E n (content_of user folderID) [] st3) (\<lambda>(_, st4).
               and_then (refresh_upload E n (st4\<lparr>files_in_path := files_insert f (files_in_path st4)\<rparr>)) (\<lambda>(_, st5).
                 Ok (True, st5))))
             else Ok (False, st2)))))"

definition download_file ::
    "'b backend \<Rightarrow> nat \<Rightarrow> string \<Rightarrow> string \<Rightarrow> 'b storage \<Rightarrow> (string option \<times> 'b storage) res" where
  "download_file E n user filename st =
     and_then (entry_of filename st) (\<lambda>f.
     and_then (send_get_command E n (content_of user (fi_id f)) st) (\<lambda>(data, st1).
       if data = ''-ERR NULL'' then Ok (None, st1)
       else and_then (convert_str_to_binary data) (\<lambda>content. Ok (Some content, st1))))"

text \<open>\<open>strncasecmp(reply, "+OK", 3) == 0\<close>.\<close>

definition begins_OK :: "string \<Rightarrow> bool" where
  "begins_OK r \<longleftrightarrow> (\<exists>r'. r = CHR ''+'' # r' \<and> take 2 r' \<in> {''OK'', ''Ok'', ''oK'', ''ok''})"

lemma begins_OK_code [code]:
  "begins_OK r = (case r of [] \<Rightarrow> False | c # r' \<Rightarrow> c = CHR ''+'' \<and> take 2 r' \<in> {''OK'', ''Ok'', ''oK'', ''ok''})"
  by (auto simp: begins_OK_def split: list.split)

definition store_delete_file ::
    "'b backend \<Rightarrow> nat \<Rightarrow> string \<Rightarrow> string \<Rightarrow> string \<Rightarrow> 'b storage \<Rightarrow> (bool \<times> 'b storage) res" where
  "store_delete_file E n user pathID filename st =
     and_then (nameToID filename st) (\<lambda>fileID.
     and_then (send_get_command E n (content_of user pathID) st) (\<lambda>(data, st1).
       if data = ''-ERR NULL'' \<or> length data = 0 then Ok (False, st1)
       else and_then (send_cput_command_delete E n (content_of user pathID) data fileID st1)
         (\<lambda>(try_delete, cput_reply, st2).
            if try_delete then Ok (False, st2)
            else if begins_OK cput_reply then
              and_then (send_delete_command E n (name_of user fileID) st2) (\<lambda>(_, st3).
              and_then (send_delete_command E n (content_of user fileID) st3) (\<lambda>(_, st4).
                Ok (True, st4\<lparr>files_in_path := map_erase filename (files_in_path st4)\<rparr>)))
            else Ok (False, st2))))"

text \<open>The listing with every entry named \<open>old_name\<close> renamed.\<close>

fun rename_lines :: "bool \<Rightarrow> string \<Rightarrow> string \<Rightarrow> string list \<Rightarrow> string res" where
  "rename_lines is_file old_name new_name [] = Ok []"
| "rename_lines is_file old_name new_name (x # xs) =
     and_then (parse_string_to_class x) (\<lambda>f.
     and_then (rename_lines is_file old_name new_name xs) (\<lambda>rest.
       if fi_name f \<noteq> old_name then Ok (x @ [LF] @ rest)
       else Ok (file_line (f\<lparr>fi_name := new_name, fi_file := is_file\<rparr>) @ [LF] @ rest)))"

text \<open>The retry loop: \<open>None\<close> is its \<open>return false\<close>.\<close>

fun rename_loop ::
    "'b backend \<Rightarrow> nat \<Rightarrow> string \<Rightarrow> bool \<Rightarrow> string \<Rightarrow> string \<Rightarrow> string \<Rightarrow> 'b storage \<Rightarrow>
     (string option \<times> 'b storage) res" where
  "rename_loop E n path_index is_file old_name new_name cput_reply st =
     (if \<not> contains cput_reply ''-ERR'' then Ok (Some cput_reply, st)
      else case n of
        0 \<Rightarrow> Block
      | Suc n' \<Rightarrow>
          and_then (send_get_command E n' path_index st) (\<lambda>(path_content, st1).
            if path_content = ''-ERR NULL'' \<or> length path_content = 0 then Ok (None, st1)
            else and_then (rename_lines is_file old_name new_name (parse_content_fileNames path_content)) (\<lambda>new_contents.
                 and_then (send_cput_command E n' path_index path_content new_contents st1) (\<lambda>(r, st2).
                 rename_loop E n' path_index is_file old_name new_name r st2))))"

declare rename_loop.simps [simp del]

definition rename_file ::
    "'b backend \<Rightarrow> nat \<Rightarrow> string \<Rightarrow> string \<Rightarrow> string \<Rightarrow> 'b storage \<Rightarrow> (bool \<times> 'b storage) res" where
  "rename_file E n user old_name new_name st =
     (case map_at (files_in_path st) old_name of
        None \<Rightarrow> Ok (False, st)
      | Some f \<Rightarrow>
          and_then (last_of_path st) (\<lambda>folder.
          and_then (send_get_command E n (content_of user (fi_id folder)) st) (\<lambda>(path_content, st1).
            if path_content = ''-ERR NULL'' \<or> length path_content = 0 then Ok (False, st1)
            else
              and_then (rename_lines (fi_file f) old_name new_name (parse_content_fileNames path_content)) (\<lambda>new_contents.
              and_then (send_cput_command E n (content_of user (fi_id folder)) path_content new_contents st1) (\<lambda>(r, st2).
              and_then (rename_loop E n (content_of user (fi_id folder)) (fi_file f) old_name new_name r st2) (\<lambda>(reply, st3).
                case reply of
                  None \<Rightarrow> Ok (False, st3)
                | Some r' \<Rightarrow>
                    if begins_OK r' then
                      and_then (send_put_command E n (name_of user (fi_id f)) new_name st3) (\<lambda>(_, st4). Ok (True, st4))
                    else Ok (False, st3)))))))"

definition recover_old_path ::
    "'b backend \<Rightarrow> nat \<Rightarrow> string \<Rightarrow> file_info \<Rightarrow> 'b storage \<Rightarrow> (bool \<times> 'b storage) res" where
  "recover_old_path E n old_pathID f st =
     (let index = content_of (userName st) old_pathID
      in and_then (send_get_command E n index st) (\<lambda>(get_reply, st1).
         if get_reply = ''-ERR NULL'' then Ok (False, st1)
         else and_then (send_cput_command_add E n index get_reply (file_line f @ [LF]) (fi_name f) st1) (\<lambda>(r, st2).
              Ok (\<not> contains r ''-ERR'', st2))))"

definition move_file ::
    "'b backend \<Rightarrow> nat \<Rightarrow> string \<Rightarrow> string \<Rightarrow> 'b storage \<Rightarrow> (bool \<times> 'b storage) res" where
  "move_file E n new_pathname filename st =
     and_then (last_of_path st) (\<lambda>old.
     and_then (entry_of new_pathname st) (\<lambda>new.
     and_then (entry_of filename st) (\<lambda>g.
       let f = g\<lparr>fi_name := filename\<rparr>; user = userName st; old_index = content_of user (fi_id old)
       in and_then (send_get_command E n old_index st) (\<lambda>(old_content, st1).
          if old_content = ''-ERR NULL'' \<or> length old_content = 0 then Ok (False, st1)
          else and_then (send_cput_command_delete E n old_index old_content (fi_id f) st1) (\<lambda>(d, cput_reply, st2).
            if d then Ok (False, st2)
            else if contains cput_reply ''+OK'' then
              (let new_index = content_of user (fi_id new)
               in and_then (send_get_command E n new_index st2) (\<lambda>(new_content, st3).
                  if contains new_content ''-ERR NULL'' then
                    and_then (recover_old_path E n (fi_id old) f st3) (\<lambda>(_, st4). Ok (False, st4))
                  else
                    and_then (send_cput_command_add E n new_index new_content (file_line f @ [LF]) filename st3) (\<lambda>(r, st4).
                      if contains r ''-ERR'' then
                        and_then (recover_old_path E n (fi_id old) f st4) (\<lambda>(_, st5). Ok (False, st5))
                      else and_then (refresh_upload E n st4) (\<lambda>(_, st5). Ok (True, st5)))))
            else Ok (False, st2))))))"

definition delete_folder :: "'b backend \<Rightarrow> nat \<Rightarrow> 'b storage \<Rightarrow> (bool \<times> 'b storage) res" where
  "delete_folder E n st =
     and_then (last_of_path st) (\<lambda>folder.
     and_then (path_at (szsub (length (cur_path st)) 2) st) (\<lambda>parent.
     and_then (goBack E n (int (length (cur_path st)) - 2) st) (\<lambda>(_, st1).
       store_delete_file E n (userName st1) (fi_id parent) (fi_name folder) st1)))"

text \<open>\<open>delete_recover\<close>, which nothing calls.\<close>

definition delete_recover :: "'b backend \<Rightarrow> nat \<Rightarrow> string \<Rightarrow> 'b storage \<Rightarrow> (string \<times> 'b storage) res" where
  "delete_recover E n index st =
     and_then (send_get_command E n index st) (\<lambda>(get_data, st1).
       if get_data \<noteq> ''-ERR NULL'' then send_delete_command E n index st1 else Ok (''+OK'', st1))"

end
