(* ===== verification/Mail_Client.thy ===== *)
theory Mail_Client
  imports File_Store
begin

text \<open>
  \<open>webmail/utils.cc\<close> and \<open>webmail/client.cc\<close>: the mail library of the web server and of the SMTP server.
  Every command to the data server or the master goes over a connection of its own; what comes back on
  it is the parameter \<open>contact\<close>. The MD5 digest (OpenSSL) is the parameter \<open>digest\<close>. Debug output is
  left out.
\<close>

section \<open>Reading a reply (utils.cc)\<close>

definition lower :: "char \<Rightarrow> char" where
  "lower c = (let n = of_char c :: nat in if 65 \<le> n \<and> n \<le> 90 then char_of (n + 32) else c)"

definition strcasecmp_eq :: "string \<Rightarrow> string \<Rightarrow> bool" where
  "strcasecmp_eq s t \<longleftrightarrow> map lower (cstr s) = map lower (cstr t)"

text \<open>
  A \<open>read\<close> behind the \<open>length buff\<close> bytes of a buffer of \<open>size\<close> bytes. A buffer without room for a zero
  byte is searched past its end. A zero byte in the middle of what arrives ends the C string.
\<close>

definition fill :: "nat \<Rightarrow> string \<Rightarrow> rd list \<Rightarrow> (string \<times> rd list) res" where
  "fill size0 buff es =
     (case es of
        [] \<Rightarrow> Block
      | Fail # es' \<Rightarrow> Ok (buff, es')
      | Bytes b # es' \<Rightarrow>
          (let n = size0 - length buff
           in if length b < n \<or> CHR 0x00 \<in> set (take n b)
              then Ok (buff @ cstr (take n b), if length b \<le> n then es' else Bytes (drop n b) # es')
              else Throw Bad_index))"

lemma fill_less: "fill size0 buff es = Ok (s, es') \<Longrightarrow> sum_list (map rd_size es') < sum_list (map rd_size es)"
  by (cases "size0 - length buff") (auto simp: fill_def Let_def split: list.splits rd.splits if_splits)

lemma fill_piece [simp]:
  "length buff + length b < size0 \<Longrightarrow> CHR 0x00 \<notin> set b \<Longrightarrow> fill size0 buff (Bytes b # es) = Ok (buff @ b, es)"
  by (simp add: fill_def Let_def)

text \<open>
  The complete lines of the buffer: the text collected, whether \<open>DATA\<close> has been seen, the rest of the
  buffer and whether the reply is complete. The end mark is compared with the whole buffer.
\<close>

function reply_lines :: "bool \<Rightarrow> string \<Rightarrow> string \<Rightarrow> string \<times> bool \<times> string \<times> bool" where
  "reply_lines DATA response buff =
     (case sfind crlf buff of
        None \<Rightarrow> (response, DATA, buff, False)
      | Some i \<Rightarrow>
          (let line = take (i + 2) buff; rest = drop (i + 2) buff; command = take 6 buff
           in if DATA then
                (if buff \<noteq> ''.'' @ crlf then reply_lines True (response @ line) rest
                 else (response, True, buff, True))
              else if strcasecmp_eq command (''DATA'' @ crlf) then reply_lines True response rest
              else if strcasecmp_eq (take 4 command) ''-ERR'' \<or> strcasecmp_eq (take 3 command) ''+OK'' \<or>
                      strcasecmp_eq command ''SERVER''
              then (line, False, buff, True)
              else reply_lines False response rest))"
  by pat_completeness auto
termination
  by (relation "measure (\<lambda>(d, r, b). length b)") (auto dest!: sfind_length simp: crlf_def)

declare reply_lines.simps [simp del]

definition mail_buff :: nat where
  "mail_buff = 5000"

function mail_do_read :: "bool \<Rightarrow> string \<Rightarrow> string \<Rightarrow> rd list \<Rightarrow> string res" where
  "mail_do_read DATA response buff es =
     and_then (fill mail_buff buff es) (\<lambda>(buff1, es').
       case reply_lines DATA response buff1 of (response1, DATA1, buff2, QUIT) \<Rightarrow>
         if QUIT then Ok response1 else mail_do_read DATA1 response1 buff2 es')"
  by pat_completeness auto
termination
  by (relation "measure (\<lambda>(d, r, b, es). sum_list (map rd_size es))") (auto dest: fill_less)

declare mail_do_read.simps [simp del]

record 'b mail_env =
  contact :: "string \<Rightarrow> string \<Rightarrow> 'b \<Rightarrow> rd list \<times> 'b"
  digest :: "string \<Rightarrow> string"
  master_at :: string

text \<open>The address is cut at the colon; without one the whole text is taken twice (\<open>npos + 1\<close> is 0).\<close>

definition mail_address :: "string \<Rightarrow> (string \<times> int) res" where
  "mail_address addr =
     (let found = find addr '':'' 0
      in and_then (substr addr 0 found) (\<lambda>ip.
         and_then (substr addr (szadd found 1) npos) (\<lambda>port. Ok (ip, atoi port mod 65536))))"

definition mail_send :: "'b mail_env \<Rightarrow> string \<Rightarrow> string \<Rightarrow> 'b \<Rightarrow> (string \<times> 'b) res" where
  "mail_send E addr message b =
     and_then (mail_address addr) (\<lambda>_.
       case contact E addr (cstr message) b of (es, b1) \<Rightarrow>
         and_then (mail_do_read False [] [] es) (\<lambda>response. Ok (response, b1)))"

definition mail_ask_master :: "'b mail_env \<Rightarrow> string \<Rightarrow> 'b \<Rightarrow> (string \<times> 'b) res" where
  "mail_ask_master E user b =
     and_then (mail_send E (master_at E) (''WHERE <'' @ user @ ''>'' @ crlf) b) (\<lambda>(response, b1).
     and_then (if response = ''NULL'' then Ok ''NULL''
               else let f1 = find response ''<'' 0; f2 = find response ''>'' 0
                    in substr response (szadd f1 1) (szsub (szsub f2 f1) 1)) (\<lambda>ans.
     and_then (mail_send E (master_at E) (''QUIT'' @ crlf) b1) (\<lambda>(_, b2). Ok (ans, b2))))"

text \<open>
  \<open>hash_MD5\<close> prints each byte with two digits one place after the other, so every byte but the last
  keeps only its first digit. (The last zero byte lies one past the end of \<open>uid\<close>.)
\<close>

definition hash_MD5 :: "(string \<Rightarrow> string) \<Rightarrow> string \<Rightarrow> string" where
  "hash_MD5 md5 data =
     (let d = take 16 (md5 (cstr data))
      in map (\<lambda>c. hex_digit (of_char c div 16)) d @ (if d = [] then [] else [hex_digit (of_char (last d) mod 16)]))"

section \<open>Sending to an SMTP server (client.cc)\<close>

text \<open>The lines of the mail, each with its line end; what follows the last line end is not sent.\<close>

function send_lines :: "string \<Rightarrow> string list" where
  "send_lines data =
     (case sfind crlf data of None \<Rightarrow> [] | Some i \<Rightarrow> take (i + 2) data # send_lines (drop (i + 2) data))"
  by pat_completeness auto
termination
  by (relation "measure length") (auto dest!: sfind_length simp: crlf_def)

declare send_lines.simps [simp del]

text \<open>
  Everything the client writes, in order. It waits for the reply of each command and of the end of
  the data, but takes no notice of what it says.
\<close>

definition smtp_commands :: "string \<Rightarrow> string list \<Rightarrow> string \<Rightarrow> string list" where
  "smtp_commands sender rcpts data =
     [''HELO tester'' @ crlf, ''MAIL FROM:<'' @ sender @ ''>'' @ crlf] @
     map (\<lambda>r. ''RCPT TO:<'' @ r @ ''>'' @ crlf) rcpts @ [''DATA'' @ crlf] @ send_lines data @
     [''.'' @ crlf, ''QUIT'' @ crlf]"

text \<open>
  The result of \<open>sendto_smpt_server\<close>: 1 without a socket, 2 when the connection fails, otherwise 0.
\<close>

definition sendto_smpt_server :: "bool \<Rightarrow> bool \<Rightarrow> string \<Rightarrow> string list \<Rightarrow> string \<Rightarrow> int \<times> string list" where
  "sendto_smpt_server can_sock can_conn sender rcpts data =
     (if \<not> can_sock then (1, [])
      else if \<not> can_conn then (2, [])
      else (0, smtp_commands sender rcpts data))"

section \<open>Reading the mail box (client.cc)\<close>

record email =
  em_deleted :: bool
  em_opened :: bool
  em_header :: string
  em_content :: string
  em_hash :: string

definition new_email :: "string \<Rightarrow> string \<Rightarrow> string \<Rightarrow> email" where
  "new_email header content hash =
     \<lparr>em_deleted = False, em_opened = False, em_header = header, em_content = content, em_hash = hash\<rparr>"

definition mail_get :: "string \<Rightarrow> string \<Rightarrow> string" where
  "mail_get user col = ''GET <'' @ user @ ''> <'' @ col @ ''>'' @ crlf"

definition extract_email :: "'b mail_env \<Rightarrow> string \<Rightarrow> string \<Rightarrow> string \<Rightarrow> 'b \<Rightarrow> (email \<times> 'b) res" where
  "extract_email E node_address user column_key b =
     and_then (mail_send E node_address (mail_get user column_key) b) (\<lambda>(response, b1).
       let f1 = find response ''Header '' 0; f2 = find response crlf (szadd f1 1)
       in and_then (substr response f1 (szsub f2 f1)) (\<lambda>header.
          and_then (substr response (szadd f2 2) npos) (\<lambda>content.
          let hash = hash_MD5 (digest E) content; f3 = find response crlf (szadd f2 1)
          in and_then (substr response (szadd f3 2) npos) (\<lambda>content1.
             Ok (new_email header content1 hash, b1)))))"

definition mail_prefix :: "bool \<Rightarrow> string" where
  "mail_prefix inbox = (if inbox then ''mail/inbox/'' else ''mail/outbox/'')"

text \<open>\<open>compare(pos, n, t) == 0\<close>, which throws when \<open>pos\<close> is behind the end.\<close>

definition compare_eq :: "string \<Rightarrow> nat \<Rightarrow> nat \<Rightarrow> string \<Rightarrow> bool res" where
  "compare_eq s pos n t = and_then (substr s pos n) (\<lambda>x. Ok (x = t))"

text \<open>\<open>pop_back\<close> of an empty string has no defined result.\<close>

definition pop_back :: "string \<Rightarrow> string res" where
  "pop_back s = (if s = [] then Throw Bad_index else Ok (butlast s))"

fun extract_all :: "'b mail_env \<Rightarrow> string \<Rightarrow> string \<Rightarrow> string \<Rightarrow> string list \<Rightarrow> 'b \<Rightarrow> (email list \<times> 'b) res" where
  "extract_all E node_address user prefix0 [] b = Ok ([], b)"
| "extract_all E node_address user prefix0 (hash # hs) b =
     (if take 4 hash = ''list'' then extract_all E node_address user prefix0 hs b
      else and_then (pop_back hash) (\<lambda>h.
           and_then (extract_email E node_address user (prefix0 @ h) b) (\<lambda>(mail, b1).
           and_then (extract_all E node_address user prefix0 hs b1) (\<lambda>(mails, b2). Ok (mail # mails, b2)))))"

definition recvfrom_backend :: "'b mail_env \<Rightarrow> string \<Rightarrow> bool \<Rightarrow> 'b \<Rightarrow> (email list \<times> 'b) res" where
  "recvfrom_backend E user inbox b =
     and_then (mail_ask_master E user b) (\<lambda>(node_address, b1).
       if node_address = ''NULL'' then Ok ([], b1)
       else and_then (mail_send E node_address (mail_get user (mail_prefix inbox @ ''list'')) b1) (\<lambda>(response, b2).
            and_then (compare_eq response 1 3 ''ERR'') (\<lambda>none.
              if none then Ok ([], b2)
              else extract_all E node_address user (mail_prefix inbox) (getlines response) b2)))"

section \<open>Deleting mail (client.cc)\<close>

fun keep_hashes :: "string set \<Rightarrow> string list \<Rightarrow> string res" where
  "keep_hashes delete_hash [] = Ok []"
| "keep_hashes delete_hash (line # ls) =
     and_then (pop_back line) (\<lambda>h.
     and_then (keep_hashes delete_hash ls) (\<lambda>rest.
       Ok (if h \<in> delete_hash then rest else h @ crlf @ rest)))"

definition update_hash :: "string \<Rightarrow> string set \<Rightarrow> string res" where
  "update_hash old_hash delete_hash = keep_hashes delete_hash (getlines old_hash)"

definition mail_cput :: "string \<Rightarrow> string \<Rightarrow> string \<Rightarrow> string \<Rightarrow> string" where
  "mail_cput user col old new =
     ''CPUT <'' @ user @ ''> <'' @ col @ ''>'' @ crlf @ ''OLD'' @ crlf @ old @ ''.'' @ crlf @ ''NEW'' @ crlf @ new @ ''.'' @ crlf"

definition mail_delete :: "string \<Rightarrow> string \<Rightarrow> string" where
  "mail_delete user col = ''DELETE <'' @ user @ ''> <'' @ col @ ''>'' @ crlf"

text \<open>The retry loop, with fuel \<open>n\<close>.\<close>

fun update_list :: "'b mail_env \<Rightarrow> nat \<Rightarrow> string \<Rightarrow> string \<Rightarrow> string \<Rightarrow> string set \<Rightarrow> 'b \<Rightarrow> 'b res" where
  "update_list E 0 node_address user prefix0 delete_hash b = Block"
| "update_list E (Suc n) node_address user prefix0 delete_hash b =
     and_then (mail_send E node_address (mail_get user (prefix0 @ ''list'')) b) (\<lambda>(response, b1).
     and_then (update_hash response delete_hash) (\<lambda>value.
       if value = ''list'' @ crlf then
         and_then (mail_send E node_address (mail_delete user (prefix0 @ ''list'')) b1) (\<lambda>(_, b2). Ok b2)
       else
         and_then (mail_send E node_address (mail_cput user (prefix0 @ ''list'') response value) b1) (\<lambda>(r, b2).
         and_then (compare_eq r 1 2 ''OK'') (\<lambda>ok.
           if ok then Ok b2 else update_list E n node_address user prefix0 delete_hash b2))))"

fun delete_mails :: "'b mail_env \<Rightarrow> string \<Rightarrow> string \<Rightarrow> string \<Rightarrow> string list \<Rightarrow> 'b \<Rightarrow> 'b res" where
  "delete_mails E node_address user prefix0 [] b = Ok b"
| "delete_mails E node_address user prefix0 (h # hs) b =
     and_then (mail_send E node_address (mail_delete user (prefix0 @ h)) b) (\<lambda>(_, b1).
       delete_mails E node_address user prefix0 hs b1)"

text \<open>\<open>hashes\<close> are the elements of the set, in its order.\<close>

definition update_backend :: "'b mail_env \<Rightarrow> nat \<Rightarrow> string \<Rightarrow> string list \<Rightarrow> bool \<Rightarrow> 'b \<Rightarrow> 'b res" where
  "update_backend E n user hashes inbox b =
     and_then (mail_ask_master E user b) (\<lambda>(node_address, b1).
       if node_address = ''NULL'' then Ok b1
       else and_then (update_list E n node_address user (mail_prefix inbox) (set hashes) b1) (\<lambda>b2.
            delete_mails E node_address user (mail_prefix inbox) hashes b2))"

end
