(* ===== verification/Load_Balancer.thy ===== *)
theory Load_Balancer
  imports Checkpoint File_Store "HOL-Library.Multiset"
begin

text \<open>
  \<open>frontendServer/load_balancer.cc\<close>: the process that redirects each new connection to a running web
  server. What a server answers to a \<open>connect\<close> is the parameter \<open>up\<close>. The deque of servers is a list; the main loop and the thread that
  checks the servers are steps on it.
\<close>

section \<open>C strings\<close>

text \<open>
  One call of \<open>strtok\<close>: skip the delimiters, return the token and what a further call works on;
  \<open>None\<close> is the null pointer.
\<close>

definition strtok :: "char list \<Rightarrow> string \<Rightarrow> (string \<times> string) option" where
  "strtok delims s =
     (let t = dropWhile (\<lambda>c. c \<in> set delims) s
      in if t = [] then None
         else Some (takeWhile (\<lambda>c. c \<notin> set delims) t, drop 1 (dropWhile (\<lambda>c. c \<notin> set delims) t)))"

text \<open>\<open>strcpy\<close> into a buffer of \<open>n\<close> bytes, and the use of a token that may be a null pointer.\<close>

definition copy_to :: "nat \<Rightarrow> string \<Rightarrow> string res" where
  "copy_to n s = (if length (cstr s) < n then Ok (cstr s) else Throw Bad_index)"

definition token :: "(string \<times> string) option \<Rightarrow> (string \<times> string) res" where
  "token t = (case t of None \<Rightarrow> Throw Null_deref | Some x \<Rightarrow> Ok x)"

section \<open>The servers\<close>

record web_server =
  w_address :: string
  w_port :: int
  w_running :: bool

definition new_server :: "string \<Rightarrow> int \<Rightarrow> web_server" where
  "new_server a p = \<lparr>w_address = a, w_port = p, w_running = False\<rparr>"

definition parse_server_line :: "string \<Rightarrow> web_server res" where
  "parse_server_line str =
     and_then (copy_to 256 str) (\<lambda>copy.
     and_then (token (strtok '':'' copy)) (\<lambda>(tok, rest).
     and_then (copy_to 64 tok) (\<lambda>address.
     and_then (token (strtok '':'' rest)) (\<lambda>(tok2, _). Ok (new_server address (atoi tok2))))))"

text \<open>\<open>count\<close> starts at 1, so the result is one more than the number of servers.\<close>

fun parse_all_lines :: "string list \<Rightarrow> nat \<Rightarrow> web_server list \<Rightarrow> (nat \<times> web_server list) res" where
  "parse_all_lines [] cnt servers = Ok (cnt, servers)"
| "parse_all_lines (l # ls) cnt servers =
     and_then (parse_server_line l) (\<lambda>s. parse_all_lines ls (cnt + 1) (servers @ [s]))"

definition parse_all_server :: "string \<Rightarrow> web_server list \<Rightarrow> (nat \<times> web_server list) res" where
  "parse_all_server text0 servers = parse_all_lines (getlines text0) 1 servers"

text \<open>One round of \<open>check_server_state\<close>.\<close>

definition check_server_state :: "(string \<times> int \<Rightarrow> bool) \<Rightarrow> web_server list \<Rightarrow> web_server list" where
  "check_server_state up servers = map (\<lambda>s. s\<lparr>w_running := up (w_address s, w_port s)\<rparr>) servers"

section \<open>One connection\<close>

text \<open>The loop under the first lock: move servers that are down to the back, at most once each.\<close>

function skip_down :: "nat \<Rightarrow> web_server list \<Rightarrow> nat \<times> web_server list" where
  "skip_down cnt servers =
     (if servers = [] \<or> length servers \<le> cnt \<or> w_running (hd servers) then (cnt, servers)
      else if cnt + 1 = length servers then (cnt + 1, rotate1 servers)
      else skip_down (cnt + 1) (rotate1 servers))"
  by pat_completeness auto
termination
  by (relation "measure (\<lambda>(cnt, servers). length servers - cnt)") auto

declare skip_down.simps [simp del]

datatype lb_reply = Unavailable | Redirect string int

definition redirect_text :: "string \<Rightarrow> int \<Rightarrow> string" where
  "redirect_text address port =
     ''HTTP/1.1 307 Temporary Redirect'' @ crlf @ ''Location: http://'' @ address @ '':'' @ show_int port @ crlf @ crlf"

definition unavailable_text :: "string \<Rightarrow> string" where
  "unavailable_text html = ''HTTP/1.1 200 OK'' @ crlf @ ''Content-type: text/html'' @ crlf @ crlf @ html"

text \<open>The response is copied into 10000 bytes and sent with its closing zero byte.\<close>

definition lb_response :: "string \<Rightarrow> lb_reply \<Rightarrow> string res" where
  "lb_response html r =
     and_then (copy_to 10000 (case r of Unavailable \<Rightarrow> unavailable_text html | Redirect a p \<Rightarrow> redirect_text a p))
       (\<lambda>s. Ok (s @ [CHR 0x00]))"

text \<open>\<open>front()\<close> of an empty deque has no defined result.\<close>

definition lb_accept :: "web_server list \<Rightarrow> (lb_reply \<times> web_server list) res" where
  "lb_accept servers =
     (if servers = [] then Throw Bad_index
      else case skip_down 0 servers of (cnt, servers1) \<Rightarrow>
        if cnt = length servers1 then Ok (Unavailable, servers1)
        else Ok (Redirect (w_address (hd servers1)) (w_port (hd servers1)), rotate1 servers1))"

fun lb_accepts :: "nat \<Rightarrow> web_server list \<Rightarrow> (lb_reply list \<times> web_server list) res" where
  "lb_accepts 0 servers = Ok ([], servers)"
| "lb_accepts (Suc n) servers =
     and_then (lb_accept servers) (\<lambda>(r, servers1).
     and_then (lb_accepts n servers1) (\<lambda>(rs, servers2). Ok (r # rs, servers2)))"

section \<open>Round robin\<close>

abbreviation running_ones :: "web_server list \<Rightarrow> web_server list" where
  "running_ones \<equiv> filter w_running"

lemma mset_rotate1 [simp]: "mset (rotate1 xs) = mset xs"
  by (cases xs) simp_all

lemma skip_down_finds:
  "\<forall>s \<in> set a. \<not> w_running s \<Longrightarrow> w_running x \<Longrightarrow> cnt \<le> length b \<Longrightarrow>
     skip_down cnt (a @ x # b) = (cnt + length a, x # b @ a)"
proof (induction a arbitrary: b cnt)
  case Nil
  then show ?case by (subst skip_down.simps) simp
next
  case (Cons s a)
  have "skip_down cnt ((s # a) @ x # b) = skip_down (cnt + 1) (a @ x # b @ [s])"
    using Cons.prems by (subst skip_down.simps) simp
  also have "\<dots> = (cnt + 1 + length a, x # (b @ [s]) @ a)"
    using Cons.IH [of "cnt + 1" "b @ [s]"] Cons.prems by simp
  finally show ?case by simp
qed

lemma lb_accept_running:
  assumes "running_ones servers = r # rs"
  shows "\<exists>servers'. lb_accept servers = Ok (Redirect (w_address r) (w_port r), servers') \<and>
    running_ones servers' = rs @ [r] \<and> mset servers' = mset servers"
proof -
  obtain x where "x \<in> set servers" "w_running x" using assms by (metis filter_eq_Cons_iff in_set_conv_decomp)
  then obtain a x b where sp: "servers = a @ x # b" "w_running x" "\<forall>s \<in> set a. \<not> w_running s"
    using split_list_first_prop [of servers w_running] by blast
  have fa: "filter w_running a = []" using sp(3) by (simp add: filter_empty_conv)
  then have r: "x = r" "filter w_running b = rs" using assms sp(1,2) by simp_all
  have sk: "skip_down 0 servers = (length a, x # b @ a)"
    using skip_down_finds [OF sp(3,2), of 0 b] sp(1) by simp
  have "servers \<noteq> []" using sp(1) by simp
  then have "lb_accept servers = Ok (Redirect (w_address x) (w_port x), b @ a @ [x])"
    by (simp add: lb_accept_def sk)
  then show ?thesis using r fa sp(1,2) by auto
qed

lemma skip_down_none:
  "\<forall>s \<in> set servers. \<not> w_running s \<Longrightarrow> servers \<noteq> [] \<Longrightarrow> cnt < length servers \<Longrightarrow>
     \<exists>servers'. skip_down cnt servers = (length servers, servers') \<and> mset servers' = mset servers"
proof (induction cnt servers rule: skip_down.induct)
  case (1 cnt servers)
  show ?case
  proof (cases "cnt + 1 = length servers")
    case True
    then show ?thesis using "1.prems" by (subst skip_down.simps) (auto simp: hd_in_set)
  next
    case False
    have "skip_down cnt servers = skip_down (cnt + 1) (rotate1 servers)"
      using "1.prems" False by (subst skip_down.simps) (auto simp: hd_in_set)
    moreover have "\<exists>servers'. skip_down (cnt + 1) (rotate1 servers) = (length (rotate1 servers), servers') \<and>
        mset servers' = mset (rotate1 servers)"
      by (rule "1.IH") (use "1.prems" False in \<open>auto simp: hd_in_set\<close>)
    ultimately show ?thesis by simp
  qed
qed

lemma lb_round:
  assumes "running_ones servers \<noteq> []"
  shows "\<exists>servers'. lb_accepts n servers = Ok (map (\<lambda>i. let s = running_ones servers ! (i mod length (running_ones servers))
      in Redirect (w_address s) (w_port s)) [0..<n], servers') \<and>
    running_ones servers' = rotate n (running_ones servers) \<and> mset servers' = mset servers"
  using assms
proof (induction n arbitrary: servers)
  case (Suc n)
  let ?run = "running_ones servers" and ?R = "\<lambda>s. Redirect (w_address s) (w_port s)"
  obtain r rs where run: "?run = r # rs" using Suc.prems by (cases ?run) auto
  obtain s1 where s1: "lb_accept servers = Ok (?R r, s1)" "running_ones s1 = rs @ [r]" "mset s1 = mset servers"
    using lb_accept_running [OF run] by blast
  obtain s2 where s2: "lb_accepts n s1 = Ok (map (\<lambda>i. let s = running_ones s1 ! (i mod length (running_ones s1)) in ?R s) [0..<n], s2)"
    "running_ones s2 = rotate n (running_ones s1)" "mset s2 = mset s1"
    using Suc.IH [of s1] s1(2) by auto
  have idx: "running_ones s1 ! (i mod length (running_ones s1)) = ?run ! (Suc i mod length ?run)" for i
  proof -
    have "running_ones s1 = rotate1 ?run" using s1(2) run by simp
    moreover have "i mod length ?run < length ?run" using run by simp
    ultimately show ?thesis using nth_rotate1 [of "i mod length ?run" ?run] by (simp add: mod_Suc_eq)
  qed
  have "map (\<lambda>i. let s = ?run ! (i mod length ?run) in ?R s) [0..<Suc n] =
      ?R r # map (\<lambda>i. let s = running_ones s1 ! (i mod length (running_ones s1)) in ?R s) [0..<n]"
    unfolding upt_conv_Cons [OF zero_less_Suc] map_Suc_upt [symmetric] by (simp add: idx run)
  moreover have "rotate (Suc n) ?run = rotate n (running_ones s1)"
    using s1(2) run by (simp add: rotate_def funpow_swap1)
  ultimately show ?case using s1(1,3) s2 by auto
qed simp

text \<open>
  C30. Load balancing: with unchanged states, consecutive connections go to the running servers in
  turn, in the order of the deque, and to no other; in any window as long as there are running
  servers every one of them is used once. No server is lost from the deque. Without a running
  server each connection gets the error page.
\<close>

theorem lb_round_robin:
  assumes "servers \<noteq> []"
  shows "(running_ones servers \<noteq> [] \<longrightarrow> (\<exists>servers'. lb_accepts n servers =
       Ok (map (\<lambda>i. let s = running_ones servers ! (i mod length (running_ones servers))
         in Redirect (w_address s) (w_port s)) [0..<n], servers') \<and> mset servers' = mset servers)) \<and>
    (running_ones servers = [] \<longrightarrow> (\<exists>servers'. lb_accept servers = Ok (Unavailable, servers') \<and>
       mset servers' = mset servers))"
proof (intro conjI impI)
  show "\<exists>servers'. lb_accepts n servers =
       Ok (map (\<lambda>i. let s = running_ones servers ! (i mod length (running_ones servers))
         in Redirect (w_address s) (w_port s)) [0..<n], servers') \<and> mset servers' = mset servers"
    if "running_ones servers \<noteq> []" using lb_round [OF that] by blast
  assume "running_ones servers = []"
  then have "\<forall>s \<in> set servers. \<not> w_running s" by (simp add: filter_empty_conv)
  then obtain servers' where sk: "skip_down 0 servers = (length servers, servers')" "mset servers' = mset servers"
    using skip_down_none [of servers 0] assms by auto
  then have "length servers' = length servers" using mset_eq_length by blast
  then show "\<exists>servers'. lb_accept servers = Ok (Unavailable, servers') \<and> mset servers' = mset servers"
    using sk assms by (simp add: lb_accept_def)
qed

definition demo_web :: "web_server list" where
  "demo_web = [new_server ''a'' 1, (new_server ''b'' 2)\<lparr>w_running := True\<rparr>, (new_server ''c'' 3)\<lparr>w_running := True\<rparr>]"

theorem lb_round_robin_witness:
  "\<exists>servers'. lb_accepts 3 demo_web = Ok ([Redirect ''b'' 2, Redirect ''c'' 3, Redirect ''b'' 2], servers') \<and>
     mset servers' = mset demo_web"
proof -
  have "demo_web \<noteq> []" by (simp add: demo_web_def)
  note r = lb_round_robin [OF this, of 3]
  have run: "running_ones demo_web = [(new_server ''b'' 2)\<lparr>w_running := True\<rparr>, (new_server ''c'' 3)\<lparr>w_running := True\<rparr>]"
    by (simp add: demo_web_def new_server_def)
  show ?thesis using r unfolding run by (simp add: new_server_def upt_rec numeral_eq_Suc)
qed

section \<open>The address file\<close>

definition server_line :: "string \<times> nat \<Rightarrow> string" where
  "server_line e = fst e @ '':'' @ show_nat (snd e)"

definition server_entry_ok :: "string \<times> nat \<Rightarrow> bool" where
  "server_entry_ok e \<longleftrightarrow> fst e \<noteq> [] \<and> length (fst e) < 64 \<and> snd e < 65536 \<and>
     CHR '':'' \<notin> set (fst e) \<and> LF \<notin> set (fst e) \<and> CHR 0x00 \<notin> set (fst e)"

lemma until_delim:
  "c \<notin> set x \<Longrightarrow> takeWhile (\<lambda>d. d \<noteq> c) (x @ c # r) = x"
  "c \<notin> set x \<Longrightarrow> dropWhile (\<lambda>d. d \<noteq> c) (x @ c # r) = c # r"
  "c \<notin> set x \<Longrightarrow> takeWhile (\<lambda>d. d \<noteq> c) x = x" "c \<notin> set x \<Longrightarrow> dropWhile (\<lambda>d. d \<noteq> c) x = []"
  by (induction x) auto

lemma strtok_sep: "x \<noteq> [] \<Longrightarrow> c \<notin> set x \<Longrightarrow> strtok [c] (x @ c # r) = Some (x, r)"
  by (cases x) (auto simp: strtok_def until_delim)

lemma strtok_last: "x \<noteq> [] \<Longrightarrow> c \<notin> set x \<Longrightarrow> strtok [c] x = Some (x, [])"
proof -
  assume x: "x \<noteq> []" "c \<notin> set x"
  then have "dropWhile (\<lambda>d. d = c) x = x" by (cases x) auto
  then show ?thesis using x by (simp add: strtok_def until_delim)
qed

lemma parse_server_line_ok:
  assumes "server_entry_ok e"
  shows "parse_server_line (server_line e) = Ok (new_server (fst e) (int (snd e)))"
proof -
  have e: "fst e \<noteq> []" "length (fst e) < 64" "snd e < 65536" "CHR '':'' \<notin> set (fst e)" "CHR 0x00 \<notin> set (fst e)"
    using assms by (simp_all add: server_entry_ok_def)
  have short: "length (show_nat (snd e)) \<le> 5" using show_nat_short [of "snd e" 5] e(3) by simp
  have at: "atoi (show_nat (snd e)) = int (snd e)"
    using strtol_show_nat [of "[]" "snd e"] e(3)
    by (simp add: atoi_def wrap_int_def long_max_def long_min_def)
  have "copy_to 256 (server_line e) = Ok (server_line e)"
    using e(2,5) short by (simp add: copy_to_def server_line_def)
  moreover have "strtok '':'' (server_line e) = Some (fst e, show_nat (snd e))"
    using strtok_sep [OF e(1,4)] by (simp add: server_line_def)
  moreover have "copy_to 64 (fst e) = Ok (fst e)" using e(2,5) by (simp add: copy_to_def)
  moreover have "strtok '':'' (show_nat (snd e)) = Some (show_nat (snd e), [])"
    by (rule strtok_last) simp_all
  ultimately show ?thesis by (simp add: parse_server_line_def token_def at)
qed

text \<open>
  The address file of the web servers is read back: one server a line, in order, none of them
  running before the first check. The returned count is one more than the number of servers.
\<close>

theorem address_file_read:
  assumes "\<forall>e \<in> set es. server_entry_ok e"
  shows "parse_all_server (concat (map (\<lambda>e. server_line e @ [LF]) es)) [] =
    Ok (length es + 1, map (\<lambda>e. new_server (fst e) (int (snd e))) es)"
proof -
  have lf: "LF \<notin> set (server_line e)" if "server_entry_ok e" for e
    using that by (simp add: server_line_def server_entry_ok_def)
  have lines: "getlines (concat (map (\<lambda>e. server_line e @ [LF]) es)) = map server_line es"
    using assms by (induction es) (simp_all add: getlines_Cons lf)
  have "parse_all_lines (map server_line es) n ss =
      Ok (n + length es, ss @ map (\<lambda>e. new_server (fst e) (int (snd e))) es)" for n ss
    using assms by (induction es arbitrary: n ss) (simp_all add: parse_server_line_ok)
  then show ?thesis by (simp add: parse_all_server_def lines)
qed

theorem address_file_read_witness:
  "parse_all_server (concat (map (\<lambda>e. server_line e @ [LF]) [(''127.0.0.1'', 8080), (''127.0.0.1'', 8081)])) [] =
     Ok (3, [new_server ''127.0.0.1'' 8080, new_server ''127.0.0.1'' 8081])"
  using address_file_read [of "[(''127.0.0.1'', 8080), (''127.0.0.1'', 8081)]"]
  by (simp add: server_entry_ok_def)

end
