(* ===== verification/Mail_Queue.thy ===== *)
theory Mail_Queue
  imports Mail_Client Load_Balancer
begin

text \<open>
  \<open>webmail/deliver.cc\<close>: the queue of mail for other hosts. The answers of the name service
  (\<open>res_query\<close>, \<open>gethostbyname\<close>) and whether a host accepts the connection are the parameters of the
  record \<open>relay_env\<close>; what is sent is collected in a list.
\<close>

section \<open>The queue file\<close>

record message =
  msg_data :: string
  msg_deleted :: bool

definition new_message :: "string \<Rightarrow> message" where
  "new_message data = \<lparr>msg_data = data, msg_deleted = False\<rparr>"

definition header_mark :: string where
  "header_mark = ''Header ''"

text \<open>
  The loop over the lines. A header line ends the message before it; both kinds of lines get a new
  carriage return and line feed.
\<close>

fun mqueue_loop :: "string list \<Rightarrow> string \<Rightarrow> message list \<Rightarrow> string list \<Rightarrow> string \<times> message list \<times> string list" where
  "mqueue_loop [] data messages headers = (data, messages, headers)"
| "mqueue_loop (line # ls) data messages headers =
     (if take (length header_mark) line = header_mark
      then mqueue_loop ls [] (messages @ [new_message data]) (headers @ [line @ crlf])
      else mqueue_loop ls (data @ line @ crlf) messages headers)"

definition read_mqueue :: "string option \<Rightarrow> message list \<times> string list" where
  "read_mqueue contents =
     (case mqueue_loop (case contents of None \<Rightarrow> [] | Some t \<Rightarrow> getlines t) [] [] [] of
        (data, messages, headers) \<Rightarrow>
          (if messages = [] then [] else tl messages @ [new_message data], headers))"

fun queue_text :: "message list \<Rightarrow> string list \<Rightarrow> string" where
  "queue_text (m # ms) (h # hs) = (if msg_deleted m then [] else h @ msg_data m) @ queue_text ms hs"
| "queue_text _ _ = []"

definition update_mqueue :: "message list \<Rightarrow> string list \<Rightarrow> string" where
  "update_mqueue messages headers = queue_text messages headers"

section \<open>Forwarding\<close>

definition parse_queue_header :: "string \<Rightarrow> (string \<times> string \<times> string) res" where
  "parse_queue_header header =
     (let f1 = find header ''|'' 0; f2 = find header ''|'' (szadd f1 1);
          f3 = find header ''|'' (szadd f2 1); f4 = find header ''|'' (szadd f3 1)
      in and_then (substr header (szadd f1 1) (szsub (szsub f2 f1) 1)) (\<lambda>host.
         and_then (substr header (szadd f2 1) (szsub (szsub f3 f2) 1)) (\<lambda>sender.
         and_then (substr header (szadd f3 1) (szsub (szsub f4 f3) 1)) (\<lambda>rcpt. Ok (host, sender, rcpt)))))"

text \<open>
  One record of the name service: the third field between tabs is \<open>priority host\<close>. A smaller number
  replaces the host found so far.
\<close>

definition parse_record :: "string \<Rightarrow> int \<times> string \<Rightarrow> (int \<times> string) res" where
  "parse_record buffer best =
     and_then (token (strtok [CHR 0x09] buffer)) (\<lambda>(_, r1).
     and_then (token (strtok [CHR 0x09] r1)) (\<lambda>(_, r2).
     and_then (token (strtok [CHR 0x09] r2)) (\<lambda>(t, _).
     and_then (token (strtok '' '' t)) (\<lambda>(tok, rest).
       if atoi tok < fst best then
         and_then (token (strtok '' '' rest)) (\<lambda>(host, _). Ok (atoi tok, host))
       else Ok best))))"

fun best_record :: "string list \<Rightarrow> int \<times> string \<Rightarrow> (int \<times> string) res" where
  "best_record [] best = Ok best"
| "best_record (r # rs) best = and_then (parse_record r best) (best_record rs)"

record relay_env =
  mx_records :: "string \<Rightarrow> string list"
  host_ip :: "string \<Rightarrow> string option"
  reachable :: "string \<Rightarrow> bool"
  stale_address :: string

text \<open>
  \<open>handle_forward\<close>: the message is marked as deleted when the connection was made; \<open>address\<close> is an
  uninitialised buffer (\<open>stale_address\<close>) when there is no record.
\<close>

definition handle_forward ::
    "relay_env \<Rightarrow> string \<Rightarrow> string \<Rightarrow> string \<Rightarrow> message \<Rightarrow> (message \<times> (string \<times> string list) list) res" where
  "handle_forward R host sender rcpt m =
     and_then (best_record (mx_records R host) (2147483647, stale_address R)) (\<lambda>(_, address).
       case host_ip R address of
         None \<Rightarrow> Ok (m, [])
       | Some ip \<Rightarrow>
           (case sendto_smpt_server True (reachable R (ip @ '':25'')) sender [rcpt] (msg_data m) of (sent0, cmds) \<Rightarrow>
              if sent0 \<noteq> 0 then Ok (m, []) else Ok (m\<lparr>msg_deleted := True\<rparr>, [(ip @ '':25'', cmds)])))"

fun relay_loop ::
    "relay_env \<Rightarrow> string list \<Rightarrow> message list \<Rightarrow> (message list \<times> (string \<times> string list) list) res" where
  "relay_loop R [] ms = Ok (ms, [])"
| "relay_loop R (h # hs) [] = Throw Bad_index"
| "relay_loop R (h # hs) (m # ms) =
     and_then (parse_queue_header h) (\<lambda>(host, sender, rcpt).
     and_then (handle_forward R host sender rcpt m) (\<lambda>(m', out).
     and_then (relay_loop R hs ms) (\<lambda>(ms', outs). Ok (m' # ms', out @ outs))))"

text \<open>The new contents of the queue file and what was sent to which host.\<close>

definition mail_relay :: "relay_env \<Rightarrow> string option \<Rightarrow> (string \<times> (string \<times> string list) list) res" where
  "mail_relay R contents =
     (case read_mqueue contents of (messages, headers) \<Rightarrow>
        and_then (relay_loop R headers messages) (\<lambda>(messages', outs). Ok (update_mqueue messages' headers, outs)))"

section \<open>A pass over the queue\<close>

text \<open>An entry: header line and body lines as they stand in the file, without the line feed.\<close>

type_synonym qentry = "string \<times> string list"

definition entry_ok0 :: "qentry \<Rightarrow> bool" where
  "entry_ok0 e \<longleftrightarrow> take 7 (fst e) = header_mark \<and> LF \<notin> set (fst e) \<and>
     (\<forall>l \<in> set (snd e). take 7 l \<noteq> header_mark \<and> LF \<notin> set l)"

definition entry_file :: "qentry \<Rightarrow> string" where
  "entry_file e = concat (map (\<lambda>l. l @ [LF]) (fst e # snd e))"

definition entry_message :: "qentry \<Rightarrow> message" where
  "entry_message e = new_message (concat (map (\<lambda>l. l @ crlf) (snd e)))"

lemma header_mark_length [simp]: "length header_mark = 7"
  by (simp add: header_mark_def)

lemma getlines_file: "\<forall>l \<in> set ls. LF \<notin> set l \<Longrightarrow> getlines (concat (map (\<lambda>l. l @ [LF]) ls)) = ls"
  by (induction ls) (simp_all add: getlines_Cons)

lemma mqueue_body:
  "\<forall>l \<in> set ls. take 7 l \<noteq> header_mark \<Longrightarrow>
     mqueue_loop (ls @ rest) data messages headers =
       mqueue_loop rest (data @ concat (map (\<lambda>l. l @ crlf) ls)) messages headers"
  by (induction ls arbitrary: data) simp_all

lemma mqueue_entries:
  "\<forall>e \<in> set es. entry_ok0 e \<Longrightarrow>
     mqueue_loop (concat (map (\<lambda>e. fst e # snd e) es)) data messages headers =
       (if es = [] then (data, messages, headers)
        else (msg_data (entry_message (last es)),
          messages @ new_message data # map entry_message (butlast es), headers @ map (\<lambda>e. fst e @ crlf) es))"
proof (induction es arbitrary: data messages headers)
  case (Cons e es)
  have "mqueue_loop (concat (map (\<lambda>e. fst e # snd e) (e # es))) data messages headers =
      mqueue_loop (concat (map (\<lambda>e. fst e # snd e) es)) (msg_data (entry_message e))
        (messages @ [new_message data]) (headers @ [fst e @ crlf])"
    using Cons.prems mqueue_body [of "snd e"]
    by (simp add: entry_ok0_def entry_message_def new_message_def)
  then show ?case
    using Cons by (cases es) (simp_all add: entry_message_def new_message_def)
qed simp

lemma read_entries:
  assumes "\<forall>e \<in> set es. entry_ok0 e"
  shows "read_mqueue (Some (concat (map entry_file es))) = (map entry_message es, map (\<lambda>e. fst e @ crlf) es)"
proof -
  let ?ls = "concat (map (\<lambda>e. fst e # snd e) es)"
  have "concat (map entry_file es) = concat (map (\<lambda>l. l @ [LF]) ?ls)"
    by (induction es) (simp_all add: entry_file_def)
  moreover have "\<forall>l \<in> set ?ls. LF \<notin> set l" using assms by (auto simp: entry_ok0_def)
  ultimately have "getlines (concat (map entry_file es)) = ?ls" by (simp add: getlines_file)
  then show ?thesis
    using mqueue_entries [OF assms, of "[]" "[]" "[]"]
    by (cases es rule: rev_cases) (auto simp: read_mqueue_def entry_message_def new_message_def)
qed

lemma queue_header_fields:
  assumes "fits (p @ ''|'' @ h @ ''|'' @ s @ ''|'' @ r @ ''|'' @ t)"
    and "CHR ''|'' \<notin> set p" "CHR ''|'' \<notin> set h" "CHR ''|'' \<notin> set s" "CHR ''|'' \<notin> set r"
  shows "parse_queue_header (p @ ''|'' @ h @ ''|'' @ s @ ''|'' @ r @ ''|'' @ t) = Ok (h, s, r)"
proof -
  let ?x = "p @ ''|'' @ h @ ''|'' @ s @ ''|'' @ r @ ''|'' @ t"
  let ?p1 = "p @ ''|''" and ?p2 = "(p @ ''|'') @ h @ ''|''" and ?p3 = "((p @ ''|'') @ h @ ''|'') @ s @ ''|''"
  have sz: "length p + length h + length s + length r + 4 < npos" using assms(1) by (simp add: fits_def)
  have f: "find ?x ''|'' 0 = length p" "find ?x ''|'' (length ?p1) = length ?p1 + length h"
    "find ?x ''|'' (length ?p2) = length ?p2 + length s" "find ?x ''|'' (length ?p3) = length ?p3 + length r"
    using find_from [OF assms(2), of "[]"] find_from [OF assms(3), of ?p1] find_from [OF assms(4), of ?p2]
      find_from [OF assms(5), of ?p3] by simp_all
  have a: "szadd (length p) 1 = length ?p1" "szadd (length ?p1 + length h) 1 = length ?p2"
    "szadd (length ?p2 + length s) 1 = length ?p3" using sz by simp_all
  have d: "szsub (szsub (length ?p1 + length h) (length p)) 1 = length h"
    "szsub (szsub (length ?p2 + length s) (length ?p1 + length h)) 1 = length s"
    "szsub (szsub (length ?p3 + length r) (length ?p2 + length s)) 1 = length r"
    using sz by simp_all
  have c: "substr ?x (length ?p1) (length h) = Ok h" "substr ?x (length ?p2) (length s) = Ok s"
    "substr ?x (length ?p3) (length r) = Ok r"
    using substr_middle [of ?p1 h] substr_middle [of ?p2 s] substr_middle [of ?p3 r] by simp_all
  show ?thesis unfolding parse_queue_header_def f(1) Let_def a(1) f(2) a(2) f(3) a(3) f(4) d c and_then.simps by (rule refl)
qed

section \<open>Where a mail goes\<close>

text \<open>
  A record of the name service as the resolver prints it (name, class, priority, host), and what the search
  over the records has to find: the host of the first record with the smallest priority.
\<close>

type_synonym mx = "string \<times> string \<times> string \<times> string"

definition mx_prio :: "mx \<Rightarrow> int" where
  "mx_prio x = atoi (fst (snd (snd x)))"

definition mx_host :: "mx \<Rightarrow> string" where
  "mx_host x = snd (snd (snd x))"

definition mx_text :: "mx \<Rightarrow> string" where
  "mx_text x = fst x @ [CHR 0x09] @ fst (snd x) @ [CHR 0x09] @ fst (snd (snd x)) @ '' '' @ snd (snd (snd x))"

definition mx_ok :: "mx \<Rightarrow> bool" where
  "mx_ok x \<longleftrightarrow> fst x \<noteq> [] \<and> CHR 0x09 \<notin> set (fst x) \<and> fst (snd x) \<noteq> [] \<and> CHR 0x09 \<notin> set (fst (snd x)) \<and>
     fst (snd (snd x)) \<noteq> [] \<and> set (fst (snd (snd x))) \<inter> {CHR 0x09, CHR '' ''} = {} \<and>
     mx_host x \<noteq> [] \<and> set (mx_host x) \<inter> {CHR 0x09, CHR '' ''} = {} \<and> mx_prio x < 2147483647"

lemma token_first:
  assumes "x \<noteq> []" "d \<notin> set x"
  shows "token (strtok [d] (x @ [d] @ y)) = Ok (x, y)"
proof -
  have "takeWhile (\<lambda>c. c \<noteq> d) (x @ [d] @ y) = x" "dropWhile (\<lambda>c. c \<noteq> d) (x @ [d] @ y) = d # y"
    using assms(2) by (induction x) auto
  moreover have "dropWhile (\<lambda>c. c = d) (x @ [d] @ y) = x @ [d] @ y" using assms by (cases x) auto
  ultimately show ?thesis using assms(1) unfolding token_def strtok_def Let_def by simp
qed

lemma token_last:
  assumes "x \<noteq> []" "d \<notin> set x"
  shows "token (strtok [d] x) = Ok (x, [])"
proof -
  have "takeWhile (\<lambda>c. c \<notin> set [d]) x = x" "dropWhile (\<lambda>c. c \<notin> set [d]) x = []" using assms(2) by (induction x) auto
  moreover have "dropWhile (\<lambda>c. c \<in> set [d]) x = x" using assms by (cases x) auto
  ultimately have "strtok [d] x = Some (x, [])" unfolding strtok_def Let_def by (simp only: assms(1) if_False drop_Nil)
  then show ?thesis by (simp add: token_def)
qed

lemma parse_mx:
  assumes "mx_ok x"
  shows "parse_record (mx_text x) best = Ok (if mx_prio x < fst best then (mx_prio x, mx_host x) else best)"
proof -
  obtain n k p h where x: "x = (n, k, p, h)" by (cases x) auto
  have t: "token (strtok [CHR 0x09] (mx_text x)) = Ok (n, k @ [CHR 0x09] @ p @ '' '' @ h)"
    "token (strtok [CHR 0x09] (k @ [CHR 0x09] @ p @ '' '' @ h)) = Ok (k, p @ '' '' @ h)"
    "token (strtok [CHR 0x09] (p @ '' '' @ h)) = Ok (p @ '' '' @ h, [])"
    "token (strtok '' '' (p @ '' '' @ h)) = Ok (p, h)" "token (strtok '' '' h) = Ok (h, [])"
    using assms token_first [of n "CHR 0x09"] token_first [of k "CHR 0x09"] token_last [of "p @ '' '' @ h" "CHR 0x09"]
      token_first [of p "CHR '' ''" h] token_last [of h "CHR '' ''"]
    by (simp_all add: mx_ok_def mx_text_def mx_host_def x)
  show ?thesis unfolding parse_record_def t and_then.simps prod.case by (simp add: x mx_prio_def mx_host_def)
qed

lemma best_from:
  "\<forall>y \<in> set rs. mx_ok y \<Longrightarrow> best_record (map mx_text rs) (mx_prio x, mx_host x) =
     Ok (mx_prio (arg_min_list mx_prio (x # rs)), mx_host (arg_min_list mx_prio (x # rs)))"
proof (induction rs arbitrary: x)
  case (Cons y ys)
  show ?case
  proof (cases "mx_prio y < mx_prio x")
    case True
    have "mx_prio (arg_min_list mx_prio (y # ys)) \<le> mx_prio y" by (cases ys) (simp_all add: Let_def)
    then show ?thesis using True Cons by (simp add: parse_mx Let_def)
  next
    case False
    then show ?thesis using Cons by (cases ys) (auto simp: parse_mx Let_def)
  qed
qed simp

definition mail_exchanger :: "relay_env \<Rightarrow> mx list \<Rightarrow> string" where
  "mail_exchanger R rs = (if rs = [] then stale_address R else mx_host (arg_min_list mx_prio rs))"

lemma best_is_exchanger:
  assumes "\<forall>x \<in> set rs. mx_ok x"
  shows "\<exists>p. best_record (map mx_text rs) (2147483647, stale_address R) = Ok (p, mail_exchanger R rs)"
proof (cases rs)
  case (Cons x xs)
  then have "mx_prio x < 2147483647" using assms by (simp add: mx_ok_def)
  then show ?thesis using assms best_from [of xs x] Cons by (simp add: parse_mx mail_exchanger_def)
qed (simp add: mail_exchanger_def)

text \<open>The address the mail is sent to, when the name service knows one and a server there accepts the connection.\<close>

definition mail_goes :: "relay_env \<Rightarrow> mx list \<Rightarrow> string option" where
  "mail_goes R rs =
     (case host_ip R (mail_exchanger R rs) of
        None \<Rightarrow> None
      | Some ip \<Rightarrow> if reachable R (ip @ '':25'') then Some (ip @ '':25'') else None)"

lemma forwarded:
  assumes "mx_records R host = map mx_text rs" "\<forall>x \<in> set rs. mx_ok x"
  shows "handle_forward R host sender rcpt m =
    Ok (m\<lparr>msg_deleted := (if mail_goes R rs = None then msg_deleted m else True)\<rparr>,
      case mail_goes R rs of None \<Rightarrow> [] | Some a \<Rightarrow> [(a, smtp_commands sender [rcpt] (msg_data m))])"
proof -
  obtain p where "best_record (mx_records R host) (2147483647, stale_address R) = Ok (p, mail_exchanger R rs)"
    using best_is_exchanger [OF assms(2)] assms(1) by auto
  then show ?thesis
    by (simp add: handle_forward_def mail_goes_def sendto_smpt_server_def split: option.split)
qed


definition demo_relay :: relay_env where
  "demo_relay = \<lparr>mx_records = \<lambda>h. if h = ''x'' then [''x'' @ [CHR 0x09] @ ''1'' @ [CHR 0x09] @ ''10 mx''] else [],
     host_ip = \<lambda>a. if a = ''mx'' then Some ''1.2.3.4'' else None, reachable = \<lambda>a. True, stale_address = []\<rparr>"


end
