(* ===== verification/Smtp_Server.thy ===== *)
theory Smtp_Server
  imports Mail_Queue
begin

text \<open>
  \<open>webmail/server.cc\<close>: the SMTP server, one thread for each connection. The record \<open>smtp\<close> holds the
  thread's state, the responses it has written, and the parts of the world it changes: the data server
  and the master (a state of type \<open>'b\<close>, reached as in \<open>Mail_Client\<close>), the queue file and the mail handed
  to other hosts. The buffer is taken to be zeroed at the start (in the code it is an uninitialised
  array), and the clock is a parameter.
\<close>

section \<open>Responses\<close>

definition SERVER_READY :: string where "SERVER_READY = ''220 localhost smtp server ready'' @ crlf"
definition SERVICE_CLOSE :: string where "SERVICE_CLOSE = ''221 localhost service closing transmission channel'' @ crlf"
definition HELO_REPLY :: string where "HELO_REPLY = ''250 localhost'' @ crlf"
definition OK_REPLY :: string where "OK_REPLY = ''250 OK'' @ crlf"
definition START_MAIL :: string where "START_MAIL = ''354 Start mail input; end with <CRLF>.'' @ crlf"
definition UNKNOWN_CMD :: string where "UNKNOWN_CMD = ''500 Syntax error, command unrecognized'' @ crlf"
definition SYNTAX_ERR :: string where "SYNTAX_ERR = ''501 Syntax error in parameters or arguments'' @ crlf"
definition BAD_SEQ :: string where "BAD_SEQ = ''503 Bad sequence of commands'' @ crlf"
definition MAILBOX_NA :: string where "MAILBOX_NA = ''550 Requested action not taken: mailbox unavailable'' @ crlf"
definition NO_SUBJECT :: string where "NO_SUBJECT = ''email content must include Subject: '' @ crlf"

record 'b smtp =
  s_state :: nat
  s_sender :: string
  s_rcpts :: "(string, unit) smap"
  s_data :: string
  s_out :: "string list"
  s_back :: 'b
  s_queue :: "string option"
  s_sent :: "(string \<times> string list) list"

record 'b smtp_env =
  mail :: "'b mail_env"
  relay :: relay_env
  clock :: string

definition respond :: "string \<Rightarrow> 'b smtp \<Rightarrow> 'b smtp" where
  "respond r s = s\<lparr>s_out := s_out s @ [r]\<rparr>"

definition new_session :: "'b \<Rightarrow> string option \<Rightarrow> 'b smtp" where
  "new_session b q = \<lparr>s_state = 0, s_sender = [], s_rcpts = [], s_data = [], s_out = [SERVER_READY],
     s_back = b, s_queue = q, s_sent = []\<rparr>"

section \<open>Commands\<close>

text \<open>
  \<open>parse_mailbox\<close> runs over the whole buffer: without the brackets it runs past its end, and the
  destination has 50 bytes.
\<close>

definition parse_mailbox :: "string \<Rightarrow> string res" where
  "parse_mailbox src =
     (case sfind ''<'' src of
        None \<Rightarrow> Throw Bad_index
      | Some i \<Rightarrow>
          (case sfind ''>'' (drop (i + 1) src) of
             None \<Rightarrow> Throw Bad_index
           | Some j \<Rightarrow> if j < 50 then Ok (take j (drop (i + 1) src)) else Throw Bad_index))"

text \<open>In these handlers a wrong argument is answered, but the handler goes on.\<close>

definition handle_helo :: "string \<Rightarrow> 'b smtp \<Rightarrow> 'b smtp" where
  "handle_helo buff s =
     (let s1 = (if length buff \<le> 5 then respond SYNTAX_ERR s else s)
      in if 1 < s_state s1 then respond BAD_SEQ s1 else respond HELO_REPLY (s1\<lparr>s_state := 1\<rparr>))"

definition last_at :: "string \<Rightarrow> nat" where
  "last_at s = rfind s ''@'' npos"

definition handle_from :: "string \<Rightarrow> 'b smtp \<Rightarrow> 'b smtp res" where
  "handle_from buff s =
     (let s1 = (if strcasecmp_eq (take 5 (drop 5 buff)) ''from:'' then s else respond UNKNOWN_CMD s)
      in if s_state s1 \<noteq> 1 then Ok (respond BAD_SEQ s1)
         else and_then (parse_mailbox buff) (\<lambda>domain.
              and_then (compare_eq domain (last_at domain) 10 ''@localhost'') (\<lambda>local.
                if \<not> local then Ok (respond SYNTAX_ERR s1)
                else Ok (respond OK_REPLY (s1\<lparr>s_state := 2, s_sender := domain\<rparr>)))))"

definition handle_to :: "string \<Rightarrow> 'b smtp \<Rightarrow> 'b smtp res" where
  "handle_to buff s =
     (let s1 = (if strcasecmp_eq (take 3 (drop 5 buff)) ''to:'' then s else respond UNKNOWN_CMD s)
      in if s_state s1 < 2 \<or> 3 < s_state s1 then Ok (respond BAD_SEQ s1)
         else and_then (parse_mailbox buff) (\<lambda>mailbox.
              Ok (respond OK_REPLY (s1\<lparr>s_state := 3, s_rcpts := map_insert mailbox () (s_rcpts s1)\<rparr>))))"

definition handle_rset :: "'b smtp \<Rightarrow> 'b smtp" where
  "handle_rset s =
     (if s_state s = 0 then respond BAD_SEQ s
      else respond OK_REPLY (s\<lparr>s_state := 1, s_data := [], s_sender := [], s_rcpts := []\<rparr>))"

section \<open>Delivery\<close>

definition mail_put :: "string \<Rightarrow> string \<Rightarrow> string \<Rightarrow> string" where
  "mail_put user col value =
     ''PUT <'' @ user @ ''> <'' @ col @ ''>'' @ crlf @ ''DATA'' @ crlf @ value @ ''.'' @ crlf"

text \<open>The list with an earlier line of the same hash removed.\<close>

definition drop_hash :: "string \<Rightarrow> string \<Rightarrow> string" where
  "drop_hash hash value =
     (let f1 = find value hash 0
      in if f1 = npos then value
         else let f2 = find value crlf (szadd f1 1)
              in take f1 value @ drop (f1 + szadd (szsub f2 f1) 2) value)"

text \<open>
  The loop that puts a hash at the top of a list: read the list, start one when there is none, change
  it by compare-and-swap. The fuel \<open>n\<close> bounds the rounds.
\<close>

fun append_hash :: "'b mail_env \<Rightarrow> nat \<Rightarrow> string \<Rightarrow> string \<Rightarrow> string \<Rightarrow> string \<Rightarrow> 'b \<Rightarrow> 'b res" where
  "append_hash E 0 node_addr user col hash b = Block"
| "append_hash E (Suc n) node_addr user col hash b =
     and_then (mail_send E node_addr (mail_get user col) b) (\<lambda>(response, b1).
     and_then (compare_eq response 1 3 ''ERR'') (\<lambda>none.
       if none then
         and_then (mail_send E node_addr (mail_put user col (''list'' @ crlf)) b1) (\<lambda>(_, b2).
           append_hash E n node_addr user col hash b2)
       else
         and_then (mail_send E node_addr (mail_cput user col response (hash @ crlf @ drop_hash hash response)) b1) (\<lambda>(r, b2).
         and_then (compare_eq r 1 2 ''OK'') (\<lambda>ok.
           if ok then Ok b2 else append_hash E n node_addr user col hash b2))))"

definition first_at :: "string \<Rightarrow> nat" where
  "first_at s = find s ''@'' 0"

text \<open>The title: without a subject line the positions wrap around.\<close>

definition mail_title :: "string \<Rightarrow> string res" where
  "mail_title data =
     (let f1 = find data ''Subject: '' 0; f2 = find data crlf (szadd f1 1)
      in substr data (szadd f1 9) (szsub (szsub f2 f1) 9))"

definition mail_time :: "string \<Rightarrow> string res" where
  "mail_time ct = and_then (pop_back ct) (\<lambda>t. Ok (t @ crlf))"

definition outbox_header :: "string \<Rightarrow> string list \<Rightarrow> string \<Rightarrow> string \<Rightarrow> string res" where
  "outbox_header sender rcpts title time =
     and_then (pop_back (''Header |localhost|'' @ sender @ ''|'' @ concat (map (\<lambda>r. r @ '','') rcpts))) (\<lambda>h.
       Ok (h @ ''|'' @ title @ ''|'' @ time))"

definition inbox_header :: "string \<Rightarrow> string \<Rightarrow> string \<Rightarrow> string \<Rightarrow> string \<Rightarrow> string" where
  "inbox_header server_name sender rcpt title time =
     ''Header |'' @ server_name @ ''|'' @ sender @ ''|'' @ rcpt @ ''|'' @ title @ ''|'' @ time"

text \<open>One recipient: the mailbox of a local user, or the queue. The queue is relayed afterwards.\<close>

definition deliver_local :: "'b smtp_env \<Rightarrow> nat \<Rightarrow> string \<Rightarrow> string \<Rightarrow> string \<Rightarrow> string \<Rightarrow> 'b smtp \<Rightarrow> 'b smtp res" where
  "deliver_local E n node_addr user header hash s =
     and_then (append_hash (mail E) n node_addr user ''mail/inbox/list'' hash (s_back s)) (\<lambda>b1.
     and_then (mail_send (mail E) node_addr (mail_put user (''mail/inbox/'' @ hash) (header @ s_data s)) b1) (\<lambda>(_, b2).
       Ok (s\<lparr>s_back := b2\<rparr>)))"

definition relay_queue :: "'b smtp_env \<Rightarrow> 'b smtp \<Rightarrow> 'b smtp res" where
  "relay_queue E s =
     and_then (mail_relay (relay E) (s_queue s)) (\<lambda>(q, outs). Ok (s\<lparr>s_queue := Some q, s_sent := s_sent s @ outs\<rparr>))"

definition deliver_one ::
    "'b smtp_env \<Rightarrow> nat \<Rightarrow> string \<Rightarrow> string \<Rightarrow> string \<Rightarrow> string \<Rightarrow> string \<Rightarrow> string \<Rightarrow> 'b smtp \<Rightarrow> 'b smtp res" where
  "deliver_one E n sender sender_name title time hash rcpt s =
     (let found = first_at rcpt
      in and_then (substr rcpt 0 found) (\<lambda>user_name.
         and_then (substr rcpt (szadd found 1) npos) (\<lambda>server_name.
         let header = inbox_header server_name sender rcpt title time
         in if take 9 server_name = ''localhost'' then
              and_then (mail_ask_master (mail E) user_name (s_back s)) (\<lambda>(node_addr, b1).
                if node_addr = ''NULL'' then Ok (respond MAILBOX_NA (s\<lparr>s_back := b1\<rparr>))
                else and_then (deliver_local E n node_addr user_name header hash (s\<lparr>s_back := b1\<rparr>)) (relay_queue E))
            else
              (let from0 = ''From: '' @ sender_name @ '' <'' @ sender @ ''>'' @ crlf;
                   to0 = ''To: '' @ user_name @ '' <'' @ rcpt @ ''>'' @ crlf;
                   date0 = ''Date: '' @ time
               in relay_queue E (s\<lparr>s_queue := Some ((case s_queue s of None \<Rightarrow> [] | Some q \<Rightarrow> q) @
                    header @ from0 @ to0 @ date0 @ s_data s)\<rparr>)))))"

fun deliver_all ::
    "'b smtp_env \<Rightarrow> nat \<Rightarrow> string \<Rightarrow> string \<Rightarrow> string \<Rightarrow> string \<Rightarrow> string \<Rightarrow> string list \<Rightarrow> 'b smtp \<Rightarrow> 'b smtp res" where
  "deliver_all E n sender sender_name title time hash [] s = Ok s"
| "deliver_all E n sender sender_name title time hash (r # rs) s =
     and_then (deliver_one E n sender sender_name title time hash r s)
       (deliver_all E n sender sender_name title time hash rs)"

text \<open>The end of the data: the mail goes to the sender's outbox and to every recipient.\<close>

definition finish_mail :: "'b smtp_env \<Rightarrow> nat \<Rightarrow> 'b smtp \<Rightarrow> 'b smtp res" where
  "finish_mail E n s0 =
     (let s = s0\<lparr>s_state := 5\<rparr>; data = s_data s; sender = s_sender s; rcpts = map fst (s_rcpts s)
      in and_then (mail_time (clock E)) (\<lambda>time.
         let s1 = (if find data ''Subject: '' 0 = npos then respond NO_SUBJECT s else s)
         in and_then (mail_title data) (\<lambda>title.
            and_then (substr sender 0 (first_at sender)) (\<lambda>sender_name.
            and_then (mail_ask_master (mail E) sender_name (s_back s1)) (\<lambda>(sender_node, b1).
            let hash = hash_MD5 (digest (mail E)) data
            in and_then (append_hash (mail E) n sender_node sender_name ''mail/outbox/list'' hash b1) (\<lambda>b2.
               and_then (outbox_header sender rcpts title time) (\<lambda>header.
               and_then (mail_send (mail E) sender_node (mail_put sender_name (''mail/outbox/'' @ hash) (header @ data)) b2) (\<lambda>(_, b3).
               and_then (deliver_all E n sender sender_name title time hash rcpts (s1\<lparr>s_back := b3\<rparr>)) (\<lambda>s2.
                 Ok (respond OK_REPLY (s2\<lparr>s_data := [], s_sender := [], s_rcpts := []\<rparr>)))))))))))"

text \<open>The final dot is compared with the whole buffer, not with the line.\<close>

definition handle_data :: "'b smtp_env \<Rightarrow> nat \<Rightarrow> string \<Rightarrow> string \<Rightarrow> 'b smtp \<Rightarrow> 'b smtp res" where
  "handle_data E n buff line s =
     (if s_state s < 3 \<or> 4 < s_state s then Ok (respond BAD_SEQ s)
      else if s_state s = 3 then Ok (respond START_MAIL (s\<lparr>s_state := 4\<rparr>))
      else if buff \<noteq> ''.'' @ crlf then Ok (s\<lparr>s_data := s_data s @ line\<rparr>)
      else finish_mail E n s)"

section \<open>The loop\<close>

definition smtp_command :: "'b smtp_env \<Rightarrow> nat \<Rightarrow> string \<Rightarrow> string \<Rightarrow> 'b smtp \<Rightarrow> ('b smtp \<times> bool) res" where
  "smtp_command E n buff line s =
     (let command = take 5 buff; go_on = (\<lambda>r. and_then r (\<lambda>s'. Ok (s', False)))
      in if strcasecmp_eq command (''data'' @ [CR]) \<or> s_state s = 4 then go_on (handle_data E n buff line s)
         else if strcasecmp_eq command ''helo '' then Ok (handle_helo buff s, False)
         else if strcasecmp_eq command ''mail '' then go_on (handle_from buff s)
         else if strcasecmp_eq command ''rcpt '' then go_on (handle_to buff s)
         else if strcasecmp_eq command (''rset'' @ [CR]) then Ok (handle_rset s, False)
         else if strcasecmp_eq command (''noop'' @ [CR]) then Ok (respond OK_REPLY s, False)
         else if strcasecmp_eq command (''quit'' @ [CR]) then Ok (respond SERVICE_CLOSE (s\<lparr>s_state := 6\<rparr>), True)
         else Ok (respond UNKNOWN_CMD s, False))"

text \<open>The complete lines of the buffer; the result is the state, the rest and whether to stop.\<close>

function smtp_lines :: "'b smtp_env \<Rightarrow> nat \<Rightarrow> string \<Rightarrow> 'b smtp \<Rightarrow> ('b smtp \<times> string \<times> bool) res" where
  "smtp_lines E n buff s =
     (case sfind crlf buff of
        None \<Rightarrow> Ok (s, buff, False)
      | Some i \<Rightarrow>
          and_then (smtp_command E n buff (take (i + 2) buff) s) (\<lambda>(s', QUIT).
            if QUIT then Ok (s', buff, True) else smtp_lines E n (drop (i + 2) buff) s'))"
  by pat_completeness auto
termination
  by (relation "measure (\<lambda>(E, n, buff, s). length buff)") (auto dest!: sfind_length simp: crlf_def)

declare smtp_lines.simps [simp del]

function worker_thread :: "'b smtp_env \<Rightarrow> nat \<Rightarrow> string \<Rightarrow> rd list \<Rightarrow> 'b smtp \<Rightarrow> 'b smtp res" where
  "worker_thread E n buff es s =
     and_then (fill 5000 buff es) (\<lambda>(buff1, es').
     and_then (smtp_lines E n buff1 s) (\<lambda>(s', buff2, QUIT).
       if QUIT then Ok s' else worker_thread E n buff2 es' s'))"
  by pat_completeness auto
termination
  by (relation "measure (\<lambda>(E, n, buff, es, s). sum_list (map rd_size es))") (auto dest: fill_less)

declare worker_thread.simps [simp del]

end
