(* ===== verification/Smtp_Props.thy ===== *)
theory Smtp_Props
  imports Smtp_Server
begin

text \<open>
  The SMTP server and its client: a session of \<open>sendto_smpt_server\<close> with \<open>worker_thread\<close>, the states a
  session can reach, and what a pipelined end of the data does.
\<close>

section \<open>One line per read\<close>

definition whole_line :: "string \<Rightarrow> bool" where
  "whole_line l \<longleftrightarrow> sfind crlf l = Some (length l - 2) \<and> length l < 5000 \<and> CHR 0x00 \<notin> set l"

lemma whole_line_length: "whole_line l \<Longrightarrow> 2 \<le> length l"
  by (auto simp: whole_line_def crlf_def dest: sfind_length)

lemma whole_line_crlf: "CR \<notin> set x \<Longrightarrow> CHR 0x00 \<notin> set x \<Longrightarrow> length x < 4998 \<Longrightarrow> whole_line (x @ crlf)"
  by (simp add: whole_line_def crlf_def sfind_skip)

lemma lines_alone:
  assumes "whole_line l"
  shows "smtp_lines E n l s = and_then (smtp_command E n l l s) (\<lambda>(s', Q). Ok (s', if Q then l else [], Q))"
proof -
  have "take (length l - 2 + 2) l = l" "drop (length l - 2 + 2) l = []" using whole_line_length [OF assms] by simp_all
  moreover have "smtp_lines E n [] s' = Ok (s', [], False)" for s'
    by (subst smtp_lines.simps) (simp add: crlf_def)
  ultimately show ?thesis
    using assms by (subst smtp_lines.simps) (auto simp: whole_line_def case_prod_unfold split: option.split if_splits intro!: and_then_cong)
qed

lemma session_step:
  assumes "whole_line l" "smtp_command E n l l s = Ok (s', False)"
  shows "worker_thread E n [] (Bytes l # es) s = worker_thread E n [] es s'"
  using assms by (subst worker_thread.simps) (simp add: lines_alone whole_line_def)

lemma session_end:
  assumes "whole_line l" "smtp_command E n l l s = Ok (s', True)"
  shows "worker_thread E n [] (Bytes l # es) s = Ok s'"
  using assms by (subst worker_thread.simps) (simp add: lines_alone whole_line_def)

lemma smtp_command_words:
  "s_state s \<noteq> 4 \<Longrightarrow> smtp_command E n (''HELO '' @ x) line s = Ok (handle_helo (''HELO '' @ x) s, False)"
  "s_state s \<noteq> 4 \<Longrightarrow> smtp_command E n (''MAIL '' @ x) line s =
     and_then (handle_from (''MAIL '' @ x) s) (\<lambda>s'. Ok (s', False))"
  "s_state s \<noteq> 4 \<Longrightarrow> smtp_command E n (''RCPT '' @ x) line s =
     and_then (handle_to (''RCPT '' @ x) s) (\<lambda>s'. Ok (s', False))"
  "s_state s \<noteq> 4 \<Longrightarrow> smtp_command E n (''QUIT'' @ crlf) line s =
     Ok (respond SERVICE_CLOSE (s\<lparr>s_state := 6\<rparr>), True)"
  "smtp_command E n (''DATA'' @ crlf) line s =
     and_then (handle_data E n (''DATA'' @ crlf) line s) (\<lambda>s'. Ok (s', False))"
  "s_state s = 4 \<Longrightarrow> smtp_command E n buff line s = and_then (handle_data E n buff line s) (\<lambda>s'. Ok (s', False))"
  by (simp_all add: smtp_command_def strcasecmp_eq_def cstr_def lower_def crlf_def char_of_def bit_Suc_0_iff Let_def)

section \<open>A session of the client\<close>

definition plain_box :: "string \<Rightarrow> bool" where
  "plain_box m \<longleftrightarrow> CHR ''<'' \<notin> set m \<and> CHR ''>'' \<notin> set m \<and> CR \<notin> set m \<and> CHR 0x00 \<notin> set m \<and> length m < 50"

lemma parse_mailbox_plain:
  assumes "plain_box m" "CHR ''<'' \<notin> set a"
  shows "parse_mailbox (a @ CHR ''<'' # m @ CHR ''>'' # r) = Ok m"
  using assms by (simp add: parse_mailbox_def plain_box_def)

lemma srfind_hit: "prefix pat (drop i s) \<Longrightarrow> i \<le> length s \<Longrightarrow> srfind pat s i = Some i"
  by (cases i) simp_all

lemma rfind_char:
  assumes "c \<notin> set b" "length (a @ c # b) < npos"
  shows "rfind (a @ c # b) [c] npos = length a"
proof -
  have no: "srfind [c] (a @ c # b) (length a + k) = Some (length a)" for k
  proof (induction k)
    case 0
    then show ?case by (simp add: srfind_hit)
  next
    case (Suc k)
    have "\<not> prefix [c] (drop k b)" using assms(1) in_set_dropD [of c k b] by (cases "drop k b") auto
    then show ?case using Suc by simp
  qed
  show ?thesis using no [of "Suc (length b)"] assms(2) by (simp add: rfind_def)
qed

text \<open>A sender the server accepts: a mailbox of this host.\<close>

definition local_box :: "string \<Rightarrow> string \<Rightarrow> bool" where
  "local_box u m \<longleftrightarrow> m = u @ ''@localhost'' \<and> plain_box m"

lemma from_accepted:
  assumes "local_box u m" "s_state s = 1"
  shows "handle_from (''MAIL FROM:<'' @ m @ ''>'' @ crlf) s =
    Ok (respond OK_REPLY (s\<lparr>s_state := 2, s_sender := m\<rparr>))"
proof -
  have "parse_mailbox (''MAIL FROM:'' @ CHR ''<'' # m @ CHR ''>'' # crlf) = Ok m"
    using assms(1) by (intro parse_mailbox_plain) (auto simp: local_box_def)
  then have p: "parse_mailbox (''MAIL FROM:<'' @ m @ ''>'' @ crlf) = Ok m" by simp
  have m: "m = u @ ''@localhost''" "length m < 50" using assms(1) by (auto simp: local_box_def plain_box_def)
  then have "last_at m = length u"
    using rfind_char [of "CHR ''@''" "''localhost''" u] by (simp add: last_at_def npos_def)
  then have "compare_eq m (last_at m) 10 ''@localhost'' = Ok True"
    using assms(1) by (simp add: local_box_def compare_eq_def)
  moreover have "strcasecmp_eq (take 5 (drop 5 (''MAIL FROM:<'' @ m @ ''>'' @ crlf))) ''from:''"
    by (simp add: strcasecmp_eq_def cstr_def lower_def char_of_def bit_Suc_0_iff)
  ultimately show ?thesis unfolding handle_from_def p by (simp add: assms(2) Let_def)
qed

lemma to_accepted:
  assumes "plain_box m" "s_state s = 2 \<or> s_state s = 3"
  shows "handle_to (''RCPT TO:<'' @ m @ ''>'' @ crlf) s =
    Ok (respond OK_REPLY (s\<lparr>s_state := 3, s_rcpts := map_insert m () (s_rcpts s)\<rparr>))"
proof -
  have "parse_mailbox (''RCPT TO:'' @ CHR ''<'' # m @ CHR ''>'' # crlf) = Ok m"
    using assms(1) by (intro parse_mailbox_plain) simp_all
  then have p: "parse_mailbox (''RCPT TO:<'' @ m @ ''>'' @ crlf) = Ok m" by simp
  have "strcasecmp_eq (take 3 (drop 5 (''RCPT TO:<'' @ m @ ''>'' @ crlf))) ''to:''"
    by (simp add: strcasecmp_eq_def cstr_def lower_def char_of_def bit_Suc_0_iff)
  then show ?thesis using assms(2) unfolding handle_to_def p by (auto simp: Let_def)
qed

lemma box_line:
  assumes "plain_box m" "CR \<notin> set a" "CHR 0x00 \<notin> set a" "length a < 50"
  shows "whole_line (a @ m @ ''>'' @ crlf)"
  using whole_line_crlf [of "a @ m @ ''>''"] assms by (simp add: plain_box_def)

definition add_rcpts :: "string list \<Rightarrow> (string, unit) smap \<Rightarrow> (string, unit) smap" where
  "add_rcpts rs m = foldl (\<lambda>m r. map_insert r () m) m rs"

lemma rcpts_accepted:
  assumes "\<forall>r \<in> set rs. plain_box r" "s_state s = 2 \<or> s_state s = 3"
  shows "worker_thread E n [] (map (\<lambda>r. Bytes (''RCPT TO:<'' @ r @ ''>'' @ crlf)) rs @ es) s =
    worker_thread E n [] es (s\<lparr>s_state := (if rs = [] then s_state s else 3),
      s_rcpts := add_rcpts rs (s_rcpts s), s_out := s_out s @ replicate (length rs) OK_REPLY\<rparr>)"
  using assms
proof (induction rs arbitrary: s)
  case Nil
  then show ?case by (simp add: add_rcpts_def)
next
  case (Cons r rs)
  have w: "whole_line (''RCPT TO:<'' @ r @ ''>'' @ crlf)" using Cons.prems(1) by (intro box_line) simp_all
  let ?s1 = "respond OK_REPLY (s\<lparr>s_state := 3, s_rcpts := map_insert r () (s_rcpts s)\<rparr>)"
  have "handle_to (''RCPT TO:<'' @ r @ ''>'' @ crlf) s = Ok ?s1" using Cons.prems by (intro to_accepted) simp_all
  then have c: "smtp_command E n (''RCPT TO:<'' @ r @ ''>'' @ crlf) (''RCPT TO:<'' @ r @ ''>'' @ crlf) s = Ok (?s1, False)"
    using smtp_command_words(3) [of s E n "''TO:<'' @ r @ ''>'' @ crlf"] Cons.prems(2) by auto
  have "worker_thread E n [] (map (\<lambda>r. Bytes (''RCPT TO:<'' @ r @ ''>'' @ crlf)) (r # rs) @ es) s =
      worker_thread E n [] (map (\<lambda>r. Bytes (''RCPT TO:<'' @ r @ ''>'' @ crlf)) rs @ es) ?s1"
    using session_step [OF w c] by simp
  moreover have "s_state ?s1 = 3" by (simp add: respond_def)
  ultimately show ?case using Cons.IH [of ?s1] Cons.prems(1) by (simp add: respond_def add_rcpts_def)
qed

lemma data_collected:
  assumes "\<forall>l \<in> set ls. whole_line l \<and> l \<noteq> ''.'' @ crlf" "s_state s = 4"
  shows "worker_thread E n [] (map Bytes ls @ es) s = worker_thread E n [] es (s\<lparr>s_data := s_data s @ concat ls\<rparr>)"
  using assms
proof (induction ls arbitrary: s)
  case (Cons l ls)
  have "smtp_command E n l l s = Ok (s\<lparr>s_data := s_data s @ l\<rparr>, False)"
    using smtp_command_words(6) [OF Cons.prems(2), of E n l] Cons.prems by (simp add: handle_data_def)
  then have "worker_thread E n [] (map Bytes (l # ls) @ es) s =
      worker_thread E n [] (map Bytes ls @ es) (s\<lparr>s_data := s_data s @ l\<rparr>)"
    using Cons.prems session_step [of l] by simp
  then show ?case using Cons.IH [of "s\<lparr>s_data := s_data s @ l\<rparr>"] Cons.prems by simp
qed simp

lemma send_lines_whole:
  assumes "\<forall>l \<in> set ls. whole_line l"
  shows "send_lines (concat ls) = ls"
  using assms
proof (induction ls)
  case Nil
  then show ?case by (subst send_lines.simps) (simp add: crlf_def)
next
  case (Cons l ls)
  have "sfind crlf (l @ concat ls) = Some (length l - 2)" "2 \<le> length l"
    using Cons.prems whole_line_length by (simp_all add: whole_line_def)
  then show ?case using Cons by (subst send_lines.simps) simp
qed

text \<open>Delivery leaves the state of the session alone.\<close>

lemma deliver_state:
  "deliver_one E n sender sender_name title time hash r s = Ok s' \<Longrightarrow> s_state s' = s_state s"
  by (auto simp: deliver_one_def deliver_local_def relay_queue_def respond_def Let_def split: if_splits)

lemma deliver_all_state:
  "deliver_all E n sender sender_name title time hash rs s = Ok s' \<Longrightarrow> s_state s' = s_state s"
  by (induction rs arbitrary: s) (auto dest: deliver_state)

lemma finish_state:
  assumes "finish_mail E n s = Ok s'"
  shows "s_state s' = 5 \<and> s_data s' = [] \<and> s_sender s' = [] \<and> s_rcpts s' = []"
  using assms
  by (auto simp: finish_mail_def Let_def respond_def dest!: deliver_all_state split: if_splits)

lemma keys_insert: "map_ok m \<Longrightarrow> set (map fst (map_insert k v m)) = insert k (set (map fst m))"
  by (induction k v m rule: map_insert.induct) auto

lemma add_rcpts_ok: "map_ok m \<Longrightarrow> map_ok (add_rcpts rs m) \<and> fst ` set (add_rcpts rs m) = set rs \<union> fst ` set m"
proof (induction rs arbitrary: m)
  case (Cons r rs)
  have "map_ok (map_insert r () m)" "fst ` set (map_insert r () m) = insert r (fst ` set m)"
    using Cons.prems map_ok_insert keys_insert [of m r "()"] by simp_all
  then show ?case using Cons.IH [of "map_insert r () m"] by (simp add: add_rcpts_def)
qed (simp add: add_rcpts_def)

text \<open>The session by parts: up to the sender, and from DATA to the end.\<close>

definition after_from :: "string \<Rightarrow> 'b smtp \<Rightarrow> 'b smtp" where
  "after_from m s = respond OK_REPLY ((respond HELO_REPLY (s\<lparr>s_state := 1\<rparr>))\<lparr>s_state := 2, s_sender := m\<rparr>)"

lemma session_opening:
  assumes "local_box u m" "s_state s = 0"
  shows "worker_thread E n [] (Bytes (''HELO tester'' @ crlf) # Bytes (''MAIL FROM:<'' @ m @ ''>'' @ crlf) # es) s =
    worker_thread E n [] es (after_from m s)"
proof -
  let ?s1 = "respond HELO_REPLY (s\<lparr>s_state := 1\<rparr>)" and ?m = "''MAIL FROM:<'' @ m @ ''>'' @ crlf"
  have st: "s_state ?s1 = 1" by (simp add: respond_def)
  have "handle_helo (''HELO tester'' @ crlf) s = ?s1"
    using assms(2) by (simp add: handle_helo_def Let_def)
  then have h: "worker_thread E n [] (Bytes (''HELO tester'' @ crlf) # Bytes ?m # es) s = worker_thread E n [] (Bytes ?m # es) ?s1"
    using session_step [of "''HELO tester'' @ crlf" E n s ?s1] assms(2)
      smtp_command_words(1) [of s E n "''tester'' @ crlf"] whole_line_crlf [of "''HELO tester''"] by simp
  have "whole_line ?m" using assms(1) by (intro box_line) (auto simp: local_box_def)
  then have "worker_thread E n [] (Bytes ?m # es) ?s1 = worker_thread E n [] es (after_from m s)"
    using session_step [of ?m E n ?s1 "after_from m s"] smtp_command_words(2) [of ?s1 E n "''FROM:<'' @ m @ ''>'' @ crlf"]
      from_accepted [OF assms(1) st] st by (simp add: after_from_def)
  with h show ?thesis by simp
qed

lemma session_closing:
  assumes "\<forall>l \<in> set ls. whole_line l \<and> l \<noteq> ''.'' @ crlf" "s_state s = 3"
  shows "worker_thread E n [] (Bytes (''DATA'' @ crlf) # map Bytes ls @ Bytes (''.'' @ crlf) # Bytes (''QUIT'' @ crlf) # es) s =
    and_then (finish_mail E n (respond START_MAIL (s\<lparr>s_state := 4, s_data := s_data s @ concat ls\<rparr>)))
      (\<lambda>s. Ok (respond SERVICE_CLOSE (s\<lparr>s_state := 6\<rparr>)))"
proof -
  let ?W = "\<lambda>es s. worker_thread E n [] es s"
  let ?quit = "Bytes (''QUIT'' @ crlf) # es"
  let ?dot = "Bytes (''.'' @ crlf) # ?quit"
  define s4 where "s4 = respond START_MAIL (s\<lparr>s_state := 4\<rparr>)"
  define s5 where "s5 = respond START_MAIL (s\<lparr>s_state := 4, s_data := s_data s @ concat ls\<rparr>)"
  have st: "s_state s4 = 4" "s_state s5 = 4" and s5: "s4\<lparr>s_data := s_data s4 @ concat ls\<rparr> = s5"
    by (simp_all add: s4_def s5_def respond_def)
  have d: "?W (Bytes (''DATA'' @ crlf) # map Bytes ls @ ?dot) s = ?W (map Bytes ls @ ?dot) s4"
    using session_step [of "''DATA'' @ crlf" E n s s4] whole_line_crlf [of "''DATA''"]
      smtp_command_words(5) [of E n "''DATA'' @ crlf" s] assms(2) by (simp add: handle_data_def s4_def)
  have l: "?W (map Bytes ls @ ?dot) s4 = ?W ?dot s5"
    using data_collected [OF assms(1) st(1)] s5 by simp
  have e: "?W ?dot s5 = and_then (finish_mail E n s5) (\<lambda>s. ?W ?quit s)"
    using whole_line_crlf [of "''.''"] st(2)
    by (subst worker_thread.simps)
       (simp add: lines_alone whole_line_def smtp_command_words(6) handle_data_def and_then_assoc)
  have "and_then (finish_mail E n s5) (\<lambda>s. ?W ?quit s) =
      and_then (finish_mail E n s5) (\<lambda>s. Ok (respond SERVICE_CLOSE (s\<lparr>s_state := 6\<rparr>)))"
  proof (rule and_then_cong [OF refl])
    fix s assume "finish_mail E n s5 = Ok s"
    then have "s_state s = 5" using finish_state by blast
    then show "?W ?quit s = Ok (respond SERVICE_CLOSE (s\<lparr>s_state := 6\<rparr>))"
      using session_end [of "''QUIT'' @ crlf" E n s] whole_line_crlf [of "''QUIT''"]
        smtp_command_words(4) [of s E n "''QUIT'' @ crlf"] by simp
  qed
  with d l e show ?thesis by (simp add: s5_def)
qed

lemma smtp_session_runs:
  assumes "local_box u sender" "rcpts \<noteq> []" "\<forall>r \<in> set rcpts. plain_box r"
    and "\<forall>l \<in> set ls. whole_line l \<and> l \<noteq> ''.'' @ crlf"
  shows "worker_thread E n [] (map Bytes (smtp_commands sender rcpts (concat ls)) @ es) (new_session b q) =
      and_then (finish_mail E n \<lparr>s_state = 4, s_sender = sender, s_rcpts = add_rcpts rcpts [], s_data = concat ls,
        s_out = [SERVER_READY, HELO_REPLY, OK_REPLY] @ replicate (length rcpts) OK_REPLY @ [START_MAIL],
        s_back = b, s_queue = q, s_sent = []\<rparr>) (\<lambda>s. Ok (respond SERVICE_CLOSE (s\<lparr>s_state := 6\<rparr>))) \<and>
    fst ` set (add_rcpts rcpts []) = set rcpts \<and> distinct (map fst (add_rcpts rcpts []))"
proof -
  let ?s2 = "after_from sender (new_session b q)"
  let ?rest = "Bytes (''DATA'' @ crlf) # map Bytes ls @ Bytes (''.'' @ crlf) # Bytes (''QUIT'' @ crlf) # es"
  let ?s3 = "?s2\<lparr>s_state := 3, s_rcpts := add_rcpts rcpts (s_rcpts ?s2),
    s_out := s_out ?s2 @ replicate (length rcpts) OK_REPLY\<rparr>"
  have sl: "send_lines (concat ls) = ls" using assms(4) by (intro send_lines_whole) simp
  have st: "s_state ?s2 = 2" by (simp add: after_from_def respond_def)
  have "worker_thread E n [] (map Bytes (smtp_commands sender rcpts (concat ls)) @ es) (new_session b q) =
      worker_thread E n [] (map (\<lambda>r. Bytes (''RCPT TO:<'' @ r @ ''>'' @ crlf)) rcpts @ ?rest) ?s2"
    using session_opening [OF assms(1), of "new_session b q" E n]
    by (simp add: smtp_commands_def sl new_session_def comp_def)
  also have "\<dots> = worker_thread E n [] ?rest ?s3"
    using rcpts_accepted [OF assms(3), of ?s2 E n ?rest] assms(2) st by simp
  finally show ?thesis
    using session_closing [OF assms(4), of ?s3 E n es] add_rcpts_ok [of "[]" rcpts]
    by (simp add: after_from_def new_session_def respond_def map_ok_def strict_sorted_iff)
qed

text \<open>
  C24. The client and the server agree on the protocol: what \<open>sendto_smpt_server\<close> writes, one line per
  read, brings a new session to the end of the data with exactly that sender, those recipients (each
  once) and that text, and the connection is closed after the mail has been handled. The lines must be
  shorter than the buffer and none of them a single dot; the server answers each command.
\<close>

theorem smtp_session:
  assumes "local_box u sender" "rcpts \<noteq> []" "\<forall>r \<in> set rcpts. plain_box r"
    and "\<forall>l \<in> set ls. whole_line l \<and> l \<noteq> ''.'' @ crlf"
  shows "worker_thread E n [] (map Bytes (smtp_commands sender rcpts (concat ls)) @ es) (new_session b q) =
      and_then (finish_mail E n \<lparr>s_state = 4, s_sender = sender, s_rcpts = add_rcpts rcpts [], s_data = concat ls,
        s_out = [SERVER_READY, HELO_REPLY, OK_REPLY] @ replicate (length rcpts) OK_REPLY @ [START_MAIL],
        s_back = b, s_queue = q, s_sent = []\<rparr>) (\<lambda>s. Ok (respond SERVICE_CLOSE (s\<lparr>s_state := 6\<rparr>))) \<and>
    fst ` set (add_rcpts rcpts []) = set rcpts \<and> distinct (map fst (add_rcpts rcpts []))"
  using assms by (rule smtp_session_runs)

theorem smtp_session_witness:
  "\<forall>(E :: 'b smtp_env) n es b q. worker_thread E n []
      (map Bytes (smtp_commands ''al@localhost'' [''bo@localhost'', ''x@y.z''] (''Subject: hi'' @ crlf @ ''..'' @ crlf)) @ es)
      (new_session b q) =
    and_then (finish_mail E n \<lparr>s_state = 4, s_sender = ''al@localhost'',
        s_rcpts = [(''bo@localhost'', ()), (''x@y.z'', ())], s_data = ''Subject: hi'' @ crlf @ ''..'' @ crlf,
        s_out = [SERVER_READY, HELO_REPLY, OK_REPLY, OK_REPLY, OK_REPLY, START_MAIL], s_back = b, s_queue = q, s_sent = []\<rparr>)
      (\<lambda>s. Ok (respond SERVICE_CLOSE (s\<lparr>s_state := 6\<rparr>)))"
proof (intro allI)
  fix E :: "'b smtp_env" and n es b q
  have l: "local_box ''al'' ''al@localhost''" "\<forall>r \<in> set [''bo@localhost'', ''x@y.z'']. plain_box r"
    by (simp_all add: local_box_def plain_box_def)
  have w: "\<forall>l \<in> set [''Subject: hi'' @ crlf, ''..'' @ crlf]. whole_line l \<and> l \<noteq> ''.'' @ crlf"
    using whole_line_crlf [of "''Subject: hi''"] whole_line_crlf [of "''..''"] by (simp add: crlf_def)
  have m: "add_rcpts [''bo@localhost'', ''x@y.z''] [] = [(''bo@localhost'', ()), (''x@y.z'', ())]"
    by (simp add: add_rcpts_def less_char_def)
  show "worker_thread E n []
      (map Bytes (smtp_commands ''al@localhost'' [''bo@localhost'', ''x@y.z''] (''Subject: hi'' @ crlf @ ''..'' @ crlf)) @ es)
      (new_session b q) =
    and_then (finish_mail E n \<lparr>s_state = 4, s_sender = ''al@localhost'',
        s_rcpts = [(''bo@localhost'', ()), (''x@y.z'', ())], s_data = ''Subject: hi'' @ crlf @ ''..'' @ crlf,
        s_out = [SERVER_READY, HELO_REPLY, OK_REPLY, OK_REPLY, OK_REPLY, START_MAIL], s_back = b, s_queue = q, s_sent = []\<rparr>)
      (\<lambda>s. Ok (respond SERVICE_CLOSE (s\<lparr>s_state := 6\<rparr>)))"
    using smtp_session [OF l(1) _ l(2) w, of E n es b q] m by simp
qed

section \<open>The states of a session\<close>

inductive smtp_reach :: "'b smtp_env \<Rightarrow> nat \<Rightarrow> 'b \<Rightarrow> string option \<Rightarrow> 'b smtp \<Rightarrow> bool" for E n b q where
  reach_start: "smtp_reach E n b q (new_session b q)"
| reach_step: "smtp_reach E n b q s \<Longrightarrow> smtp_command E n buff line s = Ok (s', Q) \<Longrightarrow> smtp_reach E n b q s'"

definition no_mail :: "'b smtp \<Rightarrow> bool" where
  "no_mail s \<longleftrightarrow> s_sender s = [] \<and> s_rcpts s = [] \<and> s_data s = []"

text \<open>What each state promises about the mail being received.\<close>

definition smtp_ok :: "'b smtp \<Rightarrow> bool" where
  "smtp_ok s \<longleftrightarrow> s_state s \<le> 6 \<and> map_ok (s_rcpts s) \<and>
     (s_state s = 0 \<or> s_state s = 1 \<or> s_state s = 5 \<longrightarrow> no_mail s) \<and>
     (s_state s = 2 \<or> s_state s = 3 \<or> s_state s = 4 \<longrightarrow> contains (s_sender s) ''@localhost'') \<and>
     (s_state s = 2 \<longrightarrow> s_rcpts s = [] \<and> s_data s = []) \<and>
     (s_state s = 3 \<longrightarrow> s_rcpts s \<noteq> [] \<and> s_data s = []) \<and>
     (s_state s = 4 \<longrightarrow> s_rcpts s \<noteq> [])"

lemma respond_ok [simp]: "smtp_ok (respond r s) = smtp_ok s"
  by (simp add: smtp_ok_def respond_def no_mail_def)

lemma respond_keeps [simp]:
  "s_state (respond r s) = s_state s" "s_sender (respond r s) = s_sender s" "s_rcpts (respond r s) = s_rcpts s"
  "s_data (respond r s) = s_data s"
  by (simp_all add: respond_def)

lemma insert_nonempty [simp]: "map_insert k v m \<noteq> []"
  by (cases m) (auto split: prod.split if_splits)

lemma compare_contains: "compare_eq s pos n t = Ok True \<Longrightarrow> contains s t"
  using sfind_middle [of t "take pos s" "drop n (drop pos s)"]
  by (auto simp: compare_eq_def substr_def contains_def split: if_splits) (metis append_take_drop_id drop_drop add.commute)

lemma step_ok:
  "smtp_ok s \<Longrightarrow> smtp_ok (handle_helo buff s)"
  "smtp_ok s \<Longrightarrow> smtp_ok (handle_rset s)"
  "smtp_ok s \<Longrightarrow> handle_from buff s = Ok s' \<Longrightarrow> smtp_ok s'"
  "smtp_ok s \<Longrightarrow> handle_to buff s = Ok s' \<Longrightarrow> smtp_ok s'"
  "smtp_ok s \<Longrightarrow> handle_data E n buff line s = Ok s' \<Longrightarrow> smtp_ok s'"
proof -
  show "smtp_ok s \<Longrightarrow> smtp_ok (handle_helo buff s)"
    by (auto simp: handle_helo_def Let_def) (auto simp: smtp_ok_def no_mail_def le_Suc_eq)
  show "smtp_ok s \<Longrightarrow> smtp_ok (handle_rset s)"
    by (auto simp: handle_rset_def) (simp add: smtp_ok_def no_mail_def)
  show "smtp_ok s \<Longrightarrow> handle_from buff s = Ok s' \<Longrightarrow> smtp_ok s'"
    by (auto simp: handle_from_def Let_def dest!: compare_contains split: if_splits)
       (auto simp: smtp_ok_def no_mail_def)
  show "smtp_ok s \<Longrightarrow> handle_to buff s = Ok s' \<Longrightarrow> smtp_ok s'"
    by (auto simp: handle_to_def Let_def split: if_splits)
       (auto simp: smtp_ok_def no_mail_def map_ok_insert)
  show "smtp_ok s'" if ok: "smtp_ok s" and d: "handle_data E n buff line s = Ok s'"
  proof -
    consider "s_state s < 3 \<or> 4 < s_state s" | "s_state s = 3" | "s_state s = 4" by linarith
    then show ?thesis
    proof cases
      case 3
      show ?thesis
      proof (cases "buff = ''.'' @ crlf")
        case True
        then show ?thesis using d 3 finish_state [of E n s s'] by (simp add: handle_data_def smtp_ok_def no_mail_def)
      qed (use d ok 3 in \<open>auto simp: handle_data_def smtp_ok_def\<close>)
    qed (use d ok in \<open>auto simp: handle_data_def\<close>, auto simp: smtp_ok_def)
  qed
qed

lemma command_ok: "smtp_ok s \<Longrightarrow> smtp_command E n buff line s = Ok (s', Q) \<Longrightarrow> smtp_ok s' \<and> (Q \<longrightarrow> s_state s' = 6)"
  by (auto simp: smtp_command_def Let_def dest: step_ok split: if_splits) (simp_all add: smtp_ok_def)

lemma lines_reach:
  "smtp_lines E n buff s = Ok (s', rest, Q) \<Longrightarrow> smtp_reach E n b q s \<Longrightarrow>
     smtp_reach E n b q s' \<and> (Q \<longrightarrow> (\<exists>s0 buff line. smtp_reach E n b q s0 \<and> smtp_command E n buff line s0 = Ok (s', True)))"
proof (induction E n buff s arbitrary: s' rest Q rule: smtp_lines.induct)
  case (1 E n buff s)
  show ?case
  proof (cases "sfind crlf buff")
    case None
    then show ?thesis using "1.prems" by (subst (asm) smtp_lines.simps) simp
  next
    case (Some i)
    obtain s1 Q1 where c: "smtp_command E n buff (take (i + 2) buff) s = Ok (s1, Q1)"
      and r: "(if Q1 then Ok (s1, buff, True) else smtp_lines E n (drop (i + 2) buff) s1) = Ok (s', rest, Q)"
      using "1.prems"(1) Some by (subst (asm) smtp_lines.simps) auto
    have r1: "smtp_reach E n b q s1" using "1.prems"(2) c by (rule reach_step)
    show ?thesis
    proof (cases Q1)
      case True
      then show ?thesis using r r1 c "1.prems"(2) by auto
    next
      case False
      then show ?thesis using "1.IH" [OF Some c refl] r r1 by simp
    qed
  qed
qed

lemma worker_reach:
  "worker_thread E n buff es s = Ok s' \<Longrightarrow> smtp_reach E n b q s \<Longrightarrow>
     \<exists>s0 buff line. smtp_reach E n b q s0 \<and> smtp_command E n buff line s0 = Ok (s', True)"
proof (induction E n buff es s rule: worker_thread.induct)
  case (1 E n buff es s)
  obtain buff1 es' s1 buff2 Q where f: "fill 5000 buff es = Ok (buff1, es')" and l: "smtp_lines E n buff1 s = Ok (s1, buff2, Q)"
    and r: "(if Q then Ok s1 else worker_thread E n buff2 es' s1) = Ok s'"
    using "1.prems"(1) by (subst (asm) worker_thread.simps) auto
  note l' = lines_reach [OF l "1.prems"(2)]
  show ?case
  proof (cases Q)
    case True
    then show ?thesis using l' r by auto
  next
    case False
    then show ?thesis using "1.IH" [OF f _ l] r l' by simp
  qed
qed

text \<open>
  C25. The session as a state machine: in every reachable state the sender, the recipients and the text
  are what the state promises. In particular mail is only finished (state 4) for a sender of this host
  and with a recipient, nothing of a mail is left after it is finished or reset, and when the worker
  ends, it ends by QUIT.
\<close>

theorem smtp_states:
  assumes "smtp_reach E n b q s"
  shows "smtp_ok s \<and> (\<forall>es s'. worker_thread E n [] es s = Ok s' \<longrightarrow>
    smtp_reach E n b q s' \<and> smtp_ok s' \<and> s_state s' = 6)"
proof -
  have ok: "smtp_ok s" if "smtp_reach E n b q s" for s
    using that
  proof (induction rule: smtp_reach.induct)
    case reach_start
    then show ?case by (simp add: smtp_ok_def new_session_def no_mail_def)
  qed (use command_ok in blast)
  have "smtp_reach E n b q s' \<and> smtp_ok s' \<and> s_state s' = 6" if w: "worker_thread E n [] es s = Ok s'" for es s'
  proof -
    obtain s0 buff line where s0: "smtp_reach E n b q s0" "smtp_command E n buff line s0 = Ok (s', True)"
      using worker_reach [OF w assms] by blast
    show ?thesis using reach_step [OF s0] command_ok [OF ok [OF s0(1)] s0(2)] by simp
  qed
  with ok [OF assms] show ?thesis by blast
qed

theorem smtp_states_witness:
  "\<forall>(E :: 'b smtp_env) b q. let s = respond HELO_REPLY ((new_session b q)\<lparr>s_state := 1\<rparr>) in
     smtp_ok s \<and> worker_thread E 1 [] [Bytes (''QUIT'' @ crlf)] s = Ok (respond SERVICE_CLOSE (s\<lparr>s_state := 6\<rparr>)) \<and>
     smtp_reach E 1 b q (respond SERVICE_CLOSE (s\<lparr>s_state := 6\<rparr>))"
proof (intro allI)
  fix E :: "'b smtp_env" and b :: 'b and q
  let ?s = "respond HELO_REPLY ((new_session b q)\<lparr>s_state := 1\<rparr>)"
  have "smtp_command E 1 (''HELO '' @ ''x'' @ crlf) (''HELO '' @ ''x'' @ crlf) (new_session b q) = Ok (?s, False)"
    using smtp_command_words(1) [of "new_session b q" E 1 "''x'' @ crlf"]
    by (simp add: new_session_def handle_helo_def crlf_def Let_def)
  then have r: "smtp_reach E 1 b q ?s" by (rule reach_step [OF reach_start])
  have "worker_thread E 1 [] [Bytes (''QUIT'' @ crlf)] ?s = Ok (respond SERVICE_CLOSE (?s\<lparr>s_state := 6\<rparr>))"
    using session_end [of "''QUIT'' @ crlf" E 1 ?s] smtp_command_words(4) [of ?s E 1 "''QUIT'' @ crlf"]
      whole_line_crlf [of "''QUIT''"] by simp
  with smtp_states [OF r] show "let s = ?s in smtp_ok s \<and>
      worker_thread E 1 [] [Bytes (''QUIT'' @ crlf)] s = Ok (respond SERVICE_CLOSE (s\<lparr>s_state := 6\<rparr>)) \<and>
      smtp_reach E 1 b q (respond SERVICE_CLOSE (s\<lparr>s_state := 6\<rparr>))"
    by (simp add: Let_def)
qed

text \<open>After a mail is finished the session accepts no other before RSET: the state stays 5.\<close>

lemma second_mail_refused:
  "s_state s = 5 \<Longrightarrow> \<exists>outs. handle_from buff s = Ok (s\<lparr>s_out := s_out s @ outs\<rparr>) \<and> last outs = BAD_SEQ"
  by (auto simp: handle_from_def respond_def Let_def)

text \<open>
  The end of the data is recognised only when it is all that the buffer holds: with another command
  behind it in the same read, the dot line becomes part of the mail and so do the commands that follow,
  and the session waits for ever.
\<close>

theorem pipelined_dot:
  assumes "s_state s = 4" "\<forall>l \<in> set ls. whole_line l \<and> l \<noteq> ''.'' @ crlf" "ls \<noteq> []"
    and "length (concat ls) < 4997"
  shows "worker_thread E n [] (Bytes (''.'' @ crlf @ concat ls) # es) s =
    worker_thread E n [] es (s\<lparr>s_data := s_data s @ ''.'' @ crlf @ concat ls\<rparr>)"
proof -
  have go: "smtp_lines E n (l @ x) s = smtp_lines E n x (s\<lparr>s_data := s_data s @ l\<rparr>)"
    if "whole_line l" "l @ x \<noteq> ''.'' @ crlf" "s_state s = 4" for l x and s :: "'a smtp"
  proof -
    have "sfind crlf (l @ x) = Some (length l - 2)" using that(1) by (simp add: whole_line_def)
    moreover have "Suc (Suc (length l - 2)) = length l" using whole_line_length [OF that(1)] by simp
    ultimately show ?thesis using that
      by (subst smtp_lines.simps) (simp add: smtp_command_words(6) handle_data_def)
  qed
  have long: "concat ls \<noteq> []"
    using assms(2,3) whole_line_length by (cases ls) fastforce+
  have rest: "smtp_lines E n (concat ls) s = Ok (s\<lparr>s_data := s_data s @ concat ls\<rparr>, [], False)"
    if "\<forall>l \<in> set ls. whole_line l \<and> l \<noteq> ''.'' @ crlf" "s_state s = 4" for ls and s :: "'a smtp"
    using that
  proof (induction ls arbitrary: s)
    case Nil
    then show ?case by (subst smtp_lines.simps) (simp add: crlf_def)
  next
    case (Cons l ls)
    have "l @ concat ls \<noteq> ''.'' @ crlf"
    proof
      assume e: "l @ concat ls = ''.'' @ crlf"
      have "sfind crlf (l @ concat ls) = Some (length l - 2)" "2 \<le> length l"
        using Cons.prems(1) whole_line_length by (simp_all add: whole_line_def)
      then have "length l = 3" unfolding e by (simp add: crlf_def)
      with arg_cong [OF e, of "take 3"] have "l = ''.'' @ crlf" by (simp add: crlf_def)
      then show False using Cons.prems(1) by simp
    qed
    then show ?case using go [of l "concat ls" s] Cons by simp
  qed
  have nul: "CHR 0x00 \<notin> set (''.'' @ crlf @ concat ls)" using assms(2) by (auto simp: whole_line_def crlf_def)
  have "smtp_lines E n (''.'' @ crlf @ concat ls) s =
      Ok (s\<lparr>s_data := s_data s @ ''.'' @ crlf @ concat ls\<rparr>, [], False)"
    using go [of "''.'' @ crlf" "concat ls" s] whole_line_crlf [of "''.''"] long assms(1)
      rest [OF assms(2), of "s\<lparr>s_data := s_data s @ ''.'' @ crlf\<rparr>"] by (simp add: crlf_def)
  then show ?thesis using nul assms(4) by (subst worker_thread.simps) (simp add: crlf_def)
qed

theorem pipelined_dot_witness:
  "\<forall>(E :: 'b smtp_env) b q. worker_thread E 1 [] [Bytes (''.'' @ crlf @ ''QUIT'' @ crlf)]
      ((new_session b q)\<lparr>s_state := 4\<rparr>) = Block"
proof (intro allI)
  fix E :: "'b smtp_env" and b :: 'b and q
  let ?s = "(new_session b q)\<lparr>s_state := 4\<rparr>"
  have w: "\<forall>l \<in> set [''QUIT'' @ crlf]. whole_line l \<and> l \<noteq> ''.'' @ crlf"
    using whole_line_crlf [of "''QUIT''"] by simp
  have b: "worker_thread E 1 [] [] s = Block" for s
    by (subst worker_thread.simps) (simp add: fill_def)
  show "worker_thread E 1 [] [Bytes (''.'' @ crlf @ ''QUIT'' @ crlf)] ?s = Block"
    using pipelined_dot [OF _ w, of ?s E 1 "[]"] b by (simp add: crlf_def)
qed

end
