(* ===== verification/Service.thy ===== *)
theory Service
  imports Worker_Props
begin

text \<open>
  The data server as its clients see it: requests that each arrive in one read, an abstract store
  they run on, the refinement of that store by the primary's worker, the durability of what it
  acknowledged, and the replicas that follow it.
\<close>

section \<open>Requests and the abstract store\<close>

type_synonym key = "string \<times> string"

datatype request = RPut key string | RGet key | RDelete key | RCput key string string

fun req_key :: "request \<Rightarrow> key" where
  "req_key (RPut k v) = k"
| "req_key (RGet k) = k"
| "req_key (RDelete k) = k"
| "req_key (RCput k old new) = k"

fun req_verb :: "request \<Rightarrow> string" where
  "req_verb (RPut k v) = ''PUT''"
| "req_verb (RGet k) = ''GET''"
| "req_verb (RDelete k) = ''DELETE''"
| "req_verb (RCput k old new) = ''CPUT''"

fun req_payload :: "request \<Rightarrow> string" where
  "req_payload (RPut k v) = put_wire v"
| "req_payload (RCput k old new) = cput_wire old new"
| "req_payload _ = []"

definition req_text :: "request \<Rightarrow> string" where
  "req_text q = command_line (req_verb q) (fst (req_key q)) (snd (req_key q)) @ req_payload q"

text \<open>The store: the rows that exist and the cells. The answer of a request and the next store.\<close>

type_synonym store = "string set \<times> (key \<Rightarrow> string option)"

definition missing :: "key \<Rightarrow> store \<Rightarrow> string" where
  "missing k st = (if fst k \<in> fst st then ''-ERR NULL colmn'' @ crlf else ''-ERR NULL row'' @ crlf)"

fun serve :: "request \<Rightarrow> store \<Rightarrow> string \<times> store" where
  "serve (RPut k v) (R, m) = (''+OK'' @ crlf, (insert (fst k) R, m(k \<mapsto> v)))"
| "serve (RGet k) (R, m) =
     (case m k of Some v \<Rightarrow> ''DATA'' @ crlf @ v @ ''.'' @ crlf | None \<Rightarrow> missing k (R, m), (R, m))"
| "serve (RDelete k) (R, m) =
     (if m k = None then (missing k (R, m), (R, m))
      else (''+OK deleted'' @ crlf, (R, m(k := None))))"
| "serve (RCput k old new) (R, m) =
     (if cput_match (m k) old then (''+OK'' @ crlf, (insert (fst k) R, m(k \<mapsto> new)))
      else (''-ERR'' @ crlf, (R, m)))"

fun serve_all :: "request list \<Rightarrow> store \<Rightarrow> string \<times> store" where
  "serve_all [] st = ([], st)"
| "serve_all (q # qs) st =
     (case serve q st of (a, st1) \<Rightarrow> case serve_all qs st1 of (b, st2) \<Rightarrow> (a @ b, st2))"

definition abs_store :: "bmap \<Rightarrow> store" where
  "abs_store t = ({r. map_has t r}, cell_get t)"

text \<open>Well-formed requests: clean names, values whose end is found, at most one read buffer.\<close>

fun req_values :: "request \<Rightarrow> string list" where
  "req_values (RPut k v) = [v]"
| "req_values (RCput k old new) = [old, new]"
| "req_values _ = []"

definition req_ok :: "request \<Rightarrow> bool" where
  "req_ok q \<longleftrightarrow> plain_name (fst (req_key q)) \<and> plain_name (snd (req_key q)) \<and>
     (\<forall>v \<in> set (req_values q). wire_safe v \<and> CHR 0x00 \<notin> set v) \<and> length (req_text q) \<le> rlen"

section \<open>One request\<close>

definition ready :: "worker \<Rightarrow> bool" where
  "ready c \<longleftrightarrow> server_ok c \<and> primary (sstate c) \<and> log_open c \<and> ws c = ss_set [] \<and> alive (task c) \<and>
     0 \<le> seqID (sstate c)"

lemma fits_rlen: "length s \<le> rlen \<Longrightarrow> fits s"
  by (simp add: fits_def rlen_def npos_def)

lemma req_chunk_ok:
  assumes "req_ok q"
  shows "chunk_ok (req_text q)"
proof -
  have "sfind crlf (command_line verb r c @ p) \<noteq> None" for verb r c p
    using sfind_middle [of crlf "verb @ '' <'' @ r @ ''> <'' @ c @ ''>''" p] by (simp add: command_line_def)
  moreover have "CHR 0x00 \<notin> set (req_text q)"
    using assms
    by (cases q) (auto simp: req_ok_def req_text_def command_line_def put_wire_def cput_wire_def
        plain_name_def crlf_def)
  ultimately show ?thesis using assms by (simp add: chunk_ok_def contains_def req_text_def req_ok_def)
qed

lemma run_step_command:
  assumes "ws c = ss_set []" "inp c = Bytes (command_line verb row col @ payload) # es"
    and "chunk_ok (command_line verb row col @ payload)" "CR \<notin> set verb" "plain_name row" "plain_name col"
    and "dispatch (command_line verb row col) (c\<lparr>inp := es, ws := ss_set payload\<rparr>) = Ok c2"
    and "ss_buf (ws c2) = []"
  shows "run_step c = Ok c2"
proof -
  let ?x = "command_line verb row col @ payload"
  let ?l = "verb @ '' <'' @ row @ ''> <'' @ col @ ''>''"
  have "run_step c = run_commands (received ?x es c)"
    using assms(1,3,2) by (rule run_step_chunk)
  also have "\<dots> = run_commands c2"
  proof (rule run_commands_next)
    show "ss_buf (ws (received ?x es c)) = ?l @ crlf @ payload" by (simp add: command_line_def)
    show "CR \<notin> set ?l" using assms(4-6) by (auto simp: plain_name_def)
    show "fits (ss_buf (ws (received ?x es c)))"
      using assms(3) by (simp add: chunk_ok_def fits_rlen)
    show "dispatch (?l @ crlf) ((received ?x es c)\<lparr>ws := ss_set payload\<rparr>) = Ok c2"
      using assms(7) by (simp add: command_line_def)
  qed
  finally show ?thesis using assms(8) by (simp add: run_commands_done)
qed

lemma parse_plain:
  "plain_name row \<Longrightarrow> plain_name col \<Longrightarrow> CHR '' '' \<notin> set verb \<Longrightarrow>
   length (command_line verb row col) \<le> rlen \<Longrightarrow>
     parse_command (command_line verb row col) = Ok (row, col)"
  by (rule parse_command_line) (auto simp: plain_name_def fits_rlen)

lemma put_done_simps [simp]:
  "tbl (put_done row col v left bs c) = cell_put (row, col) v (tbl c)"
  "sstate (put_done row col v left bs c) = (sstate c)\<lparr>seqID := seqID (sstate c) + 1\<rparr>"
  "bstore (put_done row col v left bs c) = Some bs" "ws (put_done row col v left bs c) = ss_set left"
  "inp (put_done row col v left bs c) = inp c"
  "task (put_done row col v left bs c) = snd (conn_write (task c) (''+OK'' @ crlf))"
  "disk (put_done row col v left bs c) = disk (logged (put_record row col (seqID (sstate c) + 1) v) c)"
  by (simp_all add: put_done_def Let_def reply_def logged_def)

lemma put_done_ws [simp]: "put_done row col v left bs (c\<lparr>ws := w\<rparr>) = put_done row col v left bs c"
  by (simp add: put_done_def Let_def reply_def logged_def)

lemma reply_task: "task (reply s c) = snd (conn_write (task c) s)"
  by (simp add: reply_def)

lemma conn_write_alive [simp]:
  "alive k \<Longrightarrow> snd (conn_write k s) = k\<lparr>sent := sent k @ s\<rparr>"
  by (simp add: conn_write_def)

lemma fs_open_logged [simp]: "fs_open (disk (logged r c)) = fs_open (disk c)"
  by (simp add: logged_def)

lemma ready_put_done:
  "ready c \<Longrightarrow> bs_ok bs \<Longrightarrow> ready (put_done row col v [] bs c)"
  by (simp add: ready_def server_ok_def log_open_def table_ok_put)

lemma abs_put: "abs_store (cell_put k v t) = (insert (fst k) (fst (abs_store t)), (snd (abs_store t))(k \<mapsto> v))"
proof -
  have "{r. map_has (cell_put k v t) r} = insert (fst k) {r. map_has t r}"
    by (auto simp: cell_put_def map_has_def)
  then show ?thesis by (simp add: abs_store_def)
qed

lemma abs_erase:
  assumes "table_ok t" "cell_get t k \<noteq> None"
  shows "abs_store (cell_erase k t) = (fst (abs_store t), (snd (abs_store t))(k := None))"
proof -
  have "map_has t (fst k)" using assms(2) cell_has_row [of t "fst k" "snd k"] by auto
  then have "{r. map_has (cell_erase k t) r} = {r. map_has t r}"
    by (auto simp: cell_erase_def map_has_def)
  then show ?thesis by (simp add: abs_store_def cell_get_erase assms(1))
qed

text \<open>The exact next state, request by request.\<close>

definition payload_state :: "request \<Rightarrow> rd list \<Rightarrow> worker \<Rightarrow> worker" where
  "payload_state q es c = c\<lparr>inp := es, ws := ss_set (req_payload q)\<rparr>"

lemma step_request:
  assumes "ready c" "req_ok q" "inp c = Bytes (req_text q) # es"
    and "(case q of RPut k v \<Rightarrow> parse_PUT | RGet k \<Rightarrow> parse_GET | RDelete k \<Rightarrow> parse_DELE
           | RCput k old new \<Rightarrow> parse_CPUT) (fst (req_key q)) (snd (req_key q)) (payload_state q es c) = Ok c2"
    and "ws c2 = ss_set []"
  shows "run_step c = Ok c2"
proof (rule run_step_command)
  let ?k = "req_key q"
  show "ws c = ss_set []" using assms(1) by (simp add: ready_def)
  show "inp c = Bytes (command_line (req_verb q) (fst ?k) (snd ?k) @ req_payload q) # es"
    using assms(3) by (simp add: req_text_def)
  show "chunk_ok (command_line (req_verb q) (fst ?k) (snd ?k) @ req_payload q)"
    using req_chunk_ok [OF assms(2)] by (simp add: req_text_def)
  show "CR \<notin> set (req_verb q)" by (cases q) simp_all
  show pn: "plain_name (fst ?k)" "plain_name (snd ?k)" using assms(2) by (simp_all add: req_ok_def)
  have len: "length (command_line (req_verb q) (fst ?k) (snd ?k)) \<le> rlen"
    using assms(2) by (simp add: req_ok_def req_text_def)
  have "CHR '' '' \<notin> set (req_verb q)" by (cases q) simp_all
  then have names: "parse_command (command_line (req_verb q) (fst ?k) (snd ?k)) = Ok (fst ?k, snd ?k)"
    by (rule parse_plain [OF pn _ len])
  show "dispatch (command_line (req_verb q) (fst ?k) (snd ?k)) (c\<lparr>inp := es, ws := ss_set (req_payload q)\<rparr>) = Ok c2"
    using assms(4) names by (cases q) (simp_all add: dispatch_line payload_state_def case_prod_beta)
  show "ss_buf (ws c2) = []" using assms(5) by simp
qed

lemma payload_simps [simp]:
  "tbl (payload_state q es c) = tbl c" "sstate (payload_state q es c) = sstate c"
  "bstore (payload_state q es c) = bstore c" "log_open (payload_state q es c) = log_open c"
  "seq_ok (payload_state q es c) = seq_ok c" "ss_buf (ws (payload_state q es c)) = req_payload q"
  "task (payload_state q es c) = task c" "disk (payload_state q es c) = disk c"
  "inp (payload_state q es c) = es" "put_done row col v [] bs (payload_state q es c) = put_done row col v [] bs (c\<lparr>inp := es\<rparr>)"
  by (simp_all add: payload_state_def log_open_def seq_ok_def)

lemma payload_fits: "req_ok q \<Longrightarrow> fits (req_payload q)"
  by (rule fits_rlen) (simp add: req_ok_def req_text_def)

lemma ready_store:
  assumes "ready c"
  obtains bs where "bstore c = Some bs" "bs_ok bs"
  using assms by (auto simp: ready_def server_ok_def)

lemma step_put:
  assumes "ready c" "req_ok (RPut k v)" "inp c = Bytes (req_text (RPut k v)) # es"
    and "seqID (sstate c) < long_max" "store_ok (tbl c) (fst k) (snd k)"
  shows "\<exists>bs bs0. bs_ok bs \<and> run_step c = Ok (put_done (fst k) (snd k) v [] bs (c\<lparr>inp := es\<rparr>)) \<and>
    bstore c = Some bs0 \<and> bs_push (fst k) (snd k) v (seqID (sstate c) + 1) bs0 = Ok bs"
proof -
  let ?q = "RPut k v"
  let ?p = "payload_state ?q es c"
  obtain bs where bs: "bstore c = Some bs" "bs_ok bs" using assms(1) by (rule ready_store)
  obtain bs' where bs': "bs_push (fst k) (snd k) v (seqID (sstate c) + 1) bs = Ok bs'" "bs_ok bs'"
    using bs_push_ok [OF bs(2)] by blast
  have "parse_PUT (fst k) (snd k) ?p = Ok (put_done (fst k) (snd k) v [] bs' (c\<lparr>inp := es\<rparr>))"
    using put_primary_result [of ?p bs v "[]" "fst k" "snd k"] assms bs(1) bs'(1) payload_fits [OF assms(2)]
    by (simp add: ready_def seq_ok_def req_ok_def)
  then show ?thesis
    using bs(1) bs' step_request [OF assms(1-3)] by auto
qed

lemma step_get:
  assumes "ready c" "req_ok (RGet k)" "inp c = Bytes (req_text (RGet k)) # es"
  shows "\<exists>c'. run_step c = Ok c' \<and>
    c' = c\<lparr>inp := es, task := (task c)\<lparr>sent := sent (task c) @ fst (serve (RGet k) (abs_store (tbl c)))\<rparr>\<rparr>"
proof -
  let ?p = "payload_state (RGet k) es c"
  let ?c' = "c\<lparr>inp := es, task := (task c)\<lparr>sent := sent (task c) @ fst (serve (RGet k) (abs_store (tbl c)))\<rparr>\<rparr>"
  have al: "alive (task c)" and w: "ws c = ss_set []" using assms(1) by (simp_all add: ready_def)
  have "?p = c\<lparr>inp := es\<rparr>" using w by (simp add: payload_state_def)
  then have "parse_GET (fst k) (snd k) ?p = Ok ?c'"
    using al by (auto simp: parse_GET_result abs_store_def missing_def reply_def split: option.split)
  then show ?thesis using step_request [OF assms] w by simp
qed

text \<open>The state a successful or a failing delete leaves.\<close>

definition dele_done :: "key \<Rightarrow> backStore \<Rightarrow> worker \<Rightarrow> worker" where
  "dele_done k bs c =
     reply (''+OK deleted'' @ crlf)
       ((dele_numbered (fst k) (snd k) c)
          \<lparr>tbl := cell_erase k (tbl c), bstore := Some (bs_poll (fst k) (snd k) (seqID (sstate c) + 1) bs)\<rparr>)"

lemma step_delete:
  assumes "ready c" "req_ok (RDelete k)" "inp c = Bytes (req_text (RDelete k)) # es"
    and "seqID (sstate c) < long_max"
  shows "\<exists>bs. bs_ok bs \<and> bstore c = Some bs \<and> run_step c =
    Ok (if cell_get (tbl c) k = None
        then reply (missing k (abs_store (tbl c))) (dele_numbered (fst k) (snd k) (c\<lparr>inp := es\<rparr>))
        else dele_done k bs (c\<lparr>inp := es\<rparr>))"
proof -
  let ?p = "payload_state (RDelete k) es c"
  obtain bs where bs: "bstore c = Some bs" "bs_ok bs" using assms(1) by (rule ready_store)
  have w: "ws c = ss_set []" using assms(1) by (simp add: ready_def)
  have p: "?p = c\<lparr>inp := es\<rparr>" using w by (simp add: payload_state_def)
  let ?c' = "if cell_get (tbl c) k = None
        then reply (missing k (abs_store (tbl c))) (dele_numbered (fst k) (snd k) (c\<lparr>inp := es\<rparr>))
        else dele_done k bs (c\<lparr>inp := es\<rparr>)"
  have "parse_DELE (fst k) (snd k) ?p = Ok ?c'"
    using dele_primary_result [of ?p bs "fst k" "snd k"] assms(1,4) bs(1)
    by (simp add: p ready_def seq_ok_def log_open_def Let_def missing_def abs_store_def dele_done_def)
  moreover have "ws ?c' = ss_set []" using w by (simp add: dele_done_def dele_numbered_def)
  ultimately have "run_step c = Ok ?c'"
    using step_request [OF assms(1-3)] by simp
  with bs show ?thesis by auto
qed

lemma step_cput:
  assumes "ready c" "req_ok (RCput k old new)" "inp c = Bytes (req_text (RCput k old new)) # es"
    and "seqID (sstate c) < long_max"
  shows "\<exists>bs bs0. bs_ok bs \<and> run_step c =
    Ok (if cput_match (cell_get (tbl c) k) old then put_done (fst k) (snd k) new [] bs (c\<lparr>inp := es\<rparr>)
        else reply (''-ERR'' @ crlf) (c\<lparr>inp := es\<rparr>)) \<and>
    bstore c = Some bs0 \<and> bs_push (fst k) (snd k) new (seqID (sstate c) + 1) bs0 = Ok bs"
proof -
  let ?q = "RCput k old new"
  let ?p = "payload_state ?q es c"
  obtain bs where bs: "bstore c = Some bs" "bs_ok bs" using assms(1) by (rule ready_store)
  obtain bs' where bs': "bs_push (fst k) (snd k) new (seqID (sstate c) + 1) bs = Ok bs'" "bs_ok bs'"
    using bs_push_ok [OF bs(2)] by blast
  have w: "ws c = ss_set []" using assms(1) by (simp add: ready_def)
  have pw: "?p\<lparr>ws := ss_set []\<rparr> = c\<lparr>inp := es\<rparr>" using w by (simp add: payload_state_def)
  let ?c' = "if cput_match (cell_get (tbl c) k) old then put_done (fst k) (snd k) new [] bs' (c\<lparr>inp := es\<rparr>)
        else reply (''-ERR'' @ crlf) (c\<lparr>inp := es\<rparr>)"
  have "parse_CPUT (fst k) (snd k) ?p = Ok ?c'"
    using cput_primary_result [of ?p bs old new "[]" "fst k" "snd k"] assms bs(1) bs'(1) payload_fits [OF assms(2)]
    by (simp add: ready_def seq_ok_def req_ok_def pw)
  moreover have "ws ?c' = ss_set []" using w by simp
  ultimately have "run_step c = Ok ?c'" using step_request [OF assms(1-3)] by simp
  with bs(1) bs' show ?thesis by blast
qed

section \<open>The primary refines the store\<close>

text \<open>A PUT may meet the faulty existence test only when its column is also the name of a row.\<close>

definition put_safe :: "request \<Rightarrow> store \<Rightarrow> bool" where
  "put_safe q st \<longleftrightarrow> (case q of RPut k v \<Rightarrow> snd k \<notin> fst st | _ \<Rightarrow> True)"

fun puts_safe :: "request list \<Rightarrow> store \<Rightarrow> bool" where
  "puts_safe [] st \<longleftrightarrow> True"
| "puts_safe (q # qs) st \<longleftrightarrow> put_safe q st \<and> puts_safe qs (snd (serve q st))"

fun run_steps :: "nat \<Rightarrow> worker \<Rightarrow> worker res" where
  "run_steps 0 c = Ok c"
| "run_steps (Suc n) c = and_then (run_step c) (run_steps n)"

lemma serve_step:
  assumes "ready c" "req_ok q" "inp c = Bytes (req_text q) # es"
    and "seqID (sstate c) < long_max" "put_safe q (abs_store (tbl c))"
  shows "\<exists>c'. run_step c = Ok c' \<and> ready c' \<and> inp c' = es \<and>
    sent (task c') = sent (task c) @ fst (serve q (abs_store (tbl c))) \<and>
    abs_store (tbl c') = snd (serve q (abs_store (tbl c))) \<and>
    seqID (sstate c') \<le> seqID (sstate c) + 1"
proof (cases q)
  case (RPut k v)
  have so: "store_ok (tbl c) (fst k) (snd k)"
    using assms(5) by (simp add: put_safe_def RPut abs_store_def store_ok_def)
  obtain bs where bs: "bs_ok bs" "run_step c = Ok (put_done (fst k) (snd k) v [] bs (c\<lparr>inp := es\<rparr>))"
    using step_put [OF assms(1) assms(2,3) [unfolded RPut] assms(4) so] by blast
  have "ready (c\<lparr>inp := es\<rparr>)" using assms(1) by (simp add: ready_def log_open_def)
  then have "ready (put_done (fst k) (snd k) v [] bs (c\<lparr>inp := es\<rparr>))" using bs(1) by (rule ready_put_done)
  with bs(2) assms(1) show ?thesis
    by (cases "abs_store (tbl c)") (simp add: RPut abs_put ready_def)
next
  case (RGet k)
  then show ?thesis
    using step_get [OF assms(1) assms(2,3) [unfolded RGet]] assms(1)
    by (cases "abs_store (tbl c)") (auto simp: ready_def log_open_def server_ok_def)
next
  case (RDelete k)
  obtain bs where bs: "bs_ok bs" "run_step c =
      Ok (if cell_get (tbl c) k = None
        then reply (missing k (abs_store (tbl c))) (dele_numbered (fst k) (snd k) (c\<lparr>inp := es\<rparr>))
        else dele_done k bs (c\<lparr>inp := es\<rparr>))"
    using step_delete [OF assms(1) assms(2,3) [unfolded RDelete] assms(4)] by blast
  have st: "snd (abs_store (tbl c)) = cell_get (tbl c)" by (simp add: abs_store_def)
  have ok: "table_ok (tbl c)" using assms(1) by (simp add: ready_def server_ok_def)
  have "ready (dele_done k bs (c\<lparr>inp := es\<rparr>))" "ready (reply x (dele_numbered (fst k) (snd k) (c\<lparr>inp := es\<rparr>)))" for x
    using assms(1) bs(1)
    by (auto simp: ready_def dele_done_def dele_numbered_def server_ok_def log_open_def reply_task
        table_ok_erase bs_poll_ok)
  with bs(2) assms(1) st ok show ?thesis
    by (cases "abs_store (tbl c)")
       (auto simp: RDelete ready_def dele_done_def dele_numbered_def reply_task abs_erase)
next
  case (RCput k old new)
  obtain bs where bs: "bs_ok bs" "run_step c =
      Ok (if cput_match (cell_get (tbl c) k) old then put_done (fst k) (snd k) new [] bs (c\<lparr>inp := es\<rparr>)
        else reply (''-ERR'' @ crlf) (c\<lparr>inp := es\<rparr>))"
    using step_cput [OF assms(1) assms(2,3) [unfolded RCput] assms(4)] by blast
  have st: "snd (abs_store (tbl c)) = cell_get (tbl c)" by (simp add: abs_store_def)
  have r: "ready (c\<lparr>inp := es\<rparr>)" using assms(1) by (simp add: ready_def log_open_def)
  then have "ready (put_done (fst k) (snd k) new [] bs (c\<lparr>inp := es\<rparr>))" using bs(1) by (rule ready_put_done)
  moreover have "ready (reply x (c\<lparr>inp := es\<rparr>))" for x
    using r by (simp add: ready_def log_open_def reply_task)
  ultimately show ?thesis
    using bs(2) assms(1) st
    by (cases "abs_store (tbl c)") (auto simp: RCput abs_put ready_def reply_task)
qed

text \<open>
  C2. The primary refines the abstract store: requests that each arrive in one read are answered,
  in order, with exactly the answers of the store, and the cells and rows of the table afterwards are
  those of the store. (No PUT may use the name of a row as its column, see \<open>put_column_named_like_row\<close>.)
\<close>

theorem primary_refines_store:
  assumes "ready c" "\<forall>q \<in> set qs. req_ok q" "inp c = map (\<lambda>q. Bytes (req_text q)) qs @ es"
    and "seqID (sstate c) + int (length qs) \<le> long_max" "puts_safe qs (abs_store (tbl c))"
  shows "\<exists>c'. run_steps (length qs) c = Ok c' \<and> ready c' \<and> inp c' = es \<and>
    sent (task c') = sent (task c) @ fst (serve_all qs (abs_store (tbl c))) \<and>
    abs_store (tbl c') = snd (serve_all qs (abs_store (tbl c)))"
  using assms
proof (induction qs arbitrary: c)
  case Nil
  then show ?case by simp
next
  case (Cons q qs)
  obtain c1 where c1: "run_step c = Ok c1" "ready c1" "inp c1 = map (\<lambda>q. Bytes (req_text q)) qs @ es"
    "sent (task c1) = sent (task c) @ fst (serve q (abs_store (tbl c)))"
    "abs_store (tbl c1) = snd (serve q (abs_store (tbl c)))" "seqID (sstate c1) \<le> seqID (sstate c) + 1"
    using serve_step [of c q "map (\<lambda>q. Bytes (req_text q)) qs @ es"] Cons.prems by auto
  obtain c2 where "run_steps (length qs) c1 = Ok c2" "ready c2" "inp c2 = es"
    "sent (task c2) = sent (task c1) @ fst (serve_all qs (abs_store (tbl c1)))"
    "abs_store (tbl c2) = snd (serve_all qs (abs_store (tbl c1)))"
    using Cons.IH [OF c1(2) _ c1(3)] Cons.prems c1(5,6) by auto
  with c1 show ?case by (auto split: prod.split)
qed

lemma demo_ready [simp]: "ready (demo_server es)"
  by (simp add: ready_def new_conn_def)

definition demo_requests :: "request list" where
  "demo_requests = [RPut (''r'', ''c'') (''1'' @ crlf), RCput (''r'', ''c'') (''1'' @ crlf) (''2'' @ crlf),
     RGet (''r'', ''c''), RDelete (''r'', ''c''), RGet (''r'', ''c'')]"

lemma demo_requests_ok: "\<forall>q \<in> set demo_requests. req_ok q"
  by (simp add: demo_requests_def req_ok_def plain_name_def name_ok_def wire_safe_def terminator_def crlf_def
      req_text_def command_line_def put_wire_def cput_wire_def rlen_def)

theorem primary_refines_store_witness:
  "\<exists>c'. run_steps 5 (demo_server (map (\<lambda>q. Bytes (req_text q)) demo_requests)) = Ok c' \<and>
     sent (task c') = ''+OK'' @ crlf @ ''+OK'' @ crlf @ ''DATA'' @ crlf @ ''2'' @ crlf @ ''.'' @ crlf @
       ''+OK deleted'' @ crlf @ ''-ERR NULL colmn'' @ crlf"
proof -
  let ?c = "demo_server (map (\<lambda>q. Bytes (req_text q)) demo_requests)"
  have st: "abs_store (tbl ?c) = ({}, Map.empty)"
    by (simp add: abs_store_def map_has_def cell_get_def row_of_def fun_eq_iff)
  have "\<exists>c'. run_steps (length demo_requests) ?c = Ok c' \<and> ready c' \<and> inp c' = [] \<and>
      sent (task c') = sent (task ?c) @ fst (serve_all demo_requests (abs_store (tbl ?c))) \<and>
      abs_store (tbl c') = snd (serve_all demo_requests (abs_store (tbl ?c)))"
  proof (rule primary_refines_store [OF demo_ready demo_requests_ok])
    show "puts_safe demo_requests (abs_store (tbl ?c))"
      unfolding st by (simp add: demo_requests_def put_safe_def cput_match_def)
  qed (simp_all add: long_max_def demo_requests_def)
  moreover have "fst (serve_all demo_requests ({}, Map.empty)) =
      ''+OK'' @ crlf @ ''+OK'' @ crlf @ ''DATA'' @ crlf @ ''2'' @ crlf @ ''.'' @ crlf @
       ''+OK deleted'' @ crlf @ ''-ERR NULL colmn'' @ crlf"
    by (simp add: demo_requests_def cput_match_def missing_def)
  moreover have "length demo_requests = 5" "sent (task ?c) = []"
    by (simp_all add: demo_requests_def new_conn_def)
  ultimately show ?thesis by (simp only: st append_Nil) metis
qed

section \<open>What was acknowledged survives a crash\<close>

text \<open>
  The files of a server hold a checkpoint of some earlier table and a log of the writes since then.
\<close>

definition durable :: "worker \<Rightarrow> bool" where
  "durable c \<longleftrightarrow> (\<exists>t seq es. table_ok t \<and> table_clean t \<and> (\<forall>e \<in> set es. log_entry_ok e) \<and>
     fs_file (disk c) (CHECKPOINTING_PATH (sstate c)) = Some (checkpoint_text seq t) \<and>
     fs_file (disk c) (LOG_PATH (sstate c)) = Some (put_log es) \<and>
     cell_get (tbl c) = cell_get (table.apply_updates (map (\<lambda>(k, seq, v). (k, Some v)) es) t))"

lemma durable_recovers:
  assumes "durable c"
  shows "\<exists>t. recover_files (sstate c) (disk c) = Ok t \<and> cell_get t = cell_get (tbl c)"
proof -
  obtain t seq es where d: "table_ok t" "table_clean t" "\<forall>e \<in> set es. log_entry_ok e"
    "fs_file (disk c) (CHECKPOINTING_PATH (sstate c)) = Some (checkpoint_text seq t)"
    "fs_file (disk c) (LOG_PATH (sstate c)) = Some (put_log es)"
    "cell_get (tbl c) = cell_get (table.apply_updates (map (\<lambda>(k, seq, v). (k, Some v)) es) t)"
    using assms by (auto simp: durable_def)
  then show ?thesis using recover_crash [OF d(1-5)] by auto
qed

lemma apply_updates_snoc:
  "table.apply_updates (us @ [(k, Some v)]) t = cell_put k v (table.apply_updates us t)"
  by (induction us t rule: table.apply_updates.induct) simp_all

lemma durable_put:
  assumes "durable c" "paths_ok (sstate c)" "log_entry_ok ((row, col), seqID (sstate c) + 1, v)"
  shows "durable (put_done row col v left bs (c\<lparr>inp := es\<rparr>))"
proof -
  obtain t seq es' where d: "table_ok t" "table_clean t" "\<forall>e \<in> set es'. log_entry_ok e"
    "fs_file (disk c) (CHECKPOINTING_PATH (sstate c)) = Some (checkpoint_text seq t)"
    "fs_file (disk c) (LOG_PATH (sstate c)) = Some (put_log es')"
    "cell_get (tbl c) = cell_get (table.apply_updates (map (\<lambda>(k, seq, v). (k, Some v)) es') t)"
    using assms(1) by (auto simp: durable_def)
  let ?e = "((row, col), seqID (sstate c) + 1, v)"
  let ?c' = "put_done row col v left bs (c\<lparr>inp := es\<rparr>)"
  have "fs_file (disk ?c') (LOG_PATH (sstate ?c')) = Some (put_log (es' @ [?e]))"
    using d(5) by (simp add: logged_def file_text_def put_log_def)
  moreover have "fs_file (disk ?c') (CHECKPOINTING_PATH (sstate ?c')) = Some (checkpoint_text seq t)"
    using d(4) assms(2) by (simp add: logged_def paths_ok_def)
  moreover have "cell_get (tbl ?c') =
      cell_get (table.apply_updates (map (\<lambda>(k, seq, v). (k, Some v)) (es' @ [?e])) t)"
    by (simp add: d(6) apply_updates_snoc)
  moreover have "\<forall>e \<in> set (es' @ [?e]). log_entry_ok e" using d(3) assms(3) by simp
  ultimately show ?thesis unfolding durable_def using d(1,2) by blast
qed

lemma durable_frame:
  "durable c \<Longrightarrow> tbl c' = tbl c \<Longrightarrow> disk c' = disk c \<Longrightarrow> sstate c' = sstate c \<Longrightarrow> durable c'"
  by (simp add: durable_def)

text \<open>Requests whose effect the log can replay: no deletes, and values without a line of one dot.\<close>

definition loggable :: "request \<Rightarrow> bool" where
  "loggable q \<longleftrightarrow> (case q of RDelete k \<Rightarrow> False | _ \<Rightarrow> \<forall>v \<in> set (req_values q). dump_safe v)"

lemma log_entry_short:
  assumes "req_ok q" "v \<in> set (req_values q)" "dump_safe v" "0 \<le> seq" "seq \<le> long_max"
  shows "log_entry_ok (req_key q, seq, v)"
proof -
  have "length (fst (req_key q)) + length (snd (req_key q)) + length v \<le> rlen"
    using assms(1,2) by (cases q) (auto simp: req_ok_def req_text_def command_line_def put_wire_def cput_wire_def)
  with show_int_short [OF assms(4,5)] have "fits (put_record (fst (req_key q)) (snd (req_key q)) seq v)"
    by (simp add: fits_def put_record_def put_header_def rlen_def npos_def)
  with assms(1,3) show ?thesis
    by (cases "req_key q") (simp add: log_entry_ok_def req_ok_def plain_name_def)
qed

lemma durable_step:
  assumes "ready c" "req_ok q" "inp c = Bytes (req_text q) # es" "seqID (sstate c) < long_max"
    and "put_safe q (abs_store (tbl c))" "loggable q" "durable c" "paths_ok (sstate c)"
    and "run_step c = Ok c'"
  shows "durable c' \<and> paths_ok (sstate c')"
proof -
  have seq: "0 \<le> seqID (sstate c) + 1" "seqID (sstate c) + 1 \<le> long_max"
    using assms(1,4) by (simp_all add: ready_def)
  have put: "durable (put_done (fst (req_key q)) (snd (req_key q)) v [] bs (c\<lparr>inp := es\<rparr>))"
    if "v \<in> set (req_values q)" "dump_safe v" for v bs
    by (rule durable_put [OF assms(7,8)])
       (use log_entry_short [OF assms(2) that seq] in \<open>cases "req_key q", simp\<close>)
  have paths: "paths_ok (sstate (put_done row col v [] bs (c\<lparr>inp := es\<rparr>)))" for row col v bs
    using assms(8) by (simp add: paths_ok_def)
  show ?thesis
  proof (cases q)
    case (RPut k v)
    have "store_ok (tbl c) (fst k) (snd k)"
      using assms(5) by (simp add: put_safe_def RPut abs_store_def store_ok_def)
    then obtain bs where "run_step c = Ok (put_done (fst k) (snd k) v [] bs (c\<lparr>inp := es\<rparr>))"
      using step_put [OF assms(1) assms(2,3) [unfolded RPut] assms(4)] by blast
    then have "c' = put_done (fst k) (snd k) v [] bs (c\<lparr>inp := es\<rparr>)" using assms(9) by simp
    with assms(6) put [of v bs] paths show ?thesis by (auto simp: RPut loggable_def simp del: put_done_simps)
  next
    case (RGet k)
    then have "tbl c' = tbl c \<and> disk c' = disk c \<and> sstate c' = sstate c"
      using step_get [OF assms(1) assms(2,3) [unfolded RGet]] assms(9) by auto
    with assms(7,8) show ?thesis using durable_frame [of c c'] by simp
  next
    case (RDelete k)
    with assms(6) show ?thesis by (simp add: loggable_def)
  next
    case (RCput k old new)
    obtain bs where run: "run_step c =
        Ok (if cput_match (cell_get (tbl c) k) old then put_done (fst k) (snd k) new [] bs (c\<lparr>inp := es\<rparr>)
          else reply (''-ERR'' @ crlf) (c\<lparr>inp := es\<rparr>))"
      using step_cput [OF assms(1) assms(2,3) [unfolded RCput] assms(4)] by blast
    show ?thesis
    proof (cases "cput_match (cell_get (tbl c) k) old")
      case True
      with run assms(9) have "c' = put_done (fst k) (snd k) new [] bs (c\<lparr>inp := es\<rparr>)" by simp
      with assms(6) put [of new bs] paths show ?thesis
        by (auto simp: RCput loggable_def simp del: put_done_simps)
    next
      case False
      with run assms(9) have "c' = reply (''-ERR'' @ crlf) (c\<lparr>inp := es\<rparr>)" by simp
      then show ?thesis using assms(7,8) durable_frame [of c c'] by simp
    qed
  qed
qed

lemma durable_steps:
  assumes "ready c" "\<forall>q \<in> set qs. req_ok q \<and> loggable q" "inp c = map (\<lambda>q. Bytes (req_text q)) qs @ es"
    and "seqID (sstate c) + int (length qs) \<le> long_max" "puts_safe qs (abs_store (tbl c))"
    and "durable c" "paths_ok (sstate c)"
  shows "\<exists>c'. run_steps (length qs) c = Ok c' \<and> durable c' \<and>
    abs_store (tbl c') = snd (serve_all qs (abs_store (tbl c)))"
  using assms
proof (induction qs arbitrary: c)
  case (Cons q qs)
  obtain c1 where c1: "run_step c = Ok c1" "ready c1" "inp c1 = map (\<lambda>q. Bytes (req_text q)) qs @ es"
    "abs_store (tbl c1) = snd (serve q (abs_store (tbl c)))" "seqID (sstate c1) \<le> seqID (sstate c) + 1"
    using serve_step [of c q "map (\<lambda>q. Bytes (req_text q)) qs @ es"] Cons.prems by auto
  moreover have "durable c1 \<and> paths_ok (sstate c1)"
    using durable_step [of c q "map (\<lambda>q. Bytes (req_text q)) qs @ es" c1] Cons.prems c1(1) by auto
  ultimately obtain c2 where "run_steps (length qs) c1 = Ok c2" "durable c2"
    "abs_store (tbl c2) = snd (serve_all qs (abs_store (tbl c1)))"
    using Cons.IH [of c1] Cons.prems by auto
  with c1 show ?case by (auto split: prod.split)
qed auto

text \<open>
  C6. What the primary has acknowledged survives a crash: after any sequence of PUT, GET and CPUT
  requests, the cells rebuilt from the checkpoint and the log on disk are those of the store after
  these requests. (Deletes are excluded, see \<open>delete_not_replayed\<close>, and so are values
  with a line of a single dot.)
\<close>

theorem acknowledged_writes_durable:
  assumes "ready c" "\<forall>q \<in> set qs. req_ok q \<and> loggable q" "inp c = map (\<lambda>q. Bytes (req_text q)) qs @ es"
    and "seqID (sstate c) + int (length qs) \<le> long_max" "puts_safe qs (abs_store (tbl c))"
    and "durable c" "paths_ok (sstate c)"
  shows "\<exists>c' t. run_steps (length qs) c = Ok c' \<and> recover_files (sstate c') (disk c') = Ok t \<and>
    cell_get t = snd (snd (serve_all qs (abs_store (tbl c))))"
proof -
  obtain c' where c': "run_steps (length qs) c = Ok c'" "durable c'"
      "abs_store (tbl c') = snd (serve_all qs (abs_store (tbl c)))"
    using durable_steps [OF assms] by blast
  have "snd (abs_store (tbl c')) = cell_get (tbl c')" by (simp add: abs_store_def)
  with durable_recovers [OF c'(2)] c'(1,3) show ?thesis by metis
qed

definition fresh_primary :: "rd list \<Rightarrow> worker" where
  "fresh_primary es = (demo_server es)\<lparr>disk :=
     \<lparr>fs_file = [''d/checkpoint.txt'' \<mapsto> checkpoint_text 0 [], ''d/log.txt'' \<mapsto> []], fs_open = \<lambda>_. True\<rparr>\<rparr>"

lemma fresh_primary_facts:
  "ready (fresh_primary es)" "durable (fresh_primary es)" "paths_ok (sstate (fresh_primary es))"
  "inp (fresh_primary es) = es" "tbl (fresh_primary es) = []" "seqID (sstate (fresh_primary es)) = 0"
proof -
  show "ready (fresh_primary es)"
    using demo_ready [of es] by (simp add: fresh_primary_def ready_def server_ok_def log_open_def)
  show "durable (fresh_primary es)"
    unfolding durable_def
    by (rule exI [of _ "[]"], rule exI [of _ 0], rule exI [of _ "[]"])
       (simp add: fresh_primary_def demo_server_def setFilePath_def table_clean_def cells_def put_log_def)
qed (simp_all add: fresh_primary_def, simp add: demo_server_def paths_ok_def setFilePath_def)

theorem acknowledged_writes_durable_witness:
  "\<exists>c' t. run_steps 1 (fresh_primary [Bytes (req_text (RPut (''r'', ''c'') (''1'' @ crlf)))]) = Ok c' \<and>
     recover_files (sstate c') (disk c') = Ok t \<and> cell_get t (''r'', ''c'') = Some (''1'' @ crlf)"
proof -
  let ?qs = "[RPut (''r'', ''c'') (''1'' @ crlf)]"
  let ?c = "fresh_primary (map (\<lambda>q. Bytes (req_text q)) ?qs)"
  have st: "abs_store (tbl ?c) = ({}, Map.empty)"
    by (simp add: fresh_primary_facts abs_store_def map_has_def cell_get_def row_of_def fun_eq_iff)
  have "puts_safe ?qs (abs_store (tbl ?c))"
    unfolding st by (simp add: put_safe_def)
  moreover have "\<forall>q \<in> set ?qs. req_ok q \<and> loggable q"
    by (simp add: req_ok_def plain_name_def name_ok_def wire_safe_def terminator_def crlf_def
        req_text_def command_line_def put_wire_def rlen_def loggable_def dump_safe_def)
  moreover have "inp ?c = map (\<lambda>q. Bytes (req_text q)) ?qs @ []"
    "seqID (sstate ?c) + int (length ?qs) \<le> long_max"
    by (simp_all add: fresh_primary_facts long_max_def)
  ultimately have "\<exists>c' t. run_steps (length ?qs) ?c = Ok c' \<and> recover_files (sstate c') (disk c') = Ok t \<and>
      cell_get t = snd (snd (serve_all ?qs (abs_store (tbl ?c))))"
    using fresh_primary_facts(1-3) by (intro acknowledged_writes_durable [where es = "[]"])
  then show ?thesis unfolding st by auto
qed

section \<open>Replicas follow the primary\<close>

text \<open>What an update does to a replica's table.\<close>

fun follow :: "update \<Rightarrow> bmap \<Rightarrow> bmap" where
  "follow (Put row col v seq) t = cell_put (row, col) v t"
| "follow (Del row col seq) t = (if cell_get t (row, col) = None then t else cell_erase (row, col) t)"

fun update_ok :: "update \<Rightarrow> bool" where
  "update_ok (Put row col v seq) \<longleftrightarrow> plain_name row \<and> plain_name col \<and> wire_safe v \<and> CHR 0x00 \<notin> set v \<and>
     0 \<le> seq \<and> seq \<le> long_max \<and> length (push_command row col v seq) \<le> rlen"
| "update_ok (Del row col seq) \<longleftrightarrow> plain_name row \<and> plain_name col \<and> 0 \<le> seq \<and> seq \<le> long_max \<and>
     length (poll_command row col seq) \<le> rlen"

fun update_safe :: "update \<Rightarrow> bmap \<Rightarrow> bool" where
  "update_safe (Put row col v seq) t \<longleftrightarrow> store_ok t row col"
| "update_safe (Del row col seq) t \<longleftrightarrow> True"

fun updates_safe :: "update list \<Rightarrow> bmap \<Rightarrow> bool" where
  "updates_safe [] t \<longleftrightarrow> True"
| "updates_safe (u # us) t \<longleftrightarrow> update_safe u t \<and> updates_safe us (follow u t)"

definition replica_ready :: "worker \<Rightarrow> bool" where
  "replica_ready c \<longleftrightarrow> \<not> primary (sstate c) \<and> log_open c \<and> ws c = ss_set []"

lemma poll_command_line:
  "poll_command row col seq = command_line ''DELETE'' row col @ show_int seq @ crlf"
  by (simp add: poll_command_def command_line_def)

lemma line_chunk_ok:
  assumes "plain_name row" "plain_name col" "CHR 0x00 \<notin> set verb" "CHR 0x00 \<notin> set p"
    and "length (command_line verb row col @ p) \<le> rlen"
  shows "chunk_ok (command_line verb row col @ p)"
  using assms sfind_middle [of crlf "verb @ '' <'' @ row @ ''> <'' @ col @ ''>''" p]
  by (auto simp: chunk_ok_def contains_def command_line_def plain_name_def crlf_def)

lemma put_applied_simps [simp]:
  "tbl (put_applied row col v seq left c) = cell_put (row, col) v (tbl c)"
  "sstate (put_applied row col v seq left c) = updateSeq seq (sstate c)"
  "ws (put_applied row col v seq left c) = ss_set left" "inp (put_applied row col v seq left c) = inp c"
  "fs_open (disk (put_applied row col v seq left c)) = fs_open (disk c)"
  by (simp_all add: put_applied_def)

lemma follow_put:
  assumes "replica_ready c" "update_ok (Put row col v seq)" "store_ok (tbl c) row col"
    and "inp c = Bytes (push_command row col v seq) # es"
  shows "\<exists>c'. run_step c = Ok c' \<and> replica_ready c' \<and> inp c' = es \<and> tbl c' = cell_put (row, col) v (tbl c)"
proof -
  let ?p = "show_int seq @ crlf @ v @ ''.'' @ crlf"
  let ?c1 = "c\<lparr>inp := es, ws := ss_set ?p\<rparr>"
  let ?c' = "put_applied row col v seq [] ?c1"
  have pn: "plain_name row" "plain_name col" using assms(2) by simp_all
  have len: "length (command_line ''PUT'' row col @ ?p) \<le> rlen"
    using assms(2) by (simp add: push_command_line)
  then have fit: "fits ?p" by (intro fits_rlen) simp
  have "parse_command (command_line ''PUT'' row col) = Ok (row, col)"
    by (rule parse_plain [OF pn]) (use len in simp_all)
  moreover have "parse_PUT row col ?c1 = Ok ?c'"
    using put_replica_result [of ?c1 v seq "[]" row col] assms(1-3) fit
    by (simp add: replica_ready_def log_open_def)
  ultimately have d: "dispatch (command_line ''PUT'' row col) ?c1 = Ok ?c'" by (simp add: dispatch_line)
  have "run_step c = Ok ?c'"
  proof (rule run_step_command)
    show "chunk_ok (command_line ''PUT'' row col @ ?p)"
      by (rule line_chunk_ok [OF pn _ _ len]) (use assms(2) in \<open>auto simp: crlf_def\<close>)
    show "dispatch (command_line ''PUT'' row col) (c\<lparr>inp := es, ws := ss_set ?p\<rparr>) = Ok ?c'" by (rule d)
  qed (use assms(1,4) pn in \<open>simp_all add: replica_ready_def push_command_line\<close>)
  with assms(1) show ?thesis by (auto simp: replica_ready_def log_open_def)
qed

lemma dele_replica_result:
  assumes "\<not> primary (sstate c)" "log_open c" "ss_buf (ws c) = show_int seq @ crlf" "0 \<le> seq" "seq \<le> long_max"
  shows "\<exists>msg. parse_DELE row col c =
    Ok (reply msg ((logged (delete_record row col seq) (c\<lparr>ws := ss_set []\<rparr>))
        \<lparr>tbl := follow (Del row col seq) (tbl c)\<rparr>))"
proof -
  let ?b = "show_int seq @ crlf" and ?n = "length (show_int seq)"
  have pos: "find ?b crlf 0 = ?n" by (simp add: find_start crlf_def sfind_skip)
  have n: "?n \<le> 20" using assms(4,5) by (rule show_int_short)
  have ne: "find ?b crlf 0 \<noteq> npos" using n by (simp add: pos npos_def)
  have e: "szadd ?n 2 = length ?b" using n by (simp add: crlf_def npos_def)
  have num: "stol (show_int seq) = Ok seq" using stol_show [OF assms(4,5), of "[]"] by simp
  have "substr ?b 0 ?n = Ok (show_int seq)" by simp
  then have log: "dele_log row col c = Ok (seq, logged (delete_record row col seq) (c\<lparr>ws := ss_set []\<rparr>))"
    unfolding dele_log_def assms(3) fetch_present [OF ne] and_then.simps prod.case Let_def pos e
    using assms(1,2) num by (simp add: deleteToLog_seq_eq log_open_def)
  have has: "map_has (row_of (tbl c) row) col \<longleftrightarrow> cell_get (tbl c) (row, col) \<noteq> None"
    by (simp add: map_has_def cell_get_def)
  have same: "(logged r (c\<lparr>ws := w\<rparr>))\<lparr>tbl := tbl c\<rparr> = logged r (c\<lparr>ws := w\<rparr>)" for r w
    by (simp add: logged_def)
  show ?thesis
    using assms(1) cell_has_row [of "tbl c" row col]
    by (cases "cell_get (tbl c) (row, col)")
       (auto simp: parse_DELE_def log dele_cell_def Let_def has same)
qed

lemma follow_del:
  assumes "replica_ready c" "update_ok (Del row col seq)"
    and "inp c = Bytes (poll_command row col seq) # es"
  shows "\<exists>c'. run_step c = Ok c' \<and> replica_ready c' \<and> inp c' = es \<and> tbl c' = follow (Del row col seq) (tbl c)"
proof -
  let ?p = "show_int seq @ crlf"
  let ?c1 = "c\<lparr>inp := es, ws := ss_set ?p\<rparr>"
  have pn: "plain_name row" "plain_name col" using assms(2) by simp_all
  have len: "length (command_line ''DELETE'' row col @ ?p) \<le> rlen"
    using assms(2) by (simp add: poll_command_line)
  have "parse_command (command_line ''DELETE'' row col) = Ok (row, col)"
    by (rule parse_plain [OF pn]) (use len in simp_all)
  moreover obtain msg where "parse_DELE row col ?c1 =
    Ok (reply msg ((logged (delete_record row col seq) (?c1\<lparr>ws := ss_set []\<rparr>))
        \<lparr>tbl := follow (Del row col seq) (tbl ?c1)\<rparr>))" (is "_ = Ok ?c'")
    using dele_replica_result [of ?c1 seq row col] assms(1,2) by (auto simp: replica_ready_def log_open_def)
  ultimately have d: "dispatch (command_line ''DELETE'' row col) ?c1 = Ok ?c'" by (simp add: dispatch_line)
  have "run_step c = Ok ?c'"
  proof (rule run_step_command)
    show "chunk_ok (command_line ''DELETE'' row col @ ?p)"
      by (rule line_chunk_ok [OF pn _ _ len]) (auto simp: crlf_def)
    show "dispatch (command_line ''DELETE'' row col) (c\<lparr>inp := es, ws := ss_set ?p\<rparr>) = Ok ?c'" by (rule d)
  qed (use assms(1,3) pn in \<open>simp_all add: replica_ready_def poll_command_line\<close>)
  with assms(1) show ?thesis by (auto simp: replica_ready_def log_open_def)
qed

lemma follow_step:
  assumes "replica_ready c" "update_ok u" "update_safe u (tbl c)" "inp c = Bytes (update_command u) # es"
  shows "\<exists>c'. run_step c = Ok c' \<and> replica_ready c' \<and> inp c' = es \<and> tbl c' = follow u (tbl c)"
proof (cases u)
  case (Put row col v seq)
  then show ?thesis using assms follow_put [of c row col v seq es] by simp
next
  case (Del row col seq)
  then show ?thesis using assms follow_del [of c row col seq es] by (simp del: follow.simps)
qed

text \<open>
  C13. A replica tracks its primary: when the updates that the primary sends reach it in
  separate reads, it applies all of them in order, so its table is the result of the same writes and
  deletes.
\<close>

theorem replica_follows:
  assumes "replica_ready c" "\<forall>u \<in> set us. update_ok u" "updates_safe us (tbl c)"
    and "inp c = map (\<lambda>u. Bytes (update_command u)) us @ es"
  shows "\<exists>c'. run_steps (length us) c = Ok c' \<and> replica_ready c' \<and> inp c' = es \<and> tbl c' = fold follow us (tbl c)"
  using assms
proof (induction us arbitrary: c)
  case (Cons u us)
  obtain c1 where "run_step c = Ok c1" "replica_ready c1" "inp c1 = map (\<lambda>u. Bytes (update_command u)) us @ es"
      "tbl c1 = follow u (tbl c)"
    using follow_step [of c u "map (\<lambda>u. Bytes (update_command u)) us @ es"] Cons.prems by auto
  with Cons.IH [of c1] Cons.prems show ?case by auto
qed simp

theorem replica_follows_witness:
  "\<exists>c'. run_steps 2 (demo_replica (map (\<lambda>u. Bytes (update_command u))
       [Put ''r'' ''c'' (''1'' @ crlf) 1, Del ''r'' ''c'' 2])) = Ok c' \<and>
     cell_get (tbl c') (''r'', ''c'') = None"
proof -
  let ?us = "[Put ''r'' ''c'' (''1'' @ crlf) 1, Del ''r'' ''c'' 2]"
  let ?c = "demo_replica (map (\<lambda>u. Bytes (update_command u)) ?us)"
  have "length (show_int 1) \<le> 20" "length (show_int 2) \<le> 20"
    by (rule show_int_short; simp add: long_max_def)+
  then have "\<forall>u \<in> set ?us. update_ok u"
    by (simp add: plain_name_def name_ok_def wire_safe_def terminator_def crlf_def long_max_def
        push_command_def poll_command_def rlen_def)
  moreover have "replica_ready ?c" by (simp add: replica_ready_def)
  moreover have "updates_safe ?us (tbl ?c)" by (simp add: store_ok_def map_has_def)
  ultimately have "\<exists>c'. run_steps (length ?us) ?c = Ok c' \<and> replica_ready c' \<and> inp c' = [] \<and>
      tbl c' = fold follow ?us (tbl ?c)"
    by (intro replica_follows) simp_all
  moreover have "cell_get (fold follow ?us []) (''r'', ''c'') = None"
    by (simp add: cell_get_erase [OF table_ok_put [OF table_ok_Nil]])
  ultimately show ?thesis by (simp add: eval_nat_numeral) metis
qed

end
