(* ===== verification/File_Store_Props.thy ===== *)
theory File_Store_Props
  imports File_Store Service
begin

text \<open>
  What the file library promises: contents and listings survive coding, replies are read whatever the
  pieces they arrive in, and the operations on folders have the intended effect on the cells of the
  data server. The interface between the library and the data server is the locale \<open>kv_service\<close>,
  interpreted on the model of the data server's own worker.
\<close>

section \<open>File contents\<close>

lemma hex_val_digit [simp]: "d < 16 \<Longrightarrow> hex_val (hex_digit d) = Some d"
  by (simp add: hex_val_def hex_digit_def)

lemma hex_digit_plain:
  assumes "d < 16"
  shows "\<not> is_space (hex_digit d) \<and> hex_digit d \<notin> {CHR ''-'', CHR ''+'', CHR ''x'', CHR ''X'', CHR ''S'', CHR ''.'', CR, CHR 0x00}"
proof -
  have "(of_char (hex_digit d) :: nat) = (if d < 10 then 48 + d else 87 + d)"
    using assms by (simp add: hex_digit_def)
  then have n: "48 \<le> (of_char (hex_digit d) :: nat)" "(of_char (hex_digit d) :: nat) < 58 \<or> 97 \<le> (of_char (hex_digit d) :: nat)"
    "(of_char (hex_digit d) :: nat) < 103"
    using assms by auto
  then have "hex_digit d \<noteq> c" if "(of_char c :: nat) < 48 \<or> 103 \<le> (of_char c :: nat) \<or> (58 \<le> (of_char c :: nat) \<and> (of_char c :: nat) < 97)" for c
    using that by auto
  with n show ?thesis by (auto simp: is_space_def)
qed

lemma hex_in_byte [simp]: "hex_in (hex_byte c) = c"
proof -
  let ?n = "of_char c :: nat"
  let ?h = "hex_digit (?n div 16)" and ?l = "hex_digit (?n mod 16)"
  have n: "?n < 256" by (rule nat_of_char_less_256)
  then have d: "?n div 16 < 16" "?n mod 16 < 16" by linarith+
  have p: "\<not> is_space ?h" "?h \<noteq> CHR ''-''" "?h \<noteq> CHR ''+''" "?l \<noteq> CHR ''x''" "?l \<noteq> CHR ''X''"
    using hex_digit_plain [OF d(1)] hex_digit_plain [OF d(2)] by auto
  have v: "16 * int (?n div 16) + int (?n mod 16) = int ?n"
    by (metis mult_div_mod_eq of_nat_add of_nat_mult of_nat_numeral)
  show ?thesis
    unfolding hex_in_def hex_byte_def Let_def using p d n
    by (simp add: v)
qed

lemma from_hex_bytes:
  "fits (p @ concat (map hex_byte x)) \<Longrightarrow> p @ concat (map hex_byte x) \<noteq> [] \<Longrightarrow>
     from_hex (p @ concat (map hex_byte x)) (length p) = Ok x"
proof (induction x arbitrary: p)
  case Nil
  then show ?case by (cases p) (simp_all add: from_hex.simps fits_def)
next
  case (Cons c x)
  let ?s = "p @ concat (map hex_byte (c # x))"
  have two: "length (hex_byte c) = 2" by (simp add: hex_byte_def)
  have sz: "length p < szsub (length ?s) 1" using Cons.prems(1) two by (simp add: fits_def)
  have cut: "substr ?s (length p) 2 = Ok (hex_byte c)" using two by simp
  have "from_hex ?s (length p + 2) = Ok x"
    using Cons.IH [of "p @ hex_byte c"] Cons.prems(1) two by (cases "hex_byte c") simp_all
  then show ?case using sz cut by (subst from_hex.simps) simp
qed

lemma hex_empty: "convert_str_to_binary [] = Throw Out_of_range"
proof -
  have "szsub 0 1 = npos" by (simp add: size_defs)
  then show ?thesis
    unfolding convert_str_to_binary_def
    by (subst from_hex.simps, subst from_hex.simps) (simp add: npos_def substr_def)
qed

lemma hex_back: "fits (convert_binary_to_str x) \<Longrightarrow> x \<noteq> [] \<Longrightarrow> convert_str_to_binary (convert_binary_to_str x) = Ok x"
  using from_hex_bytes [of "[]" x]
  by (cases x) (simp_all add: convert_str_to_binary_def convert_binary_to_str_def hex_byte_def)

text \<open>
  C35. File contents survive their coding: what \<open>convert_binary_to_str\<close> writes, two hexadecimal
  digits a byte, \<open>convert_str_to_binary\<close> reads back, for every sequence of bytes but the empty one.
  An empty file cannot be downloaded: the loop bound wraps around and \<open>substr\<close> throws.
\<close>

theorem hex_roundtrip:
  assumes "fits (convert_binary_to_str x)"
  shows "length (convert_binary_to_str x) = 2 * length x \<and>
    convert_str_to_binary (convert_binary_to_str x) = (if x = [] then Throw Out_of_range else Ok x)"
proof -
  have "length (convert_binary_to_str x) = 2 * length x"
    by (induction x) (simp_all add: convert_binary_to_str_def hex_byte_def)
  moreover have "convert_binary_to_str [] = []" by (simp add: convert_binary_to_str_def)
  ultimately show ?thesis using hex_back [OF assms] hex_empty by auto
qed

theorem hex_roundtrip_witness:
  "convert_str_to_binary (convert_binary_to_str [CHR 0xFF, CHR 0x00, CHR ''a'']) = Ok [CHR 0xFF, CHR 0x00, CHR ''a''] \<and>
   convert_str_to_binary (convert_binary_to_str []) = Throw Out_of_range"
  using hex_roundtrip [of "[CHR 0xFF, CHR 0x00, CHR ''a'']"] hex_roundtrip [of "[]"]
  by (simp add: convert_binary_to_str_def hex_byte_def fits_def npos_def)

section \<open>Listings\<close>

definition field_ok :: "string \<Rightarrow> bool" where
  "field_ok x \<longleftrightarrow> x \<noteq> [] \<and> CHR ''|'' \<notin> set x \<and> LF \<notin> set x"

definition entry_ok :: "file_info \<Rightarrow> bool" where
  "entry_ok f \<longleftrightarrow> field_ok (fi_id f) \<and> field_ok (fi_name f) \<and> field_ok (fi_time f) \<and> field_ok (fi_size f) \<and>
     fits (file_line f)"

definition listing :: "file_info list \<Rightarrow> string" where
  "listing fs = concat (map (\<lambda>f. file_line f @ [LF]) fs)"

lemma listing_simps [simp]:
  "listing [] = []" "listing (f # fs) = file_line f @ [LF] @ listing fs"
  "listing (fs @ gs) = listing fs @ listing gs"
  by (simp_all add: listing_def)

lemma file_line_nonempty [simp]: "file_line f \<noteq> []" "0 < length (file_line f)"
  by (simp_all add: file_line_def)

lemma listing_empty [simp]: "listing fs = [] \<longleftrightarrow> fs = []"
  by (cases fs) simp_all

lemma cut_bars_skip:
  "CHR ''|'' \<notin> set x \<Longrightarrow> fits (p @ x @ r) \<Longrightarrow> r \<noteq> [] \<Longrightarrow>
     cut_bars (p @ x @ r) (length p) prev = cut_bars (p @ x @ r) (length p + length x) prev"
proof (induction x arbitrary: p)
  case (Cons a x)
  let ?s = "p @ (a # x) @ r"
  have "length p < szsub (length ?s) 1" "length p + 1 < length ?s"
    using Cons.prems(2,3) by (simp_all add: fits_def)
  moreover have "?s ! length p = a" by simp
  moreover have "a \<noteq> CHR ''|''" using Cons.prems(1) by auto
  ultimately have "cut_bars ?s (length p) prev = cut_bars ?s (length p + 1) prev"
    using Cons.prems(3) by (subst cut_bars.simps) auto
  also have "\<dots> = cut_bars ?s (length p + length (a # x)) prev"
    using Cons.IH [of "p @ [a]"] Cons.prems by simp
  finally show ?case .
qed simp

lemma cut_bars_field:
  assumes "CHR ''|'' \<notin> set x" "fits (p @ x @ ''||'' @ r)" "r \<noteq> []" "hd r \<noteq> CHR ''|''"
  shows "cut_bars (p @ x @ ''||'' @ r) (length p) (length p) =
    and_then (cut_bars (p @ x @ ''||'' @ r) (length p + length x + 2) (length p + length x + 2)) (\<lambda>ys. Ok (x # ys))"
proof -
  let ?s = "p @ x @ ''||'' @ r" and ?i = "length p + length x"
  obtain c r' where r: "r = c # r'" "c \<noteq> CHR ''|''" using assms(3,4) by (cases r) auto
  have at: "?s ! ?i = CHR ''|''" "?s ! (?i + 1) = CHR ''|''" "?s ! (?i + 2) \<noteq> CHR ''|''"
    using r by (simp_all add: nth_append)
  have sz: "szsub (length ?s) 1 = ?i + 2 + length r'" "length ?s = ?i + 3 + length r'" "length ?s < npos"
    using assms(2) r by (simp_all add: fits_def)
  have sub: "szsub ?i (length p) = length x" using sz by (simp add: szsub_exact)
  have "cut_bars ?s (length p) (length p) = cut_bars ?s ?i (length p)"
    by (rule cut_bars_skip) (use assms in simp_all)
  also have "\<dots> = and_then (cut_bars ?s (?i + 1) (?i + 2)) (\<lambda>ys. Ok (x # ys))"
    using at sz sub by (subst cut_bars.simps) simp
  also have "cut_bars ?s (?i + 1) (?i + 2) = cut_bars ?s (?i + 2) (?i + 2)"
    using at sz by (subst cut_bars.simps) (simp add: add.assoc)
  finally show ?thesis .
qed

lemma cut_bars_last:
  assumes "CHR ''|'' \<notin> set x" "x \<noteq> []" "fits (p @ x)"
  shows "cut_bars (p @ x) (length p) (length p) = Ok [x]"
proof -
  obtain y c where x: "x = y @ [c]" using assms(2) by (cases x rule: rev_cases) auto
  have "cut_bars (p @ x) (length p) (length p) = cut_bars (p @ x) (length p + length y) (length p)"
    using cut_bars_skip [of y p "[c]" "length p"] assms x by simp
  moreover have "szsub (length (p @ x)) 1 = length p + length y" using assms(3) x by (simp add: fits_def)
  moreover have "length x \<le> npos" using assms(3) by (simp add: fits_def)
  ultimately show ?thesis by (simp add: cut_bars.simps)
qed

lemma parse_file_line:
  assumes "entry_ok f"
  shows "parse_string_to_class (file_line f) = Ok f"
proof -
  let ?s = "fi_id f @ ''||'' @ fi_name f @ ''||'' @ fi_time f @ ''||'' @ fi_size f"
  have f: "field_ok (fi_id f)" "field_ok (fi_name f)" "field_ok (fi_time f)" "field_ok (fi_size f)"
    using assms by (simp_all add: entry_ok_def)
  have hd: "hd x \<noteq> CHR ''|''" "x \<noteq> []" if "field_ok x" for x
    using that by (cases x; auto simp: field_ok_def)+
  have len: "length (file_line f) = length ?s + 2" by (simp add: file_line_def)
  have fit: "fits (file_line f)" using assms by (simp add: entry_ok_def)
  then have fs: "fits ?s" unfolding fits_def len by simp
  have c1: "cut_bars ?s 0 0 = and_then (cut_bars ?s (length (fi_id f) + 2) (length (fi_id f) + 2)) (\<lambda>ys. Ok (fi_id f # ys))"
    using cut_bars_field [of "fi_id f" "[]" "fi_name f @ ''||'' @ fi_time f @ ''||'' @ fi_size f"] f(1) fs hd [OF f(2)]
    by (simp add: field_ok_def)
  let ?p2 = "fi_id f @ ''||''"
  have c2: "cut_bars ?s (length (fi_id f) + 2) (length (fi_id f) + 2) =
    and_then (cut_bars ?s (length (fi_id f) + 2 + length (fi_name f) + 2) (length (fi_id f) + 2 + length (fi_name f) + 2))
      (\<lambda>ys. Ok (fi_name f # ys))"
    using cut_bars_field [of "fi_name f" ?p2 "fi_time f @ ''||'' @ fi_size f"] f(2) fs hd [OF f(3)]
    by (simp add: field_ok_def)
  let ?p3 = "?p2 @ fi_name f @ ''||''"
  have c3: "cut_bars ?s (length (fi_id f) + 2 + length (fi_name f) + 2) (length (fi_id f) + 2 + length (fi_name f) + 2) =
    and_then (cut_bars ?s (length (?p3 @ fi_time f @ ''||'')) (length (?p3 @ fi_time f @ ''||'')))
      (\<lambda>ys. Ok (fi_time f # ys))"
    using cut_bars_field [of "fi_time f" ?p3 "fi_size f"] f(3) fs hd [OF f(4)]
    by (simp add: field_ok_def add.assoc)
  have c4: "cut_bars ?s (length (?p3 @ fi_time f @ ''||'')) (length (?p3 @ fi_time f @ ''||'')) = Ok [fi_size f]"
    using cut_bars_last [of "fi_size f" "?p3 @ fi_time f @ ''||''"] f(4) fs by (simp add: field_ok_def)
  have cut: "cut_bars ?s 0 0 = Ok [fi_id f, fi_name f, fi_time f, fi_size f]"
    unfolding c1 c2 c3 c4 by simp
  have "substr (file_line f) 0 1 = Ok (if fi_file f then ''f'' else ''o'')"
    by (simp add: file_line_def)
  moreover have "substr (file_line f) 2 npos = Ok ?s"
    using substr_npos [of 2 "file_line f"] fit len by (simp add: file_line_def)
  ultimately show ?thesis
    unfolding parse_string_to_class_def and_then.simps using cut by (simp split: if_splits)
qed

lemma cut_lines_line: "LF \<notin> set l \<Longrightarrow> cut_lines acc (l @ LF # s) = (rev acc @ l) # cut_lines [] s"
  by (induction l arbitrary: acc) auto

lemma file_line_LF: "entry_ok f \<Longrightarrow> LF \<notin> set (file_line f)"
  by (auto simp: entry_ok_def field_ok_def file_line_def)

lemma parse_listing [simp]:
  assumes "\<forall>f \<in> set fs. entry_ok f"
  shows "parse_content_fileNames (listing fs) = map file_line fs"
proof -
  have "cut_lines [] (listing fs) = map file_line fs" if "\<forall>f \<in> set fs. entry_ok f" for fs
    using that by (induction fs) (simp_all add: cut_lines_line file_line_LF)
  then show ?thesis using assms by (cases "fs = []") (simp_all add: parse_content_fileNames_def)
qed

lemma parse_lines:
  assumes "\<forall>f \<in> set fs. entry_ok f"
  shows "map_res parse_string_to_class (map file_line fs) = Ok fs"
  using assms by (induction fs) (simp_all add: parse_file_line)

text \<open>
  C36. Listings survive their coding: a folder's listing is cut into its lines, and every line read
  back as the entry it was written for, when names, identifiers, times and sizes are not empty and
  have no bar and no line end.
\<close>

theorem listing_roundtrip:
  assumes "\<forall>f \<in> set fs. entry_ok f"
  shows "map_res parse_string_to_class (parse_content_fileNames (listing fs)) = Ok fs"
  using assms by (simp add: parse_lines)

definition demo_file :: file_info where
  "demo_file = \<lparr>fi_name = ''a.txt'', fi_id = ''7'', fi_file = True, fi_time = ''t'', fi_size = ''3''\<rparr>"

lemma demo_file_ok [simp]: "entry_ok demo_file"
  by (simp add: entry_ok_def field_ok_def demo_file_def file_line_def fits_def npos_def)

theorem listing_roundtrip_witness:
  "map_res parse_string_to_class (parse_content_fileNames (listing [demo_file])) = Ok [demo_file] \<and>
   listing [demo_file] = ''f:7||a.txt||t||3'' @ [LF]"
proof
  show "map_res parse_string_to_class (parse_content_fileNames (listing [demo_file])) = Ok [demo_file]"
    by (rule listing_roundtrip) simp
  show "listing [demo_file] = ''f:7||a.txt||t||3'' @ [LF]" by (simp add: demo_file_def file_line_def)
qed

section \<open>Replies\<close>

lemma contains_grow: "contains a pat \<Longrightarrow> contains (a @ b) pat"
  by (auto simp: contains_def)

definition data_reply :: "string \<Rightarrow> string" where
  "data_reply d = ''DATA'' @ crlf @ d @ terminator"

lemma data_reply_length [simp]: "length (data_reply d) = length d + 11"
  by (simp add: data_reply_def crlf_def terminator_def)

lemma data_reply_end:
  assumes "wire_safe (d @ crlf)"
  shows "sfind terminator (data_reply d) = Some (length d + 6)"
proof -
  have "sfind terminator (crlf @ d @ terminator) = Some (length d + 2)"
    using assms by (simp add: wire_safe_def crlf_def terminator_def)
  then show ?thesis
    using sfind_skip [of CR "''DATA''" "[LF, CHR ''.'', CR, LF]" "crlf @ d @ terminator"]
    by (simp add: data_reply_def terminator_def)
qed

lemma data_reply_data: "contains (data_reply d) (''DATA'' @ crlf)"
proof -
  have "prefix (''DATA'' @ crlf) (data_reply d)" by (simp add: data_reply_def)
  then show ?thesis by (simp add: contains_def)
qed

lemma data_reply_cut:
  "(if length (data_reply d) \<le> 11 then Ok [] else substr (data_reply d) 6 (length (data_reply d) - 11)) = Ok d"
  by (cases d) (simp_all add: data_reply_def crlf_def terminator_def)

lemma read_get_pieces:
  assumes "wire_safe (d @ crlf)" "CHR 0x00 \<notin> set d"
    and "\<not> contains (data_reply d) shutting_down" "\<not> contains (data_reply d) ''-ERR NULL''"
    and "\<forall>p \<in> set ps. p \<noteq> [] \<and> length p < 7000000" "acc @ concat ps = data_reply d" "ps \<noteq> []"
  shows "read_get_data acc (map Bytes ps @ es) = Ok (d, False, es)"
  using assms(5-7)
proof (induction ps arbitrary: acc)
  case (Cons p ps)
  have nul: "CHR 0x00 \<notin> set (data_reply d)"
    using assms(2) by (simp add: data_reply_def crlf_def terminator_def)
  have p: "p \<noteq> []" "length p < 7000000" "CHR 0x00 \<notin> set p" "data_reply d = acc @ p @ concat ps"
    using Cons.prems nul by (auto simp flip: Cons.prems(2))
  have no: "\<not> contains (acc @ p) x" if "\<not> contains (data_reply d) x" for x
    using that contains_grow [of "acc @ p" x "concat ps"] p(4) by auto
  note unfold = read_get_data.simps [of acc "map Bytes (p # ps) @ es"]
  show ?case
  proof (cases "ps = []")
    case True
    then have full: "acc @ p = data_reply d" using p(4) by simp
    have "complete_data (data_reply d)"
      using data_reply_end [OF assms(1)] by (simp add: complete_data_def contains_def)
    then show ?thesis
      unfolding unfold using p(1-3) no [OF assms(3)] data_reply_data data_reply_cut [of d] True
      by (simp add: full and_then_assoc split: if_splits)
  next
    case False
    then have "concat ps \<noteq> []" using Cons.prems(1) by (cases ps) auto
    then have short: "length (acc @ p) < length d + 11" using p(4) by (metis append_assoc data_reply_length length_append less_add_same_cancel1 length_greater_0_conv)
    have "\<not> complete_data (acc @ p)"
    proof
      assume "complete_data (acc @ p)"
      then obtain i where i: "sfind terminator (acc @ p) = Some i" by (auto simp: complete_data_def contains_def)
      then have "sfind terminator (data_reply d) = Some i" using p(4) sfind_append [OF i, of "concat ps"] by simp
      then show False using data_reply_end [OF assms(1)] sfind_length [OF i] short by (simp add: terminator_def)
    qed
    then show ?thesis
      unfolding unfold using p(1-3) no [OF assms(3)] no [OF assms(4)] Cons.IH [of "acc @ p"] Cons.prems False p(4)
      by simp
  qed
qed simp

text \<open>
  The reply to a GET is read completely and exactly, however the network cuts it: the result is
  the value without its frame, and what follows stays in the socket. The value must not contain the
  two error messages the reader looks for.
\<close>

theorem get_reply_any_pieces:
  assumes "wire_safe (d @ crlf)" "CHR 0x00 \<notin> set d"
    and "\<not> contains (data_reply d) shutting_down" "\<not> contains (data_reply d) ''-ERR NULL''"
    and "\<forall>p \<in> set ps. p \<noteq> [] \<and> length p < 7000000" "concat ps = data_reply d"
  shows "read_get_data [] (map Bytes ps @ es) = Ok (d, False, es)"
  using read_get_pieces [of d ps "[]" es] assms by (cases "ps = []") (auto simp: data_reply_def)

theorem get_reply_any_pieces_witness:
  "read_get_data [] [Bytes (''DA''), Bytes (''TA'' @ crlf @ ''42'' @ [CR]), Bytes ([LF, CHR ''.'', CR, LF])] =
     Ok (''42'', False, [])"
proof -
  have "read_get_data [] (map Bytes [''DA'', ''TA'' @ crlf @ ''42'' @ [CR], [LF, CHR ''.'', CR, LF]] @ []) =
     Ok (''42'', False, [])"
    by (rule get_reply_any_pieces)
       (simp_all add: wire_safe_def contains_def data_reply_def crlf_def terminator_def)
  then show ?thesis by simp
qed

lemma read_put_whole:
  "length r < 100 \<Longrightarrow> CHR 0x00 \<notin> set r \<Longrightarrow> contains r crlf \<Longrightarrow>
     read_put_reply [] (Bytes r # es) = Ok (r, False, es)"
  by (subst read_put_reply.simps) (cases r; simp add: contains_def crlf_def)

section \<open>The data server behind the library\<close>

lemma contains_barrier:
  assumes "c \<notin> set pat" "pat \<noteq> []"
  shows "contains (a @ c # b) pat \<longleftrightarrow> contains a pat \<or> contains b pat"
proof (cases "sfind pat a")
  case None
  then show ?thesis using sfind_barrier [OF assms None] by (simp add: contains_def)
next
  case (Some i)
  then show ?thesis by (simp add: contains_def)
qed

text \<open>
  Texts the library can keep as a value: no carriage return or zero byte, not a lone dot, and none of
  the texts the readers take for messages.
\<close>

definition text_ok :: "string \<Rightarrow> bool" where
  "text_ok d \<longleftrightarrow> CR \<notin> set d \<and> CHR 0x00 \<notin> set d \<and> d \<noteq> ''.'' \<and> d \<noteq> ''SERVER CRASH'' \<and> d \<noteq> ''-ERR NULL'' \<and>
     \<not> contains d shutting_down \<and> length d \<le> 1900000"

definition name_small :: "string \<Rightarrow> bool" where
  "name_small k \<longleftrightarrow> plain_name k \<and> length k \<le> 1000"

text \<open>A user (a row, without colon) and a column the library writes with PUT (with a colon).\<close>

definition put_key :: "key \<Rightarrow> bool" where
  "put_key k \<longleftrightarrow> name_small (fst k) \<and> name_small (snd k) \<and> CHR '':'' \<notin> set (fst k) \<and> CHR '':'' \<in> set (snd k)"

definition users_only :: "store \<Rightarrow> bool" where
  "users_only s \<longleftrightarrow> (\<forall>r \<in> fst s. CHR '':'' \<notin> set r)"

lemma text_wire:
  assumes "text_ok d"
  shows "wire_safe (d @ crlf)"
proof -
  have cr: "CR \<notin> set d" and dot: "d \<noteq> ''.''" using assms by (simp_all add: text_ok_def)
  have no: "\<not> prefix terminator (crlf @ d @ terminator)"
  proof (cases d)
    case (Cons c d')
    then show ?thesis using cr dot by (cases d') (auto simp: crlf_def terminator_def)
  qed (simp add: crlf_def terminator_def)
  have "sfind terminator ((LF # d) @ terminator) = map_option ((+) (length (LF # d))) (sfind terminator terminator)"
    using sfind_skip [of CR "LF # d" "[LF, CHR ''.'', CR, LF]" terminator] cr by (simp add: terminator_def)
  then have "sfind terminator (crlf @ d @ terminator) = Some (length d + 2)"
    using no by (simp add: crlf_def)
  then show ?thesis by (simp add: wire_safe_def crlf_def terminator_def)
qed

lemma text_no_crash: "text_ok d \<Longrightarrow> \<not> contains (data_reply d) shutting_down"
  using contains_barrier [of CR shutting_down "''DATA''" "LF # d @ terminator"]
    contains_barrier [of LF shutting_down "[]" "d @ terminator"]
    contains_barrier [of CR shutting_down d "[LF, CHR ''.'', CR, LF]"]
  by (simp add: text_ok_def data_reply_def crlf_def terminator_def contains_def)

lemma read_get_whole:
  assumes "text_ok d"
  shows "read_get_data [] (Bytes (data_reply d) # es) = Ok (d, False, es)"
proof -
  have nul: "CHR 0x00 \<notin> set (data_reply d)"
    using assms by (simp add: text_ok_def data_reply_def crlf_def terminator_def)
  have "complete_data (data_reply d)"
    using data_reply_end [OF text_wire [OF assms]] by (simp add: complete_data_def contains_def)
  then show ?thesis
    using nul text_no_crash [OF assms] data_reply_data [of d] data_reply_cut [of d] assms
    by (subst read_get_data.simps) (simp add: text_ok_def and_then_assoc split: if_splits)
qed

lemma read_get_missing: "read_get_data [] (Bytes (missing k s) # es) = Ok (''-ERR NULL'', False, es)"
  by (subst read_get_data.simps)
     (simp add: missing_def crlf_def contains_def complete_reply_def)

definition linked :: "'b storage \<Rightarrow> 'b \<Rightarrow> bool" where
  "linked st b \<longleftrightarrow> peer st = Some b \<and> sock st = []"

definition moved_to :: "'b storage \<Rightarrow> 'b \<Rightarrow> 'b storage" where
  "moved_to st b = st\<lparr>peer := Some b\<rparr>"

lemma moved_simps [simp]:
  "linked st b \<Longrightarrow> linked (moved_to st b') b'" "moved_to (moved_to st b) b' = moved_to st b'"
  "files_in_path (moved_to st b) = files_in_path st" "cur_path (moved_to st b) = cur_path st"
  "userName (moved_to st b) = userName st"
  by (simp_all add: linked_def moved_to_def)

lemma req_texts:
  "''GET '' @ command_parser u c = req_text (RGet (u, c))"
  "''DELETE '' @ command_parser u c = req_text (RDelete (u, c))"
  "''PUT '' @ command_parser u c @ ''DATA'' @ crlf @ d @ terminator = req_text (RPut (u, c) (d @ crlf))"
  "''CPUT '' @ command_parser u c @ ''OLD'' @ crlf @ d @ terminator @ ''NEW'' @ crlf @ d' @ terminator =
     req_text (RCput (u, c) (d @ crlf) (d' @ crlf))"
  by (simp_all add: command_parser_def req_text_def command_line_def put_wire_def cput_wire_def crlf_def terminator_def)

lemma sends:
  "send_get_command E n (command_parser u c) st = send_loop E read_get_data (req_text (RGet (u, c))) n st"
  "send_delete_command E n (command_parser u c) st = send_loop E read_put_reply (req_text (RDelete (u, c))) n st"
  "send_put_command E n (command_parser u c) d st =
     send_loop E read_put_reply (req_text (RPut (u, c) (d @ crlf))) n st"
  "send_cput_command E n (command_parser u c) d d' st =
     send_loop E read_put_reply (req_text (RCput (u, c) (d @ crlf) (d' @ crlf))) n st"
  unfolding send_get_command_def send_delete_command_def send_put_command_def send_cput_command_def req_texts
  by (rule refl)+

declare send_loop.simps [simp del]

lemma req_sizes:
  "name_small u \<Longrightarrow> name_small c \<Longrightarrow> req_ok (RGet (u, c))"
  "name_small u \<Longrightarrow> name_small c \<Longrightarrow> req_ok (RDelete (u, c))"
  "name_small u \<Longrightarrow> name_small c \<Longrightarrow> text_ok d \<Longrightarrow> req_ok (RPut (u, c) (d @ crlf))"
  "name_small u \<Longrightarrow> name_small c \<Longrightarrow> text_ok d \<Longrightarrow> text_ok d' \<Longrightarrow> req_ok (RCput (u, c) (d @ crlf) (d' @ crlf))"
proof -
  have v: "wire_safe (d @ crlf)" "CHR 0x00 \<notin> set (d @ crlf)" "length d \<le> 1900000" if "text_ok d" for d
    using text_wire [OF that] that by (simp_all add: text_ok_def crlf_def)
  note defs = req_ok_def name_small_def req_text_def command_line_def put_wire_def cput_wire_def rlen_def
  have [simp]: "length crlf = 2" by (simp add: crlf_def)
  show "name_small u \<Longrightarrow> name_small c \<Longrightarrow> req_ok (RGet (u, c))"
    "name_small u \<Longrightarrow> name_small c \<Longrightarrow> req_ok (RDelete (u, c))"
    by (simp_all add: defs)
  show "name_small u \<Longrightarrow> name_small c \<Longrightarrow> text_ok d \<Longrightarrow> req_ok (RPut (u, c) (d @ crlf))"
    using v [of d] by (simp add: defs)
  show "name_small u \<Longrightarrow> name_small c \<Longrightarrow> text_ok d \<Longrightarrow> text_ok d' \<Longrightarrow> req_ok (RCput (u, c) (d @ crlf) (d' @ crlf))"
    using v [of d] v [of d'] by (simp add: defs)
qed

lemma same_name:
  "\<forall>f \<in> set fs. entry_ok f \<Longrightarrow> exist_same_fileName x (map file_line fs) = Ok (x \<in> fi_name ` set fs)"
  by (induction fs) (auto simp: parse_file_line)

lemma drop_listing:
  "\<forall>f \<in> set fs. entry_ok f \<Longrightarrow>
     drop_entry i (map file_line fs) = Ok (listing (filter (\<lambda>f. fi_id f \<noteq> i) fs), i \<notin> fi_id ` set fs)"
  by (induction fs) (auto simp: parse_file_line)

lemma ok_replies [simp]:
  "\<not> contains (''+OK'' @ crlf) ''-ERR''" "contains (''+OK'' @ crlf) ''+OK''" "begins_OK (''+OK'' @ crlf)"
  "contains (''-ERR'' @ crlf) ''-ERR''"
  by (simp_all add: contains_def crlf_def begins_OK_def)

text \<open>A folder's listing in its cell.\<close>

definition folder :: "store \<Rightarrow> string \<Rightarrow> string \<Rightarrow> file_info list \<Rightarrow> bool" where
  "folder s u i fs \<longleftrightarrow> put_key (u, i @ '':content'') \<and> snd s (u, i @ '':content'') = Some (listing fs @ crlf) \<and>
     (\<forall>f \<in> set fs. entry_ok f) \<and> text_ok (listing fs)"

text \<open>
  The interface: a service that answers a well-formed request in one piece with the answer of the
  abstract store, as long as it is live (it can number that many more updates).
\<close>

locale kv_service =
  fixes exch :: "string \<Rightarrow> 'b \<Rightarrow> rd list \<times> 'b"
    and view :: "'b \<Rightarrow> store"
    and live :: "nat \<Rightarrow> 'b \<Rightarrow> bool"
  assumes request_law: "live (Suc n) b \<Longrightarrow> req_ok q \<Longrightarrow> put_safe q (view b) \<Longrightarrow>
    \<exists>b'. exch (req_text q) b = ([Bytes (fst (serve q (view b)))], b') \<and> live n b' \<and> view b' = snd (serve q (view b))"
begin

lemma one_request:
  assumes "exchange E = exch" "linked st b" "live (Suc n) b" "req_ok q" "put_safe q (view b)"
    and "rdr [] [Bytes (fst (serve q (view b)))] = Ok (r, False, [])" "r \<noteq> ''SERVER CRASH''"
  shows "\<exists>b'. send_loop E rdr (req_text q) (Suc m) st = Ok (r, moved_to st b') \<and>
    live n b' \<and> view b' = snd (serve q (view b))"
proof -
  obtain b' where b': "exch (req_text q) b = ([Bytes (fst (serve q (view b)))], b')" "live n b'"
    "view b' = snd (serve q (view b))"
    using request_law [OF assms(3-5)] by blast
  have "send_loop E rdr (req_text q) (Suc m) st = Ok (r, moved_to st b')"
    using assms(1,2,6,7) b'(1)
    by (simp add: send_loop.simps send_bytes_def receive_reply_def linked_def moved_to_def)
  with b' show ?thesis by blast
qed

lemma get_text:
  assumes "exchange E = exch" "linked st b" "live (Suc n) b" "name_small u" "name_small c"
    and "snd (view b) (u, c) = Some (d @ crlf)" "text_ok d"
  obtains b' where "send_get_command E (Suc m) (command_parser u c) st = Ok (d, moved_to st b')"
    "live n b'" "view b' = view b"
proof -
  have s: "serve (RGet (u, c)) (view b) = (data_reply d, view b)"
    using assms(6) by (cases "view b") (simp add: data_reply_def terminator_def crlf_def)
  have "d \<noteq> ''SERVER CRASH''" using assms(7) by (simp add: text_ok_def)
  then have "\<exists>b'. send_get_command E (Suc m) (command_parser u c) st = Ok (d, moved_to st b') \<and>
      live n b' \<and>
      view b' = view b"
    using one_request [of E st b n "RGet (u, c)" read_get_data d m] assms req_sizes(1)
      read_get_whole [OF assms(7)]
    by (simp add: s put_safe_def sends)
  then show thesis using that by blast
qed

lemma get_missing:
  assumes "exchange E = exch" "linked st b" "live (Suc n) b" "name_small u" "name_small c"
    and "snd (view b) (u, c) = None"
  obtains b' where "send_get_command E (Suc m) (command_parser u c) st = Ok (''-ERR NULL'', moved_to st b')"
    "live n b'" "view b' = view b"
proof -
  have s: "serve (RGet (u, c)) (view b) = (missing (u, c) (view b), view b)"
    using assms(6) by (cases "view b") simp
  have "\<exists>b'. send_get_command E (Suc m) (command_parser u c) st = Ok (''-ERR NULL'', moved_to st b') \<and>
      live n b' \<and>
      view b' = view b"
    using one_request [of E st b n "RGet (u, c)" read_get_data "''-ERR NULL''" m] assms req_sizes(1)
      read_get_missing
    by (simp add: s put_safe_def sends)
  then show thesis using that by blast
qed

lemma put_text:
  assumes "exchange E = exch" "linked st b" "live (Suc n) b" "put_key (u, c)" "text_ok d" "users_only (view b)"
  obtains b' where "send_put_command E (Suc m) (command_parser u c) d st = Ok (''+OK'' @ crlf, moved_to st b')"
    "live n b'" "snd (view b') = (snd (view b))((u, c) \<mapsto> d @ crlf)" "users_only (view b')"
proof -
  have s: "serve (RPut (u, c) (d @ crlf)) (view b) =
      (''+OK'' @ crlf, (insert u (fst (view b)), (snd (view b))((u, c) \<mapsto> d @ crlf)))"
    by (cases "view b") simp
  have "put_safe (RPut (u, c) (d @ crlf)) (view b)"
    using assms(4,6) by (auto simp: put_safe_def put_key_def users_only_def)
  moreover have "read_put_reply [] [Bytes (''+OK'' @ crlf)] = Ok (''+OK'' @ crlf, False, [])"
    by (rule read_put_whole) (simp_all add: contains_def crlf_def)
  ultimately have "\<exists>b'. send_put_command E (Suc m) (command_parser u c) d st = Ok (''+OK'' @ crlf, moved_to st b') \<and>
      live n b' \<and>
      snd (view b') = (snd (view b))((u, c) \<mapsto> d @ crlf) \<and>
      users_only (view b')"
    using one_request [of E st b n "RPut (u, c) (d @ crlf)" read_put_reply "''+OK'' @ crlf" m] assms
      req_sizes(3)
    by (fastforce simp add: s sends put_key_def users_only_def)
  then show thesis using that by blast
qed

lemma cput_text:
  assumes "exchange E = exch" "linked st b" "live (Suc n) b" "name_small u" "name_small c"
    and "CHR '':'' \<notin> set u" "text_ok d" "text_ok d'" "users_only (view b)" "snd (view b) (u, c) = Some (d @ crlf)"
  obtains b' where "send_cput_command E (Suc m) (command_parser u c) d d' st = Ok (''+OK'' @ crlf, moved_to st b')"
    "live n b'" "snd (view b') = (snd (view b))((u, c) \<mapsto> d' @ crlf)" "users_only (view b')"
proof -
  have s: "serve (RCput (u, c) (d @ crlf) (d' @ crlf)) (view b) =
      (''+OK'' @ crlf, (insert u (fst (view b)), (snd (view b))((u, c) \<mapsto> d' @ crlf)))"
    using assms(10) by (cases "view b") (simp add: cput_match_def)
  have "read_put_reply [] [Bytes (''+OK'' @ crlf)] = Ok (''+OK'' @ crlf, False, [])"
    by (rule read_put_whole) (simp_all add: contains_def crlf_def)
  then have "\<exists>b'. send_cput_command E (Suc m) (command_parser u c) d d' st = Ok (''+OK'' @ crlf, moved_to st b') \<and>
      live n b' \<and>
      snd (view b') = (snd (view b))((u, c) \<mapsto> d' @ crlf) \<and>
      users_only (view b')"
    using one_request [of E st b n "RCput (u, c) (d @ crlf) (d' @ crlf)" read_put_reply "''+OK'' @ crlf" m]
      assms req_sizes(4)
    by (fastforce simp add: s sends put_safe_def users_only_def)
  then show thesis using that by blast
qed

lemma cput_refused:
  assumes "exchange E = exch" "linked st b" "live (Suc n) b" "name_small u" "name_small c"
    and "text_ok d" "text_ok d'" "snd (view b) (u, c) = Some (d0 @ crlf)" "d0 \<noteq> d"
  obtains b' where "send_cput_command E (Suc m) (command_parser u c) d d' st = Ok (''-ERR'' @ crlf, moved_to st b')"
    "live n b'" "view b' = view b"
proof -
  have s: "serve (RCput (u, c) (d @ crlf) (d' @ crlf)) (view b) = (''-ERR'' @ crlf, view b)"
    using assms(8,9) by (cases "view b") (simp add: cput_match_def)
  have "read_put_reply [] [Bytes (''-ERR'' @ crlf)] = Ok (''-ERR'' @ crlf, False, [])"
    by (rule read_put_whole) (simp_all add: contains_def crlf_def)
  then have "\<exists>b'. send_cput_command E (Suc m) (command_parser u c) d d' st = Ok (''-ERR'' @ crlf, moved_to st b') \<and>
      live n b' \<and> view b' = view b"
    using one_request [of E st b n "RCput (u, c) (d @ crlf) (d' @ crlf)" read_put_reply "''-ERR'' @ crlf" m]
      assms req_sizes(4)
    by (fastforce simp add: s sends put_safe_def)
  then show thesis using that by blast
qed

lemma delete_text:
  assumes "exchange E = exch" "linked st b" "live (Suc n) b" "name_small u" "name_small c" "users_only (view b)"
    and "snd (view b) (u, c) \<noteq> None"
  obtains b' where "send_delete_command E (Suc m) (command_parser u c) st = Ok (''+OK deleted'' @ crlf, moved_to st b')"
    "live n b'" "snd (view b') = (snd (view b))((u, c) := None)" "users_only (view b')"
proof -
  have s: "serve (RDelete (u, c)) (view b) =
      (''+OK deleted'' @ crlf, (fst (view b), (snd (view b))((u, c) := None)))"
    using assms(7) by (cases "view b") auto
  have "read_put_reply [] [Bytes (''+OK deleted'' @ crlf)] = Ok (''+OK deleted'' @ crlf, False, [])"
    by (rule read_put_whole) (simp_all add: contains_def crlf_def)
  then have "\<exists>b'. send_delete_command E (Suc m) (command_parser u c) st = Ok (''+OK deleted'' @ crlf, moved_to st b') \<and>
      live n b' \<and>
      snd (view b') = (snd (view b))((u, c) := None) \<and>
      users_only (view b')"
    using one_request [of E st b n "RDelete (u, c)" read_put_reply "''+OK deleted'' @ crlf" m] assms
      req_sizes(2)
    by (fastforce simp add: s sends put_safe_def users_only_def)
  then show thesis using that by blast
qed

lemma add_entry:
  assumes "exchange E = exch" "linked st b" "live (Suc n) b" "users_only (view b)" "folder (view b) u i fs"
    and "entry_ok f" "fi_name f \<notin> fi_name ` set fs" "text_ok (listing (fs @ [f]))"
  obtains b' where
    "send_cput_command_add E (Suc m) (content_of u i) (listing fs) (file_line f @ [LF]) (fi_name f) st =
       Ok (''+OK'' @ crlf, moved_to st b')"
    "live n b'" "users_only (view b')"
    "snd (view b') = (snd (view b))((u, i @ '':content'') \<mapsto> listing (fs @ [f]) @ crlf)"
proof -
  have f: "name_small u" "name_small (i @ '':content'')" "CHR '':'' \<notin> set u" "text_ok (listing fs)"
    "snd (view b) (u, i @ '':content'') = Some (listing fs @ crlf)" "\<forall>f \<in> set fs. entry_ok f"
    using assms(5) by (simp_all add: folder_def put_key_def)
  obtain b' where b': "send_cput_command E (Suc m) (content_of u i) (listing fs) (listing (fs @ [f])) st =
      Ok (''+OK'' @ crlf, moved_to st b')"
    "live n b'" "snd (view b') = (snd (view b))((u, i @ '':content'') \<mapsto> listing (fs @ [f]) @ crlf)"
    "users_only (view b')"
    unfolding content_of_def
    using cput_text [OF assms(1-3) f(1-4) assms(8,4) f(5)] by blast
  have l: "listing (fs @ [f]) = listing fs @ file_line f @ [LF]" by simp
  have exist: "(if 0 < length (listing fs) then exist_same_fileName (fi_name f) (parse_content_fileNames (listing fs))
      else Ok False) = Ok False"
    using f(6) assms(7) by (simp add: same_name)
  have "send_cput_command_add E (Suc m) (content_of u i) (listing fs) (file_line f @ [LF]) (fi_name f) st =
      Ok (''+OK'' @ crlf, moved_to st b')"
    unfolding send_cput_command_add_def exist and_then.simps if_False
    using b'(1) ok_replies by (simp add: l cput_add_loop.simps del: append.simps)
  with b'(2-4) that show thesis by blast
qed

lemma remove_entry:
  assumes "exchange E = exch" "linked st b" "live (Suc n) b" "users_only (view b)" "folder (view b) u i fs"
    and "text_ok (listing (filter (\<lambda>f. fi_id f \<noteq> j) fs))"
  obtains b' where
    "send_cput_command_delete E (Suc m) (content_of u i) (listing fs) j st =
       Ok (j \<notin> fi_id ` set fs, ''+OK'' @ crlf, moved_to st b')"
    "live n b'" "users_only (view b')"
    "snd (view b') = (snd (view b))((u, i @ '':content'') \<mapsto> listing (filter (\<lambda>f. fi_id f \<noteq> j) fs) @ crlf)"
proof -
  have f: "name_small u" "name_small (i @ '':content'')" "CHR '':'' \<notin> set u" "text_ok (listing fs)"
    "snd (view b) (u, i @ '':content'') = Some (listing fs @ crlf)" "\<forall>f \<in> set fs. entry_ok f"
    using assms(5) by (simp_all add: folder_def put_key_def)
  obtain b' where b': "send_cput_command E (Suc m) (content_of u i) (listing fs) (listing (filter (\<lambda>f. fi_id f \<noteq> j) fs)) st =
      Ok (''+OK'' @ crlf, moved_to st b')"
    "live n b'" "snd (view b') = (snd (view b))((u, i @ '':content'') \<mapsto> listing (filter (\<lambda>f. fi_id f \<noteq> j) fs) @ crlf)"
    "users_only (view b')"
    unfolding content_of_def
    using cput_text [OF assms(1-3) f(1-4) assms(6,4) f(5)] by blast
  have "send_cput_command_delete E (Suc m) (content_of u i) (listing fs) j st =
      Ok (j \<notin> fi_id ` set fs, ''+OK'' @ crlf, moved_to st b')"
    unfolding send_cput_command_delete_def parse_listing [OF f(6)] drop_listing [OF f(6)] and_then.simps prod.case b'(1)
    using ok_replies by (simp add: cput_delete_loop.simps del: append.simps)
  with b'(2-4) that show thesis by blast
qed

lemma get_listing:
  assumes "exchange E = exch" "linked st b" "live (Suc n) b" "folder (view b) u i fs"
  obtains b' where "send_get_command E (Suc m) (content_of u i) st = Ok (listing fs, moved_to st b')"
    "live n b'" "view b' = view b"
  unfolding content_of_def
  using get_text [OF assms(1-3), where u=u and c="i @ '':content''" and d="listing fs" and m=m] assms(4) that
  by (auto simp: folder_def put_key_def content_of_def)

lemma upload_effect:
  assumes "exchange E = exch" "linked st b" "live (Suc (Suc (Suc (Suc n)))) b" "users_only (view b)"
    and "folder (view b) u i fs" "entry_ok f" "fi_file f" "fi_name f \<notin> fi_name ` set fs" "text_ok (listing (fs @ [f]))"
    and "put_key (u, fi_id f @ '':name'')" "put_key (u, fi_id f @ '':content'')"
    and "text_ok (fi_name f)" "text_ok (convert_binary_to_str x)"
  shows "\<exists>b'. upload_file E (Suc m) (fi_id f) (fi_time f) u i (fi_name f) x (fi_size f) st =
      Ok (True, (moved_to st b')\<lparr>files_in_path := files_insert f (files_in_path st)\<rparr>) \<and>
    live n b' \<and> users_only (view b') \<and>
    snd (view b') = (snd (view b))((u, i @ '':content'') \<mapsto> listing (fs @ [f]) @ crlf,
      (u, fi_id f @ '':name'') \<mapsto> fi_name f @ crlf, (u, fi_id f @ '':content'') \<mapsto> convert_binary_to_str x @ crlf)"
proof -
  have eok: "\<forall>f \<in> set fs. entry_ok f" and tok: "text_ok (listing fs)" using assms(5) by (simp_all add: folder_def)
  obtain b1 where b1: "send_get_command E (Suc m) (content_of u i) st = Ok (listing fs, moved_to st b1)"
    "live (Suc (Suc (Suc n))) b1" "view b1 = view b"
    by (rule get_listing [OF assms(1-3) assms(5)])
  have l1: "linked (moved_to st b1) b1" using assms(2) by simp
  obtain b2 where b2:
    "send_cput_command_add E (Suc m) (content_of u i) (listing fs) (file_line f @ [LF]) (fi_name f) (moved_to st b1) =
       Ok (''+OK'' @ crlf, moved_to st b2)"
    "live (Suc (Suc n)) b2" "users_only (view b2)"
    "snd (view b2) = (snd (view b))((u, i @ '':content'') \<mapsto> listing (fs @ [f]) @ crlf)"
    using add_entry [OF assms(1) l1 b1(2), where u=u and i=i and fs=fs and f=f and m=m] assms(4-9) b1(3) by auto
  have l2: "linked (moved_to st b2) b2" using assms(2) by simp
  obtain b3 where b3: "send_put_command E (Suc m) (name_of u (fi_id f)) (fi_name f) (moved_to st b2) =
      Ok (''+OK'' @ crlf, moved_to st b3)" "live (Suc n) b3" "users_only (view b3)"
    "snd (view b3) = (snd (view b2))((u, fi_id f @ '':name'') \<mapsto> fi_name f @ crlf)"
    unfolding name_of_def
    using put_text [OF assms(1) l2 b2(2) assms(10,12) b2(3), where m=m] by auto
  have l3: "linked (moved_to st b3) b3" using assms(2) by simp
  obtain b4 where b4: "send_put_command E (Suc m) (content_of u (fi_id f)) (convert_binary_to_str x) (moved_to st b3) =
      Ok (''+OK'' @ crlf, moved_to st b4)" "live n b4" "users_only (view b4)"
    "snd (view b4) = (snd (view b3))((u, fi_id f @ '':content'') \<mapsto> convert_binary_to_str x @ crlf)"
    unfolding content_of_def
    using put_text [OF assms(1) l3 b3(2) assms(11,13) b3(3), where m=m] by auto
  have rec: "\<lparr>fi_name = fi_name f, fi_id = fi_id f, fi_file = True, fi_time = fi_time f, fi_size = fi_size f\<rparr> = f"
    using assms(7) by (cases f) simp
  have ne: "listing fs \<noteq> ''-ERR NULL''" using tok by (simp add: text_ok_def)
  have "upload_file E (Suc m) (fi_id f) (fi_time f) u i (fi_name f) x (fi_size f) st =
      Ok (True, (moved_to st b4)\<lparr>files_in_path := files_insert f (files_in_path st)\<rparr>)"
    unfolding upload_file_def Let_def rec b1(1) and_then.simps prod.case if_not_P [OF ne] parse_listing [OF eok]
    using b2(1) b3(1) b4(1) ok_replies same_name [OF eok] assms(8)
    by (cases "fs = []") (simp_all del: append.simps)
  then show ?thesis using b2(4) b3(4) b4(2-4) by auto
qed

lemma download_effect:
  assumes "exchange E = exch" "linked st b" "live (Suc n) b" "map_at (files_in_path st) y = Some f"
    and "put_key (u, fi_id f @ '':content'')" "snd (view b) (u, fi_id f @ '':content'') = Some (convert_binary_to_str x @ crlf)"
    and "text_ok (convert_binary_to_str x)" "x \<noteq> []"
  shows "\<exists>b'. download_file E (Suc m) u y st = Ok (Some x, moved_to st b') \<and> live n b' \<and> view b' = view b"
proof -
  have ns: "name_small u" "name_small (fi_id f @ '':content'')" using assms(5) by (simp_all add: put_key_def)
  obtain b' where b': "send_get_command E (Suc m) (content_of u (fi_id f)) st = Ok (convert_binary_to_str x, moved_to st b')"
    "live n b'" "view b' = view b"
    unfolding content_of_def by (rule get_text [OF assms(1-3) ns assms(6,7)])
  have "convert_binary_to_str x \<noteq> ''-ERR NULL''" using assms(7) by (simp add: text_ok_def)
  moreover have "fits (convert_binary_to_str x)" using assms(7) by (simp add: text_ok_def fits_def npos_def)
  ultimately have "download_file E (Suc m) u y st = Ok (Some x, moved_to st b')"
    using b'(1) hex_back [OF _ assms(8)] assms(4) by (simp add: download_file_def entry_of_def)
  with b'(2,3) show ?thesis by blast
qed

lemma delete_effect:
  assumes "exchange E = exch" "linked st b" "live (Suc (Suc (Suc (Suc n)))) b" "users_only (view b)"
    and "folder (view b) u i fs" "map_at (files_in_path st) y = Some f" "fi_id f \<in> fi_id ` set fs"
    and "text_ok (listing (filter (\<lambda>g. fi_id g \<noteq> fi_id f) fs))"
    and "name_small (fi_id f @ '':name'')" "name_small (fi_id f @ '':content'')" "fi_id f \<noteq> i"
    and "snd (view b) (u, fi_id f @ '':name'') \<noteq> None" "snd (view b) (u, fi_id f @ '':content'') \<noteq> None"
  shows "\<exists>b'. store_delete_file E (Suc m) u i y st =
      Ok (True, (moved_to st b')\<lparr>files_in_path := map_erase y (files_in_path st)\<rparr>) \<and>
    live n b' \<and> users_only (view b') \<and>
    snd (view b') = (snd (view b))((u, i @ '':content'') \<mapsto> listing (filter (\<lambda>g. fi_id g \<noteq> fi_id f) fs) @ crlf,
      (u, fi_id f @ '':name'') := None, (u, fi_id f @ '':content'') := None)"
proof -
  have tok: "text_ok (listing fs)" and ns: "name_small u" using assms(5) by (simp_all add: folder_def put_key_def)
  have ne: "\<not> (listing fs = ''-ERR NULL'' \<or> length (listing fs) = 0)"
    using tok assms(7) by (auto simp: text_ok_def)
  obtain b1 where b1: "send_get_command E (Suc m) (content_of u i) st = Ok (listing fs, moved_to st b1)"
    "live (Suc (Suc (Suc n))) b1" "view b1 = view b"
    by (rule get_listing [OF assms(1-3) assms(5)])
  have l1: "linked (moved_to st b1) b1" using assms(2) by simp
  have f1: "users_only (view b1)" "folder (view b1) u i fs" using assms(4,5) b1(3) by simp_all
  obtain b2 where b2: "send_cput_command_delete E (Suc m) (content_of u i) (listing fs) (fi_id f) (moved_to st b1) =
       Ok (False, ''+OK'' @ crlf, moved_to st b2)"
    "live (Suc (Suc n)) b2" "users_only (view b2)"
    "snd (view b2) = (snd (view b))((u, i @ '':content'') \<mapsto> listing (filter (\<lambda>g. fi_id g \<noteq> fi_id f) fs) @ crlf)"
    using remove_entry [OF assms(1) l1 b1(2) f1 assms(8), where m=m] assms(7) b1(3) by auto
  have l2: "linked (moved_to st b2) b2" using assms(2) by simp
  have n2: "snd (view b2) (u, fi_id f @ '':name'') \<noteq> None" using assms(12) b2(4) by simp
  obtain b3 where b3: "send_delete_command E (Suc m) (name_of u (fi_id f)) (moved_to st b2) =
      Ok (''+OK deleted'' @ crlf, moved_to st b3)" "live (Suc n) b3" "users_only (view b3)"
    "snd (view b3) = (snd (view b2))((u, fi_id f @ '':name'') := None)"
    unfolding name_of_def
    using delete_text [OF assms(1) l2 b2(2) ns assms(9) b2(3) n2, where m=m] by auto
  have l3: "linked (moved_to st b3) b3" using assms(2) by simp
  have n3: "snd (view b3) (u, fi_id f @ '':content'') \<noteq> None" using assms(11,13) b2(4) b3(4) by simp
  obtain b4 where b4: "send_delete_command E (Suc m) (content_of u (fi_id f)) (moved_to st b3) =
      Ok (''+OK deleted'' @ crlf, moved_to st b4)" "live n b4" "users_only (view b4)"
    "snd (view b4) = (snd (view b3))((u, fi_id f @ '':content'') := None)"
    unfolding content_of_def
    using delete_text [OF assms(1) l3 b3(2) ns assms(10) b3(3) n3, where m=m] by auto
  have "store_delete_file E (Suc m) u i y st =
      Ok (True, (moved_to st b4)\<lparr>files_in_path := map_erase y (files_in_path st)\<rparr>)"
    unfolding store_delete_file_def nameToID_def entry_of_def assms(6) option.case and_then.simps b1(1) prod.case
      if_not_P [OF ne] b2(1) if_False
    using b3(1) b4(1) ok_replies(3) by (simp del: append.simps)
  then show ?thesis using b2(4) b3(4) b4(2-4) by auto
qed

lemma show_listing:
  "\<forall>f \<in> set fs. entry_ok f \<Longrightarrow>
     show_files (listing fs) st = Ok (fs, st\<lparr>files_in_path := foldl (\<lambda>m f. files_insert f m) [] fs\<rparr>)"
  by (simp add: show_files_def parse_lines)

lemma refresh_effect:
  assumes "exchange E = exch" "linked st b" "live (Suc n) b" "last_of_path st = Ok old"
    and "folder (view b) (userName st) (fi_id old) fs"
  obtains b' where "refresh_upload E (Suc m) st =
      Ok (Some fs, (moved_to st b')\<lparr>files_in_path := foldl (\<lambda>m f. files_insert f m) [] fs\<rparr>)"
    "live n b'" "view b' = view b"
proof -
  obtain b1 where b1: "send_get_command E (Suc m) (content_of (userName st) (fi_id old)) st = Ok (listing fs, moved_to st b1)"
    "live n b1" "view b1 = view b"
    by (rule get_listing [OF assms(1-3) assms(5)])
  have ne: "listing fs \<noteq> ''-ERR NULL''" and ok: "\<forall>f \<in> set fs. entry_ok f"
    using assms(5) by (simp_all add: folder_def text_ok_def)
  have "refresh_upload E (Suc m) st =
      Ok (Some fs, (moved_to st b1)\<lparr>files_in_path := foldl (\<lambda>m f. files_insert f m) [] fs\<rparr>)"
    unfolding refresh_upload_def assms(4) and_then.simps b1(1) prod.case if_not_P [OF ne]
    by (cases fs) (simp_all add: show_listing ok del: listing_simps(2))
  with b1(2,3) that show thesis by blast
qed

lemma move_effect:
  assumes "exchange E = exch" "linked st b" "live (Suc (Suc (Suc (Suc (Suc n))))) b" "users_only (view b)"
    and "last_of_path st = Ok old" "map_at (files_in_path st) z = Some new" "map_at (files_in_path st) (fi_name f) = Some f"
    and "folder (view b) (userName st) (fi_id old) fs" "folder (view b) (userName st) (fi_id new) gs"
    and "fi_id old \<noteq> fi_id new" "fi_id f \<in> fi_id ` set fs" "entry_ok f" "fi_name f \<notin> fi_name ` set gs"
    and "text_ok (listing (filter (\<lambda>g. fi_id g \<noteq> fi_id f) fs))" "text_ok (listing (gs @ [f]))"
    and "\<not> contains (listing gs) ''-ERR NULL''"
  shows "\<exists>b'. move_file E (Suc m) z (fi_name f) st = Ok (True, (moved_to st b')\<lparr>files_in_path :=
      foldl (\<lambda>m g. files_insert g m) [] (filter (\<lambda>g. fi_id g \<noteq> fi_id f) fs)\<rparr>) \<and>
    live n b' \<and> users_only (view b') \<and>
    snd (view b') = (snd (view b))((userName st, fi_id old @ '':content'') \<mapsto> listing (filter (\<lambda>g. fi_id g \<noteq> fi_id f) fs) @ crlf,
      (userName st, fi_id new @ '':content'') \<mapsto> listing (gs @ [f]) @ crlf)"
proof -
  let ?fs = "filter (\<lambda>g. fi_id g \<noteq> fi_id f) fs" and ?u = "userName st"
  have ne: "\<not> (listing fs = ''-ERR NULL'' \<or> length (listing fs) = 0)"
    using assms(8,11) by (auto simp: folder_def text_ok_def)
  obtain b1 where b1: "send_get_command E (Suc m) (content_of ?u (fi_id old)) st = Ok (listing fs, moved_to st b1)"
    "live (Suc (Suc (Suc (Suc n)))) b1" "view b1 = view b"
    by (rule get_listing [OF assms(1-3) assms(8)])
  have l: "linked (moved_to st b'') b''" for b'' using assms(2) by simp
  have f1: "users_only (view b1)" "folder (view b1) ?u (fi_id old) fs" using assms(4,8) b1(3) by simp_all
  obtain b2 where b2: "send_cput_command_delete E (Suc m) (content_of ?u (fi_id old)) (listing fs) (fi_id f) (moved_to st b1) =
       Ok (False, ''+OK'' @ crlf, moved_to st b2)"
    "live (Suc (Suc (Suc n))) b2" "users_only (view b2)"
    "snd (view b2) = (snd (view b))((?u, fi_id old @ '':content'') \<mapsto> listing ?fs @ crlf)"
    using remove_entry [OF assms(1) l b1(2) f1 assms(14), where m=m] assms(11) b1(3) by auto
  have f2: "folder (view b2) ?u (fi_id new) gs" using assms(9,10) b2(4) by (simp add: folder_def)
  obtain b3 where b3: "send_get_command E (Suc m) (content_of ?u (fi_id new)) (moved_to st b2) = Ok (listing gs, moved_to st b3)"
    "live (Suc (Suc n)) b3" "view b3 = view b2"
    using get_listing [OF assms(1) l b2(2) f2, where m=m] by auto
  have f3: "users_only (view b3)" "folder (view b3) ?u (fi_id new) gs" using b2(3) f2 b3(3) by simp_all
  obtain b4 where b4: "send_cput_command_add E (Suc m) (content_of ?u (fi_id new)) (listing gs) (file_line f @ [LF])
       (fi_name f) (moved_to st b3) = Ok (''+OK'' @ crlf, moved_to st b4)"
    "live (Suc n) b4" "users_only (view b4)"
    "snd (view b4) = (snd (view b3))((?u, fi_id new @ '':content'') \<mapsto> listing (gs @ [f]) @ crlf)"
    using add_entry [OF assms(1) l b3(2) f3 assms(12,13,15), where m=m] by auto
  have f4: "folder (view b4) (userName (moved_to st b4)) (fi_id old) ?fs"
    using assms(8,10,14) b2(4) b3(3) b4(4) by (auto simp: folder_def)
  have p4: "last_of_path (moved_to st b4) = Ok old"
    using assms(5) by (simp add: last_of_path_def path_at_def split: if_splits)
  obtain b5 where b5: "refresh_upload E (Suc m) (moved_to st b4) =
      Ok (Some ?fs, (moved_to st b5)\<lparr>files_in_path := foldl (\<lambda>m f. files_insert f m) [] ?fs\<rparr>)"
    "live n b5" "view b5 = view b4"
    using refresh_effect [OF assms(1) l b4(2) p4 f4, where m=m] by auto
  have "move_file E (Suc m) z (fi_name f) st = Ok (True, (moved_to st b5)\<lparr>files_in_path :=
      foldl (\<lambda>m g. files_insert g m) [] ?fs\<rparr>)"
    unfolding move_file_def assms(5) entry_of_def assms(6,7) option.case and_then.simps Let_def
    using assms(16) b1(1) ne b2(1) b3(1) b4(1) b5(1) ok_replies
    by (simp del: append.simps)
  then show ?thesis using b2(4) b3(3) b4(3,4) b5(2,3) by auto
qed

end

end
