(* ===== verification/File_Service.thy ===== *)
theory File_Service
  imports File_Store_Props Master
begin

text \<open>
  The file library over the data server: the interface \<open>kv_service\<close> interpreted on the worker of the
  primary, one request per read, and on a primary that fails and is replaced. The properties of the
  operations on files then hold for the two programs together.
\<close>

section \<open>The data server as a service\<close>

text \<open>One command and the answer the worker sends for it; a worker that ends closes the connection.\<close>

definition worker_exchange :: "string \<Rightarrow> worker \<Rightarrow> rd list \<times> worker" where
  "worker_exchange msg c =
     (case run_step (c\<lparr>inp := [Bytes msg]\<rparr>) of
        Ok c' \<Rightarrow> ([Bytes (drop (length (sent (task c))) (sent (task c')))], c')
      | _ \<Rightarrow> ([Bytes []], c))"

definition can_serve :: "nat \<Rightarrow> worker \<Rightarrow> bool" where
  "can_serve n c \<longleftrightarrow> ready c \<and> seqID (sstate c) + int n \<le> long_max"

lemma ready_inp [simp]: "ready (c\<lparr>inp := es\<rparr>) = ready c"
  by (simp add: ready_def server_ok_def log_open_def)

interpretation dataserver: kv_service worker_exchange "\<lambda>c. abs_store (tbl c)" can_serve
proof unfold_locales
  fix n c q
  assume a: "can_serve (Suc n) c" "req_ok q" "put_safe q (abs_store (tbl c))"
  obtain c' where c': "run_step (c\<lparr>inp := [Bytes (req_text q)]\<rparr>) = Ok c'" "ready c'"
    "sent (task c') = sent (task c) @ fst (serve q (abs_store (tbl c)))"
    "abs_store (tbl c') = snd (serve q (abs_store (tbl c)))" "seqID (sstate c') \<le> seqID (sstate c) + 1"
    using serve_step [of "c\<lparr>inp := [Bytes (req_text q)]\<rparr>" q "[]"] a by (auto simp: can_serve_def)
  then have "worker_exchange (req_text q) c = ([Bytes (fst (serve q (abs_store (tbl c))))], c')"
    by (simp add: worker_exchange_def)
  then show "\<exists>c'. worker_exchange (req_text q) c = ([Bytes (fst (serve q (abs_store (tbl c))))], c') \<and>
      can_serve n c' \<and> abs_store (tbl c') = snd (serve q (abs_store (tbl c)))"
    using c' a(1) by (auto simp: can_serve_def)
qed

text \<open>A primary that is down until the client has asked the master for the new one.\<close>

definition failover_exchange :: "string \<Rightarrow> bool \<times> worker \<Rightarrow> rd list \<times> (bool \<times> worker)" where
  "failover_exchange msg b =
     (if fst b then ([Bytes []], b)
      else case worker_exchange msg (snd b) of (es, c) \<Rightarrow> (es, (False, c)))"

definition failover :: "sockaddr_in \<Rightarrow> (bool \<times> worker) backend" where
  "failover a = \<lparr>exchange = failover_exchange, ask_master = \<lambda>m b. ([Bytes (server_reply a)], b),
     connect_to = \<lambda>addr b. Some (False, snd b)\<rparr>"

interpretation failover: kv_service failover_exchange "\<lambda>b. abs_store (tbl (snd b))" "\<lambda>n b. \<not> fst b \<and> can_serve n (snd b)"
proof unfold_locales
  fix n q and b :: "bool \<times> worker"
  assume "\<not> fst b \<and> can_serve (Suc n) (snd b)" "req_ok q" "put_safe q (abs_store (tbl (snd b)))"
  then show "\<exists>b'. failover_exchange (req_text q) b = ([Bytes (fst (serve q (abs_store (tbl (snd b)))))], b') \<and>
      (\<not> fst b' \<and> can_serve n (snd b')) \<and> abs_store (tbl (snd b')) = snd (serve q (abs_store (tbl (snd b))))"
    using dataserver.request_law [of n "snd b" q] by (auto simp: failover_exchange_def)
qed

section \<open>Uploads and downloads\<close>

lemma hex_chars: "c \<in> set (convert_binary_to_str x) \<Longrightarrow> c \<notin> {CHR ''-'', CHR ''S'', CHR ''.'', CR, CHR 0x00}"
proof -
  assume "c \<in> set (convert_binary_to_str x)"
  then obtain b where "c \<in> set (hex_byte b)" by (auto simp: convert_binary_to_str_def)
  moreover have "(of_char b :: nat) < 256" by (rule nat_of_char_less_256)
  then have "(of_char b :: nat) div 16 < 16" "(of_char b :: nat) mod 16 < 16" by linarith+
  ultimately show ?thesis
    using hex_digit_plain [of "of_char b div 16"] hex_digit_plain [of "of_char b mod 16"]
    by (auto simp: hex_byte_def)
qed

lemma hex_text_ok:
  assumes "length x \<le> 950000"
  shows "text_ok (convert_binary_to_str x)"
proof -
  let ?h = "convert_binary_to_str x"
  have c: "CHR ''-'' \<notin> set ?h" "CHR ''S'' \<notin> set ?h" "CHR ''.'' \<notin> set ?h" "CR \<notin> set ?h" "CHR 0x00 \<notin> set ?h"
    using hex_chars by auto
  have "length ?h = 2 * length x" by (induction x) (simp_all add: convert_binary_to_str_def hex_byte_def)
  moreover have "?h \<noteq> ''.''" "?h \<noteq> ''SERVER CRASH''" "?h \<noteq> ''-ERR NULL''" using c by auto
  moreover have "\<not> contains ?h shutting_down"
    using sfind_absent [of "CHR ''-''" ?h "''ERR Server shutting down''"] c(1) by (simp add: contains_def)
  ultimately show ?thesis using c assms by (simp add: text_ok_def)
qed

text \<open>
  C18. An uploaded file can be downloaded: on a primary that is up, for a folder with the listing
  \<open>fs\<close> and a new name, the upload succeeds, appends exactly one entry to the listing, stores name and
  content under the new identifier, changes no other cell, and the download returns the bytes that
  were uploaded.
\<close>

theorem upload_download:
  assumes "exchange E = worker_exchange" "linked st c" "can_serve 5 c" "users_only (abs_store (tbl c))"
    and "folder (abs_store (tbl c)) u i fs" "entry_ok f" "fi_file f" "fi_name f \<notin> fi_name ` set fs"
    and "text_ok (listing (fs @ [f]))" "text_ok (fi_name f)"
    and "put_key (u, fi_id f @ '':name'')" "put_key (u, fi_id f @ '':content'')"
    and "map_at (files_in_path st) (fi_name f) = None" "x \<noteq> []" "length x \<le> 950000"
  shows "\<exists>st1 c1. upload_file E (Suc m) (fi_id f) (fi_time f) u i (fi_name f) x (fi_size f) st = Ok (True, st1) \<and>
    linked st1 c1 \<and> cell_get (tbl c1) = (cell_get (tbl c))((u, i @ '':content'') \<mapsto> listing (fs @ [f]) @ crlf,
      (u, fi_id f @ '':name'') \<mapsto> fi_name f @ crlf, (u, fi_id f @ '':content'') \<mapsto> convert_binary_to_str x @ crlf) \<and>
    (\<exists>st2. download_file E (Suc m) u (fi_name f) st1 = Ok (Some x, st2))"
proof -
  have n: "5 = Suc (Suc (Suc (Suc 1)))" "(1::nat) = Suc 0" by simp_all
  note up = dataserver.upload_effect [OF assms(1,2) assms(3) [unfolded n(1)] assms(4-9,11,12,10) hex_text_ok [OF assms(15)], of m]
  obtain c1 where c1: "upload_file E (Suc m) (fi_id f) (fi_time f) u i (fi_name f) x (fi_size f) st =
      Ok (True, (moved_to st c1)\<lparr>files_in_path := files_insert f (files_in_path st)\<rparr>)"
    "can_serve 1 c1"
    "snd (abs_store (tbl c1)) = (snd (abs_store (tbl c)))((u, i @ '':content'') \<mapsto> listing (fs @ [f]) @ crlf,
      (u, fi_id f @ '':name'') \<mapsto> fi_name f @ crlf, (u, fi_id f @ '':content'') \<mapsto> convert_binary_to_str x @ crlf)"
    using up by blast
  let ?st1 = "(moved_to st c1)\<lparr>files_in_path := files_insert f (files_in_path st)\<rparr>"
  have l: "linked ?st1 c1" using assms(2) by (simp add: linked_def moved_to_def)
  have at: "map_at (files_in_path ?st1) (fi_name f) = Some f"
    using assms(13) by (simp add: files_insert_def map_has_def)
  have cell: "snd (abs_store (tbl c1)) (u, fi_id f @ '':content'') = Some (convert_binary_to_str x @ crlf)"
    using c1(3) by simp
  have "\<exists>st2. download_file E (Suc m) u (fi_name f) ?st1 = Ok (Some x, st2)"
    using dataserver.download_effect [OF assms(1) l c1(2) [unfolded n(2)] at assms(12) cell hex_text_ok [OF assms(15)] assms(14)]
    by blast
  with c1(1,3) l show ?thesis by (auto simp: abs_store_def)
qed

definition demo_files :: "(key \<times> string) list \<Rightarrow> worker" where
  "demo_files kvs = (demo_server [])\<lparr>tbl := foldr (\<lambda>(k, v) t. cell_put k (v @ crlf) t) kvs []\<rparr>"

lemma demo_files_serve [simp]: "n \<le> 1000 \<Longrightarrow> can_serve n (demo_files kvs)"
proof -
  assume n: "n \<le> 1000"
  have "table_ok (foldr (\<lambda>(k, v) t. cell_put k (v @ crlf) t) kvs [])"
    by (induction kvs) (auto simp: table_ok_put)
  then have "ready (demo_files kvs)" using demo_ready [of "[]"] by (simp add: demo_files_def ready_def server_ok_def log_open_def)
  then show ?thesis using n by (simp add: can_serve_def demo_files_def long_max_def)
qed

lemma demo_files_store:
  "abs_store (tbl (demo_files kvs)) = (fst ` fst ` set kvs, map_of (map (\<lambda>(k, v). (k, v @ crlf)) kvs))"
proof -
  have "abs_store [] = ({}, Map.empty)"
    by (simp add: abs_store_def map_has_def cell_get_def row_of_def fun_eq_iff)
  then have "abs_store (foldr (\<lambda>(k, v) t. cell_put k (v @ crlf) t) kvs []) =
      (fst ` fst ` set kvs, map_of (map (\<lambda>(k, v). (k, v @ crlf)) kvs))"
    by (induction kvs) (auto simp: abs_put)
  then show ?thesis by (simp add: demo_files_def)
qed

lemma demo_files_cell [simp]: "cell_get (tbl (demo_files kvs)) = map_of (map (\<lambda>(k, v). (k, v @ crlf)) kvs)"
  using demo_files_store [of kvs] by (simp add: abs_store_def)

definition demo_backend :: "worker backend" where
  "demo_backend = \<lparr>exchange = worker_exchange, ask_master = \<lambda>m b. ([], b), connect_to = \<lambda>a b. None\<rparr>"

definition demo_storage :: "file_info list \<Rightarrow> file_info list \<Rightarrow> 'b \<Rightarrow> 'b storage" where
  "demo_storage p fs b = \<lparr>userName = ''al'', cur_path = p,
     files_in_path = foldl (\<lambda>m f. files_insert f m) [] fs, crash_flag = False, sock = [], peer = Some b\<rparr>"

lemma demo_linked [simp]: "linked (demo_storage p fs b) b"
  by (simp add: linked_def demo_storage_def)

lemma demo_storage_simps [simp]:
  "userName (demo_storage p fs b) = ''al''" "cur_path (demo_storage p fs b) = p"
  "files_in_path (demo_storage p fs b) = foldl (\<lambda>m f. files_insert f m) [] fs"
  by (simp_all add: demo_storage_def)

lemmas demo_defs = put_key_def name_small_def plain_name_def name_ok_def text_ok_def contains_def folder_def
  users_only_def demo_file_def file_line_def

theorem upload_download_witness:
  "\<exists>st1. upload_file demo_backend 1 ''7'' ''t'' ''al'' ''s'' ''a.txt'' ''xyz'' ''3''
      (demo_storage [] [] (demo_files [((''al'', ''s:content''), [])])) = Ok (True, st1) \<and>
    (\<exists>st2. download_file demo_backend 1 ''al'' ''a.txt'' st1 = Ok (Some ''xyz'', st2))"
proof -
  let ?c = "demo_files [((''al'', ''s:content''), [])]"
  let ?st = "demo_storage [] [] ?c"
  have "\<exists>st1 c1. upload_file demo_backend (Suc 0) (fi_id demo_file) (fi_time demo_file) ''al'' ''s'' (fi_name demo_file) ''xyz''
       (fi_size demo_file) ?st = Ok (True, st1) \<and>
    linked st1 c1 \<and> cell_get (tbl c1) = (cell_get (tbl ?c))((''al'', ''s'' @ '':content'') \<mapsto> listing ([] @ [demo_file]) @ crlf,
      (''al'', fi_id demo_file @ '':name'') \<mapsto> fi_name demo_file @ crlf,
      (''al'', fi_id demo_file @ '':content'') \<mapsto> convert_binary_to_str ''xyz'' @ crlf) \<and>
    (\<exists>st2. download_file demo_backend (Suc 0) ''al'' (fi_name demo_file) st1 = Ok (Some ''xyz'', st2))"
    by (rule upload_download)
       (simp_all add: demo_backend_def demo_files_store demo_defs demo_storage_def linked_def entry_ok_def
         field_ok_def fits_def npos_def)
  then show ?thesis by (auto simp: demo_file_def)
qed

section \<open>Deleting and moving\<close>

text \<open>
  C19. Deleting a file removes exactly its entries: the line with its identifier leaves the folder's
  listing, its name and content cells are deleted, every other cell stays, and the file leaves the
  client's table. The folder's listing can be shown again afterwards.
\<close>

theorem delete_file_effect:
  assumes "exchange E = worker_exchange" "linked st c" "can_serve 4 c" "users_only (abs_store (tbl c))"
    and "folder (abs_store (tbl c)) u i fs" "map_at (files_in_path st) y = Some f" "fi_id f \<in> fi_id ` set fs"
    and "text_ok (listing (filter (\<lambda>g. fi_id g \<noteq> fi_id f) fs))"
    and "name_small (fi_id f @ '':name'')" "name_small (fi_id f @ '':content'')" "fi_id f \<noteq> i"
    and "cell_get (tbl c) (u, fi_id f @ '':name'') \<noteq> None" "cell_get (tbl c) (u, fi_id f @ '':content'') \<noteq> None"
  shows "\<exists>st' c'. store_delete_file E (Suc m) u i y st = Ok (True, st') \<and> linked st' c' \<and>
    files_in_path st' = map_erase y (files_in_path st) \<and>
    cell_get (tbl c') = (cell_get (tbl c))((u, i @ '':content'') \<mapsto> listing (filter (\<lambda>g. fi_id g \<noteq> fi_id f) fs) @ crlf,
      (u, fi_id f @ '':name'') := None, (u, fi_id f @ '':content'') := None)"
proof -
  have n: "(4::nat) = Suc (Suc (Suc (Suc 0)))" by simp
  have cells: "snd (abs_store (tbl c)) (u, fi_id f @ '':name'') \<noteq> None"
    "snd (abs_store (tbl c)) (u, fi_id f @ '':content'') \<noteq> None"
    using assms(12,13) by (simp_all add: abs_store_def)
  obtain c' where c': "store_delete_file E (Suc m) u i y st =
      Ok (True, (moved_to st c')\<lparr>files_in_path := map_erase y (files_in_path st)\<rparr>)"
    "snd (abs_store (tbl c')) = (snd (abs_store (tbl c)))((u, i @ '':content'') \<mapsto> listing (filter (\<lambda>g. fi_id g \<noteq> fi_id f) fs) @ crlf,
      (u, fi_id f @ '':name'') := None, (u, fi_id f @ '':content'') := None)"
    using dataserver.delete_effect [OF assms(1,2) assms(3) [unfolded n] assms(4-11) cells, of m] by blast
  then show ?thesis using assms(2) by (auto simp: abs_store_def linked_def moved_to_def)
qed

theorem delete_file_effect_witness:
  "\<exists>st' c'. store_delete_file demo_backend 1 ''al'' ''s'' ''a.txt'' (demo_storage [] [demo_file]
      (demo_files [((''al'', ''s:content''), listing [demo_file]), ((''al'', ''7:name''), ''a.txt''),
        ((''al'', ''7:content''), ''78'')])) = Ok (True, st') \<and> linked st' c' \<and> files_in_path st' = [] \<and>
    cell_get (tbl c') (''al'', ''s:content'') = Some crlf \<and> cell_get (tbl c') (''al'', ''7:content'') = None"
proof -
  let ?c = "demo_files [((''al'', ''s:content''), listing [demo_file]), ((''al'', ''7:name''), ''a.txt''),
        ((''al'', ''7:content''), ''78'')]"
  let ?st = "demo_storage [] [demo_file] ?c"
  have "\<exists>st' c'. store_delete_file demo_backend (Suc 0) ''al'' ''s'' ''a.txt'' ?st = Ok (True, st') \<and> linked st' c' \<and>
    files_in_path st' = map_erase ''a.txt'' (files_in_path ?st) \<and>
    cell_get (tbl c') = (cell_get (tbl ?c))((''al'', ''s'' @ '':content'') \<mapsto>
        listing (filter (\<lambda>g. fi_id g \<noteq> fi_id demo_file) [demo_file]) @ crlf,
      (''al'', fi_id demo_file @ '':name'') := None, (''al'', fi_id demo_file @ '':content'') := None)"
  proof (rule delete_file_effect)
    show "can_serve 4 ?c" by simp
    show "map_at (files_in_path ?st) ''a.txt'' = Some demo_file"
      by (simp add: demo_storage_def files_insert_def map_has_def demo_file_def)
  qed (simp_all add: demo_backend_def demo_files_store demo_defs linked_def entry_ok_def field_ok_def fits_def npos_def
      demo_storage_def)
  then obtain st' c' where h: "store_delete_file demo_backend (Suc 0) ''al'' ''s'' ''a.txt'' ?st = Ok (True, st')"
    "linked st' c'" "files_in_path st' = map_erase ''a.txt'' (files_in_path ?st)"
    "cell_get (tbl c') = (cell_get (tbl ?c))((''al'', ''s'' @ '':content'') \<mapsto>
        listing (filter (\<lambda>g. fi_id g \<noteq> fi_id demo_file) [demo_file]) @ crlf,
      (''al'', fi_id demo_file @ '':name'') := None, (''al'', fi_id demo_file @ '':content'') := None)"
    by blast
  have "files_in_path st' = []" unfolding h(3) by (simp add: files_insert_def map_has_def demo_file_def)
  moreover have "cell_get (tbl c') (''al'', ''s:content'') = Some crlf" "cell_get (tbl c') (''al'', ''7:content'') = None"
    unfolding h(4) by (simp_all add: demo_file_def)
  ultimately show ?thesis using h(1,2) unfolding One_nat_def by blast
qed

text \<open>
  C20. Moving a file conserves it: its line leaves the old folder's listing and is appended to the new
  folder's, no other cell changes, and the client shows the rest of the old folder.
\<close>

theorem move_file_effect:
  assumes "exchange E = worker_exchange" "linked st c" "can_serve 5 c" "users_only (abs_store (tbl c))"
    and "last_of_path st = Ok old" "map_at (files_in_path st) z = Some new" "map_at (files_in_path st) (fi_name f) = Some f"
    and "folder (abs_store (tbl c)) (userName st) (fi_id old) fs" "folder (abs_store (tbl c)) (userName st) (fi_id new) gs"
    and "fi_id old \<noteq> fi_id new" "fi_id f \<in> fi_id ` set fs" "entry_ok f" "fi_name f \<notin> fi_name ` set gs"
    and "text_ok (listing (filter (\<lambda>g. fi_id g \<noteq> fi_id f) fs))" "text_ok (listing (gs @ [f]))"
    and "\<not> contains (listing gs) ''-ERR NULL''"
  shows "\<exists>st' c'. move_file E (Suc m) z (fi_name f) st = Ok (True, st') \<and> linked st' c' \<and>
    files_in_path st' = foldl (\<lambda>m g. files_insert g m) [] (filter (\<lambda>g. fi_id g \<noteq> fi_id f) fs) \<and>
    cell_get (tbl c') = (cell_get (tbl c))
      ((userName st, fi_id old @ '':content'') \<mapsto> listing (filter (\<lambda>g. fi_id g \<noteq> fi_id f) fs) @ crlf,
       (userName st, fi_id new @ '':content'') \<mapsto> listing (gs @ [f]) @ crlf)"
proof -
  have n: "(5::nat) = Suc (Suc (Suc (Suc (Suc 0))))" by simp
  obtain c' where c': "move_file E (Suc m) z (fi_name f) st = Ok (True, (moved_to st c')\<lparr>files_in_path :=
      foldl (\<lambda>m g. files_insert g m) [] (filter (\<lambda>g. fi_id g \<noteq> fi_id f) fs)\<rparr>)"
    "snd (abs_store (tbl c')) = (snd (abs_store (tbl c)))
      ((userName st, fi_id old @ '':content'') \<mapsto> listing (filter (\<lambda>g. fi_id g \<noteq> fi_id f) fs) @ crlf,
       (userName st, fi_id new @ '':content'') \<mapsto> listing (gs @ [f]) @ crlf)"
    using dataserver.move_effect [OF assms(1,2) assms(3) [unfolded n] assms(4-16), of m] by blast
  then show ?thesis using assms(2) by (auto simp: abs_store_def linked_def moved_to_def)
qed

definition demo_dir :: "string \<Rightarrow> string \<Rightarrow> file_info" where
  "demo_dir n i = \<lparr>fi_name = n, fi_id = i, fi_file = False, fi_time = ''t'', fi_size = ''0''\<rparr>"

theorem move_file_effect_witness:
  "\<exists>st' c'. move_file demo_backend 1 ''d'' ''a.txt'' (demo_storage [demo_dir ''storage'' ''s''] [demo_dir ''d'' ''8'', demo_file]
      (demo_files [((''al'', ''s:content''), listing [demo_dir ''d'' ''8'', demo_file]), ((''al'', ''8:content''), [])])) =
      Ok (True, st') \<and> linked st' c' \<and> cell_get (tbl c') (''al'', ''8:content'') = Some (listing [demo_file] @ crlf)"
proof -
  let ?fs = "[demo_dir ''d'' ''8'', demo_file]"
  let ?c = "demo_files [((''al'', ''s:content''), listing ?fs), ((''al'', ''8:content''), [])]"
  let ?st = "demo_storage [demo_dir ''storage'' ''s''] ?fs ?c"
  have sz: "szsub (Suc 0) (Suc 0) = 0" by (simp add: size_defs)
  have "\<exists>st' c'. move_file demo_backend (Suc 0) ''d'' (fi_name demo_file) ?st = Ok (True, st') \<and> linked st' c' \<and>
    files_in_path st' = foldl (\<lambda>m g. files_insert g m) [] (filter (\<lambda>g. fi_id g \<noteq> fi_id demo_file) ?fs) \<and>
    cell_get (tbl c') = (cell_get (tbl ?c))
      ((userName ?st, fi_id (demo_dir ''storage'' ''s'') @ '':content'') \<mapsto>
         listing (filter (\<lambda>g. fi_id g \<noteq> fi_id demo_file) ?fs) @ crlf,
       (userName ?st, fi_id (demo_dir ''d'' ''8'') @ '':content'') \<mapsto> listing ([] @ [demo_file]) @ crlf)"
  proof (rule move_file_effect)
    show "last_of_path ?st = Ok (demo_dir ''storage'' ''s'')"
      by (simp add: last_of_path_def path_at_def demo_storage_def sz)
    show "map_at (files_in_path ?st) ''d'' = Some (demo_dir ''d'' ''8'')"
      "map_at (files_in_path ?st) (fi_name demo_file) = Some demo_file"
      by (simp_all add: demo_storage_def files_insert_def map_has_def demo_file_def demo_dir_def)
  qed (simp_all add: demo_backend_def demo_files_store demo_defs entry_ok_def field_ok_def fits_def npos_def demo_dir_def)
  then obtain st' c' where h: "move_file demo_backend (Suc 0) ''d'' (fi_name demo_file) ?st = Ok (True, st')" "linked st' c'"
    "cell_get (tbl c') = (cell_get (tbl ?c))
      ((userName ?st, fi_id (demo_dir ''storage'' ''s'') @ '':content'') \<mapsto>
         listing (filter (\<lambda>g. fi_id g \<noteq> fi_id demo_file) ?fs) @ crlf,
       (userName ?st, fi_id (demo_dir ''d'' ''8'') @ '':content'') \<mapsto> listing ([] @ [demo_file]) @ crlf)"
    by blast
  have "cell_get (tbl c') (''al'', ''8:content'') = Some (listing [demo_file] @ crlf)"
    unfolding h(3) by (simp add: demo_dir_def)
  moreover have "fi_name demo_file = ''a.txt''" by (simp add: demo_file_def)
  ultimately show ?thesis using h(1,2) unfolding One_nat_def by metis
qed

section \<open>A compare-and-swap across a failure\<close>

lemma addr_text_short:
  assumes "addr_ok a"
  shows "length (ip_to_string a) \<le> 21"
proof -
  obtain p q r s where o4: "sin_addr a = (p, q, r, s)" by (cases "sin_addr a")
  have "length (show_nat n) \<le> 3" if "n < 256" for n using show_nat_short [of n 3] that by simp
  moreover have "length (show_nat (sin_port a)) \<le> 5"
    using show_nat_short [of "sin_port a" 5] assms by (simp add: addr_ok_def)
  moreover have "p < 256" "q < 256" "r < 256" "s < 256" using assms o4 by (simp_all add: addr_ok_def)
  ultimately have "length (show_nat p) \<le> 3" "length (show_nat q) \<le> 3" "length (show_nat r) \<le> 3"
    "length (show_nat s) \<le> 3" "length (show_nat (sin_port a)) \<le> 5" by blast+
  then show ?thesis by (simp add: ip_to_string_def o4)
qed

lemma angle_skip:
  "CHR ''<'' \<notin> set x \<Longrightarrow> CHR ''>'' \<notin> set x \<Longrightarrow> angle_scan (x @ y) i j = angle_scan y (i + length x) j"
  by (induction x arbitrary: i) auto

lemma server_of_reply:
  assumes "addr_ok a"
  shows "server_address (server_reply a) = Ok (ip_to_string a)"
proof -
  have no: "CHR ''<'' \<notin> set (ip_to_string a)" "CHR ''>'' \<notin> set (ip_to_string a)"
    using show_nat_absent [of "CHR ''<''"] show_nat_absent [of "CHR ''>''"]
    by (auto simp: ip_to_string_def is_digit_def split: prod.splits)
  have "angle_scan (server_reply a) 0 0 = (8 + length (ip_to_string a), 7)"
    using angle_skip [OF no, of "''>'' @ crlf" 8 7] by (simp add: server_reply_def numeral_eq_Suc)
  moreover have "szadd 7 1 = 8" "szsub (8 + length (ip_to_string a)) 7 = Suc (length (ip_to_string a))"
    "szsub (Suc (length (ip_to_string a))) 1 = length (ip_to_string a)"
    using addr_text_short [OF assms] by (simp_all add: npos_def)
  ultimately show ?thesis by (simp add: server_address_def server_reply_def)
qed

lemma recover_failover:
  assumes "linked st (True, c)" "addr_ok a" "length (userName st) \<le> 80"
  shows "server_recover (failover a) (st\<lparr>sock := [], crash_flag := True\<rparr>) = Ok (st\<lparr>sock := [], peer := Some (False, c), crash_flag := False\<rparr>)"
proof -
  have m: "where_message (userName st) = Ok (''Where <'' @ userName st @ ''>'' @ crlf)"
    using assms(3) by (simp add: where_message_def crlf_def)
  have nul: "CHR 0x00 \<notin> set (server_reply a)"
    by (cases "sin_addr a") (simp add: server_reply_def ip_to_string_def crlf_def)
  have len: "length (server_reply a) < 100"
    using addr_text_short [OF assms(2)] by (simp add: server_reply_def crlf_def)
  have "contains (server_reply a) crlf"
    using sfind_middle [of crlf "''SERVER <'' @ ip_to_string a @ ''>''" "[]"] by (simp add: contains_def server_reply_def)
  then have rd: "mc_do_read [] [Bytes (server_reply a)] = Ok (server_reply a, [])"
    using nul len by (subst mc_do_read.simps) simp
  have "sfind '':'' (ip_to_string a) \<noteq> None" by (cases "sin_addr a") (simp add: ip_to_string_def)
  then obtain i where i: "sfind '':'' (ip_to_string a) = Some i" "i + 1 \<le> length (ip_to_string a)"
    using sfind_length by fastforce
  then have "\<exists>p. parse_addr (ip_to_string a) = Ok p"
    by (simp add: parse_addr_def)
  then show ?thesis
    using assms(1) by (auto simp: server_recover_def linked_def m failover_def sendto_backend_def rd server_of_reply assms(2))
qed

text \<open>
  C27. A compare-and-swap during a failure of the primary reports the wrong result: after it has found
  the new primary, the client sends the command twice. The first time succeeds and changes the cell,
  the second time compares with the old value and fails, so the caller is told \<open>-ERR\<close> although the
  new value is stored.
\<close>

theorem cput_after_failure:
  assumes "linked st (True, c)" "can_serve 2 c" "addr_ok a" "length (userName st) \<le> 80"
    and "name_small u" "name_small col" "CHR '':'' \<notin> set u" "text_ok d" "text_ok d'" "d \<noteq> d'"
    and "users_only (abs_store (tbl c))" "cell_get (tbl c) (u, col) = Some (d @ crlf)"
  shows "\<exists>st' c'. send_cput_command (failover a) (Suc (Suc m)) (command_parser u col) d d' st = Ok (''-ERR'' @ crlf, st') \<and>
    linked st' (False, c') \<and> cell_get (tbl c') = (cell_get (tbl c))((u, col) \<mapsto> d' @ crlf)"
proof -
  let ?E = "failover a" and ?st3 = "st\<lparr>sock := [], peer := Some (False, c), crash_flag := False\<rparr>"
  have n: "(2::nat) = Suc (Suc 0)" by simp
  have E: "exchange ?E = failover_exchange" by (simp add: failover_def)
  have l3: "linked ?st3 (False, c)" by (simp add: linked_def)
  have live: "\<not> fst (False, c) \<and> can_serve (Suc (Suc 0)) (snd (False, c))" using assms(2) n by simp
  have cell: "snd (abs_store (tbl (snd (False, c)))) (u, col) = Some (d @ crlf)"
    using assms(12) by (simp add: abs_store_def)
  have uo: "users_only (abs_store (tbl (snd (False, c))))" using assms(11) by simp
  obtain b1 where b1: "send_cput_command ?E (Suc m) (command_parser u col) d d' ?st3 = Ok (''+OK'' @ crlf, moved_to ?st3 b1)"
    "\<not> fst b1 \<and> can_serve (Suc 0) (snd b1)"
    "snd (abs_store (tbl (snd b1))) = (snd (abs_store (tbl c)))((u, col) \<mapsto> d' @ crlf)"
    using failover.cput_text [OF E l3 live assms(5-9) uo cell, where m=m] unfolding snd_conv by blast
  have l1: "linked (moved_to ?st3 b1) b1" by (simp add: linked_def moved_to_def)
  have cell1: "snd (abs_store (tbl (snd b1))) (u, col) = Some (d' @ crlf)" using b1(3) by simp
  obtain b2 where b2: "send_cput_command ?E (Suc m) (command_parser u col) d d' (moved_to ?st3 b1) =
      Ok (''-ERR'' @ crlf, moved_to (moved_to ?st3 b1) b2)"
    "\<not> fst b2 \<and> can_serve 0 (snd b2)" "abs_store (tbl (snd b2)) = abs_store (tbl (snd b1))"
    by (rule failover.cput_refused [OF E l1 b1(2) assms(5,6,8,9) cell1 assms(10) [symmetric]])
  have crash: "read_put_reply [] [Bytes []] = Ok (''SERVER CRASH'', True, [])"
    by (subst read_put_reply.simps) (simp add: c_read_def cstr_def)
  have first: "receive_reply read_put_reply (st\<lparr>sock := sock st @ [Bytes []], peer := Some (True, c)\<rparr>) =
      Ok (''SERVER CRASH'', st\<lparr>sock := [], crash_flag := True\<rparr>)"
    using assms(1) by (simp add: receive_reply_def linked_def crash)
  have "send_bytes ?E (req_text (RCput (u, col) (d @ crlf) (d' @ crlf))) st =
      Ok (st\<lparr>sock := sock st @ [Bytes []], peer := Some (True, c)\<rparr>)"
    using assms(1) by (simp add: send_bytes_def linked_def failover_def failover_exchange_def)
  then have "send_cput_command ?E (Suc (Suc m)) (command_parser u col) d d' st = Ok (''-ERR'' @ crlf, moved_to ?st3 b2)"
    using b1(1) b2(1) unfolding sends
    by (subst send_loop.simps) (simp add: first recover_failover [OF assms(1,3,4)])
  moreover have "linked (moved_to ?st3 b2) (False, snd b2)"
    using b2(2) by (cases b2) (simp add: linked_def moved_to_def)
  ultimately show ?thesis using b1(3) b2(3) by (auto simp: abs_store_def)
qed

theorem cput_after_failure_witness:
  "\<exists>st' c'. send_cput_command (failover (localhost 5000)) 2 (command_parser ''al'' ''password'') ''old'' ''new''
      (demo_storage [] [] (True, demo_files [((''al'', ''password''), ''old'')])) = Ok (''-ERR'' @ crlf, st') \<and>
    linked st' (False, c') \<and> cell_get (tbl c') (''al'', ''password'') = Some (''new'' @ crlf)"
proof -
  let ?c = "demo_files [((''al'', ''password''), ''old'')]"
  let ?st = "demo_storage [] [] (True, ?c)"
  have "\<exists>st' c'. send_cput_command (failover (localhost 5000)) (Suc (Suc 0)) (command_parser ''al'' ''password'') ''old'' ''new'' ?st =
      Ok (''-ERR'' @ crlf, st') \<and> linked st' (False, c') \<and>
      cell_get (tbl c') = (cell_get (tbl ?c))((''al'', ''password'') \<mapsto> ''new'' @ crlf)"
    by (rule cput_after_failure)
       (simp_all add: demo_files_store demo_defs)
  then show ?thesis by (simp add: numeral_2_eq_2) fastforce
qed

end
