(* ===== verification/Mail_Service.thy ===== *)
theory Mail_Service
  imports Smtp_Props File_Service
begin

text \<open>
  The mail library over the data server. A mailbox is specified as a list of mails; delivery, reading
  and deleting refine operations on that list, on every data server that keeps the interface
  \<open>kv_service\<close>. The interface \<open>mail_service\<close> adds the way to the server through the master, and is
  interpreted on the worker of the primary.
\<close>

section \<open>Texts made of lines\<close>

definition lines_text :: "string list \<Rightarrow> string" where
  "lines_text ls = concat (map (\<lambda>l. l @ crlf) ls)"

definition line_ok :: "string \<Rightarrow> bool" where
  "line_ok l \<longleftrightarrow> CR \<notin> set l \<and> LF \<notin> set l \<and> CHR 0x00 \<notin> set l \<and> l \<noteq> ''.''"

lemma lines_text_simps [simp]:
  "lines_text [] = []" "lines_text (l # ls) = l @ crlf @ lines_text ls"
  "lines_text (ls @ ls') = lines_text ls @ lines_text ls'"
  by (simp_all add: lines_text_def)

lemma sfind_crlf [simp]: "CR \<notin> set l \<Longrightarrow> sfind crlf (l @ crlf @ s) = Some (length l)"
  using sfind_skip [of CR l "[LF]" "crlf @ s"] by (simp add: crlf_def)

lemma crlf_length [simp]: "length crlf = 2"
  by (simp add: crlf_def)

lemma crlf_chars: "set crlf = {CR, LF}"
  by (simp add: crlf_def)

lemma lines_nul: "\<forall>l \<in> set ls. line_ok l \<Longrightarrow> CHR 0x00 \<notin> set (lines_text ls)"
  by (induction ls) (auto simp: line_ok_def crlf_chars)

lemma lines_wire:
  assumes "\<forall>l \<in> set ls. line_ok l"
  shows "wire_safe (lines_text ls)"
  using assms
proof (induction ls)
  case Nil
  then show ?case by (simp add: wire_safe_def terminator_def crlf_def)
next
  case (Cons l ls)
  have l: "CR \<notin> set l" "LF \<notin> set l" "l \<noteq> ''.''" using Cons.prems by (simp_all add: line_ok_def)
  let ?r = "lines_text ls @ ''.'' @ crlf"
  have no: "\<not> prefix terminator (crlf @ l @ crlf @ ?r)"
  proof (cases l)
    case (Cons c l')
    then show ?thesis using l by (cases l') (auto simp: terminator_def crlf_def)
  qed (simp add: terminator_def crlf_def)
  have "sfind terminator (LF # l @ crlf @ ?r) = map_option ((+) (Suc (length l))) (sfind terminator (crlf @ ?r))"
    using sfind_skip [of CR "LF # l" "[LF, CHR ''.'', CR, LF]" "crlf @ ?r"] l by (simp add: terminator_def)
  moreover have "sfind terminator (crlf @ ?r) = Some (length (lines_text ls))"
    using Cons by (simp add: wire_safe_def)
  ultimately have "sfind terminator (crlf @ l @ crlf @ ?r) = Some (length l + 2 + length (lines_text ls))"
    using no by (simp add: crlf_def)
  then show ?case by (simp add: wire_safe_def)
qed

section \<open>Reading replies\<close>

lemma reply_data_lines:
  assumes "\<forall>l \<in> set ls. CR \<notin> set l"
  shows "reply_lines True r (lines_text ls @ ''.'' @ crlf) = (r @ lines_text ls, True, ''.'' @ crlf, True)"
  using assms
proof (induction ls arbitrary: r)
  case Nil
  then show ?case by (subst reply_lines.simps) (simp add: crlf_def)
next
  case (Cons l ls)
  let ?x = "lines_text ls @ ''.'' @ crlf"
  have f: "sfind crlf (l @ crlf @ ?x) = Some (length l)" using Cons.prems by simp
  have ne: "l @ crlf @ ?x \<noteq> ''.'' @ crlf"
  proof
    assume "l @ crlf @ ?x = ''.'' @ crlf"
    then have "length (l @ crlf @ ?x) = length (''.'' @ crlf)" by (rule arg_cong)
    then show False by (simp add: crlf_def)
  qed
  have "reply_lines True r (l @ crlf @ ?x) = reply_lines True (r @ l @ crlf) ?x"
    using f ne by (subst reply_lines.simps) (simp add: crlf_def)
  then show ?case using Cons by simp
qed

lemma read_data_reply:
  assumes "\<forall>l \<in> set ls. line_ok l" "length (lines_text ls) < 4980"
  shows "mail_do_read False [] [] [Bytes (''DATA'' @ crlf @ lines_text ls @ ''.'' @ crlf)] = Ok (lines_text ls)"
proof -
  let ?x = "lines_text ls @ ''.'' @ crlf"
  have cr: "\<forall>l \<in> set ls. CR \<notin> set l" using assms(1) by (simp add: line_ok_def)
  have nul: "CHR 0x00 \<notin> set (''DATA'' @ crlf @ ?x)" using lines_nul [OF assms(1)] by (auto simp: crlf_chars)
  have f: "fill mail_buff [] [Bytes (''DATA'' @ crlf @ ?x)] = Ok (''DATA'' @ crlf @ ?x, [])"
    using nul assms(2) by (simp add: mail_buff_def)
  have "sfind crlf (''DATA'' @ crlf @ ?x) = Some 4" using sfind_crlf [of "''DATA''" ?x] by simp
  moreover have "strcasecmp_eq (take 6 (''DATA'' @ crlf @ ?x)) (''DATA'' @ crlf)"
    by (simp add: strcasecmp_eq_def crlf_def)
  ultimately have "reply_lines False [] (''DATA'' @ crlf @ ?x) = reply_lines True [] ?x"
    by (subst reply_lines.simps) (simp add: crlf_def)
  then show ?thesis using f reply_data_lines [OF cr, of "[]"] by (subst mail_do_read.simps) simp
qed

lemma read_line_reply:
  assumes "CR \<notin> set x" "CHR 0x00 \<notin> set x" "length x < 4900" "p \<in> {''+OK'', ''-ERR'', ''SERVER''}"
  shows "mail_do_read False [] [] [Bytes (p @ x @ crlf)] = Ok (p @ x @ crlf)"
proof -
  have f: "fill mail_buff [] [Bytes (p @ x @ crlf)] = Ok (p @ x @ crlf, [])"
    using assms by (auto simp: mail_buff_def crlf_chars)
  have s: "sfind crlf (p @ x @ crlf) = Some (length p + length x)"
    using sfind_crlf [of "p @ x" "[]"] assms(1,4) by auto
  have h: "\<not> strcasecmp_eq (take 6 (p @ x @ crlf)) (''DATA'' @ crlf)"
    using assms(4) by (auto simp: strcasecmp_eq_def cstr_def lower_def char_of_def bit_Suc_0_iff crlf_def)
  have "strcasecmp_eq (take 4 (take 6 (p @ x @ crlf))) ''-ERR'' \<or> strcasecmp_eq (take 3 (take 6 (p @ x @ crlf))) ''+OK'' \<or>
      strcasecmp_eq (take 6 (p @ x @ crlf)) ''SERVER''"
    using assms(4) by (auto simp: strcasecmp_eq_def)
  then have "reply_lines False [] (p @ x @ crlf) = (p @ x @ crlf, False, p @ x @ crlf, True)"
    using s h by (subst reply_lines.simps) (simp add: Let_def)
  then show ?thesis using f by (subst mail_do_read.simps) simp
qed

section \<open>The list of a mailbox\<close>

definition hash_ok :: "string \<Rightarrow> bool" where
  "hash_ok h \<longleftrightarrow> length h = 17 \<and> set h \<subseteq> set ''0123456789abcdef''"

definition hash_list :: "string list \<Rightarrow> string" where
  "hash_list hs = lines_text (hs @ [''list''])"

lemma hash_plain: "hash_ok h \<Longrightarrow> CR \<notin> set h \<and> LF \<notin> set h \<and> CHR 0x00 \<notin> set h \<and> h \<noteq> []"
  by (auto simp: hash_ok_def)

lemma hash_line: "hash_ok h \<Longrightarrow> line_ok h"
  using hash_plain [of h] by (auto simp: line_ok_def hash_ok_def)

lemma hash_list_lines: "\<forall>h \<in> set hs. hash_ok h \<Longrightarrow> \<forall>l \<in> set (hs @ [''list'']). line_ok l"
  by (auto simp: hash_line) (simp add: line_ok_def)

lemma sfind_same_length: "length x = length pat \<Longrightarrow> x \<noteq> pat \<Longrightarrow> pat \<noteq> [] \<Longrightarrow> sfind pat x = None"
proof (cases "sfind pat x")
  case (Some i)
  assume l: "length x = length pat" "x \<noteq> pat"
  have "i + length pat \<le> length x" using Some by (rule sfind_length)
  then have "i = 0" using l by simp
  then have "prefix pat x" using Some by (simp add: sfind_Some_iff)
  then show ?thesis using l by (auto simp: prefix_def)
qed

lemma sfind_hash_line:
  assumes "hash_ok h" "length x \<le> 17" "x \<noteq> h" "CR \<notin> set x"
  shows "sfind h (x @ crlf @ r) = map_option ((+) (length x + 2)) (sfind h r)"
proof -
  have h: "CR \<notin> set h" "LF \<notin> set h" "h \<noteq> []" using hash_plain [OF assms(1)] by simp_all
  have x: "sfind h x = None"
  proof (cases "length x = 17")
    case True
    then show ?thesis using assms(1,3) h(3) by (intro sfind_same_length) (simp_all add: hash_ok_def)
  next
    case False
    then show ?thesis using assms(1,2) sfind_length [of h x] by (cases "sfind h x") (auto simp: hash_ok_def)
  qed
  have "sfind h [] = None" using h(3) by simp
  then have "sfind h (LF # r) = map_option Suc (sfind h r)"
    using sfind_barrier [OF h(2,3), of "[]" r] by simp
  then have "sfind h (x @ CR # LF # r) = map_option (\<lambda>i. Suc (length x + i)) (map_option Suc (sfind h r))"
    using sfind_barrier [OF h(1,3) x, of "LF # r"] by simp
  then show ?thesis by (cases "sfind h r") (simp_all add: crlf_def)
qed

lemma sfind_hash_lines:
  assumes "hash_ok h" "\<forall>x \<in> set xs. length x \<le> 17 \<and> x \<noteq> h \<and> CR \<notin> set x"
  shows "sfind h (lines_text xs @ r) = map_option ((+) (length (lines_text xs))) (sfind h r)"
  using assms(2)
proof (induction xs)
  case Nil
  then show ?case by (cases "sfind h r") simp_all
next
  case (Cons x xs)
  then show ?case using sfind_hash_line [OF assms(1), of x "lines_text xs @ r"]
    by (cases "sfind h r") simp_all
qed

lemma drop_hash_list:
  assumes "hash_ok h" "\<forall>x \<in> set hs. hash_ok x" "length (hash_list hs) < 10000"
  shows "drop_hash h (hash_list hs) = hash_list (remove1 h hs)"
proof (cases "h \<in> set hs")
  case False
  have hx: "length x \<le> 17 \<and> CR \<notin> set x" if "x \<in> set hs" for x
    using assms(2) that hash_plain by (auto simp: hash_ok_def)
  have "''list'' \<noteq> h" using assms(1) by (auto simp: hash_ok_def)
  then have "sfind h (lines_text (hs @ [''list'']) @ []) = None"
    using assms(1) hx False hash_plain [OF assms(1)]
    by (subst sfind_hash_lines) auto
  then show ?thesis using False by (simp add: drop_hash_def find_start hash_list_def remove1_idem)
next
  case True
  then obtain a b where ab: "hs = a @ h # b" "h \<notin> set a" by (meson split_list_first)
  let ?R = "lines_text (b @ [''list''])" and ?P = "lines_text a"
  have v: "hash_list hs = ?P @ h @ crlf @ ?R" by (simp add: hash_list_def ab(1))
  have hp: "CR \<notin> set h" "h \<noteq> []" "length h = 17" using hash_plain [OF assms(1)] assms(1) by (simp_all add: hash_ok_def)
  have hx: "length x \<le> 17 \<and> x \<noteq> h \<and> CR \<notin> set x" if "x \<in> set a" for x
    using assms(2) that ab hash_plain by (auto simp: hash_ok_def)
  have "sfind h (h @ crlf @ ?R) = Some 0" by simp
  then have f1: "find (hash_list hs) h 0 = length ?P"
    using sfind_hash_lines [OF assms(1), of a "h @ crlf @ ?R"] hx by (simp add: v find_start)
  have d: "drop (length ?P + 1) (?P @ h @ crlf @ ?R) = tl h @ crlf @ ?R"
    using hp(2) by (cases h) simp_all
  have "CR \<notin> set (tl h)" using hp(1,2) by (cases h) simp_all
  then have "sfind crlf (tl h @ crlf @ ?R) = Some (length h - 1)" by simp
  then have f2: "find (hash_list hs) crlf (length ?P + 1) = length ?P + length h"
    using d hp(2,3) by (simp add: find_def v)
  have sm: "length ?P + 19 < 10000" using assms(3) hp(3) by (simp add: v)
  then have sz: "szadd (length ?P) 1 = length ?P + 1" "szsub (length ?P + length h) (length ?P) = length h"
    "szadd (length h) 2 = length h + 2" "length ?P \<noteq> npos"
    using hp(3) by (simp_all add: npos_def)
  have "drop_hash h (hash_list hs) = ?P @ ?R"
    unfolding drop_hash_def Let_def f1 sz f2 if_not_P [OF sz(4)] by (simp add: v)
  moreover have "remove1 h hs = a @ b" using ab by (simp add: remove1_append)
  ultimately show ?thesis by (simp add: hash_list_def)
qed

section \<open>The interface\<close>

definition mail_key :: "key \<Rightarrow> bool" where
  "mail_key k \<longleftrightarrow> name_small (fst k) \<and> name_small (snd k) \<and> CHR ''/'' \<notin> set (fst k) \<and> CHR ''/'' \<in> set (snd k)"

text \<open>No row is named like a column of the mail library.\<close>

definition mail_rows :: "store \<Rightarrow> bool" where
  "mail_rows s \<longleftrightarrow> (\<forall>r \<in> fst s. CHR ''/'' \<notin> set r)"

definition small_text :: "string list \<Rightarrow> bool" where
  "small_text ls \<longleftrightarrow> (\<forall>l \<in> set ls. line_ok l) \<and> length (lines_text ls) < 4980"

lemma mail_texts:
  "mail_get u c = req_text (RGet (u, c))" "mail_delete u c = req_text (RDelete (u, c))"
  "mail_put u c v = req_text (RPut (u, c) v)" "mail_cput u c old new = req_text (RCput (u, c) old new)"
  by (simp_all add: mail_get_def mail_delete_def mail_put_def mail_cput_def req_text_def command_line_def
      put_wire_def cput_wire_def)

lemma mail_req_ok:
  "mail_key (u, c) \<Longrightarrow> req_ok (RGet (u, c))" "mail_key (u, c) \<Longrightarrow> req_ok (RDelete (u, c))"
  "mail_key (u, c) \<Longrightarrow> small_text ls \<Longrightarrow> req_ok (RPut (u, c) (lines_text ls))"
  "mail_key (u, c) \<Longrightarrow> small_text ls \<Longrightarrow> small_text ls' \<Longrightarrow> req_ok (RCput (u, c) (lines_text ls) (lines_text ls'))"
  by (auto simp: req_ok_def mail_key_def name_small_def small_text_def lines_wire lines_nul req_text_def command_line_def
      put_wire_def cput_wire_def rlen_def)

locale mail_service = kv_service exch view live
  for exch :: "string \<Rightarrow> 'b \<Rightarrow> rd list \<times> 'b" and view and live +
  fixes E :: "'b mail_env" and node :: string
  assumes contact_law: "contact E node msg b = exch msg b"
    and address_law: "\<exists>a. mail_address node = Ok a"
    and master_law: "name_small user \<Longrightarrow> mail_ask_master E user b = Ok (node, b)"
    and node_law: "node \<noteq> ''NULL''"
    and live_less: "live (Suc n) b \<Longrightarrow> live n b"
begin

lemma one_mail:
  assumes "live (Suc n) b" "req_ok q" "put_safe q (view b)"
    and "serve q (view b) = (t, st)" "mail_do_read False [] [] [Bytes t] = Ok r"
  shows "\<exists>b'. mail_send E node (req_text q) b = Ok (r, b') \<and> live n b' \<and> view b' = st"
proof -
  obtain b' where b': "exch (req_text q) b = ([Bytes (fst (serve q (view b)))], b')" "live n b'"
    "view b' = snd (serve q (view b))"
    using request_law [OF assms(1-3)] by blast
  have c: "cstr (req_text q) = req_text q" using req_chunk_ok [OF assms(2)] by (simp add: chunk_ok_def)
  have "mail_send E node (req_text q) b = Ok (r, b')"
    using address_law b'(1) assms(4,5) by (auto simp: mail_send_def c contact_law)
  then show ?thesis using b'(2,3) assms(4) by auto
qed

lemma get_lines:
  assumes "live (Suc n) b" "mail_key (u, c)" "snd (view b) (u, c) = Some (lines_text ls)" "small_text ls"
  obtains b' where "mail_send E node (mail_get u c) b = Ok (lines_text ls, b')" "live n b'" "view b' = view b"
proof -
  have s: "serve (RGet (u, c)) (view b) = (''DATA'' @ crlf @ lines_text ls @ ''.'' @ crlf, view b)"
    using assms(3) by (cases "view b") simp
  have rd: "mail_do_read False [] [] [Bytes (''DATA'' @ crlf @ lines_text ls @ ''.'' @ crlf)] = Ok (lines_text ls)"
    using assms(4) by (intro read_data_reply) (simp_all add: small_text_def)
  have "put_safe (RGet (u, c)) (view b)" by (simp add: put_safe_def)
  from one_mail [OF assms(1) mail_req_ok(1) [OF assms(2)] this s rd] show thesis
    using that unfolding mail_texts by blast
qed

lemma get_none:
  assumes "live (Suc n) b" "mail_key (u, c)" "snd (view b) (u, c) = None"
  obtains b' x where "mail_send E node (mail_get u c) b = Ok (''-ERR'' @ x @ crlf, b')" "live n b'" "view b' = view b"
    "x = '' NULL row'' \<or> x = '' NULL colmn''"
proof -
  obtain x where x: "missing (u, c) (view b) = ''-ERR'' @ x @ crlf" "x = '' NULL row'' \<or> x = '' NULL colmn''"
    by (cases "u \<in> fst (view b)") (simp_all add: missing_def crlf_def)
  have s: "serve (RGet (u, c)) (view b) = (''-ERR'' @ x @ crlf, view b)"
    using assms(3) x(1) by (cases "view b") simp
  have rd: "mail_do_read False [] [] [Bytes (''-ERR'' @ x @ crlf)] = Ok (''-ERR'' @ x @ crlf)"
    using x(2) by (intro read_line_reply) auto
  have "put_safe (RGet (u, c)) (view b)" by (simp add: put_safe_def)
  from one_mail [OF assms(1) mail_req_ok(1) [OF assms(2)] this s rd] show thesis
    using that x(2) unfolding mail_texts by blast
qed

lemma put_lines:
  assumes "live (Suc n) b" "mail_key (u, c)" "mail_rows (view b)" "small_text ls"
  obtains b' where "mail_send E node (mail_put u c (lines_text ls)) b = Ok (''+OK'' @ crlf, b')" "live n b'"
    "snd (view b') = (snd (view b))((u, c) \<mapsto> lines_text ls)" "mail_rows (view b')"
proof -
  have s: "serve (RPut (u, c) (lines_text ls)) (view b) =
      (''+OK'' @ crlf, (insert u (fst (view b)), (snd (view b))((u, c) \<mapsto> lines_text ls)))"
    by (cases "view b") simp
  have ps: "put_safe (RPut (u, c) (lines_text ls)) (view b)" and mr: "\<forall>r \<in> insert u (fst (view b)). CHR ''/'' \<notin> set r"
    using assms(2,3) by (auto simp: put_safe_def mail_key_def mail_rows_def)
  have rd: "mail_do_read False [] [] [Bytes (''+OK'' @ crlf)] = Ok (''+OK'' @ crlf)"
    using read_line_reply [of "[]" "''+OK''"] by simp
  from one_mail [OF assms(1) mail_req_ok(3) [OF assms(2,4)] ps s rd] show thesis
    using that mr unfolding mail_texts mail_rows_def by fastforce
qed

lemma cput_lines:
  assumes "live (Suc n) b" "mail_key (u, c)" "mail_rows (view b)" "small_text ls" "small_text ls'"
    and "snd (view b) (u, c) = Some (lines_text ls)"
  obtains b' where "mail_send E node (mail_cput u c (lines_text ls) (lines_text ls')) b = Ok (''+OK'' @ crlf, b')" "live n b'"
    "snd (view b') = (snd (view b))((u, c) \<mapsto> lines_text ls')" "mail_rows (view b')"
proof -
  let ?q = "RCput (u, c) (lines_text ls) (lines_text ls')"
  have s: "serve ?q (view b) = (''+OK'' @ crlf, (insert u (fst (view b)), (snd (view b))((u, c) \<mapsto> lines_text ls')))"
    using assms(6) by (cases "view b") (simp add: cput_match_def)
  have rd: "mail_do_read False [] [] [Bytes (''+OK'' @ crlf)] = Ok (''+OK'' @ crlf)"
    using read_line_reply [of "[]" "''+OK''"] by simp
  have ps: "put_safe ?q (view b)" and mr: "\<forall>r \<in> insert u (fst (view b)). CHR ''/'' \<notin> set r"
    using assms(2,3) by (auto simp: put_safe_def mail_key_def mail_rows_def)
  from one_mail [OF assms(1) mail_req_ok(4) [OF assms(2,4,5)] ps s rd] show thesis
    using that mr unfolding mail_texts mail_rows_def by fastforce
qed

lemma delete_cell:
  assumes "live (Suc n) b" "mail_key (u, c)" "mail_rows (view b)"
  obtains b' r where "mail_send E node (mail_delete u c) b = Ok (r, b')" "live n b'"
    "snd (view b') = (snd (view b))((u, c) := None)" "mail_rows (view b')"
proof (cases "snd (view b) (u, c)")
  case None
  obtain x where x: "missing (u, c) (view b) = ''-ERR'' @ x @ crlf" "x = '' NULL row'' \<or> x = '' NULL colmn''"
    by (cases "u \<in> fst (view b)") (simp_all add: missing_def crlf_def)
  have s: "serve (RDelete (u, c)) (view b) = (''-ERR'' @ x @ crlf, view b)"
    using None x(1) by (cases "view b") simp
  have rd: "mail_do_read False [] [] [Bytes (''-ERR'' @ x @ crlf)] = Ok (''-ERR'' @ x @ crlf)"
    using x(2) by (intro read_line_reply) auto
  have id: "snd (view b) = (snd (view b))((u, c) := None)" using None by (simp add: fun_upd_idem)
  have "put_safe (RDelete (u, c)) (view b)" by (simp add: put_safe_def)
  from one_mail [OF assms(1) mail_req_ok(2) [OF assms(2)] this s rd] show thesis
    using that assms(3) id unfolding mail_texts by metis
next
  case (Some v)
  have s: "serve (RDelete (u, c)) (view b) = (''+OK deleted'' @ crlf, (fst (view b), (snd (view b))((u, c) := None)))"
    using Some by (cases "view b") simp
  have rd: "mail_do_read False [] [] [Bytes (''+OK deleted'' @ crlf)] = Ok (''+OK deleted'' @ crlf)"
    using read_line_reply [of "'' deleted''" "''+OK''"] by simp
  have "put_safe (RDelete (u, c)) (view b)" by (simp add: put_safe_def)
  from one_mail [OF assms(1) mail_req_ok(2) [OF assms(2)] this s rd] show thesis
    using that assms(3) unfolding mail_texts mail_rows_def by fastforce
qed

end

section \<open>A mailbox\<close>

text \<open>A mail as it is stored: the header line, the first line of the text (the subject) and the others.\<close>

type_synonym stored_mail = "string \<times> string \<times> string list"

definition mail_lines :: "stored_mail \<Rightarrow> string list" where
  "mail_lines m = fst m # fst (snd m) # snd (snd m)"

definition mail_data :: "stored_mail \<Rightarrow> string" where
  "mail_data m = lines_text (fst (snd m) # snd (snd m))"

definition mail_item_ok :: "stored_mail \<Rightarrow> bool" where
  "mail_item_ok m \<longleftrightarrow> small_text (mail_lines m) \<and> prefix ''Header '' (fst m)"

definition shown_mail :: "(string \<Rightarrow> string) \<Rightarrow> stored_mail \<Rightarrow> email" where
  "shown_mail dg m = new_email (fst m) (lines_text (snd (snd m))) (hash_MD5 dg (mail_data m))"

definition user_ok :: "string \<Rightarrow> bool" where
  "user_ok u \<longleftrightarrow> name_small u \<and> CHR ''/'' \<notin> set u"

text \<open>The specification: the cells of a user that hold the mails \<open>ms\<close>, the latest first.\<close>

definition mailbox :: "(string \<Rightarrow> string) \<Rightarrow> store \<Rightarrow> string \<Rightarrow> bool \<Rightarrow> stored_mail list \<Rightarrow> bool" where
  "mailbox dg s u inbox ms \<longleftrightarrow>
     (let hs = map (\<lambda>m. hash_MD5 dg (mail_data m)) ms
      in user_ok u \<and> length ms \<le> 260 \<and> distinct hs \<and>
         (snd s (u, mail_prefix inbox @ ''list'') = Some (hash_list hs) \<or>
          ms = [] \<and> snd s (u, mail_prefix inbox @ ''list'') = None) \<and>
         (\<forall>m \<in> set ms. mail_item_ok m \<and>
            snd s (u, mail_prefix inbox @ hash_MD5 dg (mail_data m)) = Some (lines_text (mail_lines m))))"

lemma hex_digit_hex: "k < 16 \<Longrightarrow> hex_digit k \<in> set ''0123456789abcdef''"
proof -
  have "map hex_digit [0..<16] = ''0123456789abcdef''" by code_simp
  moreover assume "k < 16"
  ultimately show ?thesis by (metis atLeast0LessThan imageI lessThan_iff list.set_map set_upt)
qed

lemma hash_MD5_ok:
  assumes "\<forall>x. length (dg x) = 16"
  shows "hash_ok (hash_MD5 dg x)"
proof -
  have b: "(of_char c :: nat) div 16 < 16 \<and> (of_char c :: nat) mod 16 < 16" for c :: char
  proof -
    have "(of_char c :: nat) < 256" by (rule nat_of_char_less_256)
    then show ?thesis by linarith
  qed
  have "length (take 16 (dg (cstr x))) = 16" using assms by simp
  then show ?thesis using b hex_digit_hex
    by (auto simp: hash_MD5_def hash_ok_def Let_def simp del: length_take)
qed

lemma mail_key_prefix: "user_ok u \<Longrightarrow> hash_ok h \<or> h = ''list'' \<Longrightarrow> mail_key (u, mail_prefix inbox @ h)"
  by (auto simp: mail_key_def user_ok_def name_small_def plain_name_def name_ok_def mail_prefix_def hash_ok_def)

lemma hash_list_length: "\<forall>h \<in> set hs. hash_ok h \<Longrightarrow> length (hash_list hs) = 19 * length hs + 6"
  by (induction hs) (auto simp: hash_list_def hash_ok_def)

lemma hash_list_small:
  assumes "\<forall>h \<in> set hs. hash_ok h" "length hs \<le> 260"
  shows "small_text (hs @ [''list''])"
  using hash_list_lines [OF assms(1)] hash_list_length [OF assms(1)] assms(2)
  by (simp add: small_text_def hash_list_def)

lemma list_not_err: "\<forall>h \<in> set hs. hash_ok h \<Longrightarrow> compare_eq (hash_list hs) 1 3 ''ERR'' = Ok False"
proof (cases hs)
  case (Cons h hs')
  assume "\<forall>h \<in> set hs. hash_ok h"
  then have h: "length h = 17" "set h \<subseteq> set ''0123456789abcdef''" using Cons by (simp_all add: hash_ok_def)
  then obtain a b c d r where "h = a # b # c # d # r" by (auto simp: numeral_eq_Suc length_Suc_conv)
  moreover from this have "b \<noteq> CHR ''E''" using h(2) by auto
  ultimately show ?thesis using Cons by (simp add: compare_eq_def hash_list_def)
qed (simp add: compare_eq_def hash_list_def crlf_def)

lemma getlines_lines: "\<forall>l \<in> set ls. LF \<notin> set l \<Longrightarrow> getlines (lines_text ls) = map (\<lambda>l. l @ [CR]) ls"
proof (induction ls)
  case (Cons l ls)
  have "LF \<notin> set (l @ [CR])" using Cons.prems by simp
  then show ?case using Cons getlines_Cons [of "l @ [CR]" "lines_text ls"] by (simp add: crlf_def)
qed simp

lemma extract_stored:
  assumes "small_text (mail_lines m)" "prefix ''Header '' (fst m)"
  shows "(let response = lines_text (mail_lines m); f1 = find response ''Header '' 0; f2 = find response crlf (szadd f1 1)
      in and_then (substr response f1 (szsub f2 f1)) (\<lambda>header.
         and_then (substr response (szadd f2 2) npos) (\<lambda>content.
         let hash = hash_MD5 dg content; f3 = find response crlf (szadd f2 1)
         in and_then (substr response (szadd f3 2) npos) (\<lambda>content1. Ok (new_email header content1 hash))))) =
    Ok (shown_mail dg m)"
proof -
  obtain h sj ds where m: "m = (h, sj, ds)" by (cases m)
  have ok: "CR \<notin> set h" "CR \<notin> set sj" "length (h @ crlf @ sj @ crlf @ lines_text ds) < 4980"
    using assms(1) by (simp_all add: small_text_def mail_lines_def line_ok_def m)
  let ?R = "h @ crlf @ sj @ crlf @ lines_text ds"
  have hn: "h \<noteq> []" using assms(2) by (auto simp: m)
  have f1: "find ?R ''Header '' 0 = 0" using assms(2) by (simp add: m find_start prefix_prefix)
  have "drop 1 ?R = tl h @ crlf @ sj @ crlf @ lines_text ds" using hn by (cases h) simp_all
  moreover have "CR \<notin> set (tl h)" using ok(1) hn by (cases h) simp_all
  ultimately have f2: "find ?R crlf 1 = length h" using hn by (simp add: find_def)
  have d: "drop (length h + 1) ?R = (LF # sj) @ crlf @ lines_text ds" by (simp add: crlf_def)
  have "CR \<notin> set (LF # sj)" using ok(2) by simp
  from sfind_crlf [OF this, of "lines_text ds"] have "sfind crlf (drop (length h + 1) ?R) = Some (Suc (length sj))"
    unfolding d by simp
  then have f3: "find ?R crlf (length h + 1) = length h + 2 + length sj"
    by (simp add: find_def)
  have sz: "szadd 0 1 = 1" "szsub (length h) 0 = length h" "szadd (length h) 2 = length h + 2"
    "szadd (length h) 1 = length h + 1" "szadd (length h + 2 + length sj) 2 = length h + 2 + length sj + 2"
    using ok(3) by (simp_all add: npos_def)
  have s: "substr ?R 0 (length h) = Ok h" "substr ?R (length h + 2) npos = Ok (sj @ crlf @ lines_text ds)"
    "substr ?R (length h + 2 + length sj + 2) npos = Ok (lines_text ds)"
    using ok(3) by (simp_all add: npos_def substr_def)
  have R: "lines_text (mail_lines m) = ?R" by (simp add: m mail_lines_def)
  show ?thesis
    unfolding R Let_def f1 sz f2 s and_then.simps f3 by (simp add: shown_mail_def m mail_data_def)
qed

section \<open>Delivery, reading and deleting\<close>

text \<open>Delivery of a mail: it becomes the first, and an older one with the same text goes.\<close>

definition put_first :: "(string \<Rightarrow> string) \<Rightarrow> stored_mail \<Rightarrow> stored_mail list \<Rightarrow> stored_mail list" where
  "put_first dg m ms = m # filter (\<lambda>x. hash_MD5 dg (mail_data x) \<noteq> hash_MD5 dg (mail_data m)) ms"

lemma remove1_filter: "distinct hs \<Longrightarrow> remove1 h hs = filter (\<lambda>x. x \<noteq> h) hs"
  using distinct_remove1_removeAll [of hs h] by (simp add: removeAll_filter_not_eq) metis

lemma put_first_hashes:
  assumes "distinct (map (\<lambda>m. hash_MD5 dg (mail_data m)) ms)"
  shows "map (\<lambda>m. hash_MD5 dg (mail_data m)) (put_first dg m ms) =
    hash_MD5 dg (mail_data m) # remove1 (hash_MD5 dg (mail_data m)) (map (\<lambda>m. hash_MD5 dg (mail_data m)) ms)"
  using remove1_filter [OF assms, of "hash_MD5 dg (mail_data m)"]
  by (simp add: put_first_def filter_map comp_def)

declare append_hash.simps(2) [simp del]

lemma append_hash_init:
  "mail_send E node (mail_get u c) b = Ok (''-ERR'' @ x @ crlf, b1) \<Longrightarrow>
   mail_send E node (mail_put u c (''list'' @ crlf)) b1 = Ok (r, b2) \<Longrightarrow>
   append_hash E (Suc n) node u c h b = append_hash E n node u c h b2"
  by (simp add: append_hash.simps compare_eq_def)

context mail_service
begin

lemma append_list:
  assumes "live (Suc (Suc n)) b" "mail_rows (view b)" "user_ok u" "hash_ok h" "\<forall>x \<in> set hs. hash_ok x" "length hs < 260"
    and "snd (view b) (u, mail_prefix inbox @ ''list'') = Some (hash_list hs)"
  obtains b' where "append_hash E (Suc m) node u (mail_prefix inbox @ ''list'') h b = Ok b'" "live n b'" "mail_rows (view b')"
    "snd (view b') = (snd (view b))((u, mail_prefix inbox @ ''list'') \<mapsto> hash_list (h # remove1 h hs))"
proof -
  let ?c = "mail_prefix inbox @ ''list''"
  have k: "mail_key (u, ?c)" using mail_key_prefix [OF assms(3)] by blast
  have sm: "small_text (hs @ [''list''])" using assms(5,6) by (intro hash_list_small) simp_all
  have ok': "\<forall>x \<in> set (h # remove1 h hs). hash_ok x" using assms(4,5) set_remove1_subset [of h hs] by auto
  have "length (remove1 h hs) \<le> length hs" by (simp add: length_remove1)
  then have sm': "small_text ((h # remove1 h hs) @ [''list''])" using ok' assms(6) by (intro hash_list_small) auto
  obtain b1 where b1: "mail_send E node (mail_get u ?c) b = Ok (hash_list hs, b1)" "live (Suc n) b1" "view b1 = view b"
    using get_lines [OF assms(1) k _ sm] assms(7) unfolding hash_list_def by blast
  obtain b2 where b2: "mail_send E node (mail_cput u ?c (hash_list hs) (hash_list (h # remove1 h hs))) b1 = Ok (''+OK'' @ crlf, b2)"
    "live n b2" "snd (view b2) = (snd (view b1))((u, ?c) \<mapsto> hash_list (h # remove1 h hs))" "mail_rows (view b2)"
    using cput_lines [OF b1(2) k _ sm sm'] assms(2,7) unfolding hash_list_def b1(3) by blast
  have dh: "h @ crlf @ drop_hash h (hash_list hs) = hash_list (h # remove1 h hs)"
    using drop_hash_list [OF assms(4,5)] hash_list_length [OF assms(5)] assms(6) by (simp add: hash_list_def)
  have "compare_eq (''+OK'' @ crlf) 1 2 ''OK'' = Ok True" by (simp add: compare_eq_def crlf_def)
  then have "append_hash E (Suc m) node u ?c h b = Ok b2"
    using b1(1) b2(1) list_not_err [OF assms(5)] by (simp add: append_hash.simps dh)
  then show thesis using b2 b1(3) by (intro that) simp_all
qed

lemma append_to_mailbox:
  assumes "live (Suc (Suc (Suc (Suc n)))) b" "mail_rows (view b)" "user_ok u" "hash_ok h" "\<forall>x \<in> set hs. hash_ok x" "length hs < 260"
    and "snd (view b) (u, mail_prefix inbox @ ''list'') = Some (hash_list hs) \<or>
      hs = [] \<and> snd (view b) (u, mail_prefix inbox @ ''list'') = None"
  obtains b' where "append_hash E (Suc (Suc m)) node u (mail_prefix inbox @ ''list'') h b = Ok b'" "live n b'" "mail_rows (view b')"
    "snd (view b') = (snd (view b))((u, mail_prefix inbox @ ''list'') \<mapsto> hash_list (h # remove1 h hs))"
proof (cases "snd (view b) (u, mail_prefix inbox @ ''list'') = None")
  case False
  then have c: "snd (view b) (u, mail_prefix inbox @ ''list'') = Some (hash_list hs)" using assms(7) by (elim disjE) simp_all
  have l: "live (Suc (Suc n)) b" using assms(1) live_less by blast
  show thesis by (rule append_list [OF l assms(2-6) c, of "Suc m"]) (rule that)
next
  case True
  let ?c = "mail_prefix inbox @ ''list''"
  have hs: "hs = []" using True assms(7) by simp
  have k: "mail_key (u, ?c)" using mail_key_prefix [OF assms(3)] by blast
  obtain b1 x where b1: "mail_send E node (mail_get u ?c) b = Ok (''-ERR'' @ x @ crlf, b1)" "live (Suc (Suc (Suc n))) b1" "view b1 = view b"
    using get_none [OF assms(1) k True] by metis
  have sm: "small_text [''list'']" using hash_list_small [of "[]"] by simp
  have hl: "lines_text [''list''] = hash_list []" by (simp add: hash_list_def)
  obtain b2 where b2: "mail_send E node (mail_put u ?c (hash_list [])) b1 = Ok (''+OK'' @ crlf, b2)" "live (Suc (Suc n)) b2"
    "snd (view b2) = (snd (view b1))((u, ?c) \<mapsto> hash_list [])" "mail_rows (view b2)"
    using put_lines [OF b1(2) k _ sm] assms(2) unfolding b1(3) hl by blast
  have c2: "snd (view b2) (u, ?c) = Some (hash_list [])" using b2(3) by simp
  obtain b3 where b3: "append_hash E (Suc m) node u ?c h b2 = Ok b3" "live n b3" "mail_rows (view b3)"
    "snd (view b3) = (snd (view b2))((u, ?c) \<mapsto> hash_list (h # remove1 h []))"
    by (rule append_list [OF b2(2,4) assms(3,4) _ _ c2, where m=m]) simp_all
  have pl: "''list'' @ crlf = hash_list []" by (simp add: hash_list_def)
  have "append_hash E (Suc (Suc m)) node u ?c h b = append_hash E (Suc m) node u ?c h b2"
    using append_hash_init [OF b1(1)] b2(1) unfolding pl by blast
  then show thesis using b3 b2(3) b1(3) hs by (intro that) simp_all
qed

end

lemma put_first_ok:
  assumes "mailbox dg s u inbox ms" "length ms < 260" "mail_item_ok m" "\<forall>x. length (dg x) = 16"
    and "snd s' = (snd s)((u, mail_prefix inbox @ ''list'') \<mapsto>
        hash_list (hash_MD5 dg (mail_data m) # remove1 (hash_MD5 dg (mail_data m)) (map (\<lambda>m. hash_MD5 dg (mail_data m)) ms)),
      (u, mail_prefix inbox @ hash_MD5 dg (mail_data m)) \<mapsto> lines_text (mail_lines m))"
  shows "mailbox dg s' u inbox (put_first dg m ms)"
proof -
  have d: "distinct (map (\<lambda>m. hash_MD5 dg (mail_data m)) ms)" using assms(1) by (simp add: mailbox_def Let_def)
  have hl: "hash_MD5 dg x \<noteq> ''list''" for x using hash_MD5_ok [OF assms(4), of x] by (auto simp: hash_ok_def)
  have len: "length (put_first dg m ms) \<le> 260"
  proof -
    have "length (filter (\<lambda>x. hash_MD5 dg (mail_data x) \<noteq> hash_MD5 dg (mail_data m)) ms) \<le> length ms" by (rule length_filter_le)
    from le_less_trans [OF this assms(2)] show ?thesis by (simp add: put_first_def)
  qed
  have "distinct (map (\<lambda>m. hash_MD5 dg (mail_data m)) (put_first dg m ms))"
    using d unfolding put_first_hashes [OF d] by simp
  then show ?thesis
    using assms(1,3) len hl hl [symmetric] d unfolding mailbox_def Let_def assms(5) put_first_hashes [OF d]
    by (auto simp: put_first_def)
qed

context mail_service
begin

text \<open>Delivery implements \<open>put_first\<close>.\<close>

lemma deliver_effect:
  assumes "live (Suc (Suc (Suc (Suc (Suc n))))) (s_back s)" "mail_rows (view (s_back s))" "\<forall>x. length (digest E x) = 16"
    and "mailbox (digest E) (view (s_back s)) u True ms" "length ms < 260" "mail_item_ok m" "s_data s = mail_data m"
    and "mail SE = E"
  obtains b' where
    "deliver_local SE (Suc (Suc k)) node u (fst m @ crlf) (hash_MD5 (digest E) (s_data s)) s = Ok (s\<lparr>s_back := b'\<rparr>)"
    "live n b'" "mail_rows (view b')" "mailbox (digest E) (view b') u True (put_first (digest E) m ms)"
    "\<forall>k. fst k \<noteq> u \<longrightarrow> snd (view b') k = snd (view (s_back s)) k"
proof -
  let ?hash = "\<lambda>m. hash_MD5 (digest E) (mail_data m)"
  let ?b = "s_back s" and ?h = "?hash m" and ?hs = "map ?hash ms"
  have u: "user_ok u" and c: "snd (view ?b) (u, mail_prefix True @ ''list'') = Some (hash_list ?hs) \<or>
      ?hs = [] \<and> snd (view ?b) (u, mail_prefix True @ ''list'') = None"
    using assms(4) by (auto simp: mailbox_def Let_def)
  have hok: "hash_ok (hash_MD5 (digest E) x)" for x using assms(3) by (rule hash_MD5_ok)
  have p: "mail_prefix True = ''mail/inbox/''" "mail_prefix True @ ''list'' = ''mail/inbox/list''" by (simp_all add: mail_prefix_def)
  have hs: "\<forall>x \<in> set ?hs. hash_ok x" "length ?hs < 260" using hok assms(5) by auto
  obtain b1 where b1: "append_hash E (Suc (Suc k)) node u (mail_prefix True @ ''list'') ?h ?b = Ok b1" "live (Suc n) b1"
    "mail_rows (view b1)"
    "snd (view b1) = (snd (view ?b))((u, mail_prefix True @ ''list'') \<mapsto> hash_list (?h # remove1 ?h ?hs))"
    by (rule append_to_mailbox [OF assms(1,2) u hok hs c, where m=k])
  have kk: "mail_key (u, mail_prefix True @ ?h)" using mail_key_prefix [OF u] hok by blast
  have sm: "small_text (mail_lines m)" using assms(6) by (simp add: mail_item_ok_def)
  obtain b2 where b2: "mail_send E node (mail_put u (mail_prefix True @ ?h) (lines_text (mail_lines m))) b1 = Ok (''+OK'' @ crlf, b2)"
    "live n b2" "snd (view b2) = (snd (view b1))((u, mail_prefix True @ ?h) \<mapsto> lines_text (mail_lines m))" "mail_rows (view b2)"
    by (rule put_lines [OF b1(2) kk b1(3) sm])
  have v: "(fst m @ crlf) @ mail_data m = lines_text (mail_lines m)" by (simp add: mail_lines_def mail_data_def)
  have "deliver_local SE (Suc (Suc k)) node u (fst m @ crlf) (hash_MD5 (digest E) (s_data s)) s = Ok (s\<lparr>s_back := b2\<rparr>)"
    unfolding deliver_local_def assms(7,8) v b1(1) [unfolded p(2)] and_then.simps b2(1) [unfolded p(1)] by simp
  moreover have "mailbox (digest E) (view b2) u True (put_first (digest E) m ms)"
    using put_first_ok [OF assms(4-6,3), of "view b2"] unfolding b2(3) b1(4) by blast
  moreover have "\<forall>k. fst k \<noteq> u \<longrightarrow> snd (view b2) k = snd (view ?b) k" by (auto simp: b2(3) b1(4))
  ultimately show thesis using b2(2,4) by (intro that)
qed

lemma extract_mails:
  assumes "live (length ms + n) b" "user_ok u" "\<forall>x. length (digest E x) = 16"
    and "\<forall>m \<in> set ms. mail_item_ok m \<and>
      snd (view b) (u, mail_prefix inbox @ hash_MD5 (digest E) (mail_data m)) = Some (lines_text (mail_lines m))"
  shows "\<exists>b'. extract_all E node u (mail_prefix inbox)
      (map (\<lambda>l. l @ [CR]) (map (\<lambda>m. hash_MD5 (digest E) (mail_data m)) ms @ [''list''])) b =
      Ok (map (shown_mail (digest E)) ms, b') \<and> live n b' \<and> view b' = view b"
  using assms(1,4)
proof (induction ms arbitrary: b)
  case (Cons m ms)
  let ?h = "hash_MD5 (digest E) (mail_data m)"
  have hok: "hash_ok ?h" using assms(3) by (rule hash_MD5_ok)
  then have hl: "take 4 (?h @ [CR]) \<noteq> ''list''" by (cases ?h) (auto simp: hash_ok_def)
  have k: "mail_key (u, mail_prefix inbox @ ?h)" using mail_key_prefix [OF assms(2)] hok by blast
  have l: "live (Suc (length ms + n)) b" using Cons.prems(1) by simp
  have m: "small_text (mail_lines m)" "prefix ''Header '' (fst m)"
    "snd (view b) (u, mail_prefix inbox @ ?h) = Some (lines_text (mail_lines m))"
    using Cons.prems(2) by (simp_all add: mail_item_ok_def)
  obtain b1 where b1: "mail_send E node (mail_get u (mail_prefix inbox @ ?h)) b = Ok (lines_text (mail_lines m), b1)"
    "live (length ms + n) b1" "view b1 = view b"
    by (rule get_lines [OF l k m(3,1)])
  have e: "extract_email E node u (mail_prefix inbox @ ?h) b = Ok (shown_mail (digest E) m, b1)"
    using extract_stored [OF m(1,2), of "digest E"] b1(1)
    by (auto simp: extract_email_def Let_def)
  obtain b' where b': "extract_all E node u (mail_prefix inbox)
      (map (\<lambda>l. l @ [CR]) (map (\<lambda>m. hash_MD5 (digest E) (mail_data m)) ms @ [''list''])) b1 =
      Ok (map (shown_mail (digest E)) ms, b')" "live n b'" "view b' = view b1"
    using Cons.IH [OF b1(2)] Cons.prems(2) b1(3) by auto
  then show ?case using hl e b1(3) by (simp add: pop_back_def)
qed simp

text \<open>Reading shows the mails of the mailbox, in their order.\<close>

lemma read_effect:
  assumes "live (Suc (length ms + n)) b" "\<forall>x. length (digest E x) = 16" "mailbox (digest E) (view b) u inbox ms"
  obtains b' where "recvfrom_backend E u inbox b = Ok (map (shown_mail (digest E)) ms, b')" "view b' = view b"
proof -
  let ?hs = "map (\<lambda>m. hash_MD5 (digest E) (mail_data m)) ms"
  have u: "user_ok u" using assms(3) by (simp add: mailbox_def Let_def)
  have k: "mail_key (u, mail_prefix inbox @ ''list'')" using mail_key_prefix [OF u] by blast
  have hok: "\<forall>x \<in> set ?hs. hash_ok x" using hash_MD5_ok [OF assms(2)] by auto
  have ask: "mail_ask_master E u b = Ok (node, b)" using u by (intro master_law) (simp add: user_ok_def)
  show thesis
  proof (cases "snd (view b) (u, mail_prefix inbox @ ''list'') = None")
    case True
    then have ms: "ms = []" using assms(3) by (auto simp: mailbox_def Let_def)
    obtain b1 x where b1: "mail_send E node (mail_get u (mail_prefix inbox @ ''list'')) b = Ok (''-ERR'' @ x @ crlf, b1)" "view b1 = view b"
      using get_none [OF assms(1) k True] by metis
    have "recvfrom_backend E u inbox b = Ok ([], b1)"
      using ask b1(1) node_law by (simp add: recvfrom_backend_def compare_eq_def)
    then show thesis using that ms b1(2) by simp
  next
    case False
    then have c: "snd (view b) (u, mail_prefix inbox @ ''list'') = Some (lines_text (?hs @ [''list'']))"
      using assms(3) by (auto simp: mailbox_def Let_def hash_list_def)
    have sm: "small_text (?hs @ [''list''])"
      using assms(3) hok by (intro hash_list_small) (auto simp: mailbox_def Let_def)
    obtain b1 where b1: "mail_send E node (mail_get u (mail_prefix inbox @ ''list'')) b = Ok (lines_text (?hs @ [''list'']), b1)"
      "live (length ms + n) b1" "view b1 = view b"
      by (rule get_lines [OF assms(1) k c sm])
    have lf: "\<forall>l \<in> set (?hs @ [''list'']). LF \<notin> set l" using hash_list_lines [OF hok] by (auto simp: line_ok_def)
    obtain b2 where b2: "extract_all E node u (mail_prefix inbox) (map (\<lambda>l. l @ [CR]) (?hs @ [''list''])) b1 =
        Ok (map (shown_mail (digest E)) ms, b2)" "view b2 = view b1"
      using extract_mails [OF b1(2) u assms(2), of inbox] assms(3) b1(3) by (auto simp: mailbox_def Let_def)
    have "recvfrom_backend E u inbox b = Ok (map (shown_mail (digest E)) ms, b2)"
      using ask b1(1) b2(1) node_law list_not_err [OF hok] getlines_lines [OF lf]
      by (simp add: recvfrom_backend_def hash_list_def)
    then show thesis using that b2(2) b1(3) by simp
  qed
qed

end

lemma keep_lines:
  "keep_hashes del (map (\<lambda>l. l @ [CR]) ls) = Ok (lines_text (filter (\<lambda>l. l \<notin> del) ls))"
  by (induction ls) (simp_all add: pop_back_def crlf_def)

lemma update_hash_lines: "\<forall>l \<in> set ls. LF \<notin> set l \<Longrightarrow> update_hash (lines_text ls) del = Ok (lines_text (filter (\<lambda>l. l \<notin> del) ls))"
  by (simp add: update_hash_def getlines_lines keep_lines)

declare update_list.simps(2) [simp del]

text \<open>The mails that a deletion leaves.\<close>

definition without :: "(string \<Rightarrow> string) \<Rightarrow> string list \<Rightarrow> stored_mail list \<Rightarrow> stored_mail list" where
  "without dg del ms = filter (\<lambda>m. hash_MD5 dg (mail_data m) \<notin> set del) ms"

context mail_service
begin

lemma delete_cells:
  assumes "live (length del + n) b" "user_ok u" "\<forall>h \<in> set del. hash_ok h" "mail_rows (view b)"
  shows "\<exists>b'. delete_mails E node u (mail_prefix inbox) del b = Ok b' \<and> live n b' \<and> mail_rows (view b') \<and>
    snd (view b') = (\<lambda>k. if k \<in> (\<lambda>h. (u, mail_prefix inbox @ h)) ` set del then None else snd (view b) k)"
  using assms(1,3,4)
proof (induction del arbitrary: b)
  case (Cons h del)
  have k: "mail_key (u, mail_prefix inbox @ h)" using mail_key_prefix [OF assms(2)] Cons.prems(2) by simp
  have l: "live (Suc (length del + n)) b" using Cons.prems(1) by simp
  obtain b1 r where b1: "mail_send E node (mail_delete u (mail_prefix inbox @ h)) b = Ok (r, b1)" "live (length del + n) b1"
    "snd (view b1) = (snd (view b))((u, mail_prefix inbox @ h) := None)" "mail_rows (view b1)"
    by (rule delete_cell [OF l k Cons.prems(3)])
  obtain b' where "delete_mails E node u (mail_prefix inbox) del b1 = Ok b'" "live n b'" "mail_rows (view b')"
    "snd (view b') = (\<lambda>k. if k \<in> (\<lambda>h. (u, mail_prefix inbox @ h)) ` set del then None else snd (view b1) k)"
    using Cons.IH [OF b1(2) _ b1(4)] Cons.prems(2) by auto
  then show ?case using b1(1,3) by (auto simp: fun_eq_iff)
qed auto

lemma delete_list:
  assumes "live (Suc (Suc n)) b" "user_ok u" "\<forall>x \<in> set hs. hash_ok x" "length hs \<le> 260" "mail_rows (view b)"
    and "snd (view b) (u, mail_prefix inbox @ ''list'') = Some (hash_list hs)" "\<forall>h \<in> set del. hash_ok h"
  obtains b' where "update_list E (Suc m) node u (mail_prefix inbox) (set del) b = Ok b'" "live n b'" "mail_rows (view b')"
    "snd (view b') = (snd (view b))((u, mail_prefix inbox @ ''list'') :=
       (let hs' = filter (\<lambda>h. h \<notin> set del) hs in if hs' = [] then None else Some (hash_list hs')))"
proof -
  let ?c = "mail_prefix inbox @ ''list''" and ?hs' = "filter (\<lambda>h. h \<notin> set del) hs"
  have k: "mail_key (u, ?c)" using mail_key_prefix [OF assms(2)] by blast
  have sm: "small_text (hs @ [''list''])" using assms(3,4) by (rule hash_list_small)
  have "length ?hs' \<le> 260" using assms(4) le_trans [OF length_filter_le] by blast
  then have sm': "small_text (?hs' @ [''list''])" using assms(3) by (intro hash_list_small) auto
  obtain b1 where b1: "mail_send E node (mail_get u ?c) b = Ok (hash_list hs, b1)" "live (Suc n) b1" "view b1 = view b"
    using get_lines [OF assms(1) k _ sm] assms(6) unfolding hash_list_def by blast
  have lf: "\<forall>l \<in> set (hs @ [''list'']). LF \<notin> set l" using hash_list_lines [OF assms(3)] by (auto simp: line_ok_def)
  have "''list'' \<notin> set del" using assms(7) by (auto simp: hash_ok_def)
  then have up: "update_hash (hash_list hs) (set del) = Ok (hash_list ?hs')"
    using update_hash_lines [OF lf, of "set del"] by (simp add: hash_list_def)
  have empty: "hash_list ?hs' = ''list'' @ crlf \<longleftrightarrow> ?hs' = []"
  proof
    assume "hash_list ?hs' = ''list'' @ crlf"
    then have "length (hash_list ?hs') = 6" by simp
    then have "length ?hs' = 0" using hash_list_length [of ?hs'] assms(3) by simp
    then show "?hs' = []" by (rule length_0_conv [THEN iffD1])
  qed (simp add: hash_list_def)
  show thesis
  proof (cases "?hs' = []")
    case True
    obtain b2 r where b2: "mail_send E node (mail_delete u ?c) b1 = Ok (r, b2)" "live n b2"
      "snd (view b2) = (snd (view b1))((u, ?c) := None)" "mail_rows (view b2)"
      using delete_cell [OF b1(2) k] assms(5) b1(3) by metis
    have "update_list E (Suc m) node u (mail_prefix inbox) (set del) b = Ok b2"
      unfolding update_list.simps b1(1) and_then.simps prod.case up if_P [OF empty [THEN iffD2, OF True]] b2(1) by simp
    then show thesis using that b2 True b1(3) by simp
  next
    case False
    then have ne: "hash_list ?hs' \<noteq> ''list'' @ crlf" using empty by blast
    obtain b2 where b2: "mail_send E node (mail_cput u ?c (hash_list hs) (hash_list ?hs')) b1 = Ok (''+OK'' @ crlf, b2)"
      "live n b2" "snd (view b2) = (snd (view b1))((u, ?c) \<mapsto> hash_list ?hs')" "mail_rows (view b2)"
      using cput_lines [OF b1(2) k _ sm sm'] assms(5,6) unfolding hash_list_def b1(3) by blast
    have "compare_eq (''+OK'' @ crlf) 1 2 ''OK'' = Ok True" by (simp add: compare_eq_def crlf_def)
    then have "update_list E (Suc m) node u (mail_prefix inbox) (set del) b = Ok b2"
      unfolding update_list.simps b1(1) and_then.simps prod.case up if_not_P [OF ne] b2(1) by simp
    then show thesis using that b2 False b1(3) by (simp add: Let_def)
  qed
qed

text \<open>Deletion implements \<open>without\<close>.\<close>

lemma remove_effect:
  assumes "live (Suc (Suc (length del + n))) b" "\<forall>x. length (digest E x) = 16" "mail_rows (view b)"
    and "mailbox (digest E) (view b) u inbox ms" "\<forall>h \<in> set del. hash_ok h"
    and "snd (view b) (u, mail_prefix inbox @ ''list'') \<noteq> None"
  obtains b' where "update_backend E (Suc m) u del inbox b = Ok b'" "live n b'" "mail_rows (view b')"
    "mailbox (digest E) (view b') u inbox (without (digest E) del ms)"
    "\<forall>k. k \<noteq> (u, mail_prefix inbox @ ''list'') \<longrightarrow>
       snd (view b') k = (if k \<in> (\<lambda>h. (u, mail_prefix inbox @ h)) ` set del then None else snd (view b) k)"
proof -
  let ?hs = "map (\<lambda>m. hash_MD5 (digest E) (mail_data m)) ms"
  have hok: "hash_ok (hash_MD5 (digest E) x)" for x using assms(2) by (rule hash_MD5_ok)
  have mb: "user_ok u" "length ?hs \<le> 260" "distinct ?hs" "snd (view b) (u, mail_prefix inbox @ ''list'') = Some (hash_list ?hs)"
    "\<forall>x \<in> set ?hs. hash_ok x"
    "\<forall>m \<in> set ms. mail_item_ok m \<and>
            snd (view b) (u, mail_prefix inbox @ hash_MD5 (digest E) (mail_data m)) = Some (lines_text (mail_lines m))"
    using assms(4,6) hok by (auto simp: mailbox_def Let_def)
  have ask: "mail_ask_master E u b = Ok (node, b)" using mb(1) by (intro master_law) (simp add: user_ok_def)
  obtain b1 where b1: "update_list E (Suc m) node u (mail_prefix inbox) (set del) b = Ok b1" "live (length del + n) b1"
    "mail_rows (view b1)" "snd (view b1) = (snd (view b))((u, mail_prefix inbox @ ''list'') :=
       (let hs' = filter (\<lambda>h. h \<notin> set del) ?hs in if hs' = [] then None else Some (hash_list hs')))"
    by (rule delete_list [OF assms(1) mb(1,5,2) assms(3) mb(4) assms(5)])
  obtain b2 where b2: "delete_mails E node u (mail_prefix inbox) del b1 = Ok b2" "live n b2" "mail_rows (view b2)"
    "snd (view b2) = (\<lambda>k. if k \<in> (\<lambda>h. (u, mail_prefix inbox @ h)) ` set del then None else snd (view b1) k)"
    using delete_cells [OF b1(2) mb(1) assms(5) b1(3)] by blast
  have hs': "filter (\<lambda>h. h \<notin> set del) ?hs = map (\<lambda>m. hash_MD5 (digest E) (mail_data m)) (without (digest E) del ms)"
    by (simp add: without_def filter_map comp_def)
  have "''list'' \<notin> set del" using assms(5) by (auto simp: hash_ok_def)
  then have "(u, mail_prefix inbox @ ''list'') \<notin> (\<lambda>h. (u, mail_prefix inbox @ h)) ` set del" by auto
  then have lst: "snd (view b2) (u, mail_prefix inbox @ ''list'') =
      (if without (digest E) del ms = [] then None
       else Some (hash_list (map (\<lambda>m. hash_MD5 (digest E) (mail_data m)) (without (digest E) del ms))))"
    unfolding b2(4) b1(4) Let_def hs' by simp
  have hl: "hash_MD5 (digest E) x \<noteq> ''list''" for x using hok [of x] by (auto simp: hash_ok_def)
  have "mailbox (digest E) (view b2) u inbox (without (digest E) del ms)"
    unfolding mailbox_def Let_def
  proof (intro conjI ballI)
    show "length (without (digest E) del ms) \<le> 260"
      using mb(2) le_trans [OF length_filter_le] by (simp add: without_def)
    show "distinct (map (\<lambda>m. hash_MD5 (digest E) (mail_data m)) (without (digest E) del ms))"
      using mb(3) by (simp add: hs' [symmetric])
    fix x assume x: "x \<in> set (without (digest E) del ms)"
    then show "mail_item_ok x" using mb(6) by (simp add: without_def)
    show "snd (view b2) (u, mail_prefix inbox @ hash_MD5 (digest E) (mail_data x)) = Some (lines_text (mail_lines x))"
      using x mb(6) hl unfolding b2(4) b1(4) by (auto simp: without_def)
  qed (use mb(1) lst in auto)
  moreover have "\<forall>k. k \<noteq> (u, mail_prefix inbox @ ''list'') \<longrightarrow>
      snd (view b2) k = (if k \<in> (\<lambda>h. (u, mail_prefix inbox @ h)) ` set del then None else snd (view b) k)"
    by (simp add: b2(4) b1(4))
  moreover have "update_backend E (Suc m) u del inbox b = Ok b2"
    using ask b1(1) b2(1) node_law by (simp add: update_backend_def)
  ultimately show thesis using b2(2,3) by (intro that)
qed

text \<open>Without a list the loop compares with the error message for ever.\<close>

lemma remove_spins:
  assumes "live (2 * m) b" "user_ok u" "snd (view b) (u, mail_prefix inbox @ ''list'') = None" "\<forall>h \<in> set del. hash_ok h"
  shows "update_list E m node u (mail_prefix inbox) (set del) b = Block"
  using assms(1,3)
proof (induction m arbitrary: b)
  case (Suc m)
  let ?c = "mail_prefix inbox @ ''list''"
  have k: "mail_key (u, ?c)" using mail_key_prefix [OF assms(2)] by blast
  have l: "live (Suc (Suc (2 * m))) b" using Suc.prems(1) by simp
  obtain b1 x where b1: "mail_send E node (mail_get u ?c) b = Ok (''-ERR'' @ x @ crlf, b1)" "live (Suc (2 * m)) b1" "view b1 = view b"
    "x = '' NULL row'' \<or> x = '' NULL colmn''"
    by (rule get_none [OF l k Suc.prems(2)])
  have x: "line_ok (''-ERR'' @ x)" "LF \<notin> set x" using b1(4) by (auto simp: line_ok_def)
  have nd: "''-ERR'' @ x \<notin> set del" using assms(4) by (auto simp: hash_ok_def)
  have sm: "small_text [''-ERR'' @ x]" using x(1) b1(4) by (auto simp: small_text_def)
  have t: "''-ERR'' @ x @ crlf = lines_text [''-ERR'' @ x]" by simp
  have up: "update_hash (''-ERR'' @ x @ crlf) (set del) = Ok (''-ERR'' @ x @ crlf)"
    unfolding t using update_hash_lines [of "[''-ERR'' @ x]" "set del"] x(2) nd by simp
  let ?q = "RCput (u, ?c) (lines_text [''-ERR'' @ x]) (lines_text [''-ERR'' @ x])"
  have s: "serve ?q (view b1) = (''-ERR'' @ crlf, view b1)"
    using Suc.prems(2) b1(3,4) by (cases "view b") (auto simp: cput_match_def)
  have rd: "mail_do_read False [] [] [Bytes (''-ERR'' @ crlf)] = Ok (''-ERR'' @ crlf)"
    using read_line_reply [of "[]" "''-ERR''"] by simp
  have "put_safe ?q (view b1)" by (simp add: put_safe_def)
  from one_mail [OF b1(2) mail_req_ok(4) [OF k sm sm] this s rd]
  obtain b2 where b2: "mail_send E node (mail_cput u ?c (''-ERR'' @ x @ crlf) (''-ERR'' @ x @ crlf)) b1 = Ok (''-ERR'' @ crlf, b2)"
    "live (2 * m) b2" "view b2 = view b1"
    unfolding mail_texts t by blast
  have "update_list E m node u (mail_prefix inbox) (set del) b2 = Block"
    by (rule Suc.IH [OF b2(2)]) (use Suc.prems(2) b1(3) b2(3) in simp)
  moreover have "compare_eq (''-ERR'' @ crlf) 1 2 ''OK'' = Ok False" by (simp add: compare_eq_def)
  ultimately show ?case
    unfolding update_list.simps b1(1) and_then.simps prod.case up using b2(1) by simp
qed simp

end

context mail_service
begin

text \<open>A list that already names a mail whose cell is not there yet ends the reader.\<close>

lemma read_dangling:
  assumes "live (Suc (Suc n)) b" "user_ok u" "hash_ok h" "\<forall>x \<in> set hs. hash_ok x" "length hs < 260"
    and "snd (view b) (u, mail_prefix inbox @ ''list'') = Some (hash_list (h # hs))"
    and "snd (view b) (u, mail_prefix inbox @ h) = None"
  shows "recvfrom_backend E u inbox b = Throw Out_of_range"
proof -
  let ?hs = "h # hs"
  have k: "mail_key (u, mail_prefix inbox @ ''list'')" "mail_key (u, mail_prefix inbox @ h)"
    using mail_key_prefix [OF assms(2)] assms(3) by blast+
  have hok: "\<forall>x \<in> set ?hs. hash_ok x" using assms(3,4) by simp
  have ask: "mail_ask_master E u b = Ok (node, b)" using assms(2) by (intro master_law) (simp add: user_ok_def)
  have sm: "small_text (?hs @ [''list''])" using hash_list_small [OF hok] assms(5) by simp
  obtain b1 where b1: "mail_send E node (mail_get u (mail_prefix inbox @ ''list'')) b = Ok (lines_text (?hs @ [''list'']), b1)"
    "live (Suc n) b1" "view b1 = view b"
    using get_lines [OF assms(1) k(1) assms(6) [unfolded hash_list_def] sm] by blast
  have lf: "\<forall>l \<in> set (?hs @ [''list'']). LF \<notin> set l" using hash_list_lines [OF hok] by (auto simp: line_ok_def)
  obtain b2 x where b2: "mail_send E node (mail_get u (mail_prefix inbox @ h)) b1 = Ok (''-ERR'' @ x @ crlf, b2)"
    "x = '' NULL row'' \<or> x = '' NULL colmn''"
    using get_none [OF b1(2) k(2)] assms(7) b1(3) by metis
  have hl: "take 4 (h @ [CR]) \<noteq> ''list''" using assms(3) by (cases h) (auto simp: hash_ok_def)
  have f1: "find (''-ERR'' @ x @ crlf) ''Header '' 0 = npos" using b2(2) by (auto simp: find_start crlf_def)
  have "substr (''-ERR'' @ x @ crlf) npos k = Throw Out_of_range" for k
    using b2(2) by (auto simp: substr_def npos_def)
  then have "extract_email E node u (mail_prefix inbox @ h) b1 = Throw Out_of_range"
    unfolding extract_email_def b2(1) and_then.simps prod.case Let_def f1 by simp
  then show ?thesis
    using ask b1(1) node_law list_not_err [OF hok] getlines_lines [OF lf] hl
    by (simp add: recvfrom_backend_def hash_list_def pop_back_def)
qed

end

section \<open>The mail library on the data server\<close>

text \<open>
  What a connection brings back: from the master the reply to WHERE (the primary's address \<open>a\<close>) or to
  QUIT, from the primary the answer of its worker. \<open>ma\<close> is the master's address.
\<close>

definition mail_world :: "(string \<Rightarrow> string) \<Rightarrow> sockaddr_in \<Rightarrow> string \<Rightarrow> worker mail_env" where
  "mail_world dg a ma = \<lparr>contact = (\<lambda>addr msg c.
       if addr = ma then ([Bytes (if msg = ''QUIT'' @ crlf then ''+OK server signing off'' @ crlf else server_reply a)], c)
       else worker_exchange msg c), digest = dg, master_at = ma\<rparr>"

locale mail_site =
  fixes a :: sockaddr_in and ma :: string and dg :: "string \<Rightarrow> string"
  assumes site_law: "addr_ok a" "ma \<noteq> ip_to_string a" "\<exists>p. mail_address ma = Ok p"

lemma ip_text_plain:
  "CHR ''<'' \<notin> set (ip_to_string a)" "CHR ''>'' \<notin> set (ip_to_string a)" "CR \<notin> set (ip_to_string a)"
  "CHR 0x00 \<notin> set (ip_to_string a)"
  using show_nat_absent [of "CHR ''<''"] show_nat_absent [of "CHR ''>''"] show_nat_absent [of CR] show_nat_absent [of "CHR 0x00"]
  by (auto simp: ip_to_string_def is_digit_def split: prod.splits)

lemma ip_text_address: "addr_ok a \<Longrightarrow> \<exists>p. mail_address (ip_to_string a) = Ok p"
proof -
  assume a: "addr_ok a"
  have "sfind '':'' (ip_to_string a) \<noteq> None" by (cases "sin_addr a") (simp add: ip_to_string_def)
  then obtain i where i: "sfind '':'' (ip_to_string a) = Some i" "i + 1 \<le> length (ip_to_string a)"
    using sfind_length by fastforce
  have "i + 1 < npos" using i(2) addr_text_short [OF a] by (simp add: npos_def)
  then show ?thesis using i by (simp add: mail_address_def find_start substr_def Let_def)
qed

lemma master_answer:
  assumes "addr_ok a" "\<exists>p. mail_address ma = Ok p" "name_small user"
  shows "mail_ask_master (mail_world dg a ma) user c = Ok (ip_to_string a, c)"
proof -
  let ?ip = "ip_to_string a" and ?r = "''SERVER'' @ ('' <'' @ ip_to_string a @ ''>'') @ crlf"
  have len: "length ?ip \<le> 21" using assms(1) by (rule addr_text_short)
  have un: "CHR 0x00 \<notin> set user" using assms(3) by (simp add: name_small_def plain_name_def)
  have w: "cstr (''WHERE <'' @ user @ ''>'' @ crlf) = ''WHERE <'' @ user @ ''>'' @ crlf" using un by (simp add: crlf_chars)
  have q: "cstr (''QUIT'' @ crlf) = ''QUIT'' @ crlf" by (simp add: crlf_chars)
  have "mail_do_read False [] [] [Bytes ?r] = Ok ?r"
    using len ip_text_plain [of a] by (intro read_line_reply) auto
  then have r1: "mail_send (mail_world dg a ma) ma (''WHERE <'' @ user @ ''>'' @ crlf) c = Ok (server_reply a, c)"
    using assms(2) unfolding mail_send_def w by (auto simp: mail_world_def server_reply_def)
  have "mail_do_read False [] [] [Bytes (''+OK'' @ '' server signing off'' @ crlf)] = Ok (''+OK'' @ '' server signing off'' @ crlf)"
    by (intro read_line_reply) auto
  then have r2: "mail_send (mail_world dg a ma) ma (''QUIT'' @ crlf) c = Ok (''+OK server signing off'' @ crlf, c)"
    using assms(2) unfolding mail_send_def q by (auto simp: mail_world_def)
  have f1: "find (server_reply a) ''<'' 0 = 7"
    using find_char [of "CHR ''<''" "''SERVER ''" "?ip @ ''>'' @ crlf"] by (simp add: server_reply_def)
  have f2: "find (server_reply a) ''>'' 0 = 8 + length ?ip"
    using find_char [of "CHR ''>''" "''SERVER <'' @ ?ip" crlf] ip_text_plain(2) [of a] by (simp add: server_reply_def)
  have sz: "szadd 7 1 = 8" "szsub (szsub (8 + length ?ip) 7) 1 = length ?ip" using len by (simp_all add: npos_def)
  have sub: "substr (server_reply a) 8 (length ?ip) = Ok ?ip" by (simp add: server_reply_def)
  have ne: "server_reply a \<noteq> ''NULL''" and m: "master_at (mail_world dg a ma) = ma"
    by (simp_all add: server_reply_def mail_world_def)
  show ?thesis
    unfolding mail_ask_master_def m r1 and_then.simps prod.case if_not_P [OF ne] Let_def f1 f2 sz sub r2 by (rule refl)
qed

sublocale mail_site \<subseteq> mail_service worker_exchange "\<lambda>c. abs_store (tbl c)" can_serve "mail_world dg a ma" "ip_to_string a"
proof
  show "contact (mail_world dg a ma) (ip_to_string a) msg b = worker_exchange msg b" for msg b
    using site_law(2) by (auto simp: mail_world_def)
  show "\<exists>p. mail_address (ip_to_string a) = Ok p" using site_law(1) by (rule ip_text_address)
  show "mail_ask_master (mail_world dg a ma) user b = Ok (ip_to_string a, b)" if "name_small user" for user b
    using site_law that by (intro master_answer)
  have "CHR ''.'' \<in> set (ip_to_string a)" by (cases "sin_addr a") (simp add: ip_to_string_def)
  then show "ip_to_string a \<noteq> ''NULL''" by (rule contrapos_pn) simp
  show "can_serve n b" if "can_serve (Suc n) b" for n b using that by (simp add: can_serve_def)
qed

context mail_site
begin

lemma on_primary: "mail_service worker_exchange (\<lambda>c. abs_store (tbl c)) can_serve (mail_world dg a ma) (ip_to_string a)"
  by (rule mail_service_axioms)

end

lemma local_addresses: "ip_to_string (localhost 5000) = ''127.0.0.1:5000''"
  by (simp add: ip_to_string_def localhost_def show_nat.simps digit_char_def char_of_def bit_Suc_0_iff)

interpretation local_site: mail_site "localhost 5000" "''127.0.0.1:8000''" dg for dg
proof
  show "''127.0.0.1:8000'' \<noteq> ip_to_string (localhost 5000)" by (simp add: local_addresses)
  show "\<exists>p. mail_address ''127.0.0.1:8000'' = Ok p"
    by (simp add: mail_address_def find_start Let_def substr_def npos_def szadd_def size_mod_def)
qed simp

text \<open>
  C4. Delivery and reading agree, on the model of the primary itself: when the inbox of a user holds the
  mails \<open>ms\<close>, delivering a mail makes it the first of the inbox (a mail with the same text is replaced),
  touches no other user's cells, and what the web server then reads are these mails, each with its
  header, its text without the subject line and the hash under which it is stored.
\<close>

theorem mail_delivered:
  assumes "addr_ok a" "ma \<noteq> ip_to_string a" "\<exists>p. mail_address ma = Ok p" "\<forall>x. length (dg x) = 16"
    and "mail SE = mail_world dg a ma" "s_back s = c" "can_serve (length ms + 7) c" "mail_rows (abs_store (tbl c))"
    and "mailbox dg (abs_store (tbl c)) u True ms" "length ms < 260" "mail_item_ok m" "s_data s = mail_data m"
  shows "\<exists>c'. deliver_local SE (Suc (Suc k)) (ip_to_string a) u (fst m @ crlf) (hash_MD5 dg (s_data s)) s = Ok (s\<lparr>s_back := c'\<rparr>) \<and>
    mailbox dg (abs_store (tbl c')) u True (put_first dg m ms) \<and>
    (\<forall>key. fst key \<noteq> u \<longrightarrow> cell_get (tbl c') key = cell_get (tbl c) key) \<and>
    (\<exists>c''. recvfrom_backend (mail_world dg a ma) u True c' = Ok (map (shown_mail dg) (put_first dg m ms), c''))"
proof -
  note site = mail_site.on_primary [OF mail_site.intro [OF assms(1-3)], of dg]
  let ?E = "mail_world dg a ma"
  have dg: "digest ?E = dg" by (simp add: mail_world_def)
  have l: "can_serve (Suc (Suc (Suc (Suc (Suc (length ms + 2)))))) (s_back s)"
    "mail_rows (abs_store (tbl (s_back s)))" "\<forall>x. length (digest ?E x) = 16"
    "mailbox (digest ?E) (abs_store (tbl (s_back s))) u True ms"
    using assms(4,6-9) by (simp_all add: dg eval_nat_numeral)
  obtain c' where c': "deliver_local SE (Suc (Suc k)) (ip_to_string a) u (fst m @ crlf) (hash_MD5 dg (s_data s)) s = Ok (s\<lparr>s_back := c'\<rparr>)"
    "can_serve (length ms + 2) c'" "mailbox dg (abs_store (tbl c')) u True (put_first dg m ms)"
    "\<forall>key. fst key \<noteq> u \<longrightarrow> snd (abs_store (tbl c')) key = snd (abs_store (tbl c)) key"
    by (rule mail_service.deliver_effect [OF site l assms(10-12,5), where k=k]) (auto simp: dg assms(6))
  have "length (put_first dg m ms) \<le> length ms + 1" by (simp add: put_first_def)
  then obtain n where n: "length ms + 2 = Suc (length (put_first dg m ms) + n)"
    by (metis add.assoc add_Suc_right le_Suc_ex nat_arith.suc1 numeral_2_eq_2 One_nat_def)
  obtain c'' where "recvfrom_backend ?E u True c' = Ok (map (shown_mail dg) (put_first dg m ms), c'')"
    using mail_service.read_effect [OF site] c'(2,3) assms(4) unfolding n dg by metis
  then show ?thesis using c'(1,3,4) by (auto simp: abs_store_def)
qed

definition demo_digest :: "string \<Rightarrow> string" where
  "demo_digest x = take 16 (x @ replicate 16 (CHR '' ''))"

definition demo_mail :: stored_mail where
  "demo_mail = (''Header |localhost|bo@localhost|al@localhost|hi|now'', ''Subject: hi'', [''hello''])"

definition demo_smtp_env :: "worker smtp_env" where
  "demo_smtp_env = \<lparr>mail = mail_world demo_digest (localhost 5000) ''127.0.0.1:8000'',
     relay = \<lparr>mx_records = (\<lambda>h. []), host_ip = (\<lambda>h. None), reachable = (\<lambda>h. False), stale_address = []\<rparr>,
     clock = ''now'' @ [LF]\<rparr>"

lemma demo_digest_length [simp]: "length (demo_digest x) = 16"
  by (simp add: demo_digest_def)

lemma demo_mail_ok [simp]: "mail_item_ok demo_mail"
  by (simp add: mail_item_ok_def demo_mail_def small_text_def mail_lines_def line_ok_def crlf_def)

lemma demo_site_ok:
  "addr_ok (localhost 5000)" "''127.0.0.1:8000'' \<noteq> ip_to_string (localhost 5000)" "\<exists>p. mail_address ''127.0.0.1:8000'' = Ok p"
  using local_site.site_law by simp_all

lemma demo_user_ok [simp]: "user_ok ''al''"
  by (simp add: user_ok_def name_small_def plain_name_def name_ok_def)

theorem mail_delivered_witness:
  "\<exists>c' c''. deliver_local demo_smtp_env 2 (ip_to_string (localhost 5000)) ''al'' (fst demo_mail @ crlf)
      (hash_MD5 demo_digest (mail_data demo_mail)) ((new_session (demo_files []) None)\<lparr>s_data := mail_data demo_mail\<rparr>) =
      Ok ((new_session c' None)\<lparr>s_data := mail_data demo_mail\<rparr>) \<and>
    recvfrom_backend (mail demo_smtp_env) ''al'' True c' = Ok ([shown_mail demo_digest demo_mail], c'')"
proof -
  let ?s = "(new_session (demo_files []) None)\<lparr>s_data := mail_data demo_mail\<rparr>"
  have mb: "mailbox demo_digest (abs_store (tbl (demo_files []))) ''al'' True []"
    by (simp add: mailbox_def Let_def demo_files_store)
  have "\<exists>c'. deliver_local demo_smtp_env (Suc (Suc 0)) (ip_to_string (localhost 5000)) ''al'' (fst demo_mail @ crlf)
      (hash_MD5 demo_digest (s_data ?s)) ?s = Ok (?s\<lparr>s_back := c'\<rparr>) \<and>
    mailbox demo_digest (abs_store (tbl c')) ''al'' True (put_first demo_digest demo_mail []) \<and>
    (\<forall>key. fst key \<noteq> ''al'' \<longrightarrow> cell_get (tbl c') key = cell_get (tbl (demo_files [])) key) \<and>
    (\<exists>c''. recvfrom_backend (mail_world demo_digest (localhost 5000) ''127.0.0.1:8000'') ''al'' True c' =
       Ok (map (shown_mail demo_digest) (put_first demo_digest demo_mail []), c''))"
    by (rule mail_delivered [OF demo_site_ok _ _ _ _ _ mb])
       (simp_all add: demo_smtp_env_def new_session_def mail_rows_def demo_files_store)
  then show ?thesis
    by (auto simp: new_session_def put_first_def demo_smtp_env_def numeral_2_eq_2)
qed

text \<open>
  C17. Deleting mails implements the deletion from the mailbox: exactly the mails with these hashes leave
  the list, the order of the others is kept, their cells are deleted, and every other cell of the store
  except the mailbox's list, of this user or of another, is as it was.
\<close>

theorem mail_deleted:
  assumes "addr_ok a" "ma \<noteq> ip_to_string a" "\<exists>p. mail_address ma = Ok p" "\<forall>x. length (dg x) = 16"
    and "can_serve (length del + 2) c" "mail_rows (abs_store (tbl c))" "mailbox dg (abs_store (tbl c)) u inbox ms"
    and "\<forall>h \<in> set del. hash_ok h" "cell_get (tbl c) (u, mail_prefix inbox @ ''list'') \<noteq> None"
  shows "\<exists>c'. update_backend (mail_world dg a ma) (Suc m) u del inbox c = Ok c' \<and>
    mailbox dg (abs_store (tbl c')) u inbox (without dg del ms) \<and>
    (\<forall>h \<in> set del. cell_get (tbl c') (u, mail_prefix inbox @ h) = None) \<and>
    (\<forall>key. key \<noteq> (u, mail_prefix inbox @ ''list'') \<and> key \<notin> (\<lambda>h. (u, mail_prefix inbox @ h)) ` set del \<longrightarrow>
       cell_get (tbl c') key = cell_get (tbl c) key)"
proof -
  note site = mail_site.on_primary [OF mail_site.intro [OF assms(1-3)], of dg]
  let ?E = "mail_world dg a ma"
  have dg: "digest ?E = dg" by (simp add: mail_world_def)
  have l: "can_serve (Suc (Suc (length del + 0))) c" "\<forall>x. length (digest ?E x) = 16" "mail_rows (abs_store (tbl c))"
    "mailbox (digest ?E) (abs_store (tbl c)) u inbox ms" "\<forall>h \<in> set del. hash_ok h"
    "snd (abs_store (tbl c)) (u, mail_prefix inbox @ ''list'') \<noteq> None"
    using assms(4-9) by (simp_all add: dg abs_store_def)
  obtain c' where "update_backend ?E (Suc m) u del inbox c = Ok c'"
    "mailbox dg (abs_store (tbl c')) u inbox (without dg del ms)"
    "\<forall>k. k \<noteq> (u, mail_prefix inbox @ ''list'') \<longrightarrow> snd (abs_store (tbl c')) k =
       (if k \<in> (\<lambda>h. (u, mail_prefix inbox @ h)) ` set del then None else snd (abs_store (tbl c)) k)"
    by (rule mail_service.remove_effect [OF site l, where m=m]) (simp add: dg)
  moreover have "(u, mail_prefix inbox @ h) \<noteq> (u, mail_prefix inbox @ ''list'')" if "h \<in> set del" for h
    using assms(8) that by (auto simp: hash_ok_def)
  ultimately show ?thesis by (auto simp: abs_store_def)
qed

definition demo_box :: worker where
  "demo_box = demo_files [((''al'', ''mail/inbox/list''), hash_MD5 demo_digest (mail_data demo_mail) @ crlf @ ''list''),
     ((''al'', ''mail/inbox/'' @ hash_MD5 demo_digest (mail_data demo_mail)),
      fst demo_mail @ crlf @ ''Subject: hi'' @ crlf @ ''hello'')]"

lemma demo_box_mail: "mailbox demo_digest (abs_store (tbl demo_box)) ''al'' True [demo_mail]"
proof -
  let ?h = "hash_MD5 demo_digest (mail_data demo_mail)"
  have "hash_ok ?h" by (rule hash_MD5_ok) simp
  then have "?h \<noteq> ''list''" by (auto simp: hash_ok_def)
  moreover have "lines_text (mail_lines demo_mail) = fst demo_mail @ crlf @ ''Subject: hi'' @ crlf @ ''hello'' @ crlf"
    by (simp add: mail_lines_def demo_mail_def)
  ultimately show ?thesis
    by (auto simp: mailbox_def Let_def demo_box_def demo_files_store mail_prefix_def hash_list_def)
qed

theorem mail_deleted_witness:
  "\<exists>c'. update_backend (mail_world demo_digest (localhost 5000) ''127.0.0.1:8000'') 1 ''al''
      [hash_MD5 demo_digest (mail_data demo_mail)] True demo_box = Ok c' \<and>
    mailbox demo_digest (abs_store (tbl c')) ''al'' True [] \<and>
    cell_get (tbl c') (''al'', ''mail/inbox/'' @ hash_MD5 demo_digest (mail_data demo_mail)) = None"
proof -
  let ?h = "hash_MD5 demo_digest (mail_data demo_mail)"
  have h: "\<forall>h \<in> set [?h]. hash_ok h" using hash_MD5_ok [of demo_digest] by simp
  have p: "mail_prefix True = ''mail/inbox/''" by (simp add: mail_prefix_def)
  have "\<exists>c'. update_backend (mail_world demo_digest (localhost 5000) ''127.0.0.1:8000'') (Suc 0) ''al'' [?h] True demo_box = Ok c' \<and>
    mailbox demo_digest (abs_store (tbl c')) ''al'' True (without demo_digest [?h] [demo_mail]) \<and>
    (\<forall>h \<in> set [?h]. cell_get (tbl c') (''al'', mail_prefix True @ h) = None) \<and>
    (\<forall>key. key \<noteq> (''al'', mail_prefix True @ ''list'') \<and> key \<notin> (\<lambda>h. (''al'', mail_prefix True @ h)) ` set [?h] \<longrightarrow>
       cell_get (tbl c') key = cell_get (tbl demo_box) key)"
    by (rule mail_deleted [OF demo_site_ok _ _ _ demo_box_mail h])
       (simp_all add: demo_box_def mail_rows_def demo_files_store mail_prefix_def)
  then show ?thesis by (auto simp: without_def p)
qed

text \<open>
  Deleting from a mailbox that has no list never ends: the loop takes the error message for the old
  list, and its compare-and-swap fails for ever, whatever the fuel.
\<close>

theorem delete_spins:
  assumes "addr_ok a" "ma \<noteq> ip_to_string a" "\<exists>p. mail_address ma = Ok p"
    and "can_serve (2 * m) c" "user_ok u" "cell_get (tbl c) (u, mail_prefix inbox @ ''list'') = None" "\<forall>h \<in> set del. hash_ok h"
  shows "update_backend (mail_world dg a ma) m u del inbox c = Block"
proof -
  note site = mail_site.on_primary [OF mail_site.intro [OF assms(1-3)], of dg]
  have c: "snd (abs_store (tbl c)) (u, mail_prefix inbox @ ''list'') = None" using assms(6) by (simp add: abs_store_def)
  have "update_list (mail_world dg a ma) m (ip_to_string a) u (mail_prefix inbox) (set del) c = Block"
    by (rule mail_service.remove_spins [OF site assms(4,5) c assms(7)])
  moreover have "mail_ask_master (mail_world dg a ma) u c = Ok (ip_to_string a, c)"
    using assms(1,3,5) by (intro master_answer) (simp_all add: user_ok_def)
  moreover have "ip_to_string a \<noteq> ''NULL''" using mail_service.node_law [OF site] .
  ultimately show ?thesis by (simp add: update_backend_def)
qed

theorem delete_spins_witness:
  "update_backend (mail_world demo_digest (localhost 5000) ''127.0.0.1:8000'') 400 ''al''
     [hash_MD5 demo_digest (mail_data demo_mail)] True (demo_files []) = Block"
proof -
  have h: "\<forall>h \<in> set [hash_MD5 demo_digest (mail_data demo_mail)]. hash_ok h" using hash_MD5_ok [of demo_digest] by simp
  show ?thesis by (rule delete_spins [OF demo_site_ok _ _ _ h]) simp_all
qed

text \<open>
  A reader between the two steps of a delivery fails: the list is changed before the mail is stored,
  so a web server that reads the inbox then asks for a cell that does not exist, finds no header in the
  error message and ends with an exception.
\<close>

theorem list_before_mail:
  assumes "addr_ok a" "ma \<noteq> ip_to_string a" "\<exists>p. mail_address ma = Ok p" "\<forall>x. length (dg x) = 16"
    and "can_serve 6 c" "mail_rows (abs_store (tbl c))" "mailbox dg (abs_store (tbl c)) u True ms" "length ms < 260"
    and "cell_get (tbl c) (u, ''mail/inbox/'' @ hash_MD5 dg t) = None"
  shows "\<exists>c1. append_hash (mail_world dg a ma) (Suc (Suc k)) (ip_to_string a) u ''mail/inbox/list'' (hash_MD5 dg t) c = Ok c1 \<and>
    recvfrom_backend (mail_world dg a ma) u True c1 = Throw Out_of_range"
proof -
  note site = mail_site.on_primary [OF mail_site.intro [OF assms(1-3)], of dg]
  let ?E = "mail_world dg a ma" and ?h = "hash_MD5 dg t" and ?hs = "map (\<lambda>m. hash_MD5 dg (mail_data m)) ms"
  have p: "mail_prefix True = ''mail/inbox/''" "mail_prefix True @ ''list'' = ''mail/inbox/list''"
    by (simp_all add: mail_prefix_def)
  have u: "user_ok u" and c: "snd (abs_store (tbl c)) (u, mail_prefix True @ ''list'') = Some (hash_list ?hs) \<or>
      ?hs = [] \<and> snd (abs_store (tbl c)) (u, mail_prefix True @ ''list'') = None"
    using assms(7) by (auto simp: mailbox_def Let_def)
  have hok: "hash_ok (hash_MD5 dg x)" for x using assms(4) by (rule hash_MD5_ok)
  have hs: "\<forall>x \<in> set ?hs. hash_ok x" "length ?hs < 260" using hok assms(8) by auto
  have l: "can_serve (Suc (Suc (Suc (Suc (Suc (Suc 0)))))) c" using assms(5) by (simp add: eval_nat_numeral)
  obtain c1 where c1: "append_hash ?E (Suc (Suc k)) (ip_to_string a) u (mail_prefix True @ ''list'') ?h c = Ok c1"
    "can_serve (Suc (Suc 0)) c1"
    "snd (abs_store (tbl c1)) = (snd (abs_store (tbl c)))((u, mail_prefix True @ ''list'') \<mapsto> hash_list (?h # remove1 ?h ?hs))"
    by (rule mail_service.append_to_mailbox [OF site l assms(6) u hok hs c, where m=k])
  have hl: "?h \<noteq> ''list''" using hok [of t] by (auto simp: hash_ok_def)
  have cells: "snd (abs_store (tbl c1)) (u, mail_prefix True @ ''list'') = Some (hash_list (?h # remove1 ?h ?hs))"
    "snd (abs_store (tbl c1)) (u, mail_prefix True @ ?h) = None"
    using assms(9) hl unfolding c1(3) by (auto simp: abs_store_def p(1))
  have r: "\<forall>x \<in> set (remove1 ?h ?hs). hash_ok x" using hs(1) set_remove1_subset [of ?h ?hs] by blast
  have "length (remove1 ?h ?hs) \<le> length ?hs" by (simp add: length_remove1)
  from this hs(2) have len: "length (remove1 ?h ?hs) < 260" by (rule le_less_trans)
  have "recvfrom_backend ?E u True c1 = Throw Out_of_range"
    by (rule mail_service.read_dangling [OF site c1(2) u hok r len cells])
  then show ?thesis using c1(1) unfolding p(2) by blast
qed

theorem list_before_mail_witness:
  "\<exists>c1. append_hash (mail_world demo_digest (localhost 5000) ''127.0.0.1:8000'') 2 (ip_to_string (localhost 5000)) ''al''
      ''mail/inbox/list'' (hash_MD5 demo_digest (mail_data demo_mail)) (demo_files []) = Ok c1 \<and>
    recvfrom_backend (mail_world demo_digest (localhost 5000) ''127.0.0.1:8000'') ''al'' True c1 = Throw Out_of_range"
proof -
  have mb: "mailbox demo_digest (abs_store (tbl (demo_files []))) ''al'' True []"
    by (simp add: mailbox_def Let_def demo_files_store)
  show ?thesis
    unfolding numeral_2_eq_2
    by (rule list_before_mail [OF demo_site_ok _ _ _ mb]) (simp_all add: mail_rows_def demo_files_store)
qed

end
