(* ===== verification/Http_Request.thy ===== *)
theory Http_Request
  imports Mail_Client Load_Balancer
begin

text \<open>
  \<open>frontendServer/request.cc\<close>: reading and parsing an HTTP request. The socket has a time-out of one
  second (\<open>frontend.cc\<close>), so a \<open>read\<close> that finds nothing fails; the end of the list of reads stands for
  that as well as for the end of the stream.
\<close>

section \<open>Data\<close>

record http_request =
  hr_method :: string
  hr_path :: string
  hr_version :: string
  hr_message :: string
  hr_cookies :: "(string, string) smap"

definition empty_request :: http_request where
  "empty_request = \<lparr>hr_method = [], hr_path = [], hr_version = [], hr_message = [], hr_cookies = []\<rparr>"

text \<open>A \<open>read\<close> of at most \<open>n\<close> bytes; \<open>None\<close> when it returns 0 or less.\<close>

definition sock_read :: "nat \<Rightarrow> rd list \<Rightarrow> (string \<times> rd list) option" where
  "sock_read n es =
     (case es of
        [] \<Rightarrow> None
      | Fail # es' \<Rightarrow> None
      | Bytes b # es' \<Rightarrow>
          if b = [] then None
          else Some (take n b, if length b \<le> n then es' else Bytes (drop n b) # es'))"

definition request_buffer :: nat where
  "request_buffer = 4000000"

section \<open>The first line and the cookies\<close>

definition parse_request_line :: "string \<Rightarrow> http_request \<Rightarrow> http_request res" where
  "parse_request_line copy r =
     and_then (token (strtok ('' '' @ [CR]) copy)) (\<lambda>(m, rest1).
     and_then (token (strtok '' '' rest1)) (\<lambda>(p, rest2).
     and_then (token (strtok '' '' rest2)) (\<lambda>(v, _).
       Ok (r\<lparr>hr_method := m, hr_path := p, hr_version := butlast v\<rparr>))))"

text \<open>
  The value of a cookie: \<open>strncpy\<close> of \<open>k\<close> bytes into an array of 128 bytes that is not initialised
  (\<open>junk\<close> is what it holds) and that is then read as a C string.
\<close>

definition fill_value :: "string \<Rightarrow> nat \<Rightarrow> string \<Rightarrow> (string \<times> string) res" where
  "fill_value tok k junk =
     (let junk' = take k tok @ drop k junk
      in if k \<le> length tok \<and> k \<le> 128 \<and> CHR 0x00 \<in> set junk' then Ok (cstr junk', junk') else Throw Bad_index)"

text \<open>
  The length that is copied: the test looks for the semicolon one place too early. A value of one
  character is read before its start and copied without end.
\<close>

definition value_length :: "string \<Rightarrow> nat res" where
  "value_length tok =
     (if length tok < 2 then Throw Bad_index
      else if tok ! (length tok - 2) = CHR '';'' then Ok (length tok - 1) else Ok (length tok - 2))"

text \<open>
  The loop over the cookies. \<open>strtok\<close> has one state: the calls on the copy of a token replace the
  position in the header, so the next token is looked for in the rest of that copy.
\<close>

fun parse_cookies :: "nat \<Rightarrow> (string \<times> string) option \<Rightarrow> string \<Rightarrow> (string, string) smap \<Rightarrow> (string, string) smap res" where
  "parse_cookies 0 t junk cs = Block"
| "parse_cookies (Suc n) None junk cs = Ok cs"
| "parse_cookies (Suc n) (Some (tok, _)) junk cs =
     and_then (copy_to 256 tok) (\<lambda>copy.
     and_then (token (strtok ''='' copy)) (\<lambda>(k, rest1).
     and_then (copy_to 128 k) (\<lambda>key.
     and_then (token (strtok ''='' rest1)) (\<lambda>(token2, rest2).
     and_then (value_length token2) (\<lambda>len.
     and_then (fill_value token2 len junk) (\<lambda>(val, junk').
       parse_cookies n (strtok '' '' rest2) junk' (map_insert key val cs)))))))"

text \<open>Every token is cut out of the one before, so the length of the line is fuel enough.\<close>

definition parse_cookie_line :: "string \<Rightarrow> string \<Rightarrow> http_request \<Rightarrow> http_request res" where
  "parse_cookie_line junk copy r =
     and_then (copy_to 512 (drop 8 copy)) (\<lambda>cookie.
     and_then (parse_cookies (length cookie + 2) (strtok '' '' cookie) junk (hr_cookies r)) (\<lambda>cs.
       Ok (r\<lparr>hr_cookies := cs\<rparr>)))"

section \<open>The loop\<close>

record parse_state =
  ps_buffer :: string
  ps_start :: nat
  ps_end :: nat
  ps_first :: bool
  ps_body :: bool
  ps_request :: http_request

definition parse_init :: parse_state where
  "parse_init = \<lparr>ps_buffer = [], ps_start = 0, ps_end = 0, ps_first = True, ps_body = False, ps_request = empty_request\<rparr>"

text \<open>
  The upper part of a round: look for a line end, otherwise take what is there (in the body) or read.
  \<open>None\<close> ends the loop; the flag says whether a line was cut or the round only read (\<open>continue\<close>).
\<close>

definition next_piece :: "rd list \<Rightarrow> parse_state \<Rightarrow> (parse_state \<times> bool \<times> rd list) option" where
  "next_piece es p =
     (let iter = find (ps_buffer p) crlf (ps_end p)
      in if iter \<noteq> npos then Some (p\<lparr>ps_end := iter\<rparr>, True, es)
         else if ps_body p then
           (if ps_end p = length (ps_buffer p) then
              (case sock_read request_buffer es of
                 None \<Rightarrow> None
               | Some (b, es') \<Rightarrow> Some (p\<lparr>ps_buffer := ps_buffer p @ b, ps_start := ps_end p,
                   ps_end := length (ps_buffer p @ b)\<rparr>, True, es'))
            else Some (p\<lparr>ps_start := ps_end p, ps_end := length (ps_buffer p)\<rparr>, True, es))
         else
           (case sock_read request_buffer es of
              None \<Rightarrow> None
            | Some (b, es') \<Rightarrow> Some (p\<lparr>ps_buffer := ps_buffer p @ b\<rparr>, False, es')))"

text \<open>The lower part: what is done with the piece. The flag says whether the request is complete.\<close>

definition use_piece :: "string \<Rightarrow> parse_state \<Rightarrow> (parse_state \<times> bool) res" where
  "use_piece junk p0 =
     (let p1 = (if ps_body p0 then p0 else p0\<lparr>ps_end := ps_end p0 + 2\<rparr>);
          receive = take (ps_end p1 - ps_start p1) (drop (ps_start p1) (ps_buffer p1));
          p = (if ps_body p1 then p1 else p1\<lparr>ps_start := ps_end p1\<rparr>)
      in and_then (copy_to 4000000 receive) (\<lambda>copy.
         if ps_first p then
           and_then (parse_request_line copy (ps_request p)) (\<lambda>r. Ok (p\<lparr>ps_request := r, ps_first := False\<rparr>, False))
         else if 8 < length copy \<and> take 8 copy = ''Cookie: '' then
           and_then (parse_cookie_line junk copy (ps_request p)) (\<lambda>r. Ok (p\<lparr>ps_request := r\<rparr>, False))
         else if copy = crlf then
           (if strcasecmp_eq (hr_method (ps_request p)) ''get'' then Ok (p, True) else Ok (p\<lparr>ps_body := True\<rparr>, False))
         else if ps_body p then
           Ok (p\<lparr>ps_request := (ps_request p)\<lparr>hr_message := hr_message (ps_request p) @ drop (ps_start p) (ps_buffer p)\<rparr>,
             ps_end := length (ps_buffer p)\<rparr>, False)
         else Ok (p, False)))"

text \<open>The constructor, with \<open>n\<close> rounds of fuel: there are requests for which it does not end.\<close>

fun request_loop :: "nat \<Rightarrow> string \<Rightarrow> rd list \<Rightarrow> parse_state \<Rightarrow> http_request res" where
  "request_loop 0 junk es p = Block"
| "request_loop (Suc n) junk es p =
     (case next_piece es p of
        None \<Rightarrow> Ok (ps_request p)
      | Some (p1, False, es') \<Rightarrow> request_loop n junk es' p1
      | Some (p1, True, es') \<Rightarrow>
          and_then (use_piece junk p1) (\<lambda>(p2, complete).
            if complete then Ok (ps_request p2) else request_loop n junk es' p2))"

definition read_request :: "nat \<Rightarrow> string \<Rightarrow> rd list \<Rightarrow> http_request res" where
  "read_request n junk es = request_loop n junk es parse_init"

section \<open>Requests in pieces\<close>

text \<open>
  The reference: the request line, the effect of each header line, and the body, with no buffer. A line
  is parsed on its own.
\<close>

definition header_effect :: "string \<Rightarrow> string \<Rightarrow> http_request \<Rightarrow> http_request res" where
  "header_effect junk l r = (if take 8 l = ''Cookie: '' then parse_cookie_line junk (l @ crlf) r else Ok r)"

fun header_effects :: "string \<Rightarrow> string list \<Rightarrow> http_request \<Rightarrow> http_request res" where
  "header_effects junk [] r = Ok r"
| "header_effects junk (l # ls) r = and_then (header_effect junk l r) (header_effects junk ls)"

definition reference_request :: "string \<Rightarrow> string \<Rightarrow> string list \<Rightarrow> string \<Rightarrow> http_request res" where
  "reference_request junk line hs body =
     and_then (parse_request_line (line @ crlf) empty_request) (\<lambda>r0.
     and_then (header_effects junk hs r0) (\<lambda>r.
       Ok (if strcasecmp_eq (hr_method r) ''get'' then r else r\<lparr>hr_message := body\<rparr>)))"

definition head_line :: "string \<Rightarrow> bool" where
  "head_line l \<longleftrightarrow> CR \<notin> set l \<and> CHR 0x00 \<notin> set l \<and> length l < 3999990"

definition at_line :: "nat \<Rightarrow> string \<Rightarrow> bool \<Rightarrow> http_request \<Rightarrow> parse_state" where
  "at_line s B f r = \<lparr>ps_buffer = B, ps_start = s, ps_end = s, ps_first = f, ps_body = False, ps_request = r\<rparr>"

definition pieces_ok :: "string list \<Rightarrow> bool" where
  "pieces_ok ps \<longleftrightarrow> (\<forall>x \<in> set ps. x \<noteq> [] \<and> length x < 4000000)"

lemma sock_read_piece [simp]: "x \<noteq> [] \<Longrightarrow> length x < 4000000 \<Longrightarrow> sock_read request_buffer (Bytes x # es) = Some (x, es)"
  by (simp add: sock_read_def request_buffer_def)

lemma sfind_line: "CR \<notin> set l \<Longrightarrow> sfind crlf (l @ crlf @ s) = Some (length l)"
  using sfind_skip [of CR l "[LF]" "crlf @ s"] by (simp add: crlf_def)

text \<open>What follows the lower part of a round.\<close>

definition go_on :: "nat \<Rightarrow> string \<Rightarrow> rd list \<Rightarrow> (parse_state \<times> bool) res \<Rightarrow> http_request res" where
  "go_on n junk es x = and_then x (\<lambda>(p, complete). if complete then Ok (ps_request p) else request_loop n junk es p)"

lemma request_loop_piece: "next_piece es p = Some (p1, True, es') \<Longrightarrow> 0 < N \<Longrightarrow>
    request_loop N junk es p = go_on (N - 1) junk es' (use_piece junk p1)"
  by (cases N) (simp_all add: go_on_def)

lemma request_loop_read: "next_piece es p = Some (p1, False, es') \<Longrightarrow> 0 < N \<Longrightarrow>
    request_loop N junk es p = request_loop (N - 1) junk es' p1"
  by (cases N) simp_all

lemma line_found:
  assumes "sfind crlf (drop s B) = Some i" "s \<le> length B" "length B < npos"
  shows "next_piece es (at_line s B f r) = Some ((at_line s B f r)\<lparr>ps_end := s + i\<rparr>, True, es)" "s + i + 2 \<le> length B"
proof -
  have "i + 2 \<le> length (drop s B)" using sfind_length [OF assms(1)] by (simp add: crlf_def)
  then show len: "s + i + 2 \<le> length B" using assms(2) by simp
  have "find B crlf s = s + i" using assms(1,2) by (simp add: find_def)
  moreover have "s + i \<noteq> npos" using assms(3) len by simp
  ultimately show "next_piece es (at_line s B f r) = Some ((at_line s B f r)\<lparr>ps_end := s + i\<rparr>, True, es)"
    by (simp add: next_piece_def at_line_def)
qed

lemma next_line:
  assumes "CR \<notin> set l" "drop s (B @ concat ps) = l @ crlf @ rest" "s \<le> length B" "pieces_ok ps"
    and "length (B @ concat ps) < npos"
  shows "\<exists>ps1 ps2. ps = ps1 @ ps2 \<and> s + length l + 2 \<le> length (B @ concat ps1) \<and>
    (\<forall>N f r. length ps1 < N \<longrightarrow> request_loop N junk (map Bytes ps @ es) (at_line s B f r) =
      go_on (N - length ps1 - 1) junk (map Bytes ps2 @ es)
        (use_piece junk ((at_line s (B @ concat ps1) f r)\<lparr>ps_end := s + length l\<rparr>)))"
  using assms(2-5)
proof (induction ps arbitrary: B)
  case Nil
  have f: "sfind crlf (drop s B) = Some (length l)" using sfind_line [OF assms(1)] Nil.prems(1) by simp
  show ?case
    using line_found [OF f Nil.prems(2)] Nil.prems(4) request_loop_piece
    by (intro exI [of _ "[]"]) (simp add: add.assoc)
next
  case (Cons x ps)
  have T: "drop s ((B @ x) @ concat ps) = l @ crlf @ rest" using Cons.prems(1) by simp
  show ?case
  proof (cases "sfind crlf (drop s B)")
    case None
    have x: "x \<noteq> []" "length x < 4000000" using Cons.prems(3) by (simp_all add: pieces_ok_def)
    have nx: "next_piece (map Bytes (x # ps) @ es) (at_line s B f r) = Some (at_line s (B @ x) f r, False, map Bytes ps @ es)" for f r
      using None Cons.prems(2) x by (simp add: next_piece_def at_line_def find_def)
    obtain ps1 ps2 where p: "ps = ps1 @ ps2" "s + length l + 2 \<le> length ((B @ x) @ concat ps1)"
      "\<forall>N f r. length ps1 < N \<longrightarrow> request_loop N junk (map Bytes ps @ es) (at_line s (B @ x) f r) =
        go_on (N - length ps1 - 1) junk (map Bytes ps2 @ es)
          (use_piece junk ((at_line s ((B @ x) @ concat ps1) f r)\<lparr>ps_end := s + length l\<rparr>))"
      using Cons.IH [OF T] Cons.prems(2-4) by (auto simp: pieces_ok_def)
    have "request_loop N junk (map Bytes (x # ps) @ es) (at_line s B f r) = go_on (N - length (x # ps1) - 1) junk (map Bytes ps2 @ es)
        (use_piece junk ((at_line s (B @ concat (x # ps1)) f r)\<lparr>ps_end := s + length l\<rparr>))" if "N > length (x # ps1)" for N f r
      using that p(3) by (subst request_loop_read [OF nx]) auto
    then show ?thesis using p(1,2) by (rule_tac x = "x # ps1" in exI, rule_tac x = ps2 in exI) simp
  next
    case (Some i)
    have "sfind crlf (drop s B @ x @ concat ps) = Some i" using Some by (rule sfind_append)
    then have i: "i = length l" using sfind_line [OF assms(1), of rest] Cons.prems(1,2) by simp
    have lenB: "length B < npos" using Cons.prems(4) by simp
    show ?thesis
      using line_found [OF Some Cons.prems(2) lenB] request_loop_piece unfolding i
      by (rule_tac x = "[]" in exI, rule_tac x = "x # ps" in exI) (simp add: add.assoc)
  qed
qed

definition head_text :: "string list \<Rightarrow> string" where
  "head_text hs = concat (map (\<lambda>l. l @ crlf) hs)"

lemma head_text_simps [simp]: "head_text [] = []" "head_text (l # hs) = l @ crlf @ head_text hs"
  by (simp_all add: head_text_def)

lemma crlf_two [simp]: "length crlf = 2"
  by (simp add: crlf_def)

lemma copy_line: "head_line l \<Longrightarrow> copy_to 4000000 (l @ crlf) = Ok (l @ crlf)"
  by (simp add: head_line_def copy_to_def crlf_def)

lemma cut_line:
  assumes "drop s B = l @ crlf @ rest"
  shows "take (length l + 2) (drop s B) = l @ crlf" "take (Suc (Suc (length l))) (drop s B) = l @ crlf"
  using assms by simp_all

lemma use_first:
  assumes "head_line l" "drop s B = l @ crlf @ rest"
  shows "use_piece junk ((at_line s B True r)\<lparr>ps_end := s + length l\<rparr>) =
    and_then (parse_request_line (l @ crlf) r) (\<lambda>r. Ok (at_line (s + length l + 2) B False r, False))"
  by (simp add: use_piece_def at_line_def Let_def cut_line [OF assms(2)] copy_line [OF assms(1)] cong: and_then_cong)

lemma use_header:
  assumes "head_line l" "l \<noteq> []" "drop s B = l @ crlf @ rest"
  shows "use_piece junk ((at_line s B False r)\<lparr>ps_end := s + length l\<rparr>) =
    and_then (header_effect junk l r) (\<lambda>r. Ok (at_line (s + length l + 2) B False r, False))"
proof -
  have c: "8 < length (l @ crlf) \<and> take 8 (l @ crlf) = ''Cookie: '' \<longleftrightarrow> take 8 l = ''Cookie: ''"
  proof (cases "length l < 8")
    case True
    then have "CR \<in> set (take 8 (l @ crlf))" by (cases "8 - length l") (auto simp: crlf_def)
    moreover have "CR \<notin> set ''Cookie: ''" by simp
    ultimately have "take 8 (l @ crlf) \<noteq> ''Cookie: ''" by metis
    moreover have "take 8 l \<noteq> ''Cookie: ''" using True by auto
    ultimately show ?thesis by simp
  qed auto
  have n: "l @ crlf \<noteq> crlf" using assms(2) by simp
  have "use_piece junk ((at_line s B False r)\<lparr>ps_end := s + length l\<rparr>) =
      (if 8 < length (l @ crlf) \<and> take 8 (l @ crlf) = ''Cookie: ''
       then and_then (parse_cookie_line junk (l @ crlf) r) (\<lambda>r. Ok (at_line (s + length l + 2) B False r, False))
       else Ok (at_line (s + length l + 2) B False r, False))"
    using n by (simp add: use_piece_def at_line_def Let_def cut_line [OF assms(3)] copy_line [OF assms(1)])
  then show ?thesis unfolding c by (simp add: header_effect_def)
qed

lemma use_blank:
  assumes "drop s B = crlf @ rest"
  shows "use_piece junk ((at_line s B False r)\<lparr>ps_end := s\<rparr>) =
    (if strcasecmp_eq (hr_method r) ''get'' then Ok (at_line (s + 2) B False r, True)
     else Ok ((at_line (s + 2) B False r)\<lparr>ps_body := True\<rparr>, False))"
proof -
  have t: "take 2 (drop s B) = crlf" using assms by simp
  have c: "copy_to 4000000 crlf = Ok crlf" by (simp add: copy_to_def crlf_def)
  show ?thesis by (simp add: use_piece_def at_line_def Let_def t c)
qed

lemma go_on_simps [simp]:
  "go_on n junk es (Ok (p, False)) = request_loop n junk es p" "go_on n junk es (Ok (p, True)) = Ok (ps_request p)"
  "go_on n junk es (and_then x f) = and_then x (\<lambda>y. go_on n junk es (f y))"
  by (simp_all add: go_on_def and_then_assoc)

lemma header_lines:
  assumes "drop s (B @ concat ps) = head_text hs @ rest" "s \<le> length B" "pieces_ok ps" "length (B @ concat ps) < npos"
    and "\<forall>l \<in> set hs. head_line l \<and> l \<noteq> []" "length ps + length hs + m \<le> N"
  shows "\<exists>ps1 ps2 N'. ps = ps1 @ ps2 \<and> length ps2 + m \<le> N' \<and> s + length (head_text hs) \<le> length (B @ concat ps1) \<and>
    (\<forall>r. request_loop N junk (map Bytes ps @ es) (at_line s B False r) =
      and_then (header_effects junk hs r) (\<lambda>r'. request_loop N' junk (map Bytes ps2 @ es)
        (at_line (s + length (head_text hs)) (B @ concat ps1) False r')))"
  using assms
proof (induction hs arbitrary: s B ps N)
  case Nil
  then show ?case by (rule_tac x = "[]" in exI) auto
next
  case (Cons l hs)
  have l: "head_line l" "l \<noteq> []" "CR \<notin> set l" using Cons.prems(5) by (simp_all add: head_line_def)
  have d: "drop s (B @ concat ps) = l @ crlf @ (head_text hs @ rest)" using Cons.prems(1) by simp
  obtain ps1 ps2 where p: "ps = ps1 @ ps2" "s + length l + 2 \<le> length (B @ concat ps1)"
    "\<forall>N f r. length ps1 < N \<longrightarrow> request_loop N junk (map Bytes ps @ es) (at_line s B f r) =
      go_on (N - length ps1 - 1) junk (map Bytes ps2 @ es)
        (use_piece junk ((at_line s (B @ concat ps1) f r)\<lparr>ps_end := s + length l\<rparr>))"
    using next_line [OF l(3) d Cons.prems(2-4)] by metis
  let ?B = "B @ concat ps1" and ?s = "s + length l + 2" and ?N = "N - length ps1 - 1"
  have b: "drop s ?B @ concat ps2 = l @ crlf @ (head_text hs @ rest)" using d p(1,2) by simp
  then have "take (length l + 2) (drop s ?B @ concat ps2) = l @ crlf" by simp
  then have "take (length l + 2) (drop s ?B) = l @ crlf" using p(2) by simp
  then have db: "drop s ?B = l @ crlf @ drop (length l + 2) (drop s ?B)"
    by (metis append.assoc append_take_drop_id)
  have "drop ?s (?B @ concat ps2) = drop ?s (B @ concat ps)" using p(1) by simp
  also have "\<dots> = drop (length l + 2) (drop s (B @ concat ps))"
    by (simp only: drop_drop add.commute add.left_commute)
  also have "\<dots> = head_text hs @ rest" unfolding d by simp
  finally have d': "drop ?s (?B @ concat ps2) = head_text hs @ rest" .
  have N: "length ps2 + length hs + m \<le> ?N" "length ps1 < N" using Cons.prems(6) p(1) by auto
  have ok: "pieces_ok ps2" "length (?B @ concat ps2) < npos" using Cons.prems(3,4) p(1) by (auto simp: pieces_ok_def)
  have step: "request_loop N junk (map Bytes ps @ es) (at_line s B False r) =
      and_then (header_effect junk l r) (\<lambda>r. request_loop ?N junk (map Bytes ps2 @ es) (at_line ?s ?B False r))" for r
    using p(3) N(2) use_header [OF l(1,2) db] by simp
  have hs: "\<forall>l \<in> set hs. head_line l \<and> l \<noteq> []" using Cons.prems(5) by simp
  obtain qs1 qs2 N' where q: "ps2 = qs1 @ qs2" "length qs2 + m \<le> N'" "?s + length (head_text hs) \<le> length (?B @ concat qs1)"
    "\<forall>r. request_loop ?N junk (map Bytes ps2 @ es) (at_line ?s ?B False r) =
      and_then (header_effects junk hs r) (\<lambda>r'. request_loop N' junk (map Bytes qs2 @ es)
        (at_line (?s + length (head_text hs)) (?B @ concat qs1) False r'))"
    using Cons.IH [OF d' p(2) ok hs N(1)] by blast
  have "ps = (ps1 @ qs1) @ qs2" using p(1) q(1) by simp
  moreover have "s + length (head_text (l # hs)) = ?s + length (head_text hs)" by simp
  moreover have "request_loop N junk (map Bytes ps @ es) (at_line s B False r) =
      and_then (header_effects junk (l # hs) r) (\<lambda>r'. request_loop N' junk (map Bytes qs2 @ es)
        (at_line (?s + length (head_text hs)) (B @ concat (ps1 @ qs1)) False r'))" for r
    using q(4) by (simp add: step and_then_assoc)
  ultimately show ?case using q(2,3)
    by (rule_tac x = "ps1 @ qs1" in exI, rule_tac x = qs2 in exI, rule_tac x = N' in exI) (simp add: add.assoc)
qed

text \<open>
  A piece of the body that the code does not mistake for a header line: it looks at every piece as if it
  were a line.
\<close>

definition body_piece :: "string \<Rightarrow> bool" where
  "body_piece x \<longleftrightarrow> take 8 (cstr x) \<noteq> ''Cookie: '' \<and> cstr x \<noteq> crlf"

lemma use_body:
  assumes "ps_body p" "\<not> ps_first p" "take (ps_end p - ps_start p) (drop (ps_start p) (ps_buffer p)) = x"
    and "length x < 4000000" "body_piece x"
  shows "use_piece junk p = Ok (p\<lparr>ps_request := (ps_request p)\<lparr>hr_message := hr_message (ps_request p) @ drop (ps_start p) (ps_buffer p)\<rparr>,
    ps_end := length (ps_buffer p)\<rparr>, False)"
proof -
  have l: "length (cstr x) \<le> length x" by (simp add: cstr_def length_takeWhile_le)
  then have "copy_to 4000000 x = Ok (cstr x)" using assms(4) by (simp add: copy_to_def)
  then show ?thesis using assms by (simp add: use_piece_def body_piece_def Let_def)
qed

text \<open>
  What the later reads do. Each is looked at as if it were a line, although the network decides where it
  ends: one that starts like a cookie line is taken for cookies, one that is CR LF (or has a zero byte after
  them) is taken for the empty line again, and both are missing from the body.
\<close>

definition cookie_read :: "string \<Rightarrow> bool" where
  "cookie_read x \<longleftrightarrow> 8 < length (cstr x) \<and> take 8 (cstr x) = ''Cookie: ''"

definition body_read :: "string \<Rightarrow> string \<Rightarrow> http_request \<Rightarrow> http_request res" where
  "body_read junk x r =
     (if cookie_read x then parse_cookie_line junk (cstr x) r
      else Ok (if cstr x = crlf then r else r\<lparr>hr_message := hr_message r @ x\<rparr>))"

fun body_reads :: "string \<Rightarrow> string list \<Rightarrow> http_request \<Rightarrow> http_request res" where
  "body_reads junk [] r = Ok r"
| "body_reads junk (x # xs) r = and_then (body_read junk x r) (body_reads junk xs)"

lemma body_read_keeps: "body_read junk x r = Ok r' \<Longrightarrow> hr_method r' = hr_method r"
  by (auto simp: body_read_def parse_cookie_line_def split: if_splits)

lemma body_reads_whole:
  "\<forall>x \<in> set xs. \<not> cookie_read x \<Longrightarrow>
     body_reads junk xs r = Ok (r\<lparr>hr_message := hr_message r @ concat (filter (\<lambda>x. cstr x \<noteq> crlf) xs)\<rparr>)"
  by (induction xs arbitrary: r) (simp_all add: body_read_def)

lemma use_body_read:
  assumes "ps_body p" "\<not> ps_first p" "take (ps_end p - ps_start p) (drop (ps_start p) (ps_buffer p)) = x"
    and "length x < 4000000" "drop (ps_start p) (ps_buffer p) = x" "ps_end p = length (ps_buffer p)"
    and "\<not> strcasecmp_eq (hr_method (ps_request p)) ''get''"
  shows "use_piece junk p = and_then (body_read junk x (ps_request p)) (\<lambda>r. Ok (p\<lparr>ps_request := r\<rparr>, False))"
proof -
  have "length (cstr x) \<le> length x" by (simp add: cstr_def length_takeWhile_le)
  then have "copy_to 4000000 x = Ok (cstr x)" using assms(4) by (simp add: copy_to_def)
  then show ?thesis using assms by (auto simp: use_piece_def body_read_def cookie_read_def Let_def)
qed

lemma read_body:
  assumes "ps_body p" "\<not> ps_first p" "ps_end p = length (ps_buffer p)" "length (ps_buffer p @ concat ps) < npos"
    and "pieces_ok ps" "\<not> strcasecmp_eq (hr_method (ps_request p)) ''get''" "length ps < N" "sock_read request_buffer es = None"
  shows "request_loop N junk (map Bytes ps @ es) p = body_reads junk ps (ps_request p)"
  using assms(1-7)
proof (induction ps arbitrary: p N)
  case Nil
  have "find (ps_buffer p) crlf (length (ps_buffer p)) = npos" by (simp add: find_def crlf_def)
  then have "next_piece es p = None" using Nil assms(8) by (simp add: next_piece_def)
  then show ?case using Nil by (cases N) simp_all
next
  case (Cons x ps)
  have x: "x \<noteq> []" "length x < 4000000" using Cons.prems(5) by (simp_all add: pieces_ok_def)
  have "find (ps_buffer p) crlf (length (ps_buffer p)) = npos" by (simp add: find_def crlf_def)
  then have nx: "next_piece (map Bytes (x # ps) @ es) p = Some (p\<lparr>ps_buffer := ps_buffer p @ x, ps_start := ps_end p,
      ps_end := length (ps_buffer p @ x)\<rparr>, True, map Bytes ps @ es)"
    using Cons.prems(1,3) x by (simp add: next_piece_def)
  let ?p1 = "p\<lparr>ps_buffer := ps_buffer p @ x, ps_start := ps_end p, ps_end := length (ps_buffer p @ x)\<rparr>"
  have use: "use_piece junk ?p1 = and_then (body_read junk x (ps_request p)) (\<lambda>r. Ok (?p1\<lparr>ps_request := r\<rparr>, False))"
    using use_body_read [of ?p1 x junk] x(2) Cons.prems(1-3,6) by simp
  have rest: "request_loop (N - 1) junk (map Bytes ps @ es) (?p1\<lparr>ps_request := r\<rparr>) = body_reads junk ps r"
    if "body_read junk x (ps_request p) = Ok r" for r
    using Cons.IH [of "?p1\<lparr>ps_request := r\<rparr>" "N - 1"] Cons.prems body_read_keeps [OF that] by (auto simp: pieces_ok_def)
  have "request_loop N junk (map Bytes (x # ps) @ es) p =
      and_then (body_read junk x (ps_request p)) (\<lambda>r. request_loop (N - 1) junk (map Bytes ps @ es) (?p1\<lparr>ps_request := r\<rparr>))"
    using request_loop_piece [OF nx, of N junk] Cons.prems(7) use by (simp add: and_then_assoc)
  also have "\<dots> = body_reads junk (x # ps) (ps_request p)"
    unfolding body_reads.simps by (intro and_then_cong refl rest)
  finally show ?case .
qed

lemma cstr_prefix: "prefix (cstr x) x"
  by (simp add: cstr_def takeWhile_is_prefix)

lemma first_body_piece:
  assumes "take 8 b \<noteq> ''Cookie: ''" "prefix x b" "x \<noteq> b \<Longrightarrow> sfind crlf b = Some (length x)" "sfind crlf b = None \<or> x \<noteq> b"
  shows "body_piece x"
proof -
  obtain y z where y: "b = x @ y" and z: "x = cstr x @ z" using assms(2) cstr_prefix [of x] by (auto simp: prefix_def)
  have "take 8 (cstr x) \<noteq> ''Cookie: ''"
  proof
    assume c: "take 8 (cstr x) = ''Cookie: ''"
    then have "length (take 8 (cstr x)) = 8" by simp
    then have "take 8 b = take 8 (cstr x)" by (subst y, subst z) simp
    then show False using c assms(1) by simp
  qed
  moreover have "cstr x \<noteq> crlf"
  proof
    assume "cstr x = crlf"
    then have x: "prefix crlf b" "x \<noteq> []" using y z by (auto simp: crlf_def)
    then have "sfind crlf b = Some 0" by simp
    then show False using assms(3,4) x(2) by auto
  qed
  ultimately show ?thesis by (simp add: body_piece_def)
qed

lemma start_body:
  assumes "take 8 (drop s B) \<noteq> ''Cookie: ''" "length (drop s B) < 4000000" "length (B @ concat bs) < npos" "s \<le> length B"
    and "pieces_ok bs" "\<not> strcasecmp_eq (hr_method r) ''get''" "length bs + 1 < N" "sock_read request_buffer es = None"
  shows "request_loop N junk (map Bytes bs @ es) ((at_line s B False r)\<lparr>ps_body := True\<rparr>) =
    body_reads junk bs (r\<lparr>hr_message := hr_message r @ drop s B\<rparr>)"
proof (cases "s = length B")
  case True
  then show ?thesis
    using assms by (subst read_body) (auto simp: at_line_def)
next
  case False
  let ?p = "(at_line s B False r)\<lparr>ps_body := True\<rparr>"
  let ?p2 = "?p\<lparr>ps_request := r\<lparr>hr_message := hr_message r @ drop s B\<rparr>, ps_end := length B\<rparr>"
  have "\<exists>p1. next_piece es' ?p = Some (p1, True, es') \<and> use_piece junk p1 = Ok (?p2, False)" for es'
  proof (cases "sfind crlf (drop s B)")
    case None
    have "next_piece es' ?p = Some (?p\<lparr>ps_end := length B\<rparr>, True, es')"
      using None False assms(4) by (simp add: next_piece_def at_line_def find_def)
    moreover have "use_piece junk (?p\<lparr>ps_end := length B\<rparr>) = Ok (?p2, False)"
      using use_body [of "?p\<lparr>ps_end := length B\<rparr>" "drop s B" junk] first_body_piece [OF assms(1), of "drop s B"] None assms(2)
      by (simp add: at_line_def)
    ultimately show ?thesis by blast
  next
    case (Some i)
    have il: "i \<le> length (drop s B)" using sfind_length [OF Some] by simp
    have "next_piece es' ?p = Some (?p\<lparr>ps_end := s + i\<rparr>, True, es')"
    proof -
      have "find B crlf s = s + i" using Some assms(4) by (simp add: find_def)
      moreover have "s + i \<noteq> npos" using assms(3,4) il by simp
      ultimately show ?thesis by (simp add: next_piece_def at_line_def)
    qed
    moreover have x: "body_piece (take i (drop s B))"
    proof (rule first_body_piece [OF assms(1)])
      have "i + 2 \<le> length (drop s B)" using sfind_length [OF Some] by (simp add: crlf_def)
      then show "sfind crlf (drop s B) = None \<or> take i (drop s B) \<noteq> drop s B" by (metis add_2_eq_Suc' length_take min.absorb2 not_less_eq_eq il le_SucI)
    qed (use Some il in \<open>auto simp: take_is_prefix\<close>)
    moreover have "use_piece junk (?p\<lparr>ps_end := s + i\<rparr>) = Ok (?p2, False)"
      using use_body [of "?p\<lparr>ps_end := s + i\<rparr>" "take i (drop s B)" junk] x assms(2)
      by (simp add: at_line_def)
    ultimately show ?thesis by blast
  qed
  then obtain p1 where p1: "next_piece (map Bytes bs @ es) ?p = Some (p1, True, map Bytes bs @ es)" "use_piece junk p1 = Ok (?p2, False)"
    by blast
  have "request_loop N junk (map Bytes bs @ es) ?p = request_loop (N - 1) junk (map Bytes bs @ es) ?p2"
    using request_loop_piece [OF p1(1), of N junk] p1(2) assms(7) by simp
  also have "\<dots> = body_reads junk bs (ps_request ?p2)"
    using assms by (intro read_body) (auto simp: at_line_def)
  finally show ?thesis by simp
qed

lemma parse_line_keeps:
  "parse_request_line c r = Ok r' \<Longrightarrow> hr_message r' = hr_message r"
  by (auto simp: parse_request_line_def)

lemma header_effects_keep:
  "header_effects junk hs r = Ok r' \<Longrightarrow> hr_message r' = hr_message r \<and> hr_method r' = hr_method r"
  by (induction hs arbitrary: r) (auto simp: header_effect_def parse_cookie_line_def split: if_splits)

lemma read_head:
  assumes "concat ps = line @ crlf @ head_text hs @ crlf @ body0" "pieces_ok ps"
    and "length (concat (butlast ps)) < length (line @ crlf @ head_text hs @ crlf)"
    and "head_line line" "\<forall>l \<in> set hs. head_line l \<and> l \<noteq> []"
    and "length (concat ps) < npos" "length ps + length hs + m + 2 < N"
  shows "\<exists>N'. m < N' \<and> read_request N junk (map Bytes ps @ es) =
    and_then (parse_request_line (line @ crlf) empty_request) (\<lambda>r0. and_then (header_effects junk hs r0) (\<lambda>x.
      go_on N' junk es (use_piece junk ((at_line (length line + 2 + length (head_text hs)) (concat ps) False x)
        \<lparr>ps_end := length line + 2 + length (head_text hs)\<rparr>))))"
proof -
  let ?H = "head_text hs"
  have lc: "CR \<notin> set line" using assms(4) by (simp add: head_line_def)
  have d0: "drop 0 ([] @ concat ps) = line @ crlf @ (?H @ crlf @ body0)" and small: "length ([] @ concat ps) < npos"
    using assms(1,6) by simp_all
  obtain ps1 ps2 where p: "ps = ps1 @ ps2" "0 + length line + 2 \<le> length ([] @ concat ps1)"
    "\<forall>N f r. length ps1 < N \<longrightarrow> request_loop N junk (map Bytes ps @ es) (at_line 0 [] f r) =
      go_on (N - length ps1 - 1) junk (map Bytes ps2 @ es)
        (use_piece junk ((at_line 0 ([] @ concat ps1) f r)\<lparr>ps_end := 0 + length line\<rparr>))"
    using next_line [OF lc d0 _ assms(2) small] by (metis le0)
  let ?B1 = "concat ps1" and ?s1 = "length line + 2"
  have T: "?B1 @ concat ps2 = line @ crlf @ (?H @ crlf @ body0)" using assms(1) p(1) by simp
  then have "take ?s1 (?B1 @ concat ps2) = line @ crlf" by simp
  then have "take ?s1 ?B1 = line @ crlf" using p(2) by simp
  then have b1: "drop 0 ?B1 = line @ crlf @ drop ?s1 ?B1" by (metis append.assoc append_take_drop_id drop0)
  have d1: "drop ?s1 (?B1 @ concat ps2) = ?H @ (crlf @ body0)" unfolding T by simp
  have ok1: "pieces_ok ps2" "length (?B1 @ concat ps2) < npos" "length ps2 + length hs + (m + 2) \<le> N - length ps1 - 1"
    using assms(2,6,7) p(1) by (auto simp: pieces_ok_def)
  have s1: "?s1 \<le> length ?B1" using p(2) by simp
  obtain qs1 qs2 N' where q: "ps2 = qs1 @ qs2" "length qs2 + (m + 2) \<le> N'" "?s1 + length ?H \<le> length (?B1 @ concat qs1)"
    "\<forall>r. request_loop (N - length ps1 - 1) junk (map Bytes ps2 @ es) (at_line ?s1 ?B1 False r) =
      and_then (header_effects junk hs r) (\<lambda>r'. request_loop N' junk (map Bytes qs2 @ es)
        (at_line (?s1 + length ?H) (?B1 @ concat qs1) False r'))"
    using header_lines [OF d1 s1 ok1(1,2) assms(5) ok1(3)] by metis
  let ?B2 = "?B1 @ concat qs1" and ?s2 = "?s1 + length ?H"
  have "drop ?s2 (?B2 @ concat qs2) = drop ?s2 (?B1 @ concat ps2)" using q(1) by simp
  also have "\<dots> = drop (length ?H) (drop ?s1 (?B1 @ concat ps2))"
    by (simp only: drop_drop add.commute add.left_commute)
  also have "\<dots> = [] @ crlf @ body0" unfolding d1 by simp
  finally have d2: "drop ?s2 (?B2 @ concat qs2) = [] @ crlf @ body0" .
  have ok2: "pieces_ok qs2" "length (?B2 @ concat qs2) < npos" using ok1(1,2) q(1) by (simp_all add: pieces_ok_def)
  have e: "CR \<notin> set ([] :: string)" by simp
  obtain rs1 rs2 where r: "qs2 = rs1 @ rs2" "?s2 + length ([] :: string) + 2 \<le> length (?B2 @ concat rs1)"
    "\<forall>N f r. length rs1 < N \<longrightarrow> request_loop N junk (map Bytes qs2 @ es) (at_line ?s2 ?B2 f r) =
      go_on (N - length rs1 - 1) junk (map Bytes rs2 @ es)
        (use_piece junk ((at_line ?s2 (?B2 @ concat rs1) f r)\<lparr>ps_end := ?s2 + length ([] :: string)\<rparr>))"
    using next_line [OF e d2 q(3) ok2, of junk es] by blast
  have all: "ps = (ps1 @ qs1 @ rs1) @ rs2" using p(1) q(1) r(1) by simp
  have rs2: "rs2 = []"
  proof (rule ccontr)
    assume "rs2 \<noteq> []"
    then have "butlast ps = (ps1 @ qs1 @ rs1) @ butlast rs2" using all by (simp add: butlast_append)
    then have "length (concat (ps1 @ qs1 @ rs1)) \<le> length (concat (butlast ps))" by simp
    then show False using r(2) assms(3) by simp
  qed
  have B: "?B2 @ concat rs1 = concat ps" using all rs2 by simp
  have N: "length rs1 < N'" "m < N' - length rs1 - 1" "length ps1 < N" using q(2) r(1) rs2 assms(7) p(1) by auto
  have "read_request N junk (map Bytes ps @ es) =
      and_then (parse_request_line (line @ crlf) empty_request) (\<lambda>r0. and_then (header_effects junk hs r0) (\<lambda>x.
        go_on (N' - length rs1 - 1) junk es (use_piece junk ((at_line ?s2 (concat ps) False x)\<lparr>ps_end := ?s2\<rparr>))))"
    using p(3) N(1,3) use_first [OF assms(4) b1, of junk empty_request] q(4) r(3) B rs2
    by (simp add: read_request_def parse_init_def at_line_def [of 0 "[]", symmetric])
  then show ?thesis using N(2) by blast
qed

text \<open>The reference that knows the reads after the header: \<open>body0\<close> came with the end of the header.\<close>

definition reference_reads :: "string \<Rightarrow> string \<Rightarrow> string list \<Rightarrow> string \<Rightarrow> string list \<Rightarrow> http_request res" where
  "reference_reads junk line hs body0 bs =
     and_then (parse_request_line (line @ crlf) empty_request) (\<lambda>r0.
     and_then (header_effects junk hs r0) (\<lambda>r.
       if strcasecmp_eq (hr_method r) ''get'' then Ok r else body_reads junk bs (r\<lparr>hr_message := body0\<rparr>)))"

lemma reference_reads_whole:
  assumes "\<forall>x \<in> set bs. \<not> cookie_read x"
  shows "reference_reads junk line hs body0 bs =
    reference_request junk line hs (body0 @ concat (filter (\<lambda>x. cstr x \<noteq> crlf) bs))"
  by (simp add: reference_reads_def reference_request_def body_reads_whole [OF assms] if_distrib cong: if_cong)

lemma request_pieces:
  assumes "concat ps = line @ crlf @ head_text hs @ crlf @ body0" "pieces_ok ps" "pieces_ok bs"
    and "length (concat (butlast ps)) < length (line @ crlf @ head_text hs @ crlf)"
    and "head_line line" "\<forall>l \<in> set hs. head_line l \<and> l \<noteq> []"
    and "length (concat ps @ concat bs) < npos" "sock_read request_buffer es = None"
    and "length body0 < 4000000" "take 8 body0 \<noteq> ''Cookie: ''"
    and "length ps + length bs + length hs + 4 < N"
  shows "read_request N junk (map Bytes ps @ map Bytes bs @ es) = reference_reads junk line hs body0 bs"
proof -
  let ?es = "map Bytes bs @ es" and ?s2 = "length line + 2 + length (head_text hs)" and ?B = "concat ps"
  have len: "length ?B < npos" "length ps + length hs + (length bs + 1) + 2 < N" using assms(7,11) by simp_all
  obtain N' where N': "length bs + 1 < N'" "read_request N junk (map Bytes ps @ ?es) =
      and_then (parse_request_line (line @ crlf) empty_request) (\<lambda>r0. and_then (header_effects junk hs r0) (\<lambda>x.
        go_on N' junk ?es (use_piece junk ((at_line ?s2 ?B False x)\<lparr>ps_end := ?s2\<rparr>))))"
    using read_head [OF assms(1,2,4,5,6) len] by blast
  have db: "drop ?s2 ?B = crlf @ body0" unfolding assms(1) by simp
  have ds: "drop (?s2 + 2) ?B = body0" unfolding assms(1) by simp
  have blank: "go_on N' junk ?es (use_piece junk ((at_line ?s2 ?B False x)\<lparr>ps_end := ?s2\<rparr>)) =
      (if strcasecmp_eq (hr_method x) ''get'' then Ok x else body_reads junk bs (x\<lparr>hr_message := hr_message x @ body0\<rparr>))" for x
  proof (cases "strcasecmp_eq (hr_method x) ''get''")
    case True
    then show ?thesis using use_blank [OF db, of junk x] by (simp add: at_line_def)
  next
    case False
    have "request_loop N' junk ?es ((at_line (?s2 + 2) ?B False x)\<lparr>ps_body := True\<rparr>) =
        body_reads junk bs (x\<lparr>hr_message := hr_message x @ drop (?s2 + 2) ?B\<rparr>)"
    proof (rule start_body [OF _ _ _ _ assms(3) False N'(1) assms(8)])
      show "?s2 + 2 \<le> length ?B" unfolding assms(1) by simp
      show "take 8 (drop (?s2 + 2) ?B) \<noteq> ''Cookie: ''" unfolding ds by (rule assms(10))
      show "length (drop (?s2 + 2) ?B) < 4000000" unfolding ds by (rule assms(9))
      show "length (?B @ concat bs) < npos" using assms(7) by simp
    qed
    then show ?thesis using False use_blank [OF db, of junk x] unfolding ds by simp
  qed
  show ?thesis
    unfolding N'(2) reference_reads_def blank
    by (intro and_then_cong refl) (auto dest!: parse_line_keeps header_effects_keep simp: empty_request_def)
qed

text \<open>
  C26. The buffered reader parses a request however the network cuts it, and what it makes of the cuts: the
  request line and every header line as the reference parses them line by line, wherever the reads end; for
  a method other than GET the body is what came with the end of the header and all later reads, but without
  the reads that are just CR LF (or CR LF and a zero byte) and without those that start like a cookie line,
  which are parsed as cookies. So a body is whole only if no read has these forms. The body itself must not
  start with a cookie line (the reader may then never end).
\<close>

theorem request_any_pieces:
  assumes "concat ps = line @ crlf @ head_text hs @ crlf @ body0" "pieces_ok ps" "pieces_ok bs"
    and "length (concat (butlast ps)) < length (line @ crlf @ head_text hs @ crlf)"
    and "head_line line" "\<forall>l \<in> set hs. head_line l \<and> l \<noteq> []"
    and "length (concat ps @ concat bs) < npos" "sock_read request_buffer es = None"
    and "length body0 < 4000000" "take 8 body0 \<noteq> ''Cookie: ''"
    and "length ps + length bs + length hs + 4 < N"
  shows "read_request N junk (map Bytes ps @ map Bytes bs @ es) = reference_reads junk line hs body0 bs \<and>
    ((\<forall>x \<in> set bs. \<not> cookie_read x) \<longrightarrow> reference_reads junk line hs body0 bs =
       reference_request junk line hs (body0 @ concat (filter (\<lambda>x. cstr x \<noteq> crlf) bs)))"
  using request_pieces [OF assms] reference_reads_whole by blast

theorem request_any_pieces_witness:
  "read_request 20 [] (map Bytes [''POST /up'', ''load HTTP/1.1'' @ [CR], [LF] @ ''Host: x'' @ crlf @ crlf @ ''a='']
       @ map Bytes [''b'' @ crlf, crlf, ''c''] @ []) =
     Ok \<lparr>hr_method = ''POST'', hr_path = ''/upload'', hr_version = ''HTTP/1.1'' @ [CR], hr_message = ''a=b'' @ crlf @ ''c'', hr_cookies = []\<rparr>"
proof -
  let ?ps = "[''POST /up'', ''load HTTP/1.1'' @ [CR], [LF] @ ''Host: x'' @ crlf @ crlf @ ''a='']"
  let ?bs = "[''b'' @ crlf, crlf, ''c'']" and ?line = "''POST /upload HTTP/1.1''"
  have "read_request 20 [] (map Bytes ?ps @ map Bytes ?bs @ []) = reference_reads [] ?line [''Host: x''] ''a='' ?bs \<and>
    ((\<forall>x \<in> set ?bs. \<not> cookie_read x) \<longrightarrow> reference_reads [] ?line [''Host: x''] ''a='' ?bs =
       reference_request [] ?line [''Host: x''] (''a='' @ concat (filter (\<lambda>x. cstr x \<noteq> crlf) ?bs)))"
    by (rule request_any_pieces) (simp_all add: pieces_ok_def head_line_def crlf_def sock_read_def npos_def)
  moreover have "\<forall>x \<in> set ?bs. \<not> cookie_read x" by (simp add: cookie_read_def crlf_def cstr_def)
  moreover have "concat (filter (\<lambda>x. cstr x \<noteq> crlf) ?bs) = ''b'' @ crlf @ ''c''" by (simp add: crlf_def cstr_def)
  moreover have "\<not> strcasecmp_eq ''POST'' ''get''"
    by (simp add: strcasecmp_eq_def cstr_def lower_def char_of_def bit_Suc_0_iff)
  ultimately show ?thesis
    by (simp add: reference_request_def parse_request_line_def strtok_def token_def header_effect_def empty_request_def crlf_def)
qed

section \<open>Cookies\<close>

definition cookie_word :: "string \<Rightarrow> bool" where
  "cookie_word u \<longleftrightarrow> u \<noteq> [] \<and> length u \<le> 50 \<and> set u \<inter> {CHR '' '', CHR ''='', CHR '';'', CR, LF, CHR 0x00} = {}"

lemma strtok_word: "x \<noteq> [] \<Longrightarrow> c \<notin> set x \<Longrightarrow> strtok [c] (x @ c # r) = Some (x, r)" "x \<noteq> [] \<Longrightarrow> c \<notin> set x \<Longrightarrow> strtok [c] x = Some (x, [])"
  by (rule strtok_sep strtok_last; assumption)+

lemma strtok_empty: "strtok d [] = None"
  by (simp add: strtok_def)

lemma parse_cookies_one:
  assumes "cookie_word k" "cookie_word u" "length e \<le> 2" "set e \<inter> {CHR ''='', CHR '' '', CHR 0x00} = {}"
    and "value_length (u @ e) = Ok n" "fill_value (u @ e) n junk = Ok (v, junk')"
  shows "parse_cookies (Suc (Suc m)) (Some (k @ ''='' @ u @ e, rest)) junk cs = Ok (map_insert k v cs)"
proof -
  have w: "k \<noteq> []" "CHR ''='' \<notin> set k" "u @ e \<noteq> []" "CHR ''='' \<notin> set (u @ e)" using assms(1,2,4) by (auto simp: cookie_word_def)
  have n0: "CHR 0x00 \<notin> set (k @ ''='' @ u @ e)" "CHR 0x00 \<notin> set k" using assms(1,2,4) by (auto simp: cookie_word_def)
  have c: "copy_to 256 (k @ ''='' @ u @ e) = Ok (k @ ''='' @ u @ e)" "copy_to 128 k = Ok k"
    using assms(1-3) unfolding copy_to_def cstr_id [OF n0(1)] cstr_id [OF n0(2)] by (simp_all add: cookie_word_def)
  have t: "strtok ''='' (k @ ''='' @ u @ e) = Some (k, u @ e)" "strtok ''='' (u @ e) = Some (u @ e, [])"
    using strtok_word(1) [OF w(1,2), of "u @ e"] strtok_word(2) [OF w(3,4)] by simp_all
  have "parse_cookies (Suc m) (strtok '' '' []) junk' (map_insert k v cs) = Ok (map_insert k v cs)"
    by (simp add: strtok_empty)
  then show ?thesis
    unfolding parse_cookies.simps and_then.simps prod.case c t token_def option.case assms(5,6) by simp
qed

lemma fill_zeroed:
  assumes "n \<le> length x" "n < 128" "CHR 0x00 \<notin> set x"
  shows "fill_value x n (replicate 128 (CHR 0x00)) = Ok (take n x, take n x @ replicate (128 - n) (CHR 0x00))"
proof -
  have "CHR 0x00 \<notin> set (take n x)" using assms(3) in_set_takeD by metis
  then have "cstr (take n x @ replicate (128 - n) (CHR 0x00)) = take n x"
    unfolding cstr_def by (subst takeWhile_append2) (auto simp: takeWhile_replicate)
  moreover have "CHR 0x00 \<in> set (replicate (128 - n) (CHR 0x00))" using assms(2) by simp
  ultimately show ?thesis using assms by (simp add: fill_value_def Let_def)
qed

lemma cookie_line:
  assumes "copy_to 512 c = Ok c" "strtok '' '' c = Some t" "parse_cookies (Suc (Suc (length c))) (Some t) junk (hr_cookies r) = Ok cs"
  shows "parse_cookie_line junk (''Cookie: '' @ c) r = Ok (r\<lparr>hr_cookies := cs\<rparr>)"
proof -
  have "drop 8 (''Cookie: '' @ c) = c" by simp
  then show ?thesis
    unfolding parse_cookie_line_def by (simp only: assms and_then.simps add_2_eq_Suc')
qed

lemma header_cookie: "header_effect junk (''Cookie: '' @ c) r = parse_cookie_line junk (''Cookie: '' @ c @ crlf) r"
  by (simp add: header_effect_def)

text \<open>
  C39. A header with one cookie is read right when the uninitialised array happens to be zero. When a
  second cookie follows, the value of the first loses its last character and the second is not read at
  all, since the nested \<open>strtok\<close> has replaced the position in the header.
\<close>

theorem cookies_lost:
  assumes "cookie_word k" "cookie_word u" "length w \<le> 50" "CHR 0x00 \<notin> set w" "junk = replicate 128 (CHR 0x00)"
  shows "header_effect junk (''Cookie: '' @ k @ ''='' @ u) r = Ok (r\<lparr>hr_cookies := map_insert k u (hr_cookies r)\<rparr>) \<and>
    header_effect junk (''Cookie: '' @ k @ ''='' @ u @ ''; '' @ w) r =
      Ok (r\<lparr>hr_cookies := map_insert k (butlast u) (hr_cookies r)\<rparr>)"
proof
  have u: "length u \<le> 50" "u \<noteq> []" "CHR 0x00 \<notin> set u" "CHR '';'' \<notin> set u" using assms(2) by (auto simp: cookie_word_def)
  have len: "length k \<le> 50" "length w \<le> 50" using assms(1,3) by (simp_all add: cookie_word_def)
  let ?c = "k @ ''='' @ u @ crlf"
  have n: "CHR 0x00 \<notin> set ?c" "CHR '' '' \<notin> set ?c" "?c \<noteq> []" using assms(1,2) by (auto simp: cookie_word_def crlf_def)
  have c: "copy_to 512 ?c = Ok ?c" using u len unfolding copy_to_def cstr_id [OF n(1)] by simp
  have vl: "value_length (u @ crlf) = Ok (length u)" using u(2) by (simp add: value_length_def nth_append crlf_def)
  have fv: "fill_value (u @ crlf) (length u) junk = Ok (u, u @ replicate (128 - length u) (CHR 0x00))"
    using fill_zeroed [of "length u" "u @ crlf"] u by (simp add: assms(5) crlf_def)
  have "parse_cookies (Suc (Suc (length ?c))) (Some (?c, [])) junk (hr_cookies r) = Ok (map_insert k u (hr_cookies r))"
    by (rule parse_cookies_one [OF assms(1,2) _ _ vl fv]) (simp_all add: crlf_def)
  then show "header_effect junk (''Cookie: '' @ k @ ''='' @ u) r = Ok (r\<lparr>hr_cookies := map_insert k u (hr_cookies r)\<rparr>)"
    unfolding header_cookie using cookie_line [OF c strtok_word(2) [OF n(3,2)]] by simp
  let ?d = "k @ ''='' @ u @ '';'' @ CHR '' '' # w @ crlf" and ?t = "k @ ''='' @ u @ '';''"
  have m: "CHR 0x00 \<notin> set ?d" "CHR '' '' \<notin> set ?t" "?t \<noteq> []" using assms(1,2,4) by (auto simp: cookie_word_def crlf_def)
  have d: "copy_to 512 ?d = Ok ?d" using u len unfolding copy_to_def cstr_id [OF m(1)] by simp
  have "u ! (length u - 1) \<noteq> CHR '';''" using u(2,4) nth_mem [of "length u - 1" u] by fastforce
  then have vl: "value_length (u @ '';'') = Ok (length u - 1)"
    using u(2) by (cases u rule: rev_cases) (auto simp: value_length_def nth_append)
  have fv: "fill_value (u @ '';'') (length u - 1) junk = Ok (butlast u, butlast u @ replicate (128 - (length u - 1)) (CHR 0x00))"
    using fill_zeroed [of "length u - 1" "u @ '';''"] u by (simp add: assms(5) butlast_conv_take)
  have "parse_cookies (Suc (Suc (length ?d))) (Some (?t, w @ crlf)) junk (hr_cookies r) = Ok (map_insert k (butlast u) (hr_cookies r))"
    by (rule parse_cookies_one [OF assms(1,2) _ _ vl fv]) simp_all
  moreover have "strtok '' '' ?d = Some (?t, w @ crlf)" using strtok_word(1) [OF m(3,2), of "w @ crlf"] by simp
  ultimately show "header_effect junk (''Cookie: '' @ k @ ''='' @ u @ ''; '' @ w) r =
      Ok (r\<lparr>hr_cookies := map_insert k (butlast u) (hr_cookies r)\<rparr>)"
    unfolding header_cookie using cookie_line [OF d] by simp
qed

theorem cookies_lost_witness:
  "header_effect (replicate 128 (CHR 0x00)) ''Cookie: username=alice; theme=dark'' empty_request =
     Ok (empty_request\<lparr>hr_cookies := [(''username'', ''alic'')]\<rparr>)"
  using cookies_lost [of "''username''" "''alice''" "''theme=dark''" "replicate 128 (CHR 0x00)" empty_request]
  by (simp add: cookie_word_def empty_request_def)

section \<open>A request that is never finished\<close>

lemma cookie_body_spins:
  assumes "ps_body p" "\<not> ps_first p" "find (ps_buffer p) crlf (ps_end p) = iter" "iter \<noteq> npos"
    and "find (ps_buffer p) crlf iter = iter"
    and "copy_to 4000000 (take (iter - ps_start p) (drop (ps_start p) (ps_buffer p))) = Ok copy"
    and "8 < length copy" "take 8 copy = ''Cookie: ''" "\<And>r. \<exists>r'. parse_cookie_line junk copy r = Ok r'"
  shows "request_loop N junk es p = Block"
  using assms(1-6)
proof (induction N arbitrary: p)
  case (Suc N)
  obtain r' where r': "parse_cookie_line junk copy (ps_request p) = Ok r'" using assms(9) by blast
  let ?p = "p\<lparr>ps_end := iter\<rparr>" and ?q = "p\<lparr>ps_end := iter, ps_request := r'\<rparr>"
  have "next_piece es p = Some (?p, True, es)" using Suc.prems(3,4) by (simp add: next_piece_def Let_def)
  moreover have "use_piece junk ?p = Ok (?q, False)"
    using Suc.prems(1,2,6) assms(7,8) r' by (simp add: use_piece_def Let_def)
  moreover have "request_loop N junk es ?q = Block"
    by (rule Suc.IH) (use Suc.prems in simp_all)
  ultimately show ?case by simp
qed simp

lemma spins_step:
  assumes "next_piece es p = Some (p1, True, es')" "use_piece junk p1 = Ok (p2, False)" "\<And>n. request_loop n junk es' p2 = Block"
  shows "request_loop N junk es p = Block"
  using assms by (cases N) simp_all

text \<open>
  A POST request whose body starts with a line that looks like a cookie is never finished: the line
  end is not consumed in the body, so the same line is found and parsed again, for any number of rounds.
\<close>

theorem cookie_body_hangs:
  assumes "head_line line" "length line < 3000000" "cookie_word k" "cookie_word u" "2 < length u" "junk = replicate 128 (CHR 0x00)"
    and "parse_request_line (line @ crlf) empty_request = Ok r" "\<not> strcasecmp_eq (hr_method r) ''get''"
  shows "read_request N junk [Bytes (line @ crlf @ crlf @ ''Cookie: '' @ k @ ''='' @ u @ crlf)] = Block"
proof -
  let ?c = "k @ ''='' @ u"
  let ?b = "''Cookie: '' @ ?c"
  let ?B = "line @ crlf @ crlf @ ?b @ crlf" and ?s = "length line + 2"
  have len: "length k \<le> 50" "length u \<le> 50" "length line < 3000000" and line: "CR \<notin> set line"
    using assms(1-4) by (simp_all add: cookie_word_def head_line_def)
  have B: "length ?B < npos" "?B \<noteq> []" "length ?B < 4000000" using len by (simp_all add: npos_def)
  have n: "CHR 0x00 \<notin> set ?b" "CHR 0x00 \<notin> set ?c" "CR \<notin> set ?b" "CHR '' '' \<notin> set ?c" "?c \<noteq> []"
    using assms(3,4) by (auto simp: cookie_word_def)
  have d0: "drop 0 ?B = line @ crlf @ (crlf @ ?b @ crlf)" and d1: "drop ?s ?B = crlf @ ?b @ crlf" and d2: "drop (?s + 2) ?B = ?b @ crlf"
    by simp_all
  have c: "\<exists>r'. parse_cookie_line junk ?b r = Ok r'" for r
  proof -
    have "\<not> length u - 2 < 0 \<and> u ! (length u - 2) \<noteq> CHR '';''"
      using assms(4,5) nth_mem [of "length u - 2" u] by (fastforce simp: cookie_word_def)
    then have vl: "value_length (u @ []) = Ok (length u - 2)" using assms(5) by (simp add: value_length_def)
    have fv: "fill_value (u @ []) (length u - 2) junk = Ok (take (length u - 2) u, take (length u - 2) u @ replicate (128 - (length u - 2)) (CHR 0x00))"
      using fill_zeroed [of "length u - 2" u] len assms(4,6) by (simp add: cookie_word_def)
    have "parse_cookies (Suc (Suc (length ?c))) (Some (?c, [])) junk (hr_cookies r) = Ok (map_insert k (take (length u - 2) u) (hr_cookies r))"
      using parse_cookies_one [OF assms(3,4) _ _ vl fv] by simp
    moreover have "copy_to 512 ?c = Ok ?c" using len unfolding copy_to_def cstr_id [OF n(2)] by simp
    ultimately show ?thesis using cookie_line [OF _ strtok_word(2) [OF n(5,4)]] by blast
  qed
  let ?p = "(at_line (?s + 2) ?B False r)\<lparr>ps_body := True\<rparr>"
  have find_b: "find ?B crlf (?s + 2) = ?s + 2 + length ?b" "find ?B crlf (?s + 2 + length ?b) = ?s + 2 + length ?b"
  proof -
    show "find ?B crlf (?s + 2) = ?s + 2 + length ?b"
      using sfind_line [OF n(3), of "[]"] unfolding find_def d2 by simp
    have "drop (length ?b) (drop (?s + 2) ?B) = crlf" unfolding d2 by simp
    then have "drop (?s + 2 + length ?b) ?B = crlf" by (simp only: drop_drop add.commute add.left_commute)
    then show "find ?B crlf (?s + 2 + length ?b) = ?s + 2 + length ?b" unfolding find_def by simp
  qed
  have body: "request_loop n junk [] ?p = Block" for n
  proof (rule cookie_body_spins [where iter = "?s + 2 + length ?b" and copy = ?b])
    show "find (ps_buffer ?p) crlf (ps_end ?p) = ?s + 2 + length ?b" using find_b(1) by (simp add: at_line_def)
    show "find (ps_buffer ?p) crlf (?s + 2 + length ?b) = ?s + 2 + length ?b" using find_b(2) by (simp add: at_line_def)
    show "?s + 2 + length ?b \<noteq> npos" using B(1) by simp
    have "take (length ?b) (?b @ crlf) = ?b" by (metis append_eq_conv_conj)
    then have t: "take (?s + 2 + length ?b - (?s + 2)) (drop (?s + 2) ?B) = ?b" unfolding d2 by (simp only: add_diff_cancel_left')
    have "copy_to 4000000 ?b = Ok ?b" using len unfolding copy_to_def cstr_id [OF n(1)] by simp
    then show "copy_to 4000000 (take (?s + 2 + length ?b - ps_start ?p) (drop (ps_start ?p) (ps_buffer ?p))) = Ok ?b"
      using t by (simp add: at_line_def)
  qed (use c n(5) in \<open>simp_all add: at_line_def\<close>)
  have f1: "next_piece [] (at_line 0 ?B True empty_request) = Some ((at_line 0 ?B True empty_request)\<lparr>ps_end := 0 + length line\<rparr>, True, [])"
    using line_found(1) [of 0 ?B] sfind_line [OF line] B(1) d0 by simp
  have f2: "next_piece [] (at_line ?s ?B False r) = Some ((at_line ?s ?B False r)\<lparr>ps_end := ?s\<rparr>, True, [])"
    using line_found(1) [of ?s ?B 0] B(1) d1 by simp
  have blank: "request_loop n junk [] (at_line ?s ?B False r) = Block" for n
    by (rule spins_step [OF f2 _ body]) (use use_blank [OF d1, of junk r] assms(8) in simp)
  have first: "request_loop n junk [] (at_line 0 ?B True empty_request) = Block" for n
    by (rule spins_step [OF f1 _ blank]) (use use_first [OF assms(1) d0, of junk empty_request] assms(7) in simp)
  have "next_piece [Bytes ?B] parse_init = Some (at_line 0 ?B True empty_request, False, [])"
    using B by (simp add: next_piece_def parse_init_def at_line_def find_def crlf_def)
  then show ?thesis unfolding read_request_def using first by (cases N) simp_all
qed

theorem cookie_body_hangs_witness:
  "\<forall>N. read_request N (replicate 128 (CHR 0x00)) [Bytes (''POST / HTTP/1.1'' @ crlf @ crlf @ ''Cookie: theme=dark'' @ crlf)] = Block"
proof -
  have p: "parse_request_line (''POST / HTTP/1.1'' @ crlf) empty_request =
      Ok (empty_request\<lparr>hr_method := ''POST'', hr_path := ''/'', hr_version := ''HTTP/1.1'' @ [CR]\<rparr>)"
    by (simp add: parse_request_line_def strtok_def token_def empty_request_def crlf_def)
  have m: "\<not> strcasecmp_eq ''POST'' ''get''"
    by (simp add: strcasecmp_eq_def cstr_def lower_def char_of_def bit_Suc_0_iff)
  have "read_request N (replicate 128 (CHR 0x00)) [Bytes (''POST / HTTP/1.1'' @ crlf @ crlf @ ''Cookie: theme=dark'' @ crlf)] = Block" for N
    using cookie_body_hangs [OF _ _ _ _ _ refl p, of "''theme''" "''dark''" N] m
    by (simp add: head_line_def cookie_word_def empty_request_def)
  then show ?thesis by blast
qed

end
