(* ===== verification/State_Check.thy ===== *)
theory State_Check
  imports Load_Balancer Master
begin

text \<open>
  \<open>state/StateCheck.cc\<close>: what the administration page asks the master and the data servers, and how it
  reads the answers.
\<close>

section \<open>Questions\<close>

text \<open>
  The loop of \<open>getState\<close> and \<open>getList\<close>: read into a zeroed buffer of 1000 bytes, append it as a C
  string, until a line end has arrived. A full buffer is read past its end.
\<close>

function read_answer :: "string \<Rightarrow> rd list \<Rightarrow> string res" where
  "read_answer result es =
     and_then (c_read 1000 es) (\<lambda>(n, s, es').
       if contains (result @ s) crlf then Ok (result @ s) else read_answer (result @ s) es')"
  by pat_completeness auto
termination
  by (relation "measure (\<lambda>(result, es). sum_list (map rd_size es))") (auto dest: c_read_less)

declare read_answer.simps [simp del]

text \<open>
  The questions: the bytes sent and, from the results of \<open>read\<close>, the answer. \<open>getList\<close> and
  \<open>closeAll\<close> connect again until the server accepts; \<open>tries\<close> are the results of \<open>connect\<close>.
\<close>

definition getState :: "string \<Rightarrow> string \<Rightarrow> rd list \<Rightarrow> (string \<times> string) res" where
  "getState addr message es =
     and_then (parse_addr addr) (\<lambda>_. and_then (read_answer [] es) (\<lambda>r. Ok (message, r)))"

fun connect_until :: "bool list \<Rightarrow> nat res" where
  "connect_until [] = Block"
| "connect_until (ok # tries) = (if ok then Ok 1 else and_then (connect_until tries) (\<lambda>n. Ok (n + 1)))"

definition getList :: "bool list \<Rightarrow> string \<Rightarrow> rd list \<Rightarrow> (string \<times> string) res" where
  "getList tries command es =
     and_then (connect_until tries) (\<lambda>_. and_then (read_answer [] es) (\<lambda>r. Ok (command, r)))"

definition closeAll_servers :: "bool list \<Rightarrow> string res" where
  "closeAll_servers tries = and_then (connect_until tries) (\<lambda>_. Ok (''closeall'' @ crlf))"

section \<open>Answers\<close>

function parse_id_loop :: "string \<Rightarrow> nat \<Rightarrow> nat \<Rightarrow> string list res" where
  "parse_id_loop str current previous =
     (if current < length str then
        (if str ! current = CHR ''|'' then
           and_then (substr str previous (szsub current previous)) (\<lambda>temp.
             and_then (parse_id_loop str (current + 1) (current + 1)) (\<lambda>r. Ok (temp # r)))
         else parse_id_loop str (current + 1) previous)
      else and_then (substr str previous npos) (\<lambda>temp. Ok [temp]))"
  by pat_completeness auto
termination
  by (relation "measure (\<lambda>(str, current, previous). length str - current)") auto

declare parse_id_loop.simps [simp del]

definition parse_id :: "string \<Rightarrow> string list res" where
  "parse_id str = parse_id_loop str 0 0"

text \<open>The last two bytes (the empty line) are cut, then the lines; a rest without line end is dropped.\<close>

definition sc_parse_all_server :: "string \<Rightarrow> string list" where
  "sc_parse_all_server s = cut_lines [] (take (szsub (length s) 2) s)"

definition startNodeCommand :: "int \<Rightarrow> int \<Rightarrow> bool \<Rightarrow> string" where
  "startNodeCommand node rep recovery =
     ''../kvstore/dataserver -p ../kvstore/node/'' @ show_int node @ ''/'' @ show_int rep @
     (if recovery then '' -r'' else []) @ '' ../kvstore/serverlist.txt '' @ show_int node @ '' '' @ show_int rep"

section \<open>Reading the state of the cluster\<close>

lemma parse_id_split:
  "fits (p @ q) \<Longrightarrow> previous \<le> length p \<Longrightarrow> CHR ''|'' \<notin> set (drop previous p) \<Longrightarrow>
     parse_id_loop (p @ q) (length p) previous = Ok (split_on (CHR ''|'') (drop previous p @ q))"
proof (induction q arbitrary: p previous)
  case Nil
  then have "length p \<le> npos" "previous \<le> length p" by (simp_all add: fits_def)
  then show ?case using Nil by (subst parse_id_loop.simps) simp
next
  case (Cons c q)
  let ?s = "p @ c # q"
  have at: "length p < length ?s" "?s ! length p = c" by simp_all
  have assoc: "(p @ [c]) @ q = ?s" "length (p @ [c]) = length p + 1" by simp_all
  have sz: "szsub (length p) previous = length p - previous" using Cons.prems by (simp add: fits_def)
  show ?case
  proof (cases "c = CHR ''|''")
    case True
    have "parse_id_loop ?s (length p + 1) (length p + 1) = Ok (split_on (CHR ''|'') q)"
      using Cons.IH [of "p @ [c]" "length p + 1"] Cons.prems(1) by simp
    moreover have "substr ?s previous (length p - previous) = Ok (drop previous p)"
      using Cons.prems(2) by simp
    ultimately have "parse_id_loop ?s (length p) previous = Ok (drop previous p # split_on (CHR ''|'') q)"
      using True by (subst parse_id_loop.simps) (simp add: sz)
    then show ?thesis using Cons.prems(3) True by simp
  next
    case False
    have "parse_id_loop ?s (length p) previous = parse_id_loop ?s (length p + 1) previous"
      using False by (subst parse_id_loop.simps) simp
    also have "\<dots> = Ok (split_on (CHR ''|'') (drop previous (p @ [c]) @ q))"
      using Cons.IH [of "p @ [c]" previous] Cons.prems False by (simp add: drop_append)
    finally show ?thesis using Cons.prems(2) by simp
  qed
qed

lemma parse_id_fields: "fits str \<Longrightarrow> parse_id str = Ok (split_on (CHR ''|'') str)"
  using parse_id_split [of "[]" str 0] by (simp add: parse_id_def)

definition state_rows :: "(sockaddr_in \<Rightarrow> bool) \<Rightarrow> node list \<Rightarrow> string list list" where
  "state_rows up ns =
     concat (map (\<lambda>(i, n). map (\<lambda>(j, a). [show_nat i, show_nat j, ip_to_string a, if up a then ''alive'' else ''down''])
       (enumerate 0 (rep_addrs n))) (enumerate 0 ns))"

lemma m_reply_task: "alive (m_task c) \<Longrightarrow> m_task (m_reply s c) = (m_task c)\<lparr>sent := sent (m_task c) @ s\<rparr>"
  by (simp add: m_reply_def conn_write_def)

lemma m_replies:
  "alive (m_task c) \<Longrightarrow> m_task (foldl (\<lambda>c s. m_reply s c) c xs) = (m_task c)\<lparr>sent := sent (m_task c) @ concat xs\<rparr>"
  by (induction xs arbitrary: c) (simp_all add: m_reply_task)

definition row_line :: "string list \<Rightarrow> string" where
  "row_line r = r ! 0 @ ''|'' @ r ! 1 @ ''|'' @ r ! 2 @ ''|'' @ r ! 3"

lemma state_lines:
  "concat (map (\<lambda>(i, n). map (\<lambda>(j, a). state_line up i j a) (enumerate 0 (rep_addrs n))) (enumerate 0 ns)) =
     map (\<lambda>r. row_line r @ [LF]) (state_rows up ns)"
proof -
  have "state_line up i j a =
      row_line [show_nat i, show_nat j, ip_to_string a, if up a then ''alive'' else ''down''] @ [LF]" for i j a
    by (simp add: state_line_def row_line_def)
  then show ?thesis by (simp add: state_rows_def map_concat comp_def case_prod_unfold)
qed

definition row_ok :: "string list \<Rightarrow> bool" where
  "row_ok r \<longleftrightarrow> length r = 4 \<and> (\<forall>x \<in> set r. CHR ''|'' \<notin> set x \<and> LF \<notin> set x \<and> CR \<notin> set x \<and> CHR 0x00 \<notin> set x)"

lemma rows_ok: "r \<in> set (state_rows up ns) \<Longrightarrow> row_ok r"
  by (auto simp: state_rows_def row_ok_def ip_to_string_def split: prod.splits if_splits)

lemma row_line_parts:
  assumes "row_ok r"
  shows "LF \<notin> set (row_line r)" "CR \<notin> set (row_line r)" "CHR 0x00 \<notin> set (row_line r)"
    "split_on (CHR ''|'') (row_line r) = r"
proof -
  obtain a b c d where r: "r = [a, b, c, d]"
    using assms by (auto simp: row_ok_def length_Suc_conv numeral_eq_Suc)
  then show "LF \<notin> set (row_line r)" "CR \<notin> set (row_line r)" "CHR 0x00 \<notin> set (row_line r)"
    "split_on (CHR ''|'') (row_line r) = r"
    using assms by (auto simp: row_ok_def row_line_def)
qed

lemma cut_rows:
  "\<forall>r \<in> set rs. row_ok r \<Longrightarrow> cut_lines [] (concat (map (\<lambda>r. row_line r @ [LF]) rs)) = map row_line rs"
proof (induction rs)
  case (Cons r rs)
  have "cut_lines acc (l @ LF # s) = (rev acc @ l) # cut_lines [] s" if "LF \<notin> set l" for acc l s
    using that by (induction l arbitrary: acc) auto
  then show ?case using Cons row_line_parts(1) [of r] by simp
qed simp

text \<open>
  The administration page sees the state of the cluster: the answer of the master to STATES, read
  in one piece of less than 1000 bytes, is cut into one row for each server of each node, in the
  order of the configuration, with node and server number, address and state.
\<close>

theorem states_page:
  assumes "alive (m_task c)" "sent (m_task c) = []" "parse_addr master_address = Ok a"
    and "answer = sent (m_task (m_parse_STATES up c))" "length answer < 1000"
  shows "getState master_address (''states'' @ crlf) [Bytes answer] = Ok ((''states'' @ crlf), answer) \<and>
    map_res parse_id (sc_parse_all_server answer) = Ok (state_rows up (nodes_list (mst c)))"
proof -
  let ?rs = "state_rows up (nodes_list (mst c))"
  let ?t = "concat (map (\<lambda>r. row_line r @ [LF]) ?rs)"
  have ok: "\<forall>r \<in> set ?rs. row_ok r" using rows_ok by blast
  have ans: "answer = ?t @ crlf"
    using assms(1,2) by (simp add: assms(4) m_parse_STATES_def state_lines m_replies m_reply_task)
  have nul: "CHR 0x00 \<notin> set answer" using ok row_line_parts(3) by (auto simp: ans crlf_def)
  have "contains answer crlf" using sfind_middle [of crlf ?t "[]"] by (simp add: ans contains_def)
  then have "read_answer [] [Bytes answer] = Ok answer"
    using nul assms(5) by (subst read_answer.simps) simp
  moreover have "sc_parse_all_server answer = map row_line ?rs"
  proof -
    have "take (szsub (length answer) 2) answer = ?t"
      using assms(5) by (simp add: ans crlf_def npos_def)
    then show ?thesis using cut_rows [OF ok] by (simp add: sc_parse_all_server_def)
  qed
  moreover have "map_res parse_id (map row_line ?rs) = Ok ?rs"
  proof -
    have "fits (row_line r)" if "r \<in> set ?rs" for r
    proof -
      have "length (row_line r) \<le> length (concat (map (\<lambda>r. row_line r @ [LF]) rs))" if "r \<in> set rs" for rs
        using that by (induction rs) auto
      then have "length (row_line r) \<le> length ?t" using that by blast
      then show ?thesis using assms(5) by (simp add: ans fits_def npos_def)
    qed
    then have "parse_id (row_line r) = Ok r" if "r \<in> set ?rs" for r
      using that parse_id_fields row_line_parts(4) ok by simp
    then have "\<forall>r \<in> set ?rs. parse_id (row_line r) = Ok r" by blast
    moreover have "map_res parse_id (map row_line rs) = Ok rs" if "\<forall>r \<in> set rs. parse_id (row_line r) = Ok r" for rs
      using that by (induction rs) auto
    ultimately show ?thesis by blast
  qed
  ultimately show ?thesis by (simp add: getState_def assms(3))
qed

theorem states_page_witness:
  "getState ''127.0.0.1:10000'' (''states'' @ crlf) [Bytes (''0|0|127.0.0.1:5000|alive'' @ [LF] @ crlf)] =
     Ok (''states'' @ crlf, ''0|0|127.0.0.1:5000|alive'' @ [LF] @ crlf) \<and>
   map_res parse_id (sc_parse_all_server (''0|0|127.0.0.1:5000|alive'' @ [LF] @ crlf)) =
     Ok [[''0'', ''0'', ''127.0.0.1:5000'', ''alive'']]"
proof -
  let ?n = "\<lparr>rep_addrs = [localhost 5000], n_primary = localhost 5000, n_id = 0, row_num = 0, running = True\<rparr>"
  let ?c = "\<lparr>mst = \<lparr>m_addr = localhost 1, nodes_list = [?n], node_index = []\<rparr>, m_inp = [], m_task = new_conn,
    m_wait = [], m_run = True\<rparr>"
  have digits: "show_nat 0 = ''0''" "show_nat (Suc 0) = ''1''" "show_nat 127 = ''127''" "show_nat 5000 = ''5000''"
    by (simp_all add: show_nat.simps digit_char_def char_of_def bit_Suc_0_iff)
  have rows: "state_rows (\<lambda>_. True) (nodes_list (mst ?c)) = [[''0'', ''0'', ''127.0.0.1:5000'', ''alive'']]"
    by (simp add: state_rows_def ip_to_string_def localhost_def digits)
  have ans: "sent (m_task (m_parse_STATES (\<lambda>_. True) ?c)) = ''0|0|127.0.0.1:5000|alive'' @ [LF] @ crlf"
    by (simp add: m_parse_STATES_def state_line_def m_reply_def conn_write_def new_conn_def ip_to_string_def localhost_def digits)
  have addr: "parse_addr ''127.0.0.1:10000'' = Ok (''127.0.0.1'', atoi ''10000'' mod 65536)"
    by (simp add: parse_addr_def npos_def)
  have "alive (m_task ?c)" "sent (m_task ?c) = []" by (simp_all add: new_conn_def)
  from states_page [OF this addr ans [symmetric]] show ?thesis
    unfolding rows by (simp add: crlf_def)
qed

end
