(* ===== verification/Web_Text.thy ===== *)
theory Web_Text
  imports Http_Request State_Check
begin

text \<open>
  The text functions of the web server (\<open>frontendServer/util.cc\<close> and the functions behind the class in
  \<open>frontendServer/response.cc\<close>): templates, decoding of paths and forms, the parts of an uploaded file,
  mail headers, the numbers in paths, and the HTML lists. A position behind the end of a string or
  vector, which the code does not test, is \<open>Bad_index\<close>; \<open>vector::at\<close> throws \<open>Out_of_range\<close>.
\<close>

section \<open>Templates (util.cc)\<close>

text \<open>The empty target is found at every position, so the loop has no end.\<close>

function replace_loop :: "string \<Rightarrow> string \<Rightarrow> string \<Rightarrow> nat \<Rightarrow> string res" where
  "replace_loop origin target replacement index =
     (if target = [] then Block
      else let i = find origin target index
           in if i = npos then Ok origin
              else replace_loop (take i origin @ replacement @ drop (i + length target) origin) target replacement
                     (i + length replacement))"
  by pat_completeness auto
termination
proof (relation "measure (\<lambda>(origin, target, replacement, index). length origin - index)", goal_cases)
  case (2 origin target replacement index i)
  then have "index \<le> i \<and> i + length target \<le> length origin" by (cases rule: find_cases [of origin target index]) auto
  moreover have "0 < length target" using 2 by simp
  moreover have "length (take i origin @ replacement @ drop (i + length target) origin) - (i + length replacement) =
      length origin - (i + length target)" if "i + length target \<le> length origin" using that by simp
  ultimately show ?case by (simp only: in_measure prod.case) linarith
qed simp

declare replace_loop.simps [simp del]

definition str_replace :: "string \<Rightarrow> string \<Rightarrow> string \<Rightarrow> string res" where
  "str_replace origin target replacement = replace_loop origin target replacement 0"

text \<open>The entries of the map, in the order in which the hash table is walked, on one line.\<close>

fun replace_line :: "(string \<times> string) list \<Rightarrow> string \<Rightarrow> string res" where
  "replace_line [] line = Ok line"
| "replace_line ((target, replacement) # es) line = and_then (str_replace line target replacement) (replace_line es)"

text \<open>A file that cannot be opened (\<open>None\<close>) ends the process. The line ends are dropped.\<close>

definition replace_get_html :: "string option \<Rightarrow> (string \<times> string) list \<Rightarrow> string res" where
  "replace_get_html file replacement =
     (case file of
        None \<Rightarrow> Throw Killed
      | Some text0 \<Rightarrow> and_then (map_res (replace_line replacement) (getlines text0)) (\<lambda>ls. Ok (concat ls)))"

definition getHtml :: "string option \<Rightarrow> string res" where
  "getHtml file = (case file of None \<Rightarrow> Throw Killed | Some text0 \<Rightarrow> Ok (concat (getlines text0)))"

section \<open>Paths and forms\<close>

text \<open>The extraction stores no value when there is nothing but blanks.\<close>

definition convert_hex_to_char :: "string \<Rightarrow> char res" where
  "convert_hex_to_char hex_char =
     (if dropWhile is_space (take 2 hex_char) = [] then Throw Bad_index else Ok (hex_in (take 2 hex_char)))"

fun decode_path :: "string \<Rightarrow> string res" where
  "decode_path [] = Ok []"
| "decode_path (c # s) =
     (if c \<noteq> CHR ''%'' then and_then (decode_path s) (\<lambda>r. Ok (c # r))
      else (case s of
              a # b # s' \<Rightarrow> and_then (convert_hex_to_char [a, b]) (\<lambda>h. and_then (decode_path s') (\<lambda>r. Ok (h # r)))
            | _ \<Rightarrow> Throw Bad_index))"

text \<open>The value of a form field, up to \<open>&\<close> or, for the last one, to the end; and what follows it.\<close>

fun form_value :: "bool \<Rightarrow> string \<Rightarrow> (string \<times> string) res" where
  "form_value amp [] = (if amp then Throw Out_of_range else Ok ([], []))"
| "form_value amp (c # s) =
     (if amp \<and> c = CHR ''&'' then Ok ([], s)
      else if c = CHR ''+'' then and_then (form_value amp s) (\<lambda>(v, r). Ok (CHR '' '' # v, r))
      else if c = CHR ''%'' then
        (case s of
           a # b # s' \<Rightarrow> and_then (convert_hex_to_char [a, b]) (\<lambda>h. and_then (form_value amp s') (\<lambda>(v, r). Ok (h # v, r)))
         | _ \<Rightarrow> Throw Bad_index)
      else and_then (form_value amp s) (\<lambda>(v, r). Ok (c # v, r)))"

text \<open>A loop that looks for a character: what follows it.\<close>

definition after_char :: "exn \<Rightarrow> char \<Rightarrow> string \<Rightarrow> string res" where
  "after_char e c s = (case sfind [c] s of None \<Rightarrow> Throw e | Some i \<Rightarrow> Ok (drop (i + 1) s))"

text \<open>And what is before it as well.\<close>

definition upto_char :: "char \<Rightarrow> string \<Rightarrow> (string \<times> string) res" where
  "upto_char c s = (case sfind [c] s of None \<Rightarrow> Throw Bad_index | Some i \<Rightarrow> Ok (take i s, drop i s))"

definition parse_email :: "string \<Rightarrow> (string \<times> string \<times> string) res" where
  "parse_email message =
     and_then (after_char Out_of_range (CHR ''='') message) (\<lambda>m1.
     and_then (form_value True m1) (\<lambda>(recipient, m2).
     and_then (after_char Out_of_range (CHR ''='') m2) (\<lambda>m3.
     and_then (form_value True m3) (\<lambda>(subject, m4).
     and_then (after_char Out_of_range (CHR ''='') m4) (\<lambda>m5.
     and_then (form_value False m5) (\<lambda>(content, _). Ok (recipient, content, subject)))))))"

text \<open>
  The user name and the password of the sign-in and the sign-up form. The second token is cut with other
  delimiters; a call of \<open>strtok\<close> on a copy does not come between here.
\<close>

definition parse_account :: "string \<Rightarrow> (string \<times> string) res" where
  "parse_account message =
     and_then (copy_to 256 message) (\<lambda>copy.
     and_then (token (strtok ''&'' copy)) (\<lambda>(tok, rest).
     and_then (copy_to 256 tok) (\<lambda>copy2.
     let tok2 = strtok '' &'' rest
     in and_then (token (strtok ''='' copy2)) (\<lambda>(_, sub).
        and_then (token (strtok ''='' sub)) (\<lambda>(user, _).
        and_then (token tok2) (\<lambda>(t, _).
        and_then (copy_to 256 t) (\<lambda>copy3.
        and_then (token (strtok ''='' copy3)) (\<lambda>(_, sub2).
        and_then (token (strtok ''='' sub2)) (\<lambda>(password, _). Ok (user, password))))))))))"

definition parse_rename :: "string \<Rightarrow> (string \<times> string) res" where
  "parse_rename info =
     and_then (after_char Bad_index (CHR ''='') info) (\<lambda>s1.
     and_then (upto_char (CHR ''&'') s1) (\<lambda>(newname, s2).
     and_then (after_char Bad_index (CHR ''='') (drop 1 s2)) (\<lambda>prename. Ok (prename, newname))))"

definition parse_newfolder :: "string \<Rightarrow> string res" where
  "parse_newfolder info = substr info 11 (szsub (length info) 11)"

definition parse_move :: "bool \<Rightarrow> string \<Rightarrow> (string \<times> string) res" where
  "parse_move isFile path =
     (let k = (if isFile then 22 else 24)
      in and_then (substr path k (szsub (length path) k)) (\<lambda>info.
         and_then (after_char Bad_index (CHR ''='') info) (\<lambda>s1.
         and_then (upto_char (CHR ''&'') s1) (\<lambda>(filename, s2).
         and_then (after_char Bad_index (CHR ''='') s2) (\<lambda>folder. Ok (filename, folder))))))"

section \<open>Numbers in paths\<close>

definition schar :: "char \<Rightarrow> int" where
  "schar c = (let n = int (of_char c) in if 128 \<le> n then n - 256 else n)"

text \<open>
  The digits are not tested, and the \<open>int\<close> may overflow (taken to wrap). \<open>parse_mailid\<close> stops at a
  question mark; \<open>handle_back\<close> adds the new value to the old one.
\<close>

fun id_digits :: "int \<Rightarrow> string \<Rightarrow> int" where
  "id_digits v [] = v"
| "id_digits v (c # s) = id_digits (wrap_int (v * 10 + schar c - 48)) s"

fun back_digits :: "int \<Rightarrow> string \<Rightarrow> int" where
  "back_digits v [] = v"
| "back_digits v (c # s) = back_digits (wrap_int (v + (v * 10 + schar c - 48))) s"

definition parse_index :: "string \<Rightarrow> int res" where
  "parse_index path = and_then (after_char Bad_index (CHR ''='') path) (\<lambda>s. Ok (id_digits 0 s))"

definition parse_mailid :: "string \<Rightarrow> int res" where
  "parse_mailid path =
     and_then (after_char Bad_index (CHR ''='') path) (\<lambda>s. Ok (id_digits 0 (takeWhile (\<lambda>c. c \<noteq> CHR ''?'') s)))"

definition parse_back :: "string \<Rightarrow> int res" where
  "parse_back path = and_then (after_char Bad_index (CHR ''='') path) (\<lambda>s. Ok (back_digits 0 s))"

section \<open>Uploaded files\<close>

text \<open>\<open>npos + 10\<close> is 9.\<close>

definition find_filename :: "string \<Rightarrow> string res" where
  "find_filename message =
     (let index = szadd (find message ''filename='' 0) 10;
          end_index = find message ''\"'' index
      in substr message index (szsub end_index index))"

text \<open>
  Between the first empty line and the first six hyphens after it. Iterators outside the vector and an
  interval that ends before it starts have no defined meaning.
\<close>

definition find_file_content :: "string \<Rightarrow> string res" where
  "find_file_content message =
     (case sfind (crlf @ crlf) message of
        None \<Rightarrow> Throw Bad_index
      | Some i \<Rightarrow>
          (let rest = drop (i + 4) message;
               e = (case sfind ''------'' rest of None \<Rightarrow> length rest | Some j \<Rightarrow> j)
           in if e < 2 then Throw Bad_index else Ok (take (e - 2) rest)))"

definition content_size :: "string \<Rightarrow> string" where
  "content_size content =
     (let n = length content
      in if n < 1024 then show_nat n @ ''B''
         else if n < 1000000 then show_nat (n div 1024) @ ''KB''
         else show_nat (n div 900000) @ ''.00MB'')"

definition parse_type :: "string \<Rightarrow> string" where
  "parse_type filename =
     (if contains filename ''jpeg'' \<or> contains filename ''jpg'' then ''image/jpeg''
      else if contains filename ''png'' then ''image/png''
      else if contains filename ''pdf'' then ''application/pdf''
      else ''text/plain'')"

section \<open>Mail\<close>

definition parse_header :: "string \<Rightarrow> (string \<times> string \<times> string \<times> string) res" where
  "parse_header header =
     (let p1 = find header ''|'' 0;
          p2 = find header ''|'' (szadd p1 1);
          p3 = find header ''|'' (szadd p2 1);
          p4 = find header ''|'' (szadd p3 1);
          p5 = find header ''|'' (szadd p4 1)
      in and_then (substr header (szadd p2 1) (szsub (szsub p3 p2) 1)) (\<lambda>sender.
         and_then (substr header (szadd p3 1) (szsub (szsub p4 p3) 1)) (\<lambda>rcpt.
         and_then (substr header (szadd p4 1) (szsub (szsub p5 p4) 1)) (\<lambda>title.
         and_then (substr header (szadd p5 1) npos) (\<lambda>time. Ok (sender, rcpt, title, time))))))"

text \<open>The search goes on where the line end was; each round takes one carriage return away.\<close>

lemma find_split:
  assumes "find s pat pos = i" "i \<noteq> npos"
  shows "s = take i s @ pat @ drop (i + length pat) s" "pos \<le> i"
proof -
  obtain j where j: "sfind pat (drop pos s) = Some j" "i = pos + j"
    using assms by (auto simp: find_def split: if_splits option.splits)
  then have "prefix pat (drop j (drop pos s))" using sfind_Some_iff by blast
  then have "prefix pat (drop i s)" using j(2) by (simp add: add.commute)
  then obtain r where r: "drop i s = pat @ r" by (auto simp: prefix_def)
  then have "drop (length pat) (drop i s) = r" by simp
  then have "drop (i + length pat) s = r" by (simp only: drop_drop add.commute)
  then show "s = take i s @ pat @ drop (i + length pat) s" using r by (metis append_take_drop_id)
  show "pos \<le> i" using j(2) by simp
qed

function display_loop :: "string \<Rightarrow> nat \<Rightarrow> string" where
  "display_loop copy pos =
     (let i = find copy crlf pos
      in if i = npos then copy
         else display_loop (take i copy @ ''<br>'' @ drop (i + 2) copy) i)"
  by pat_completeness auto
termination
proof (relation "measure (\<lambda>(copy, pos). count_list copy CR)", goal_cases)
  case (2 copy pos i)
  then have "copy = take i copy @ crlf @ drop (i + 2) copy" using find_split(1) [of copy crlf pos i] by simp
  then have "count_list copy CR = count_list (take i copy @ crlf @ drop (i + 2) copy) CR" by simp
  then show ?case by (simp add: crlf_def)
qed simp

declare display_loop.simps [simp del]

definition for_display :: "string \<Rightarrow> string" where
  "for_display origin = display_loop origin 0"

end
