(* ===== verification/Web_Page.thy ===== *)
theory Web_Page
  imports Web_Text
begin

text \<open>
  The HTML the web server builds (\<open>frontendServer/response.cc\<close>): the lists of files, folders and mails,
  the links of the path, the commands of a mail and the table of servers.
\<close>

section \<open>Files and folders\<close>

definition apos :: string where
  "apos = [CHR 0x27]"

definition file_type :: "file_info \<Rightarrow> string" where
  "file_type f = (if fi_file f then parse_type (fi_name f) else ''folder'')"

definition type_image :: "string \<Rightarrow> string" where
  "type_image type =
     (if type = ''image/jpeg'' then ''https://image.flaticon.com/icons/svg/29/29513.svg''
      else if type = ''image/png'' then ''https://image.flaticon.com/icons/svg/29/29064.svg''
      else if type = ''application/pdf'' then ''https://image.flaticon.com/icons/svg/29/29587.svg''
      else if type = ''text/plain'' then ''https://image.flaticon.com/icons/svg/29/29076.svg''
      else ''https://image.flaticon.com/icons/svg/149/149325.svg'')"

text \<open>The \<open>div\<close> of a row is opened before every sixth entry and closed behind it or the last one.\<close>

definition row_open :: "nat \<Rightarrow> string" where
  "row_open i = (if i mod 6 = 0 then ''<div class=\"row\" style=\"margin-top: 3px;\">'' else [])"

definition row_close :: "nat \<Rightarrow> nat \<Rightarrow> string" where
  "row_close n i = (if (i + 1) mod 6 = 0 \<or> i + 1 = n then ''</div>'' else [])"

definition file_cell :: "file_info \<Rightarrow> string" where
  "file_cell f =
     (let type = file_type f; is_file = (type \<noteq> ''folder''); name = fi_name f
      in ''<div class=\"col-2\">'' @
         (if is_file then ''<a href=\"/download?'' else ''<a href=\"/opendir?'') @ name @ ''\">'' @
         ''<div style=\"width:80px; font-size:80%; text-align:center;\">'' @
         ''<img src=\"'' @ type_image type @ ''\" alt=\"alternate text\" width=\"80\" '' @
         ''height=\"80\" style=\"padding-bottom:0.5em;\"/>'' @ name @ ''</a>'' @
         (if is_file then ''<div>size: '' @ fi_size f @ ''</div>'' else []) @
         ''<div>time: '' @ fi_time f @ ''</div>'' @
         (if is_file then ''<div><a href=\"download?'' @ name @
            ''\"><button class=\"btn-small btn-primary\"'' @ ''\">Download</button></a></div>'' else []) @
         ''<div><button class=\"btn-small btn-primary\" onclick=\"Rename('' @ apos @ name @ apos @
         '')\" style=\"margin-top: 2px;\">Rename</button></div>'' @
         (if is_file then ''<div><a href=\"movefile?'' else ''<div><a href=\"movefolder?'') @ name @
         ''\"><button class=\"btn-small btn-primary\" style=\"margin-top: 2px;\">Move</button></a></div>'' @
         ''<div><a href=\"delete?'' @ name @ ''\"><button class=\"btn-small btn-danger\" '' @
         '' style=\"margin-top: 2px;\">Delete</button></a></div>'' @ ''</div>'' @ ''</div>'')"

definition read_files :: "file_info list \<Rightarrow> string" where
  "read_files names =
     concat (map (\<lambda>(i, f). row_open i @ file_cell f @ row_close (length names) i) (enumerate 0 names))"

definition folder_cell :: "string \<Rightarrow> string \<Rightarrow> file_info \<Rightarrow> string" where
  "folder_cell filename href f =
     ''<div class=\"col-2\">'' @ ''<a href=\"'' @ href @ ''choosefolder?move='' @ filename @ ''&to='' @ fi_name f @ ''\">'' @
     ''<div style=\"width:80px; font-size:80%; text-align:center;\">'' @ ''<img src=\"'' @ type_image ''folder'' @
     ''\" alt=\"alternate text\" width=\"80\" '' @ ''height=\"80\" style=\"padding-bottom:0.5em;\"/>'' @ fi_name f @
     ''</a>'' @ ''</div>'' @ ''</div>''"

definition parse_folder :: "file_info list \<Rightarrow> string \<Rightarrow> string \<Rightarrow> string" where
  "parse_folder folders filename href =
     concat (map (\<lambda>(i, f). row_open i @ folder_cell filename href f @ row_close (length folders) i) (enumerate 0 folders))"

definition path_link :: "nat \<Rightarrow> string \<Rightarrow> string" where
  "path_link i name =
     ''<a href=\"/back?index='' @ show_nat i @ ''\" style=\"font-size: 25px; font-family: '' @ apos @ ''Gothic A1'' @ apos @
     '', sans-serif;\">'' @ ''/'' @ name @ ''</a>''"

definition path_links :: "string list \<Rightarrow> string" where
  "path_links path = concat (map (\<lambda>(i, name). path_link i name) (enumerate 0 path))"

section \<open>Mail\<close>

text \<open>\<open>type\<close> is 0 for the inbox and 1 for the outbox.\<close>

definition mail_item :: "nat \<Rightarrow> nat \<Rightarrow> email \<Rightarrow> string res" where
  "mail_item type i e =
     and_then (parse_header (em_header e)) (\<lambda>(sender, rcpt, title, time).
       Ok (''<a href=\"'' @
         (if type = 0 then ''/showinbox?id='' else if type = 1 then ''/showsent?id='' else ''/showtrash?id='') @
         show_nat i @ ''\">'' @ (if em_opened e then [] else ''<b>'') @
         ''<li class=\"list-group-item\" style=\"color: black;\">'' @
         (if type = 0 then sender else if type = 1 then rcpt else []) @
         ''<span style=\"float: right;\">'' @ title @ ''</span></li>'' @ (if em_opened e then [] else ''</b>'') @ ''</a>''))"

definition read_all_emails :: "email list \<Rightarrow> nat \<Rightarrow> string res" where
  "read_all_emails emails type =
     and_then (map_res (\<lambda>(i, e). mail_item type i e) (enumerate 0 emails)) (\<lambda>items. Ok (concat items))"

definition mail_button :: "string \<Rightarrow> string \<Rightarrow> string" where
  "mail_button action text0 =
     ''<form action=\"/'' @ action @ ''\" method=\"GET\" class=\"flex-item\">'' @
     ''<button type=\"submit\" class=\"btn btn-primary\">'' @ text0 @ ''</button>'' @ ''</form>''"

definition parse_command_list :: "nat \<Rightarrow> string \<Rightarrow> int \<Rightarrow> string" where
  "parse_command_list type hash i =
     (if type = 0 then
        mail_button (''replyid='' @ show_int i) ''Reply'' @ mail_button (''forwardid='' @ show_int i) ''Forward'' @
        mail_button (''removeinboxhash='' @ hash) ''Delete''
      else mail_button (''removeoutboxhash='' @ hash) ''Delete'')"

section \<open>The table of servers\<close>

definition state_cell :: "bool \<Rightarrow> string" where
  "state_cell alive0 = ''<td>'' @ (if alive0 then ''RUNNING</td>'' else ''DOWN</td>'')"

definition control_cell :: "string \<Rightarrow> nat \<Rightarrow> string" where
  "control_cell kind i =
     ''<td><a href=\"/stop'' @ kind @ ''?index='' @ show_nat i @ ''\">Stop</a><span> <span><a href=\"/start'' @ kind @
     ''?index='' @ show_nat i @ ''\">Start</a></td>''"

definition web_row :: "nat \<Rightarrow> web_server \<Rightarrow> string" where
  "web_row i s =
     ''<tr>'' @ ''<td>'' @ show_nat i @ ''</td>'' @ ''<td>HTTP Server</td>'' @ ''<td>'' @ w_address s @ ''</td>'' @
     ''<td>'' @ show_int (w_port s) @ ''</td>'' @ state_cell (w_running s) @ control_cell ''server'' i @ ''</tr>''"

definition field_at :: "nat \<Rightarrow> string list \<Rightarrow> string res" where
  "field_at k fs = (if k < length fs then Ok (fs ! k) else Throw Bad_index)"

text \<open>The address of a data server, cut at the colon; without one the whole text is taken twice.\<close>

definition split_address :: "string \<Rightarrow> (string \<times> string) res" where
  "split_address a =
     (let pos = find a '':'' 0
      in and_then (substr a 0 pos) (\<lambda>ip. and_then (substr a (szadd pos 1) npos) (\<lambda>port. Ok (ip, port))))"

definition backend_row :: "nat \<Rightarrow> string \<Rightarrow> string res" where
  "backend_row i info =
     and_then (parse_id info) (\<lambda>fs.
     and_then (field_at 0 fs) (\<lambda>node. and_then (field_at 1 fs) (\<lambda>rep.
     and_then (field_at 2 fs) (\<lambda>addr. and_then (split_address addr) (\<lambda>(ip, port).
     and_then (field_at 3 fs) (\<lambda>st.
       Ok (''<tr>'' @ ''<td>'' @ node @ ''-'' @ rep @ ''</td>'' @ ''<td>Backend Server</td>'' @ ''<td>'' @ ip @ ''</td>'' @
         ''<td>'' @ port @ ''</td>'' @ state_cell (st = ''alive'') @ control_cell ''backend'' i @ ''</tr>'')))))))"

end
