(* ===== verification/Web_Server.thy ===== *)
theory Web_Server
  imports Web_Page
begin

text \<open>
  \<open>frontendServer/response.cc\<close>: the web server's state and its handlers. What is outside the process is in
  the environment: the data server, the master and the SMTP server, the template files, the clock, and the
  order in which a hash table is walked. A handler returns the bytes it writes to the client and the new
  state; the globals are fields of the state. Debug output is left out.
\<close>

section \<open>State\<close>

record 'b web =
  sessions :: "(string, string) smap"
  username :: string
  all_storages :: "(string, 'b storage option) smap"
  inbox :: "(string, email list) smap"
  outbox :: "(string, email list) smap"
  web_servers :: "web_server list"
  server_info :: "string list"
  disk :: "(string, string) smap"
  world :: 'b

record 'b web_env =
  files_env :: "'b backend"
  mail_env :: "'b mail_env"
  fuel :: nat
  templates :: "string \<Rightarrow> string option"
  walk :: "(string \<times> string) list \<Rightarrow> (string \<times> string) list"
  asc_time :: string
  new_id :: string
  new_time :: string
  can_open :: "string \<Rightarrow> bool"
  smtp_sock :: bool
  smtp_conn :: bool
  smtp_write :: "string list \<Rightarrow> 'b \<Rightarrow> 'b"
  servers_txt :: "string option"
  server_up :: "'b \<Rightarrow> string \<times> int \<Rightarrow> bool"
  state_reply :: "'b \<Rightarrow> rd list"
  tell :: "string \<times> int \<Rightarrow> string \<Rightarrow> 'b \<Rightarrow> 'b"
  launch :: "string list \<Rightarrow> 'b \<Rightarrow> 'b"

record response =
  rs_status :: string
  rs_version :: string
  rs_header :: "(string, string) smap"

type_synonym 'b handled = "(string \<times> 'b web) res"

definition to_map :: "(string \<times> string) list \<Rightarrow> (string, string) smap" where
  "to_map kvs = foldl (\<lambda>m (k, v). map_insert k v m) [] kvs"

definition set_status :: "string \<Rightarrow> response \<Rightarrow> response" where
  "set_status s r = r\<lparr>rs_status := s\<rparr>"

definition add_headers :: "(string \<times> string) list \<Rightarrow> response \<Rightarrow> response" where
  "add_headers kvs r = r\<lparr>rs_header := foldl (\<lambda>m (k, v). map_insert k v m) (rs_header r) kvs\<rparr>"

section \<open>Replies\<close>

definition status_text :: "bool \<Rightarrow> string \<Rightarrow> string" where
  "status_text with_other s =
     (if s = ''200'' then ''OK'' else if s = ''307'' then ''Temporary Redirect''
      else if with_other \<and> s = ''303'' then ''See Other'' else [])"

definition reply_head :: "bool \<Rightarrow> string \<Rightarrow> 'b web_env \<Rightarrow> response \<Rightarrow> string" where
  "reply_head with_other colon E r =
     rs_version r @ '' '' @ rs_status r @ '' '' @ status_text with_other (rs_status r) @ crlf @
     concat (map (\<lambda>(k, v). k @ colon @ v @ crlf) (walk E (rs_header r))) @ crlf"

text \<open>\<open>replace_reply\<close> has no text for 303. What is written ends at the first zero byte.\<close>

definition replace_reply :: "'b web_env \<Rightarrow> response \<Rightarrow> string \<Rightarrow> (string, string) smap \<Rightarrow> string res" where
  "replace_reply E r address replacement =
     and_then (replace_get_html (templates E address) (walk E replacement)) (\<lambda>body.
       Ok (cstr (reply_head False '':'' E r @ body)))"

text \<open>\<open>reply\<close> copies the response into an array of 10000 bytes.\<close>

definition reply_page :: "'b web_env \<Rightarrow> response \<Rightarrow> string \<Rightarrow> string res" where
  "reply_page E r address =
     and_then (getHtml (templates E address)) (\<lambda>body. copy_to 10000 (reply_head True '': '' E r @ body))"

definition html_type :: "string \<times> string" where
  "html_type = (''Content-type'', ''text/html'')"

definition user_cookie :: "'b web \<Rightarrow> string \<times> string" where
  "user_cookie w = (''Set-Cookie'', ''username='' @ username w)"

text \<open>A page filled in for the user, with the cookie; a page without entries; the way back to the first page.\<close>

definition user_page :: "'b web_env \<Rightarrow> response \<Rightarrow> 'b web \<Rightarrow> string \<Rightarrow> (string \<times> string) list \<Rightarrow> 'b handled" where
  "user_page E r w address kvs =
     and_then (replace_reply E (add_headers [html_type, user_cookie w] r) address (to_map ((''$user'', username w) # kvs))) (\<lambda>s.
       Ok (s, w))"

definition plain_page :: "'b web_env \<Rightarrow> response \<Rightarrow> 'b web \<Rightarrow> string \<Rightarrow> 'b handled" where
  "plain_page E r w address = and_then (reply_page E (add_headers [html_type] r) address) (\<lambda>s. Ok (s, w))"

definition go_home :: "'b web_env \<Rightarrow> response \<Rightarrow> 'b web \<Rightarrow> 'b handled" where
  "go_home E r w = plain_page E (set_status ''307'' (add_headers [(''Location'', ''/'')] r)) w ''./html/signin.html''"

definition see_other :: "'b web_env \<Rightarrow> response \<Rightarrow> 'b web \<Rightarrow> string \<Rightarrow> string \<Rightarrow> 'b handled" where
  "see_other E r w location address = user_page E (set_status ''303'' (add_headers [(''Location'', location)] r)) w address []"

section \<open>Sessions and storages\<close>

definition is_logged_in :: "(string, string) smap \<Rightarrow> 'b web \<Rightarrow> bool \<times> 'b web" where
  "is_logged_in cookies w =
     (case map_at cookies ''username'' of
        None \<Rightarrow> (False, w)
      | Some u \<Rightarrow> if map_has (sessions w) u then (True, w\<lparr>username := u\<rparr>) else (False, w))"

text \<open>
  An operation on the storage of the current user. A missing entry is inserted as a null pointer and then
  dereferenced. All storages act on the one data store outside.
\<close>

definition with_storage :: "('b storage \<Rightarrow> ('a \<times> 'b storage) res) \<Rightarrow> 'b web \<Rightarrow> ('a \<times> 'b web) res" where
  "with_storage f w =
     (case map_at (all_storages w) (username w) of
        Some (Some st) \<Rightarrow>
          and_then (f (st\<lparr>peer := map_option (\<lambda>_. world w) (peer st)\<rparr>)) (\<lambda>(x, st').
            Ok (x, w\<lparr>all_storages := map_insert (username w) (Some st') (all_storages w),
              world := (case peer st' of None \<Rightarrow> world w | Some b \<Rightarrow> b)\<rparr>))
      | _ \<Rightarrow> Throw Null_deref)"

definition see_storage :: "('b storage \<Rightarrow> 'a) \<Rightarrow> 'b web \<Rightarrow> 'a res" where
  "see_storage f w =
     (case map_at (all_storages w) (username w) of Some (Some st) \<Rightarrow> Ok (f st) | _ \<Rightarrow> Throw Null_deref)"

text \<open>\<open>*(refresh_upload())\<close>\<close>

definition refreshed :: "'b web_env \<Rightarrow> 'b web \<Rightarrow> (file_info list \<times> 'b web) res" where
  "refreshed E w =
     and_then (with_storage (refresh_upload (files_env E) (fuel E)) w) (\<lambda>(fs, w1).
       case fs of None \<Rightarrow> Throw Null_deref | Some l \<Rightarrow> Ok (l, w1))"

text \<open>The folder shown: the last one of the path.\<close>

definition current_folder :: "'b web \<Rightarrow> file_info res" where
  "current_folder w = and_then (see_storage last_of_path w) (\<lambda>f. f)"

text \<open>\<open>insert\<close> keeps an entry that is there.\<close>

definition insert_storage :: "string \<Rightarrow> 'b storage \<Rightarrow> 'b web \<Rightarrow> 'b web" where
  "insert_storage u st w =
     w\<lparr>all_storages := (if map_has (all_storages w) u then all_storages w else map_insert u (Some st) (all_storages w))\<rparr>"

definition world_of :: "'b storage \<Rightarrow> 'b web \<Rightarrow> 'b web" where
  "world_of st w = w\<lparr>world := (case peer st of None \<Rightarrow> world w | Some b \<Rightarrow> b)\<rparr>"

text \<open>The session and the storage are made only when the account operation succeeds; the user's name is taken before.\<close>

definition enter ::
    "'b web_env \<Rightarrow> ('b backend \<Rightarrow> nat \<Rightarrow> string \<Rightarrow> string \<Rightarrow> 'b storage \<Rightarrow> (bool \<times> 'b storage) res) \<Rightarrow> string \<Rightarrow> 'b web \<Rightarrow>
     (bool \<times> 'b web) res" where
  "enter E account message w =
     and_then (parse_account message) (\<lambda>(u, password).
     let w1 = w\<lparr>username := u\<rparr>
     in and_then (new_Storage (files_env E) u (world w1)) (\<lambda>s.
        and_then (account (files_env E) (fuel E) u password s) (\<lambda>(ok, s1).
        let w2 = world_of s1 w1
        in Ok (ok, if ok then (insert_storage u s1 w2)\<lparr>sessions := map_insert u (asc_time E) (sessions w2)\<rparr> else w2))))"

definition handle_signin :: "'b web_env \<Rightarrow> response \<Rightarrow> (string, string) smap \<Rightarrow> string \<Rightarrow> 'b web \<Rightarrow> 'b handled" where
  "handle_signin E r cookies message w =
     (case is_logged_in cookies w of (known, w1) \<Rightarrow>
        and_then (if known then Ok (True, w1) else enter E sign_in message w1) (\<lambda>(ok, w2).
          if ok then user_page E r w2 ''./html/signin_successful.html'' []
          else plain_page E r w2 ''./html/signin_failed.html''))"

definition handle_signup :: "'b web_env \<Rightarrow> response \<Rightarrow> string \<Rightarrow> 'b web \<Rightarrow> 'b handled" where
  "handle_signup E r message w =
     and_then (enter E resgister message w) (\<lambda>(ok, w1).
       if ok then user_page E r w1 ''./html/signin_successful.html'' []
       else plain_page E r w1 ''./html/signup_failed.html'')"

text \<open>\<open>delete\<close> of a null pointer does nothing.\<close>

definition handle_logout :: "'b web_env \<Rightarrow> response \<Rightarrow> 'b web \<Rightarrow> 'b handled" where
  "handle_logout E r w =
     and_then (go_home E r (w\<lparr>sessions := map_erase (username w) (sessions w)\<rparr>)) (\<lambda>(s, w1).
       Ok (s, w1\<lparr>all_storages := map_erase (username w1) (all_storages w1)\<rparr>))"

section \<open>Files\<close>

definition files_page :: "'b web_env \<Rightarrow> response \<Rightarrow> 'b web \<Rightarrow> 'b handled" where
  "files_page E r w =
     and_then (refreshed E w) (\<lambda>(fs, w1).
     and_then (see_storage cur_path w1) (\<lambda>path.
       user_page E (set_status ''200'' r) w1 ''./html/files.html''
         [(''$list_files'', read_files fs), (''$path'', path_links (map fi_name path))]))"

text \<open>The download does not ask for a session: it takes the user of the last request that had one.\<close>

definition reply_file :: "'b web_env \<Rightarrow> response \<Rightarrow> string \<Rightarrow> 'b web \<Rightarrow> 'b handled" where
  "reply_file E r filename w =
     and_then (with_storage (download_file (files_env E) (fuel E) (username w) filename) w) (\<lambda>(content, w1).
       Ok (rs_version r @ '' '' @ rs_status r @ '' OK'' @ crlf @ ''Content-type: '' @ parse_type filename @ crlf @
           ''Content-Disposition: attachment;filename=\"'' @ filename @ ''\"'' @ crlf @ crlf @
           (case content of None \<Rightarrow> [] | Some c \<Rightarrow> c), w1))"

definition move_page :: "'b web_env \<Rightarrow> response \<Rightarrow> string \<Rightarrow> string \<Rightarrow> 'b web \<Rightarrow> 'b handled" where
  "move_page E r filename href w =
     and_then (see_storage (get_accessible_movingPath filename) w) (\<lambda>folders.
     and_then (replace_reply E (add_headers [html_type] (set_status ''200'' r)) ''./html/move.html''
         (to_map [(''$user'', username w), (''$folders'', parse_folder folders filename href)])) (\<lambda>s.
       Ok (s, w)))"

definition handle_move_file :: "'b web_env \<Rightarrow> response \<Rightarrow> bool \<Rightarrow> string \<Rightarrow> 'b web \<Rightarrow> 'b handled" where
  "handle_move_file E r isFile path w =
     and_then (parse_move isFile path) (\<lambda>(filename, folder).
     and_then (with_storage (move_file (files_env E) (fuel E) folder filename) w) (\<lambda>(_, w1).
       see_other E r w1 ''/files'' ''./html/files.html''))"

definition handle_back :: "'b web_env \<Rightarrow> response \<Rightarrow> string \<Rightarrow> 'b web \<Rightarrow> 'b handled" where
  "handle_back E r path w =
     and_then (parse_back path) (\<lambda>i.
     and_then (with_storage (goBack (files_env E) (fuel E) i) w) (\<lambda>(_, w1).
       see_other E r w1 ''/files'' ''./html/files.html''))"

definition handle_delete :: "'b web_env \<Rightarrow> response \<Rightarrow> string \<Rightarrow> 'b web \<Rightarrow> 'b handled" where
  "handle_delete E r path w =
     and_then (after_char Bad_index (CHR ''?'') path) (\<lambda>filename.
     and_then (current_folder w) (\<lambda>folder.
     and_then (with_storage (store_delete_file (files_env E) (fuel E) (username w) (fi_id folder) filename) w) (\<lambda>(_, w1).
       see_other E r w1 ''/files'' ''./html/files.html'')))"

definition handle_open_directory :: "'b web_env \<Rightarrow> response \<Rightarrow> string \<Rightarrow> 'b web \<Rightarrow> 'b handled" where
  "handle_open_directory E r path w =
     and_then (after_char Bad_index (CHR ''?'') path) (\<lambda>foldername.
     and_then (with_storage (open_folder (files_env E) (fuel E) (username w) foldername) w) (\<lambda>(_, w1).
       see_other E r w1 ''/files'' ''./html/files.html''))"

definition handle_rename :: "'b web_env \<Rightarrow> response \<Rightarrow> string \<Rightarrow> 'b web \<Rightarrow> 'b handled" where
  "handle_rename E r message w =
     and_then (parse_rename message) (\<lambda>(prename, newname).
     and_then (with_storage (File_Store.rename_file (files_env E) (fuel E) (username w) prename newname) w) (\<lambda>(ok, w1).
     and_then (if ok then and_then (refreshed E w1) (\<lambda>(_, w2). Ok w2) else Ok w1) (\<lambda>w2.
     and_then (replace_reply E (add_headers [html_type] (set_status (if ok then ''200'' else ''307'') r)) ''./html/files.html''
         (to_map [(''$user'', username w2)])) (\<lambda>s.
       Ok (s, w2)))))"

definition handle_create_newfolder :: "'b web_env \<Rightarrow> response \<Rightarrow> string \<Rightarrow> 'b web \<Rightarrow> 'b handled" where
  "handle_create_newfolder E r message w =
     and_then (parse_newfolder message) (\<lambda>foldername.
     and_then (current_folder w) (\<lambda>folder.
     and_then (with_storage (create_folder (files_env E) (fuel E) (new_id E) (new_time E) (username w) (fi_id folder) foldername) w)
       (\<lambda>(ok, w1).
     and_then (refreshed E w1) (\<lambda>(fs, w2).
       user_page E (set_status (if ok then ''200'' else ''307'') r) w2 ''./html/files.html''
         [(''$list_files'', read_files fs)]))))"

text \<open>The file is also kept on the web server, under the name the client has sent.\<close>

definition store_file :: "'b web_env \<Rightarrow> string \<Rightarrow> string \<Rightarrow> string \<Rightarrow> 'b web \<Rightarrow> 'b web res" where
  "store_file E dir filename content w =
     (let address = cstr (dir @ ''/'' @ filename)
      in if can_open E address then Ok (w\<lparr>disk := map_insert address content (disk w)\<rparr>) else Throw Null_deref)"

definition handle_upload :: "'b web_env \<Rightarrow> response \<Rightarrow> string \<Rightarrow> 'b web \<Rightarrow> 'b handled" where
  "handle_upload E r message w =
     and_then (find_filename message) (\<lambda>filename.
     and_then (find_file_content message) (\<lambda>content.
     and_then (store_file E ''./Test'' filename content w) (\<lambda>w1.
     and_then (current_folder w1) (\<lambda>folder.
     and_then (with_storage (upload_file (files_env E) (fuel E) (new_id E) (new_time E) (username w1) (fi_id folder) filename
         content (content_size content)) w1) (\<lambda>(_, w2).
     and_then (refreshed E w2) (\<lambda>(_, w3).
       see_other E r w3 ''/files'' ''./html/files.html''))))))"

section \<open>Mail\<close>

text \<open>The two mailboxes are read and kept; both reads of the cache below go to what was kept last.\<close>

definition email_page :: "'b web_env \<Rightarrow> response \<Rightarrow> 'b web \<Rightarrow> 'b handled" where
  "email_page E r w =
     and_then (recvfrom_backend (mail_env E) (username w) True (world w)) (\<lambda>(in_emails, b1).
     and_then (recvfrom_backend (mail_env E) (username w) False b1) (\<lambda>(out_emails, b2).
     let w1 = w\<lparr>inbox := map_insert (username w) in_emails (inbox w), outbox := map_insert (username w) out_emails (outbox w),
                world := b2\<rparr>
     in and_then (read_all_emails in_emails 0) (\<lambda>inbox_emails.
        and_then (read_all_emails out_emails 1) (\<lambda>sent_emails.
          user_page E r w1 ''./html/email.html''
            [(''$inbox'', inbox_emails), (''$sent'', sent_emails), (''$trash'', [])]))))"

definition email_at :: "int \<Rightarrow> string \<Rightarrow> (string, email list) smap \<Rightarrow> email res" where
  "email_at i u box =
     (case map_at box u of
        None \<Rightarrow> Throw Out_of_range
      | Some es \<Rightarrow> if 0 \<le> i \<and> nat i < length es then Ok (es ! nat i) else Throw Out_of_range)"

definition show_mail :: "'b web_env \<Rightarrow> response \<Rightarrow> bool \<Rightarrow> string \<Rightarrow> 'b web \<Rightarrow> 'b handled" where
  "show_mail E r incoming path w =
     and_then (parse_mailid path) (\<lambda>i.
     and_then (email_at i (username w) (if incoming then inbox w else outbox w)) (\<lambda>e.
     and_then (parse_header (em_header e)) (\<lambda>(sender, rcpt, title, time).
       user_page E r w ''./html/showemail.html''
         [(''$Action'', if incoming then ''From'' else ''To''), (''$sender'', if incoming then sender else rcpt),
          (''$time'', time), (''$Subject'', title), (''$content'', for_display (em_content e)),
          (''$command-list'', parse_command_list (if incoming then 0 else 1) (em_hash e) i)])))"

definition answer_mail :: "'b web_env \<Rightarrow> response \<Rightarrow> bool \<Rightarrow> string \<Rightarrow> 'b web \<Rightarrow> 'b handled" where
  "answer_mail E r is_reply path w =
     and_then (parse_mailid path) (\<lambda>i.
     and_then (email_at i (username w) (inbox w)) (\<lambda>e.
     and_then (parse_header (em_header e)) (\<lambda>(sender, rcpt, title, time).
       user_page E (set_status ''200'' r) w ''./html/new_email.html''
         [(''$email'', if is_reply then sender else []), (''$subject'', (if is_reply then ''Re: '' else ''Fwd: '') @ title),
          (''$content'', ''From: '' @ sender @ crlf @ ''To: '' @ rcpt @ crlf @ ''Date: '' @ time @ crlf @ em_content e)])))"

text \<open>Without a \<open>=\<close> the whole path is taken (\<open>npos + 1\<close> is 0); the question mark at the end is cut.\<close>

definition delete_mail :: "'b web_env \<Rightarrow> response \<Rightarrow> bool \<Rightarrow> string \<Rightarrow> 'b web \<Rightarrow> 'b handled" where
  "delete_mail E r incoming path w =
     and_then (substr path (szadd (find path ''='' 0) 1) npos) (\<lambda>hash0.
     and_then (pop_back hash0) (\<lambda>hash.
     and_then (update_backend (mail_env E) (fuel E) (username w) [hash] incoming (world w)) (\<lambda>b.
       see_other E r (w\<lparr>world := b\<rparr>) ''/email'' ''./html/email.html'')))"

text \<open>The result of sending is not looked at.\<close>

definition handle_send_email :: "'b web_env \<Rightarrow> response \<Rightarrow> string \<Rightarrow> 'b web \<Rightarrow> 'b handled" where
  "handle_send_email E r message w =
     and_then (parse_email message) (\<lambda>(recipient, content, subject).
       let sender = username w @ ''@localhost'';
           data = ''Subject: '' @ subject @ crlf @ content @ crlf;
           cmds = snd (sendto_smpt_server (smtp_sock E) (smtp_conn E) sender [recipient] data)
       in see_other E r (w\<lparr>world := smtp_write E cmds (world w)\<rparr>) ''/email'' ''./html/email.html'')"

section \<open>Servers\<close>

definition read_servers_from_file :: "'b web_env \<Rightarrow> 'b web \<Rightarrow> 'b web res" where
  "read_servers_from_file E w =
     (case servers_txt E of
        None \<Rightarrow> Ok w
      | Some text0 \<Rightarrow> and_then (parse_all_lines (getlines text0) 1 (web_servers w)) (\<lambda>(_, ss). Ok (w\<lparr>web_servers := ss\<rparr>)))"

definition check_state :: "'b web_env \<Rightarrow> 'b \<Rightarrow> web_server \<Rightarrow> web_server" where
  "check_state E b s = s\<lparr>w_running := server_up E b (w_address s, w_port s)\<rparr>"

text \<open>The servers of the file are added to those there are; every one is asked, then the master.\<close>

definition parse_server :: "'b web_env \<Rightarrow> 'b web \<Rightarrow> (string \<times> 'b web) res" where
  "parse_server E w =
     and_then (read_servers_from_file E w) (\<lambda>w1.
     let ss = map (check_state E (world w1)) (web_servers w1);
         rows = concat (map (\<lambda>(i, s). web_row i s) (enumerate 0 ss))
     in and_then (getState ''127.0.0.1:10000'' (''states'' @ crlf) (state_reply E (world w1))) (\<lambda>(_, answer).
        let infos = sc_parse_all_server answer
        in and_then (map_res (\<lambda>(i, info). backend_row i info) (enumerate 0 infos)) (\<lambda>brows.
             Ok (rows @ concat brows, w1\<lparr>web_servers := ss, server_info := infos\<rparr>))))"

definition admin_redirect :: "'b web_env \<Rightarrow> response \<Rightarrow> string \<Rightarrow> 'b web \<Rightarrow> 'b handled" where
  "admin_redirect E r location w =
     and_then (replace_reply E (add_headers [html_type, (''Location'', location)] (set_status ''307'' r)) ''./html/admin.html'' [])
       (\<lambda>s. Ok (s, w))"

definition admin_page :: "'b web_env \<Rightarrow> response \<Rightarrow> 'b web \<Rightarrow> 'b handled" where
  "admin_page E r w =
     and_then (parse_server E (w\<lparr>web_servers := [], server_info := []\<rparr>)) (\<lambda>(html, w1).
     and_then (replace_reply E (add_headers [html_type] (set_status ''200'' r)) ''./html/admin.html''
         (to_map [(''$servers'', html)])) (\<lambda>s. Ok (s, w1)))"

definition server_at :: "int \<Rightarrow> 'b web \<Rightarrow> web_server res" where
  "server_at i w = (if 0 \<le> i \<and> nat i < length (web_servers w) then Ok (web_servers w ! nat i) else Throw Out_of_range)"

text \<open>A command sent over a socket whose \<open>connect\<close> has failed: the process is killed by SIGPIPE.\<close>

definition tell_server :: "'b web_env \<Rightarrow> string \<times> int \<Rightarrow> string \<Rightarrow> 'b web \<Rightarrow> 'b web res" where
  "tell_server E addr msg w =
     (if server_up E (world w) addr then Ok (w\<lparr>world := tell E addr msg (world w)\<rparr>) else Throw Killed)"

definition handle_stop_server :: "'b web_env \<Rightarrow> response \<Rightarrow> string \<Rightarrow> 'b web \<Rightarrow> 'b handled" where
  "handle_stop_server E r path w =
     and_then (parse_index path) (\<lambda>i.
     and_then (server_at i w) (\<lambda>s.
     and_then (tell_server E (w_address s, w_port s) (''GET /kill HTTP/1.1'' @ crlf @ crlf) w) (\<lambda>w1.
     and_then (parse_server E (w1\<lparr>web_servers := []\<rparr>)) (\<lambda>(_, w2). admin_redirect E r ''/admin'' w2))))"

text \<open>A number that names no server ends the child process only.\<close>

definition handle_start_server :: "'b web_env \<Rightarrow> response \<Rightarrow> string \<Rightarrow> 'b web \<Rightarrow> 'b handled" where
  "handle_start_server E r path w =
     and_then (parse_index path) (\<lambda>i.
     let b = (case server_at i w of Ok s \<Rightarrow> launch E [''./frontend'', ''-v'', ''-p'', show_int (w_port s)] (world w) | _ \<Rightarrow> world w)
     in and_then (parse_server E (w\<lparr>world := b, web_servers := []\<rparr>)) (\<lambda>(_, w1).
        admin_redirect E r ''http://localhost:8080/admin'' w1))"

definition backend_at :: "int \<Rightarrow> 'b web \<Rightarrow> (string \<times> string \<times> string \<times> string) res" where
  "backend_at i w =
     (if 0 \<le> i \<and> nat i < length (server_info w) then
        and_then (parse_id (server_info w ! nat i)) (\<lambda>fs.
        and_then (field_at 0 fs) (\<lambda>node. and_then (field_at 1 fs) (\<lambda>rep.
        and_then (field_at 2 fs) (\<lambda>addr. and_then (split_address addr) (\<lambda>(ip, port). Ok (node, rep, ip, port))))))
      else Throw Bad_index)"

definition handle_stop_backend :: "'b web_env \<Rightarrow> response \<Rightarrow> string \<Rightarrow> 'b web \<Rightarrow> 'b handled" where
  "handle_stop_backend E r path w =
     and_then (parse_index path) (\<lambda>i.
     and_then (backend_at i w) (\<lambda>(node, rep, ip, port).
     and_then (tell_server E (ip, atoi port mod 65536) (''closeall'' @ crlf) w) (\<lambda>w1.
       admin_redirect E r ''/admin'' (w1\<lparr>web_servers := []\<rparr>))))"

definition handle_start_backend :: "'b web_env \<Rightarrow> response \<Rightarrow> string \<Rightarrow> 'b web \<Rightarrow> 'b handled" where
  "handle_start_backend E r path w =
     and_then (parse_index path) (\<lambda>i.
     and_then (backend_at i w) (\<lambda>(node, rep, ip, port).
     let b = launch E [''../kvstore/dataserver'', ''-r'', ''-p'', ''../kvstore/node/'' @ node @ ''/'' @ rep,
               ''../kvstore/serverlist.txt'', node, rep] (world w)
     in and_then (parse_server E (w\<lparr>world := b\<rparr>)) (\<lambda>(_, w1). admin_redirect E r ''http://localhost:8080/admin'' w1)))"

section \<open>Requests\<close>

definition path_is :: "string \<Rightarrow> string \<Rightarrow> bool" where
  "path_is path s \<longleftrightarrow> strcasecmp_eq path s"

definition path_begins :: "string \<Rightarrow> string \<Rightarrow> bool" where
  "path_begins path s \<longleftrightarrow> length s \<le> length path \<and> strcasecmp_eq (take (length s) path) s"

text \<open>A page for those who are logged in; the others are sent to the first page.\<close>

definition if_logged_in ::
    "(string, string) smap \<Rightarrow> ('b web \<Rightarrow> 'b handled) \<Rightarrow> ('b web \<Rightarrow> 'b handled) \<Rightarrow> 'b web \<Rightarrow> 'b handled" where
  "if_logged_in cookies yes no w = (case is_logged_in cookies w of (known, w1) \<Rightarrow> if known then yes w1 else no w1)"

definition handle_get :: "'b web_env \<Rightarrow> response \<Rightarrow> string \<Rightarrow> (string, string) smap \<Rightarrow> 'b web \<Rightarrow> 'b handled" where
  "handle_get E r path cookies w =
     (if path_is path ''/'' then
        if_logged_in cookies (\<lambda>w. user_page E (set_status ''200'' r) w ''./html/signin_successful.html'' [])
          (\<lambda>w. plain_page E (set_status ''200'' r) w ''./html/signin.html'') w
      else if path_is path ''/css/signin.css'' then
        and_then (reply_page E (set_status ''200'' (add_headers [(''Content-type'', ''text/css'')] r)) ''./html/css/signin.css'')
          (\<lambda>s. Ok (s, w))
      else if path_is path ''/newemail'' then
        if_logged_in cookies (\<lambda>w. user_page E (set_status ''200'' r) w ''./html/new_email.html''
          [(''$email'', []), (''$subject'', []), (''$content'', [])]) (go_home E r) w
      else if path_is path ''/files'' then if_logged_in cookies (files_page E r) (go_home E r) w
      else if path_is path ''/upload'' then
        if_logged_in cookies (\<lambda>w. user_page E (set_status ''200'' r) w ''./html/upload.html'' []) (go_home E r) w
      else if path_begins path ''/download?'' then reply_file E (set_status ''200'' r) (drop 10 path) w
      else if path_begins path ''/movefile'' then
        and_then (substr path 10 (szsub (length path) 10)) (\<lambda>filename. move_page E r filename ''/filemove'' w)
      else if path_begins path ''/movefolder'' then
        and_then (substr path 12 (szsub (length path) 12)) (\<lambda>filename. move_page E r filename ''/foldermove'' w)
      else if path_is path ''/logout'' then handle_logout E r w
      else if path_is path ''/signup'' then
        if_logged_in cookies (\<lambda>w. user_page E (set_status ''307'' (add_headers [(''Location'', ''/'')] r)) w
          ''./html/signin_successful.html'' []) (\<lambda>w. plain_page E r w ''./html/signup.html'') w
      else if path_begins path ''/filemove'' then handle_move_file E r True path w
      else if path_begins path ''/foldermove'' then handle_move_file E r False path w
      else if path_begins path ''/back'' then handle_back E r path w
      else if path_is path ''/admin'' then admin_page E r w
      else if path_begins path ''/stopserver'' then handle_stop_server E r path w
      else if path_is path ''/kill'' then Throw Killed
      else if path_begins path ''/startserver'' then handle_start_server E r path w
      else if path_begins path ''/delete'' then handle_delete E r path w
      else if path_begins path ''/opendir'' then handle_open_directory E r path w
      else if path_is path ''/email'' then if_logged_in cookies (email_page E r) (\<lambda>w. plain_page E r w ''./html/signin.html'') w
      else if path_begins path ''/showinbox'' then show_mail E r True path w
      else if path_begins path ''/showsent'' then show_mail E r False path w
      else if path_begins path ''/reply'' then answer_mail E r True path w
      else if path_begins path ''/forward'' then answer_mail E r False path w
      else if path_begins path ''/removeinbox'' then delete_mail E r True path w
      else if path_begins path ''/removeoutbox'' then delete_mail E r False path w
      else if path_begins path ''/stopbackend'' then handle_stop_backend E r path w
      else if path_begins path ''/startbackend'' then handle_start_backend E r path w
      else Ok ([], w))"

definition handle_post :: "'b web_env \<Rightarrow> response \<Rightarrow> string \<Rightarrow> string \<Rightarrow> (string, string) smap \<Rightarrow> 'b web \<Rightarrow> 'b handled" where
  "handle_post E r path message cookies w =
     (if path_is path ''/'' then handle_signin E r cookies message w
      else if path_is path ''/upload'' then handle_upload E r message w
      else if path_is path ''/newemail'' then handle_send_email E r message w
      else if path_is path ''/signup'' then handle_signup E r message w
      else if path_is path ''/createFolder'' then handle_create_newfolder E r message w
      else if path_is path ''/rename'' then handle_rename E r message w
      else Ok ([], w))"

text \<open>The constructor of the response; and, with the request reader, a whole connection.\<close>

definition respond_http :: "'b web_env \<Rightarrow> http_request \<Rightarrow> 'b web \<Rightarrow> 'b handled" where
  "respond_http E req w =
     and_then (decode_path (hr_path req)) (\<lambda>path.
     let r = \<lparr>rs_status = [], rs_version = take 8 (hr_version req), rs_header = []\<rparr>
     in if strcasecmp_eq (hr_method req) ''get'' then handle_get E r path (hr_cookies req) w
        else if strcasecmp_eq (hr_method req) ''post'' then
          handle_post E (set_status ''200'' r) path (hr_message req) (hr_cookies req) w
        else Ok ([], w))"

definition handle_connection :: "'b web_env \<Rightarrow> nat \<Rightarrow> string \<Rightarrow> rd list \<Rightarrow> 'b web \<Rightarrow> 'b handled" where
  "handle_connection E n junk es w = and_then (read_request n junk es) (\<lambda>req. respond_http E req w)"

end
