(* ===== verification/Web_Server_Props.thy ===== *)
theory Web_Server_Props
  imports Web_Server File_Service
begin

text \<open>
  The invariant of the web server: sessions and storages are those of the same users, every storage
  belongs to the user it is kept for, and every request keeps this. The rules follow the structure of
  the handlers.
\<close>

section \<open>A storage stays with its user\<close>

named_theorems user_frame

lemma server_recover_user [user_frame]: "server_recover E st = Ok st' \<Longrightarrow> userName st' = userName st"
  by (auto simp: server_recover_def split: option.splits)

lemma send_bytes_user [user_frame]: "send_bytes E m st = Ok st' \<Longrightarrow> userName st' = userName st"
  by (auto simp: send_bytes_def split: option.splits prod.splits)

lemma receive_reply_user [user_frame]: "receive_reply rd st = Ok (x, st') \<Longrightarrow> userName st' = userName st"
  by (auto simp: receive_reply_def)

lemma send_loop_user [user_frame]: "send_loop E rd msg n st = Ok (x, st') \<Longrightarrow> userName st' = userName st"
proof (induction n arbitrary: st x st')
  case (Suc n)
  obtain st1 where st1: "send_bytes E msg st = Ok st1" using Suc.prems by auto
  obtain r st2 where st2: "receive_reply rd st1 = Ok (r, st2)" using Suc.prems st1 by auto
  have u: "userName st2 = userName st" using send_bytes_user [OF st1] receive_reply_user [OF st2] by simp
  show ?case
  proof (cases "r = ''SERVER CRASH''")
    case True
    then obtain st3 y st4 where "server_recover E st2 = Ok st3" "send_loop E rd msg n st3 = Ok (y, st4)" "send_loop E rd msg n st4 = Ok (x, st')"
      using Suc.prems st1 st2 by auto
    then show ?thesis using u server_recover_user Suc.IH by metis
  next
    case False
    then show ?thesis using Suc.prems st1 st2 u by simp
  qed
qed simp

lemma send_command_user [user_frame]:
  "send_get_command E n i st = Ok (x, st') \<Longrightarrow> userName st' = userName st"
  "send_put_command E n i d st = Ok (x, st') \<Longrightarrow> userName st' = userName st"
  "send_cput_command E n i d d' st = Ok (x, st') \<Longrightarrow> userName st' = userName st"
  "send_delete_command E n i st = Ok (x, st') \<Longrightarrow> userName st' = userName st"
  unfolding send_get_command_def send_put_command_def send_cput_command_def send_delete_command_def by (erule send_loop_user)+

lemma cput_add_loop_user [user_frame]: "cput_add_loop E n i d f r st = Ok (x, st') \<Longrightarrow> userName st' = userName st"
proof (induction n arbitrary: r st)
  case 0
  then show ?case by (auto simp: cput_add_loop.simps [of E 0] split: if_splits)
next
  case (Suc n)
  then show ?case
    by (auto simp: cput_add_loop.simps [of E "Suc n"] dest!: send_command_user split: if_splits)
qed

lemma cput_delete_loop_user [user_frame]: "cput_delete_loop E n i d f r st = Ok (x, y, st') \<Longrightarrow> userName st' = userName st"
proof (induction n arbitrary: r f st)
  case 0
  then show ?case by (auto simp: cput_delete_loop.simps [of E 0] split: if_splits)
next
  case (Suc n)
  then show ?case
    by (auto simp: cput_delete_loop.simps [of E "Suc n"] dest!: send_command_user split: if_splits)
qed

lemma rename_loop_user [user_frame]: "rename_loop E n i f a b r st = Ok (x, st') \<Longrightarrow> userName st' = userName st"
proof (induction n arbitrary: r st)
  case 0
  then show ?case by (auto simp: rename_loop.simps [of E 0] split: if_splits)
next
  case (Suc n)
  then show ?case
    by (auto simp: rename_loop.simps [of E "Suc n"] dest!: send_command_user split: if_splits)
qed

lemma listing_user [user_frame]:
  "send_cput_command_add E n i a b f st = Ok (x, st') \<Longrightarrow> userName st' = userName st"
  "send_cput_command_delete E n i a b st = Ok (y, z, st') \<Longrightarrow> userName st' = userName st"
  by (auto simp: send_cput_command_add_def send_cput_command_delete_def dest!: user_frame split: if_splits)

lemma show_files_user [user_frame]: "show_files d st = Ok (x, st') \<Longrightarrow> userName st' = userName st"
  by (auto simp: show_files_def)

lemma open_folder_user [user_frame]: "open_folder E n u f st = Ok (x, st') \<Longrightarrow> userName st' = userName st"
  by (auto simp: open_folder_def Let_def dest!: user_frame split: if_splits)

lemma refresh_user [user_frame]:
  "refresh_upload E n st = Ok (x, st') \<Longrightarrow> userName st' = userName st"
  "goBack E n k st = Ok (x, st') \<Longrightarrow> userName st' = userName st"
proof -
  show r: "refresh_upload E n st = Ok (x, st') \<Longrightarrow> userName st' = userName st" for st
    by (auto simp: refresh_upload_def dest!: user_frame split: if_splits)
  show "goBack E n k st = Ok (x, st') \<Longrightarrow> userName st' = userName st"
    by (auto simp: goBack_def dest!: r split: if_splits)
qed

lemma account_user [user_frame]:
  "sign_in E n u p st = Ok (ok, st') \<Longrightarrow> userName st' = userName st"
  "resgister E n u p st = Ok (ok, st') \<Longrightarrow> userName st' = userName st"
  by (auto simp: sign_in_def resgister_def Let_def dest!: user_frame split: if_splits)

lemma upload_user [user_frame]: "upload_file E n i t u p f c s st = Ok (x, st') \<Longrightarrow> userName st' = userName st"
  by (auto simp: upload_file_def Let_def dest!: user_frame split: if_splits option.splits)

lemma download_user [user_frame]: "download_file E n u f st = Ok (x, st') \<Longrightarrow> userName st' = userName st"
  by (auto simp: download_file_def dest!: user_frame split: if_splits)

lemma create_folder_user [user_frame]: "create_folder E n i t u p f st = Ok (x, st') \<Longrightarrow> userName st' = userName st"
  by (auto simp: create_folder_def Let_def dest!: user_frame split: if_splits)

lemma delete_file_user [user_frame]: "store_delete_file E n u p f st = Ok (x, st') \<Longrightarrow> userName st' = userName st"
  by (auto simp: store_delete_file_def dest!: user_frame split: if_splits)

lemma rename_file_user [user_frame]: "File_Store.rename_file E n u a b st = Ok (x, st') \<Longrightarrow> userName st' = userName st"
  by (auto simp: File_Store.rename_file_def dest!: user_frame split: if_splits option.splits)

lemma recover_path_user [user_frame]: "recover_old_path E n i f st = Ok (x, st') \<Longrightarrow> userName st' = userName st"
  by (auto simp: recover_old_path_def Let_def dest!: user_frame split: if_splits)

lemma move_file_user [user_frame]: "File_Store.move_file E n a b st = Ok (x, st') \<Longrightarrow> userName st' = userName st"
proof -
  let ?P = "\<lambda>(x, s). userName s = userName st"
  have get: "userName s = userName st \<Longrightarrow> on_Ok ?P (send_get_command E n i s)" for i s
    by (auto simp: on_Ok_def dest!: user_frame)
  have del: "userName s = userName st \<Longrightarrow> on_Ok (\<lambda>(d, r, s'). userName s' = userName st) (send_cput_command_delete E n i c f s)" for i c f s
    by (auto simp: on_Ok_def dest!: user_frame)
  have add: "userName s = userName st \<Longrightarrow> on_Ok ?P (send_cput_command_add E n i c d f s)" for i c d f s
    by (auto simp: on_Ok_def dest!: user_frame)
  have rec: "userName s = userName st \<Longrightarrow> on_Ok ?P (recover_old_path E n i f s)" for i f s
    by (auto simp: on_Ok_def dest!: user_frame)
  have ref: "userName s = userName st \<Longrightarrow> on_Ok ?P (refresh_upload E n s)" for s
    by (auto simp: on_Ok_def dest!: user_frame)
  have "on_Ok ?P (File_Store.move_file E n a b st)"
    unfolding File_Store.move_file_def Let_def
    by (rule on_Ok_bind3 on_Ok_bind2 on_Ok_bind on_Ok_if get del add rec ref on_Ok_any | simp (no_asm_simp) only: prod.case on_Ok_simps | assumption)+ 
  then show "File_Store.move_file E n a b st = Ok (x, st') \<Longrightarrow> userName st' = userName st"
    by (simp add: on_Ok_def)
qed

section \<open>The invariant of the web server\<close>

definition web_ok :: "'b web \<Rightarrow> bool" where
  "web_ok w \<longleftrightarrow> map_ok (sessions w) \<and> map_ok (all_storages w) \<and>
     (\<forall>u. map_has (sessions w) u \<longleftrightarrow> map_has (all_storages w) u) \<and>
     (\<forall>u s. map_at (all_storages w) u = Some s \<longrightarrow> (\<exists>st. s = Some st \<and> userName st = u))"

abbreviation keeps_ok :: "('a \<times> 'b web) res \<Rightarrow> bool" where
  "keeps_ok \<equiv> on_Ok (\<lambda>(x, w). web_ok w)"

named_theorems web_safe

lemma web_ok_fields [simp]:
  "web_ok (w\<lparr>username := u\<rparr>) = web_ok w" "web_ok (w\<lparr>inbox := m\<rparr>) = web_ok w" "web_ok (w\<lparr>outbox := m\<rparr>) = web_ok w"
  "web_ok (w\<lparr>web_servers := l\<rparr>) = web_ok w" "web_ok (w\<lparr>server_info := i\<rparr>) = web_ok w" "web_ok (w\<lparr>disk := d\<rparr>) = web_ok w"
  "web_ok (w\<lparr>world := b\<rparr>) = web_ok w"
  by (simp_all add: web_ok_def)

lemma with_storage_Ok:
  assumes "with_storage f w = Ok (x, w')"
  shows "\<exists>st st'. map_at (all_storages w) (username w) = Some (Some st) \<and>
    f (st\<lparr>peer := map_option (\<lambda>_. world w) (peer st)\<rparr>) = Ok (x, st') \<and>
    w' = w\<lparr>all_storages := map_insert (username w) (Some st') (all_storages w),
      world := (case peer st' of None \<Rightarrow> world w | Some b \<Rightarrow> b)\<rparr>"
proof (cases "map_at (all_storages w) (username w)")
  case None
  then show ?thesis using assms by (simp add: with_storage_def)
next
  case (Some so)
  then show ?thesis using assms by (cases so) (auto simp: with_storage_def)
qed

lemma with_storage_safe [web_safe]:
  assumes "\<And>st x st'. f st = Ok (x, st') \<Longrightarrow> userName st' = userName st" "web_ok w"
  shows "keeps_ok (with_storage f w)"
proof -
  have "web_ok w'" if r: "with_storage f w = Ok (x, w')" for x w'
  proof -
    obtain st st' where st: "map_at (all_storages w) (username w) = Some (Some st)"
      "f (st\<lparr>peer := map_option (\<lambda>_. world w) (peer st)\<rparr>) = Ok (x, st')"
      "w' = w\<lparr>all_storages := map_insert (username w) (Some st') (all_storages w),
         world := (case peer st' of None \<Rightarrow> world w | Some b \<Rightarrow> b)\<rparr>"
      using with_storage_Ok [OF r] by blast
    have "userName st' = userName st" using assms(1) [OF st(2)] by simp
    moreover have "userName st = username w" using assms(2) st(1) by (auto simp: web_ok_def)
    ultimately show ?thesis
      using assms(2) st(1) by (auto simp: web_ok_def st(3) map_has_def map_ok_insert)
  qed
  then show ?thesis by (auto simp: on_Ok_def)
qed

lemma page_safe [web_safe]:
  "web_ok w \<Longrightarrow> keeps_ok (user_page E r w a kvs)" "web_ok w \<Longrightarrow> keeps_ok (plain_page E r w a)"
  "web_ok w \<Longrightarrow> keeps_ok (go_home E r w)" "web_ok w \<Longrightarrow> keeps_ok (see_other E r w l a)"
  "web_ok w \<Longrightarrow> keeps_ok (admin_redirect E r l w)" "web_ok w \<Longrightarrow> keeps_ok (move_page E r f h w)"
  by (auto simp: on_Ok_def user_page_def plain_page_def go_home_def see_other_def admin_redirect_def move_page_def)

lemma logged_in_safe: "web_ok w \<Longrightarrow> web_ok (snd (is_logged_in cookies w))"
  by (simp add: is_logged_in_def split: option.split)

lemma refreshed_safe [web_safe]: "web_ok w \<Longrightarrow> keeps_ok (refreshed E w)"
  unfolding refreshed_def
  by (rule on_Ok_bind2 [OF with_storage_safe]) (auto dest: refresh_user split: option.split)

lemma new_Storage_user: "new_Storage E u b = Ok s \<Longrightarrow> userName s = u"
  by (auto simp: new_Storage_def)

lemma enter_safe [web_safe]:
  assumes "\<And>E n u p st x st'. account E n u p st = Ok (x, st') \<Longrightarrow> userName st' = userName st" "web_ok w"
  shows "keeps_ok (enter E account message w)"
proof -
  have "web_ok w'" if e: "enter E account message w = Ok (ok, w')" for ok w'
  proof -
    obtain u p s s1 where s: "new_Storage (files_env E) u (world w) = Ok s" "account (files_env E) (fuel E) u p s = Ok (ok, s1)"
      "w' = (let w2 = world_of s1 (w\<lparr>username := u\<rparr>)
             in if ok then (insert_storage u s1 w2)\<lparr>sessions := map_insert u (asc_time E) (sessions w2)\<rparr> else w2)"
      using e by (auto simp: enter_def Let_def)
    have "userName s1 = u" using assms(1) [OF s(2)] new_Storage_user [OF s(1)] by simp
    then show ?thesis
      using assms(2) by (auto simp: s(3) Let_def world_of_def insert_storage_def web_ok_def map_has_def map_ok_insert)
  qed
  then show ?thesis by (auto simp: on_Ok_def)
qed

lemma signin_safe [web_safe]: "web_ok w \<Longrightarrow> keeps_ok (handle_signin E r cookies m w)"
  unfolding handle_signin_def
  by (cases "is_logged_in cookies w")
     (auto intro!: on_Ok_bind2 [where Q = "\<lambda>_ w. web_ok w"] page_safe enter_safe dest: account_user dest!: logged_in_safe [of w cookies])

lemma signup_safe [web_safe]: "web_ok w \<Longrightarrow> keeps_ok (handle_signup E r m w)"
  unfolding handle_signup_def
  by (auto intro!: on_Ok_bind2 [where Q = "\<lambda>_ w. web_ok w"] page_safe enter_safe dest: account_user)

lemma logout_safe [web_safe]: "web_ok w \<Longrightarrow> keeps_ok (handle_logout E r w)"
  by (auto simp: handle_logout_def on_Ok_def go_home_def plain_page_def web_ok_def map_has_def map_at_erase map_ok_erase)

text \<open>The rules below follow the structure of the handlers; what an operation on a storage keeps is \<open>user_frame\<close>.\<close>

lemma with_op_safe [web_safe]:
  assumes "web_ok w"
  shows "keeps_ok (with_storage (download_file E n u f) w)" "keeps_ok (with_storage (File_Store.move_file E n a b) w)"
    "keeps_ok (with_storage (goBack E n k) w)" "keeps_ok (with_storage (store_delete_file E n u p f) w)"
    "keeps_ok (with_storage (open_folder E n u f) w)" "keeps_ok (with_storage (File_Store.rename_file E n u a b) w)"
    "keeps_ok (with_storage (create_folder E n i t u p f) w)" "keeps_ok (with_storage (upload_file E n i t u p f c s) w)"
  using assms by (auto intro!: with_storage_safe dest: user_frame)

lemma safe_bind: "keeps_ok m \<Longrightarrow> (\<And>x w. web_ok w \<Longrightarrow> on_Ok P (f x w)) \<Longrightarrow> on_Ok P (and_then m (\<lambda>(x, w). f x w))"
  by (rule on_Ok_bind2)

lemma keep_bind: "on_Ok web_ok m \<Longrightarrow> (\<And>w. web_ok w \<Longrightarrow> on_Ok P (f w)) \<Longrightarrow> on_Ok P (and_then m f)"
  by (rule on_Ok_bind)

lemma pure_bind: "(\<And>x. on_Ok P (f x)) \<Longrightarrow> on_Ok P (and_then m f)"
  by (rule on_Ok_bind [OF on_Ok_any])

lemma on_Ok_pair: "(\<And>a b. on_Ok P (f a b)) \<Longrightarrow> on_Ok P (case_prod f x)"
  by (cases x) simp

lemmas walk_rules = safe_bind keep_bind pure_bind on_Ok_pair on_Ok_if

lemma file_handlers_safe [web_safe]:
  assumes "web_ok w"
  shows "keeps_ok (files_page E r w)" "keeps_ok (reply_file E r f w)" "keeps_ok (handle_move_file E r b p w)" "keeps_ok (handle_back E r p w)"
    "keeps_ok (handle_delete E r p w)" "keeps_ok (handle_open_directory E r p w)"
    "keeps_ok (handle_create_newfolder E r m w)"
  unfolding files_page_def reply_file_def handle_move_file_def handle_back_def handle_delete_def handle_open_directory_def
    handle_create_newfolder_def
  by (rule web_safe walk_rules assms | assumption | simp only: on_Ok_simps prod.case)+

lemma rename_safe [web_safe]:
  assumes "web_ok w"
  shows "keeps_ok (handle_rename E r m w)"
proof -
  have step: "on_Ok web_ok (if ok then and_then (refreshed E w1) (\<lambda>(_, w2). Ok w2) else Ok w1)" if "web_ok w1" for ok w1
    by (rule web_safe walk_rules that | assumption | simp only: on_Ok_simps)+
  show ?thesis
    unfolding handle_rename_def
    by (rule step web_safe walk_rules assms | assumption | simp only: on_Ok_simps prod.case)+
qed

lemma store_file_safe: "web_ok w \<Longrightarrow> on_Ok web_ok (store_file E d f c w)"
  by (simp add: store_file_def Let_def)

lemma upload_safe [web_safe]: "web_ok w \<Longrightarrow> keeps_ok (handle_upload E r m w)"
  unfolding handle_upload_def
  by (rule store_file_safe web_safe walk_rules | assumption)+

lemma mail_handlers_safe [web_safe]:
  assumes "web_ok w"
  shows "keeps_ok (email_page E r w)" "keeps_ok (show_mail E r b p w)" "keeps_ok (answer_mail E r b p w)" "keeps_ok (delete_mail E r b p w)"
    "keeps_ok (handle_send_email E r m w)"
  unfolding email_page_def show_mail_def answer_mail_def delete_mail_def handle_send_email_def Let_def
  by (rule page_safe pure_bind on_Ok_pair | simp only: web_ok_fields assms)+

lemma parse_server_safe [web_safe]: "web_ok w \<Longrightarrow> keeps_ok (parse_server E w)"
  unfolding parse_server_def read_servers_from_file_def Let_def on_Ok_def
  by (auto split: option.splits)

lemma tell_safe: "web_ok w \<Longrightarrow> on_Ok web_ok (tell_server E a m w)"
  by (simp add: tell_server_def)

lemma admin_handlers_safe [web_safe]:
  assumes "web_ok w"
  shows "keeps_ok (admin_page E r w)" "keeps_ok (handle_stop_server E r p w)" "keeps_ok (handle_start_server E r p w)"
    "keeps_ok (handle_stop_backend E r p w)" "keeps_ok (handle_start_backend E r p w)"
  unfolding admin_page_def handle_stop_server_def handle_start_server_def handle_stop_backend_def handle_start_backend_def Let_def
  by (rule tell_safe web_safe walk_rules assms | assumption | simp only: web_ok_fields on_Ok_simps prod.case)+

lemma if_logged_in_safe:
  assumes "web_ok w" "\<And>w. web_ok w \<Longrightarrow> keeps_ok (yes w)" "\<And>w. web_ok w \<Longrightarrow> keeps_ok (no w)"
  shows "keeps_ok (if_logged_in cookies yes no w)"
  using assms logged_in_safe [OF assms(1), of cookies] by (auto simp: if_logged_in_def split: prod.split)

lemma handle_get_safe:
  assumes "web_ok w"
  shows "keeps_ok (handle_get E r path cookies w)"
  unfolding handle_get_def
  by (rule if_logged_in_safe web_safe on_Ok_if pure_bind assms | assumption | simp only: on_Ok_simps prod.case)+

lemma handle_post_safe:
  assumes "web_ok w"
  shows "keeps_ok (handle_post E r path m cookies w)"
  unfolding handle_post_def
  by (rule web_safe on_Ok_if assms | simp only: on_Ok_simps prod.case)+

lemma respond_safe: "web_ok w \<Longrightarrow> keeps_ok (respond_http E req w)"
  unfolding respond_http_def Let_def
  by (rule pure_bind) (auto intro: handle_get_safe handle_post_safe)

end
