(* ===== verification/Web_Text_Props.thy ===== *)
theory Web_Text_Props
  imports Web_Page Smtp_Server
begin

text \<open>
  What the text functions of the web server promise: the templates are filled as a reference says, in any
  order of the entries; encoded paths and forms are decoded; uploaded files, mail headers and the numbers
  in paths are read back, within the limits stated.
\<close>

section \<open>Templates\<close>

text \<open>The reference: the text between the occurrences is kept, what is put in is not searched again.\<close>

function replaced :: "string \<Rightarrow> string \<Rightarrow> string \<Rightarrow> string" where
  "replaced t r s =
     (if t = [] then s
      else case sfind t s of None \<Rightarrow> s | Some i \<Rightarrow> take i s @ r @ replaced t r (drop (i + length t) s))"
  by pat_completeness auto
termination
  by (relation "measure (\<lambda>(t, r, s). length s)") (auto dest!: sfind_length simp del: length_greater_0_conv simp: length_greater_0_conv [symmetric])

declare replaced.simps [simp del]

lemma replaced_None: "sfind t s = None \<Longrightarrow> replaced t r s = s"
  by (subst replaced.simps) simp

lemma replaced_Some: "sfind t s = Some i \<Longrightarrow> t \<noteq> [] \<Longrightarrow> replaced t r s = take i s @ r @ replaced t r (drop (i + length t) s)"
  by (subst replaced.simps) simp

lemma length_replaced: "length t \<le> length r \<Longrightarrow> length s \<le> length (replaced t r s)"
proof (induction t r s rule: replaced.induct)
  case (1 t r s)
  show ?case
  proof (cases "t = [] \<or> sfind t s = None")
    case True
    then show ?thesis using replaced_None by (auto simp: replaced.simps)
  next
    case False
    then obtain i where i: "t \<noteq> []" "sfind t s = Some i" by auto
    have "length (drop (i + length t) s) \<le> length (replaced t r (drop (i + length t) s))" by (rule "1.IH" [OF i 1(2)])
    then show ?thesis using sfind_length [OF i(2)] 1(2) by (simp add: replaced_Some [OF i(2,1)])
  qed
qed

lemma replace_loop_replaced:
  "t \<noteq> [] \<Longrightarrow> length (p @ s) < npos \<Longrightarrow> length (p @ replaced t r s) < npos \<Longrightarrow>
     replace_loop (p @ s) t r (length p) = Ok (p @ replaced t r s)"
proof (induction t r s arbitrary: p rule: replaced.induct)
  case (1 t r s)
  show ?case
  proof (cases "sfind t s")
    case None
    then show ?thesis using 1(2) by (subst replace_loop.simps) (simp add: find_def replaced_None)
  next
    case (Some i)
    let ?q = "p @ take i s @ r" and ?s = "drop (i + length t) s"
    have len: "i + length t \<le> length s" using sfind_length [OF Some] .
    have e: "p @ replaced t r s = ?q @ replaced t r ?s" by (simp add: replaced_Some [OF Some 1(2)])
    have small: "length (?q @ ?s) < npos"
    proof (cases "length t \<le> length r")
      case True
      then show ?thesis using length_replaced [OF True, of ?s] 1(4) unfolding e by simp
    next
      case False
      then show ?thesis using 1(3) len by simp
    qed
    have "replace_loop (?q @ ?s) t r (length ?q) = Ok (?q @ replaced t r ?s)"
      by (rule "1.IH" [OF 1(2) Some 1(2) small]) (use 1(4) e in simp)
    moreover have "find (p @ s) t (length p) = length p + i" using Some by (simp add: find_def)
    moreover have "length p + i \<noteq> npos" using 1(3) len by simp
    ultimately show ?thesis using 1(2) len e by (subst replace_loop.simps) (simp add: add.assoc)
  qed
qed

text \<open>
  Replacing in place, with a moving position, gives the same text as the reference, which keeps the
  text between the occurrences and never looks at what it has put in.
\<close>

theorem replace_reference:
  assumes "t \<noteq> []" "length s < npos" "length (replaced t r s) < npos"
  shows "str_replace s t r = Ok (replaced t r s)"
  using replace_loop_replaced [of t "[]" s r] assms by (simp add: str_replace_def)

theorem replace_reference_witness:
  "str_replace ''a$ub$u'' ''$u'' ''x$u'' = Ok ''ax$ubx$u''"
proof -
  have "replaced ''$u'' ''x$u'' ''a$ub$u'' = ''ax$ubx$u''" by (simp add: replaced.simps)
  then show ?thesis using replace_reference [of "''$u''" "''a$ub$u''" "''x$u''"] by (simp add: npos_def)
qed

text \<open>A template line: plain text and the names of placeholders.\<close>

datatype segment = Plain string | Hole string

fun seg_text :: "segment \<Rightarrow> string" where
  "seg_text (Plain t) = t"
| "seg_text (Hole k) = k"

definition line_text :: "segment list \<Rightarrow> string" where
  "line_text segs = concat (map seg_text segs)"

lemma line_text_simps [simp]: "line_text [] = []" "line_text (g # segs) = seg_text g @ line_text segs"
  by (simp_all add: line_text_def)

fun fill_seg :: "(string \<times> string) list \<Rightarrow> segment \<Rightarrow> segment" where
  "fill_seg es (Plain t) = Plain t"
| "fill_seg es (Hole k) = (case map_of es k of None \<Rightarrow> Hole k | Some v \<Rightarrow> Plain v)"

definition hole_name :: "string \<Rightarrow> bool" where
  "hole_name k \<longleftrightarrow> (\<exists>k'. k = CHR ''$'' # k' \<and> CHR ''$'' \<notin> set k')"

fun seg_ok :: "string set \<Rightarrow> segment \<Rightarrow> bool" where
  "seg_ok K (Plain t) \<longleftrightarrow> CHR ''$'' \<notin> set t"
| "seg_ok K (Hole k) \<longleftrightarrow> k \<in> K"

text \<open>No placeholder is the beginning of another.\<close>

definition names_ok :: "string set \<Rightarrow> bool" where
  "names_ok K \<longleftrightarrow> (\<forall>k \<in> K. hole_name k) \<and> (\<forall>k \<in> K. \<forall>l \<in> K. prefix k l \<longrightarrow> k = l)"

lemma replaced_skip: "CHR ''$'' \<notin> set t \<Longrightarrow> replaced (CHR ''$'' # k) r (t @ s) = t @ replaced (CHR ''$'' # k) r s"
proof (cases "sfind (CHR ''$'' # k) s")
  case (Some i)
  assume "CHR ''$'' \<notin> set t"
  then have "sfind (CHR ''$'' # k) (t @ s) = Some (length t + i)" using Some by (simp add: sfind_skip)
  then show ?thesis using Some by (simp add: replaced_Some)
qed (simp add: sfind_skip replaced_None)

lemma replaced_hole:
  assumes "hole_name k" "hole_name l" "\<not> prefix k l" "\<not> prefix l k"
  shows "replaced k r (l @ s) = l @ replaced k r s"
proof -
  obtain k' l' where k: "k = CHR ''$'' # k'" and l: "l = CHR ''$'' # l'" "CHR ''$'' \<notin> set l'"
    using assms(1,2) by (auto simp: hole_name_def)
  have n: "\<not> prefix k (l @ s)" using assms(3,4) by (metis prefix_append prefixI prefix_same_cases)
  show ?thesis
  proof (cases "sfind k (l' @ s)")
    case None
    then have "sfind k (l @ s) = None" "sfind k s = None" using n l(2) by (auto simp: l(1) k sfind_skip)
    then show ?thesis by (simp add: replaced_None)
  next
    case (Some i)
    then have a: "sfind k (l @ s) = Some (Suc i)" using n by (simp add: l(1))
    have "replaced k r (l' @ s) = l' @ replaced k r s" unfolding k by (rule replaced_skip [OF l(2)])
    moreover have "k \<noteq> []" using k by simp
    ultimately show ?thesis using a Some by (simp add: replaced_Some l(1))
  qed
qed

lemma replaced_line:
  assumes "names_ok K" "k \<in> K" "\<forall>g \<in> set segs. seg_ok K g"
  shows "replaced k v (line_text segs) = line_text (map (fill_seg [(k, v)]) segs)"
  using assms(3)
proof (induction segs)
  case Nil
  have "k \<noteq> []" using assms(1,2) by (auto simp: names_ok_def hole_name_def)
  then show ?case by (simp add: replaced_None)
next
  case (Cons g segs)
  have IH: "replaced k v (line_text segs) = line_text (map (fill_seg [(k, v)]) segs)" using Cons by simp
  obtain k' where k: "k = CHR ''$'' # k'" using assms(1,2) by (auto simp: names_ok_def hole_name_def)
  show ?case
  proof (cases g)
    case (Plain t)
    then show ?thesis using Cons.prems IH replaced_skip [of t k' v "line_text segs"] by (simp add: k)
  next
    case (Hole l)
    show ?thesis
    proof (cases "l = k")
      case True
      have "sfind k (k @ line_text segs) = Some 0" "k \<noteq> []" using k by simp_all
      then show ?thesis using Hole True IH by (simp add: replaced_Some)
    next
      case False
      have "l \<in> K" using Cons.prems Hole by simp
      then have "hole_name k" "hole_name l" "\<not> prefix k l" "\<not> prefix l k"
        using assms(1,2) False by (auto simp: names_ok_def)
      then show ?thesis using Hole False IH replaced_hole [of k l v "line_text segs"] by simp
    qed
  qed
qed

definition seg_room :: "(string \<times> string) list \<Rightarrow> segment \<Rightarrow> nat" where
  "seg_room es g = max (length (seg_text g)) (length (seg_text (fill_seg es g)))"

definition line_room :: "(string \<times> string) list \<Rightarrow> segment list \<Rightarrow> nat" where
  "line_room es segs = sum_list (map (seg_room es) segs)"

lemma line_room_covers: "length (line_text segs) \<le> line_room es segs" "length (line_text (map (fill_seg es) segs)) \<le> line_room es segs"
  by (induction segs) (auto simp: line_room_def seg_room_def)

lemma fill_seg_step: "fill_seg es (fill_seg [(k, v)] g) = fill_seg ((k, v) # es) g"
  by (cases g) auto

lemma line_room_step: "line_room es (map (fill_seg [(k, v)]) segs) \<le> line_room ((k, v) # es) segs"
proof -
  have "seg_room es (fill_seg [(k, v)] g) \<le> seg_room ((k, v) # es) g" for g
    by (cases g) (simp_all add: seg_room_def fill_seg_step)
  then show ?thesis by (induction segs) (auto simp: line_room_def intro: add_mono)
qed

lemma line_room_one: "line_room [(k, v)] segs \<le> line_room ((k, v) # es) segs"
proof -
  have "seg_room [(k, v)] g \<le> seg_room ((k, v) # es) g" for g
    by (cases g) (simp_all add: seg_room_def)
  then show ?thesis by (induction segs) (auto simp: line_room_def intro: add_mono)
qed

lemma seg_ok_fill:
  assumes "seg_ok K g" "\<forall>(k, v) \<in> set es. CHR ''$'' \<notin> set v"
  shows "seg_ok K (fill_seg es g)"
  using assms by (cases g) (auto split: option.split dest!: map_of_SomeD)

lemma replace_line_fills:
  assumes "names_ok K" "\<forall>(k, v) \<in> set es. k \<in> K \<and> CHR ''$'' \<notin> set v" "\<forall>g \<in> set segs. seg_ok K g" "line_room es segs < npos"
  shows "replace_line es (line_text segs) = Ok (line_text (map (fill_seg es) segs))"
  using assms(2-4)
proof (induction es arbitrary: segs)
  case Nil
  have "fill_seg [] g = g" for g by (cases g) simp_all
  then show ?case by (simp add: map_idI)
next
  case (Cons e es)
  obtain k v where e: "e = (k, v)" by (cases e)
  let ?segs = "map (fill_seg [(k, v)]) segs"
  have k: "k \<in> K" "CHR ''$'' \<notin> set v" using Cons.prems(1) e by auto
  then have "k \<noteq> []" using assms(1) by (auto simp: names_ok_def hole_name_def)
  moreover have r: "replaced k v (line_text segs) = line_text ?segs" by (rule replaced_line [OF assms(1) k(1) Cons.prems(2)])
  moreover have "length (line_text segs) < npos" "length (line_text ?segs) < npos"
    using line_room_covers [where segs = segs and es = "[(k, v)]"] line_room_one [of k v segs es] Cons.prems(3) unfolding e by linarith+
  ultimately have "str_replace (line_text segs) k v = Ok (line_text ?segs)"
    using replace_loop_replaced [of k "[]" "line_text segs" v] by (simp add: str_replace_def)
  moreover have "replace_line es (line_text ?segs) = Ok (line_text (map (fill_seg es) ?segs))"
  proof (rule Cons.IH)
    show "\<forall>g \<in> set ?segs. seg_ok K g" using Cons.prems(2) seg_ok_fill [of K _ "[(k, v)]"] k(2) by auto
    show "line_room es ?segs < npos" using line_room_step [of es k v segs] Cons.prems(3) unfolding e by linarith
  qed (use Cons.prems(1) in auto)
  ultimately show ?case by (simp add: e fill_seg_step comp_def)
qed

lemma fill_seg_cong: "map_of es = map_of es' \<Longrightarrow> fill_seg es = fill_seg es'"
proof (rule ext)
  fix g
  assume "map_of es = map_of es'"
  then show "fill_seg es g = fill_seg es' g" by (cases g) simp_all
qed

lemma map_of_perm: "distinct (map fst es) \<Longrightarrow> mset es' = mset es \<Longrightarrow> map_of es' = map_of es"
proof (rule map_of_inject_set [THEN iffD2])
  assume "distinct (map fst es)" "mset es' = mset es"
  then show "distinct (map fst es')" by (metis mset_eq_imp_distinct_iff mset_map)
qed (auto dest: mset_eq_setD)

text \<open>
  A template line is filled as intended, in whatever order the hash table is walked: every placeholder
  becomes its value and the rest is kept, provided no placeholder is the beginning of another and no
  value has a dollar sign.
\<close>

theorem page_filled:
  assumes "names_ok K" "\<forall>(k, v) \<in> set es. k \<in> K \<and> CHR ''$'' \<notin> set v" "\<forall>g \<in> set segs. seg_ok K g"
    and "line_room es segs < npos" "distinct (map fst es)" "mset es' = mset es"
  shows "replace_line es' (line_text segs) = Ok (line_text (map (fill_seg es) segs))"
proof -
  have f: "fill_seg es' = fill_seg es" by (rule fill_seg_cong [OF map_of_perm [OF assms(5,6)]])
  have "seg_room es' = seg_room es" by (rule ext) (simp add: seg_room_def f)
  then have "line_room es' segs < npos" using assms(4) by (simp add: line_room_def)
  moreover have "\<forall>(k, v) \<in> set es'. k \<in> K \<and> CHR ''$'' \<notin> set v" using assms(2) mset_eq_setD [OF assms(6)] by simp
  ultimately show ?thesis using replace_line_fills [OF assms(1) _ assms(3)] f by simp
qed

theorem page_filled_witness:
  "replace_line [(''$user'', ''al''), (''$subject'', ''hi'')] ''<b>$subject</b> $user'' = Ok ''<b>hi</b> al'' \<and>
   replace_line [(''$subject'', ''hi''), (''$user'', ''al'')] ''<b>$subject</b> $user'' = Ok ''<b>hi</b> al''"
proof -
  let ?K = "{''$user'', ''$subject''}" and ?es = "[(''$user'', ''al''), (''$subject'', ''hi'')]"
  let ?segs = "[Plain ''<b>'', Hole ''$subject'', Plain ''</b> '', Hole ''$user'']"
  have K: "names_ok ?K" by (auto simp: names_ok_def hole_name_def)
  show ?thesis
    using page_filled [OF K, of ?es ?segs ?es] page_filled [OF K, of ?es ?segs "rev ?es"]
    by (simp add: line_room_def seg_room_def npos_def)
qed

text \<open>
  C3. A value that contains another placeholder is filled in again or not, depending on the order in
  which the hash table is walked: a mail with the subject \<open>$content\<close> shows its own text as the subject.
\<close>

theorem page_injection:
  assumes "names_ok {k, l}" "k \<noteq> l" "CHR ''$'' \<notin> set c" "length k < npos" "length l < npos" "length c < npos"
  shows "replace_line [(k, l), (l, c)] k = Ok c \<and> replace_line [(l, c), (k, l)] k = Ok l"
proof -
  have h: "hole_name k" "hole_name l" "\<not> prefix k l" "\<not> prefix l k" "k \<noteq> []" "l \<noteq> []"
    using assms(1,2) by (auto simp: names_ok_def hole_name_def)
  have self: "replaced t r t = r" if "t \<noteq> []" for t r
    using that by (subst replaced_Some [of _ _ 0]) (auto simp: replaced_None)
  have other: "replaced l c k = k"
    using replaced_hole [OF h(2,1,4,3), of c "[]"] h(6) by (simp add: replaced_None)
  have step: "str_replace k k l = Ok l" "str_replace l l c = Ok c" "str_replace k l c = Ok k"
    using replace_loop_replaced [of k "[]" k l] replace_loop_replaced [of l "[]" l c] replace_loop_replaced [of l "[]" k c]
      h(5,6) self other assms(4-6) by (simp_all add: str_replace_def)
  then show ?thesis by simp
qed

theorem page_injection_witness:
  "replace_line [(''$subject'', ''$content''), (''$content'', ''hi'')] ''$subject'' = Ok ''hi'' \<and>
   replace_line [(''$content'', ''hi''), (''$subject'', ''$content'')] ''$subject'' = Ok ''$content''"
  by (rule page_injection) (auto simp: names_ok_def hole_name_def npos_def)


section \<open>Paths and forms\<close>

text \<open>What a browser sends: two upper-case digits for every byte that is not safe; blanks in forms are \<open>+\<close>.\<close>

definition url_digit :: "nat \<Rightarrow> char" where
  "url_digit d = char_of (if d < 10 then 48 + d else 55 + d)"

definition url_byte :: "char \<Rightarrow> string" where
  "url_byte c = [url_digit (of_char c div 16), url_digit (of_char c mod 16)]"

definition url_encode :: "(char \<Rightarrow> bool) \<Rightarrow> string \<Rightarrow> string" where
  "url_encode safe s = concat (map (\<lambda>c. if safe c then [c] else CHR ''%'' # url_byte c) s)"

definition form_encode :: "(char \<Rightarrow> bool) \<Rightarrow> string \<Rightarrow> string" where
  "form_encode safe s =
     concat (map (\<lambda>c. if c = CHR '' '' then ''+'' else if safe c then [c] else CHR ''%'' # url_byte c) s)"

lemma hex_val_url [simp]: "d < 16 \<Longrightarrow> hex_val (url_digit d) = Some d"
  by (simp add: hex_val_def url_digit_def)

lemma url_digit_plain:
  assumes "d < 16"
  shows "\<not> is_space (url_digit d) \<and> url_digit d \<notin> {CHR ''-'', CHR ''+'', CHR ''x'', CHR ''X''}"
proof -
  have "(of_char (url_digit d) :: nat) = (if d < 10 then 48 + d else 55 + d)"
    using assms by (simp add: url_digit_def)
  then have n: "48 \<le> (of_char (url_digit d) :: nat)" "(of_char (url_digit d) :: nat) < 71" using assms by auto
  then have "url_digit d \<noteq> c" if "(of_char c :: nat) < 48 \<or> 71 \<le> (of_char c :: nat)" for c
    using that by auto
  with n show ?thesis by (auto simp: is_space_def)
qed

lemma convert_url_byte: "convert_hex_to_char (url_byte c) = Ok c"
proof -
  let ?n = "of_char c :: nat"
  let ?h = "url_digit (?n div 16)" and ?l = "url_digit (?n mod 16)"
  have n: "?n < 256" by (rule nat_of_char_less_256)
  then have d: "?n div 16 < 16" "?n mod 16 < 16" by linarith+
  have p: "\<not> is_space ?h" "?h \<noteq> CHR ''-''" "?h \<noteq> CHR ''+''" "?l \<noteq> CHR ''x''" "?l \<noteq> CHR ''X''"
    using url_digit_plain [OF d(1)] url_digit_plain [OF d(2)] by auto
  have v: "16 * int (?n div 16) + int (?n mod 16) = int ?n"
    by (metis mult_div_mod_eq of_nat_add of_nat_mult of_nat_numeral)
  have "hex_in (url_byte c) = c"
    unfolding hex_in_def url_byte_def Let_def using p d n by (simp add: v)
  moreover have "take 2 (url_byte c) = url_byte c" "dropWhile is_space (url_byte c) \<noteq> []"
    using p(1) by (simp_all add: url_byte_def)
  ultimately show ?thesis by (simp add: convert_hex_to_char_def)
qed

lemma url_byte_two: "\<exists>a b. url_byte c = [a, b] \<and> convert_hex_to_char [a, b] = Ok c"
  using convert_url_byte [of c] unfolding url_byte_def by blast

lemma decode_path_append: "\<not> safe (CHR ''%'') \<Longrightarrow> decode_path (url_encode safe s) = Ok s"
proof (induction s)
  case (Cons c s)
  obtain a b where ab: "url_byte c = [a, b]" "convert_hex_to_char [a, b] = Ok c" using url_byte_two by blast
  show ?case
  proof (cases "safe c")
    case True
    then have "c \<noteq> CHR ''%''" using Cons.prems by auto
    then show ?thesis using Cons True by (simp add: url_encode_def)
  next
    case False
    then show ?thesis using Cons ab by (simp add: url_encode_def)
  qed
qed (simp add: url_encode_def)

text \<open>
  A path is decoded to what the browser has encoded, whatever characters it leaves as they are; only
  the percent sign itself has to be encoded.
\<close>

theorem path_roundtrip:
  assumes "\<not> safe (CHR ''%'')"
  shows "decode_path (url_encode safe s) = Ok s"
  using assms by (rule decode_path_append)

theorem path_roundtrip_witness:
  "decode_path ''files%2F2%25'' = Ok ''files/2%''"
proof -
  have "decode_path (url_encode (\<lambda>c. c \<notin> {CHR '' '', CHR ''/'', CHR ''%''}) ''files/2%'') = Ok ''files/2%''"
    by (rule path_roundtrip) simp
  then show ?thesis
    by (simp add: url_encode_def url_byte_def url_digit_def char_of_def bit_Suc_0_iff)
qed

definition form_safe :: "(char \<Rightarrow> bool) \<Rightarrow> bool" where
  "form_safe safe \<longleftrightarrow> (\<forall>c \<in> {CHR ''%'', CHR ''+'', CHR ''&''}. \<not> safe c)"

lemma form_value_encode:
  assumes "form_safe safe"
  shows "form_value amp (form_encode safe s @ r) = and_then (form_value amp r) (\<lambda>(v, r'). Ok (s @ v, r'))"
proof (induction s)
  case Nil
  show ?case by (cases "form_value amp r") (auto simp: form_encode_def)
next
  case (Cons c s)
  have e: "form_encode safe (c # s) = (if c = CHR '' '' then ''+'' else if safe c then [c] else CHR ''%'' # url_byte c) @ form_encode safe s"
    by (simp add: form_encode_def)
  obtain a b where ab: "url_byte c = [a, b]" "convert_hex_to_char [a, b] = Ok c" using url_byte_two by blast
  consider "c = CHR '' ''" | "c \<noteq> CHR '' ''" "safe c" | "c \<noteq> CHR '' ''" "\<not> safe c" by blast
  then show ?case
  proof cases
    case 1
    then have e1: "form_encode safe (c # s) = CHR ''+'' # form_encode safe s" by (simp add: form_encode_def)
    show ?thesis unfolding e1 using 1 Cons.IH by (cases "form_value amp r") (auto split: prod.splits)
  next
    case 2
    then have "c \<notin> {CHR ''%'', CHR ''+'', CHR ''&''}" using assms by (auto simp: form_safe_def)
    then show ?thesis using 2 by (cases "form_value amp r") (auto simp: e Cons.IH)
  next
    case 3
    then show ?thesis using ab by (cases "form_value amp r") (auto simp: e Cons.IH)
  qed
qed

lemma after_char_found: "c \<notin> set x \<Longrightarrow> after_char e c (x @ c # y) = Ok y"
  by (simp add: after_char_def)

lemma form_fields:
  assumes "form_safe safe" "CHR ''='' \<notin> set (n1 @ n2 @ n3)"
  shows "parse_email (n1 @ ''='' @ form_encode safe recipient @ ''&'' @ n2 @ ''='' @ form_encode safe subject @ ''&'' @
      n3 @ ''='' @ form_encode safe content) = Ok (recipient, content, subject)"
proof -
  have "form_value False (form_encode safe content) = Ok (content, [])"
    using form_value_encode [OF assms(1), of False content "[]"] by simp
  then show ?thesis
    using assms(2) by (simp add: parse_email_def after_char_found form_value_encode [OF assms(1)])
qed

text \<open>
  The mail form is decoded to the recipient, the text and the subject the user has typed, whatever
  they contain.
\<close>

theorem form_roundtrip:
  assumes "form_safe safe" "CHR ''='' \<notin> set (n1 @ n2 @ n3)"
  shows "parse_email (n1 @ ''='' @ form_encode safe recipient @ ''&'' @ n2 @ ''='' @ form_encode safe subject @ ''&'' @
      n3 @ ''='' @ form_encode safe content) = Ok (recipient, content, subject)"
  by (rule form_fields [OF assms])

theorem form_roundtrip_witness:
  "parse_email ''email=al@localhost&subject=hello+there&content=a%26b'' = Ok (''al@localhost'', ''a&b'', ''hello there'')"
proof -
  let ?safe = "\<lambda>c. c \<notin> {CHR ''%'', CHR ''+'', CHR ''&''}"
  have "form_safe ?safe" by (simp add: form_safe_def)
  from form_roundtrip [OF this, of "''email''" "''subject''" "''content''" "''al@localhost''" "''hello there''" "''a&b''"]
  show ?thesis by (simp add: form_encode_def url_byte_def url_digit_def char_of_def bit_Suc_0_iff)
qed


section \<open>Numbers in paths\<close>

lemma schar_digit: "d < 10 \<Longrightarrow> schar (digit_char d) = int (48 + d)"
  by (simp add: schar_def)

lemma id_digits_append: "id_digits v (x @ y) = id_digits (id_digits v x) y"
  by (induction x arbitrary: v) simp_all

lemma back_digits_append: "back_digits v (x @ y) = back_digits (back_digits v x) y"
  by (induction x arbitrary: v) simp_all

lemma wrap_int_id: "- 2147483648 \<le> i \<Longrightarrow> i < 2147483648 \<Longrightarrow> wrap_int i = i"
  by (simp add: wrap_int_def)

lemma wrap_int_nat: "wrap_int i = i \<Longrightarrow> i < 2147483648"
proof -
  assume "wrap_int i = i"
  moreover have "(i + 2147483648) mod 4294967296 < 4294967296" by simp
  ultimately show "i < 2147483648" unfolding wrap_int_def by linarith
qed

lemma id_digits_show: "n < 2147483648 \<Longrightarrow> id_digits 0 (show_nat n) = int n"
proof (induction n rule: show_nat.induct)
  case (1 n)
  show ?case
  proof (cases "n < 10")
    case True
    then show ?thesis by (subst show_nat.simps) (simp add: schar_digit wrap_int_id)
  next
    case False
    have "n mod 10 < 10" by simp
    moreover have "int (n div 10) * 10 + int (n mod 10) = int n" by presburger
    ultimately show ?thesis
      using 1 False by (subst show_nat.simps) (simp add: id_digits_append schar_digit wrap_int_id)
  qed
qed

text \<open>The value the loop of \<open>handle_back\<close> computes: the digits in base eleven.\<close>

fun base_eleven :: "nat \<Rightarrow> nat" where
  "base_eleven n = (if n < 10 then n else 11 * base_eleven (n div 10) + n mod 10)"

declare base_eleven.simps [simp del]

lemma base_eleven_bound: "n < 10 ^ k \<Longrightarrow> 10 * base_eleven n + 9 \<le> 9 * 11 ^ k"
proof (induction k arbitrary: n)
  case 0
  then show ?case by (subst base_eleven.simps) simp
next
  case (Suc k)
  have one: "(1::nat) \<le> 11 ^ k" by simp
  show ?case
  proof (cases "n < 10")
    case True
    then have "10 * n + 9 \<le> 9 * (11 * 11 ^ k)" using one by linarith
    then show ?thesis using True by (subst base_eleven.simps) simp
  next
    case False
    have "n div 10 < 10 ^ k" using Suc.prems by (simp add: less_mult_imp_div_less mult.commute)
    then have "10 * base_eleven (n div 10) + 9 \<le> 9 * 11 ^ k" by (rule Suc.IH)
    moreover have "n mod 10 \<le> 9" by (simp add: less_Suc_eq_le [symmetric])
    moreover have "10 * (11 * b + r) + 9 \<le> 9 * (11 * K)" if "10 * b + 9 \<le> 9 * K" "r \<le> 9" for b r K :: nat
      using that by simp
    ultimately have "10 * (11 * base_eleven (n div 10) + n mod 10) + 9 \<le> 9 * (11 * 11 ^ k)" by blast
    then show ?thesis using False by (subst base_eleven.simps) simp
  qed
qed

lemma base_eleven_ge: "n \<le> base_eleven n \<and> (10 \<le> n \<longrightarrow> n < base_eleven n)"
proof (induction n rule: base_eleven.induct)
  case (1 n)
  show ?case
  proof (cases "n < 10")
    case True
    then show ?thesis by (subst base_eleven.simps) simp
  next
    case False
    then have "n div 10 \<le> base_eleven (n div 10)" "1 \<le> n div 10" using 1 by auto
    moreover have "10 * (n div 10) + n mod 10 = n" by simp
    ultimately have "n < 11 * base_eleven (n div 10) + n mod 10" by linarith
    then show ?thesis using False by (subst (1 2) base_eleven.simps) simp
  qed
qed

lemma back_digits_show: "n < 100000000 \<Longrightarrow> back_digits 0 (show_nat n) = int (base_eleven n)"
proof (induction n rule: show_nat.induct)
  case (1 n)
  have "10 * base_eleven n + 9 \<le> 9 * 11 ^ 8" by (rule base_eleven_bound) (use 1(2) in simp)
  then have small: "base_eleven n < 2147483648" by simp
  show ?case
  proof (cases "n < 10")
    case True
    then show ?thesis by (subst show_nat.simps, subst base_eleven.simps) (simp add: schar_digit wrap_int_id)
  next
    case False
    have b: "base_eleven n = 11 * base_eleven (n div 10) + n mod 10" using False by (subst base_eleven.simps) simp
    have "back_digits 0 (show_nat (n div 10)) = int (base_eleven (n div 10))" using 1 False by simp
    then have "back_digits 0 (show_nat n) = wrap_int (11 * int (base_eleven (n div 10)) + int (n mod 10))"
      using False by (subst show_nat.simps) (simp add: back_digits_append schar_digit)
    also have "11 * int (base_eleven (n div 10)) + int (n mod 10) = int (base_eleven n)" by (simp add: b)
    also have "wrap_int (int (base_eleven n)) = int (base_eleven n)" using small by (simp add: wrap_int_id)
    finally show ?thesis .
  qed
qed

text \<open>
  C39. The number of a mail or a server is read back for every value an \<open>int\<close> holds. The number of a
  folder in the path is read back only below ten: the loop adds where it should assign, so from ten on
  it goes to another folder.
\<close>

theorem index_bounds:
  assumes "CHR ''='' \<notin> set p" "n < 2147483648"
  shows "parse_index (p @ ''='' @ show_nat n) = Ok (int n) \<and> parse_mailid (p @ ''='' @ show_nat n @ ''?'') = Ok (int n) \<and>
    (n < 10 \<longrightarrow> parse_back (p @ ''='' @ show_nat n) = Ok (int n)) \<and>
    (10 \<le> n \<and> n < 100000000 \<longrightarrow> (\<exists>k > n. parse_back (p @ ''='' @ show_nat n) = Ok (int k)))"
proof -
  have "\<not> is_digit (CHR ''?'')" by (simp add: is_digit_def)
  then have "CHR ''?'' \<notin> set (show_nat n)" using show_nat_digits by blast
  then have q: "takeWhile (\<lambda>c. c \<noteq> CHR ''?'') (show_nat n @ ''?'') = show_nat n"
    by (subst takeWhile_append2) auto
  have "parse_back (p @ ''='' @ show_nat n) = Ok (int (base_eleven n))" if "n < 100000000"
    using back_digits_show [OF that] assms(1) by (simp add: parse_back_def after_char_found)
  moreover have "base_eleven n = n" if "n < 10" using that by (subst base_eleven.simps) simp
  ultimately show ?thesis
    using assms base_eleven_ge [of n] q
    by (auto simp: parse_index_def parse_mailid_def after_char_found id_digits_show)
qed

theorem index_bounds_witness:
  "parse_mailid ''/showinbox?id=12?'' = Ok 12 \<and> parse_back ''/back?index=3'' = Ok 3 \<and> (\<exists>k > 12. parse_back ''/back?index=12'' = Ok (int k))"
proof -
  have "show_nat 12 = ''12''" "show_nat 3 = ''3''" by (simp_all add: show_nat.simps digit_char_def char_of_def bit_Suc_0_iff)
  then show ?thesis
    using index_bounds [of "''/showinbox?id''" 12] index_bounds [of "''/back?index''" 3] index_bounds [of "''/back?index''" 12]
    by simp
qed

section \<open>Uploaded files\<close>

lemma upload_parts:
  assumes "sfind ''filename='' (pre @ ''filename='') = Some (length pre)" "CHR ''\"'' \<notin> set name"
    and "sfind (crlf @ crlf) (pre @ ''filename=\"'' @ name @ ''\"'' @ mid @ crlf @ crlf) =
      Some (length (pre @ ''filename=\"'' @ name @ ''\"'' @ mid))"
    and "sfind ''------'' (content @ tail) = Some (length content)" "2 \<le> length content"
    and "m = pre @ ''filename=\"'' @ name @ ''\"'' @ mid @ crlf @ crlf @ content @ tail" "fits m"
  shows "find_filename m = Ok name \<and> find_file_content m = Ok (take (length content - 2) content)"
proof
  have "sfind ''filename='' m = Some (length pre)"
    using sfind_append [OF assms(1), of "''\"'' @ name @ ''\"'' @ mid @ crlf @ crlf @ content @ tail"] by (simp add: assms(6))
  then have i: "find m ''filename='' 0 = length pre" by (simp add: find_start)
  have f: "length m + 64 < npos" using assms(7) by (simp add: fits_def)
  have len: "length pre + 10 + length name \<le> length m" by (simp add: assms(6))
  let ?q = "pre @ ''filename=\"''"
  have m: "m = ?q @ name @ CHR ''\"'' # (mid @ crlf @ crlf @ content @ tail)" by (simp add: assms(6))
  have q: "length ?q = length pre + 10" by simp
  have e: "find m ''\"'' (length pre + 10) = length pre + 10 + length name"
    using find_from [OF assms(2), of ?q "mid @ crlf @ crlf @ content @ tail"] unfolding m [symmetric] q by assumption
  have "substr m (length ?q) (length name) = Ok name" unfolding m by (rule substr_middle)
  then have n: "substr m (length pre + 10) (length name) = Ok name" unfolding q .
  have sz: "szadd (length pre) 10 = length pre + 10" "szsub (length pre + 10 + length name) (length pre + 10) = length name"
    using f len by simp_all
  show "find_filename m = Ok name"
    unfolding find_filename_def Let_def i sz(1) e sz(2) by (rule n)
  let ?h = "pre @ ''filename=\"'' @ name @ ''\"'' @ mid"
  have "sfind (crlf @ crlf) m = Some (length ?h)"
    using sfind_append [OF assms(3), of "content @ tail"] by (simp add: assms(6))
  moreover have "drop (length ?h + 4) m = content @ tail"
  proof -
    have h: "m = (?h @ crlf @ crlf) @ content @ tail" "length ?h + 4 = length (?h @ crlf @ crlf)" by (simp_all add: assms(6))
    show ?thesis unfolding h(2) unfolding h(1) by (metis append_eq_conv_conj)
  qed
  ultimately show "find_file_content m = Ok (take (length content - 2) content)"
    using assms(4,5) unfolding find_file_content_def by simp
qed

text \<open>
  The parts of an uploaded file: its name, and its content up to the first six hyphens. A file that
  has six hyphens in a row is cut there, two characters before them.
\<close>

theorem upload_parsed:
  assumes "sfind ''filename='' (pre @ ''filename='') = Some (length pre)" "CHR ''\"'' \<notin> set name"
    and "sfind (crlf @ crlf) (pre @ ''filename=\"'' @ name @ ''\"'' @ mid @ crlf @ crlf) =
      Some (length (pre @ ''filename=\"'' @ name @ ''\"'' @ mid))"
    and "sfind ''------'' (content @ tail) = Some (length content)" "2 \<le> length content"
    and "m = pre @ ''filename=\"'' @ name @ ''\"'' @ mid @ crlf @ crlf @ content @ tail" "fits m"
  shows "find_filename m = Ok name \<and> find_file_content m = Ok (take (length content - 2) content)"
  by (rule upload_parts [OF assms])

theorem upload_parsed_witness:
  "find_file_content (''filename=\"a\"'' @ crlf @ crlf @ ''xyz'' @ crlf @ ''------B--'') = Ok ''xyz'' \<and>
   find_file_content (''filename=\"a\"'' @ crlf @ crlf @ ''xy------z'' @ crlf @ ''------B--'') = Ok []"
  using upload_parsed [of "[]" "''a''" "[]" "''xyz'' @ crlf" "''------B--''", OF _ _ _ _ _ refl]
    upload_parsed [of "[]" "''a''" "[]" "''xy''" "''------z'' @ crlf @ ''------B--''", OF _ _ _ _ _ refl]
  by (simp add: crlf_def fits_def npos_def)

section \<open>Mail headers\<close>

lemma bar_next:
  assumes "h = p @ CHR ''|'' # x @ CHR ''|'' # r" "CHR ''|'' \<notin> set x" "fits h"
  shows "find h ''|'' (szadd (length p) 1) = length (p @ CHR ''|'' # x)"
    and "substr h (szadd (length p) 1) (szsub (szsub (length (p @ CHR ''|'' # x)) (length p)) 1) = Ok x"
proof -
  have l: "length p + length x + 2 \<le> length h" "length h + 64 < npos" using assms(1,3) by (simp_all add: fits_def)
  have z: "szadd (length p) 1 = length (p @ ''|'')" "szsub (szsub (length (p @ CHR ''|'' # x)) (length p)) 1 = length x"
    using l by simp_all
  have h: "h = (p @ ''|'') @ x @ CHR ''|'' # r" by (simp add: assms(1))
  show "find h ''|'' (szadd (length p) 1) = length (p @ CHR ''|'' # x)"
    unfolding z(1) using find_from [OF assms(2), of "p @ ''|''" r, folded h] by simp
  show "substr h (szadd (length p) 1) (szsub (szsub (length (p @ CHR ''|'' # x)) (length p)) 1) = Ok x"
    unfolding z unfolding h by (rule substr_middle)
qed

text \<open>
  The web server reads from the header the SMTP server has written for a recipient exactly the
  sender, the recipient, the title and the time, when none of the first three has a bar.
\<close>

theorem header_fields:
  assumes "CHR ''|'' \<notin> set server_name" "CHR ''|'' \<notin> set sender" "CHR ''|'' \<notin> set rcpt" "CHR ''|'' \<notin> set title"
    and "fits (inbox_header server_name sender rcpt title time)"
  shows "parse_header (inbox_header server_name sender rcpt title time) = Ok (sender, rcpt, title, time)"
proof -
  let ?h = "inbox_header server_name sender rcpt title time"
  let ?p1 = "''Header ''" and ?q = "CHR ''|''"
  let ?p2 = "?p1 @ ?q # server_name" let ?p3 = "?p2 @ ?q # sender" let ?p4 = "?p3 @ ?q # rcpt" let ?p5 = "?p4 @ ?q # title"
  have h: "?h = ?p1 @ ?q # server_name @ ?q # (sender @ ?q # rcpt @ ?q # title @ ?q # time)"
    "?h = ?p2 @ ?q # sender @ ?q # (rcpt @ ?q # title @ ?q # time)" "?h = ?p3 @ ?q # rcpt @ ?q # (title @ ?q # time)"
    "?h = ?p4 @ ?q # title @ ?q # time" "?h = ?p5 @ ?q # time"
    by (simp_all add: inbox_header_def)
  have p1: "find ?h ''|'' 0 = length ?p1" unfolding h(1) by (rule find_char) simp
  note b1 = bar_next [OF h(1) assms(1,5)] and b2 = bar_next [OF h(2) assms(2,5)]
    and b3 = bar_next [OF h(3) assms(3,5)] and b4 = bar_next [OF h(4) assms(4,5)]
  have t: "substr ?h (szadd (length ?p5) 1) npos = Ok time"
  proof -
    have "length ?p5 + 1 \<le> length ?h" "length ?h + 64 < npos" using arg_cong [OF h(5), of length] assms(5) by (simp_all add: fits_def)
    then have "szadd (length ?p5) 1 = length (?p5 @ [?q])" by simp
    moreover have "drop (length (?p5 @ [?q])) ((?p5 @ [?q]) @ time) = time" by (metis append_eq_conv_conj)
    ultimately show ?thesis using substr_npos [OF _ assms(5), of "length (?p5 @ [?q])"] h(5) by simp
  qed
  show ?thesis
    unfolding parse_header_def Let_def p1 b1(1) b2(1) b3(1) b4(1) b2(2) b3(2) b4(2) t and_then.simps prod.case ..
qed

theorem header_fields_witness:
  "parse_header ''Header |localhost|bo@localhost|al@localhost|hi|now'' = Ok (''bo@localhost'', ''al@localhost'', ''hi'', ''now'')"
  using header_fields [of "''localhost''" "''bo@localhost''" "''al@localhost''" "''hi''" "''now''"]
  by (simp add: inbox_header_def fits_def npos_def)


end
