(* ===== verification/Web_Service.thy ===== *)
theory Web_Service
  imports Web_Server_Props Web_Text_Props
begin

text \<open>
  The web server over the data server: signing in, uploading and downloading as HTTP requests, with the
  storages connected to the model of the primary's worker; the mail form and the commands of the SMTP
  client.
\<close>

section \<open>Accounts over the store\<close>

context kv_service
begin

lemma open_folder_effect:
  assumes "exchange E = exch" "linked st b" "live (Suc n) b" "map_at (files_in_path st) y = Some f"
    and "folder (view b) u (fi_id f) fs"
  obtains b' where "open_folder E (Suc m) u y st =
      Ok (Some fs, (moved_to st b')\<lparr>cur_path := cur_path st @ [f\<lparr>fi_name := y, fi_file := False\<rparr>],
        files_in_path := foldl (\<lambda>m f. files_insert f m) [] fs\<rparr>)"
    "live n b'" "view b' = view b"
proof -
  obtain b1 where b1: "send_get_command E (Suc m) (content_of u (fi_id f)) st = Ok (listing fs, moved_to st b1)"
    "live n b1" "view b1 = view b"
    by (rule get_listing [OF assms(1-3) assms(5)])
  have ne: "listing fs \<noteq> ''-ERR NULL''" and ok: "\<forall>f \<in> set fs. entry_ok f"
    using assms(5) by (simp_all add: folder_def text_ok_def)
  have f: "\<lparr>fi_name = y, fi_id = fi_id f, fi_file = False, fi_time = fi_time f, fi_size = fi_size f\<rparr> = f\<lparr>fi_name := y, fi_file := False\<rparr>"
    by (cases f) simp
  have "open_folder E (Suc m) u y st =
      Ok (Some fs, (moved_to st b1)\<lparr>cur_path := cur_path st @ [f\<lparr>fi_name := y, fi_file := False\<rparr>],
        files_in_path := foldl (\<lambda>m f. files_insert f m) [] fs\<rparr>)"
    using assms(4) b1(1) ne f unfolding open_folder_def nameToID_def entry_of_def
    by (cases fs) (simp_all add: show_listing ok del: listing_simps(2))
  with b1(2,3) that show thesis by blast
qed

text \<open>Signing in compares the text of the cell with what was typed, and opens the root folder.\<close>

lemma sign_in_effect:
  assumes "exchange E = exch" "linked st b" "live (Suc (Suc n)) b" "name_small u" "userName st = u"
    and "snd (view b) (u, ''password'') = Some (p' @ crlf)" "text_ok p'"
    and "map_at (files_in_path st) ''storage'' = Some root_folder" "folder (view b) u ''storage'' fs"
  shows "\<exists>b'. sign_in E (Suc m) u p st =
      Ok (if p = p' then (True, (moved_to st b')\<lparr>cur_path := cur_path st @ [root_folder],
            files_in_path := foldl (\<lambda>m f. files_insert f m) [] fs\<rparr>)
          else (False, moved_to st b')) \<and> live (if p = p' then n else Suc n) b' \<and> view b' = view b"
proof -
  have c: "''<'' @ u @ ''> '' @ ''<'' @ ''password'' @ ''>'' @ crlf = command_parser u ''password''"
    by (simp add: command_parser_def)
  have ns: "name_small ''password''" by (simp add: name_small_def plain_name_def name_ok_def)
  obtain b1 where b1: "send_get_command E (Suc m) (command_parser u ''password'') st = Ok (p', moved_to st b1)"
    "live (Suc n) b1" "view b1 = view b"
    by (rule get_text [OF assms(1-4) ns assms(6,7)])
  show ?thesis
  proof (cases "p = p'")
    case True
    have l: "linked (moved_to st b1) b1" using assms(2) by simp
    have a: "map_at (files_in_path (moved_to st b1)) ''storage'' = Some root_folder" using assms(8) by simp
    have f: "folder (view b1) u (fi_id root_folder) fs" using assms(9) b1(3) by (simp add: root_folder_def)
    have r: "root_folder\<lparr>fi_name := ''storage'', fi_file := False\<rparr> = root_folder" by (simp add: root_folder_def)
    obtain b2 where b2: "open_folder E (Suc m) u ''storage'' (moved_to st b1) =
        Ok (Some fs, (moved_to (moved_to st b1) b2)\<lparr>cur_path := cur_path (moved_to st b1) @ [root_folder],
          files_in_path := foldl (\<lambda>m f. files_insert f m) [] fs\<rparr>)" "live n b2" "view b2 = view b1"
      using open_folder_effect [OF assms(1) l b1(2) a f, where m=m] unfolding r by blast
    then show ?thesis using True b1 assms(5) unfolding sign_in_def c by (intro exI [of _ b2]) simp
  next
    case False
    then show ?thesis using b1 unfolding sign_in_def c by (intro exI [of _ b1]) simp
  qed
qed

end

section \<open>Connections\<close>

text \<open>A master that names the server at \<open>a\<close> and a server that accepts the connection.\<close>

definition primary_env :: "sockaddr_in \<Rightarrow> worker backend" where
  "primary_env a = \<lparr>exchange = worker_exchange, ask_master = \<lambda>m b. ([Bytes (server_reply a)], b), connect_to = \<lambda>addr b. Some b\<rparr>"

definition fresh_storage :: "string \<Rightarrow> 'b \<Rightarrow> 'b storage" where
  "fresh_storage u b = \<lparr>userName = u, cur_path = [], files_in_path = map_insert ''storage'' root_folder [], crash_flag = False,
     sock = [], peer = Some b\<rparr>"

lemma new_Storage_fresh:
  assumes "addr_ok a" "length u \<le> 80"
  shows "new_Storage (primary_env a) u b = Ok (fresh_storage u b)"
proof -
  have m: "where_message u = Ok (''Where <'' @ u @ ''>'' @ crlf)"
    using assms(2) by (simp add: where_message_def crlf_def)
  have nul: "CHR 0x00 \<notin> set (server_reply a)"
    by (cases "sin_addr a") (simp add: server_reply_def ip_to_string_def crlf_def)
  have len: "length (server_reply a) < 100"
    using addr_text_short [OF assms(1)] by (simp add: server_reply_def crlf_def)
  have "contains (server_reply a) crlf"
    using sfind_middle [of crlf "''SERVER <'' @ ip_to_string a @ ''>''" "[]"] by (simp add: contains_def server_reply_def)
  then have rd: "mc_do_read [] [Bytes (server_reply a)] = Ok (server_reply a, [])"
    using nul len by (subst mc_do_read.simps) simp
  have "sfind '':'' (ip_to_string a) \<noteq> None" by (cases "sin_addr a") (simp add: ip_to_string_def)
  then obtain i where i: "sfind '':'' (ip_to_string a) = Some i" "i + 1 \<le> length (ip_to_string a)"
    using sfind_length by fastforce
  then have "\<exists>p. parse_addr (ip_to_string a) = Ok p"
    by (simp add: parse_addr_def)
  then show ?thesis
    by (auto simp: new_Storage_def m primary_env_def sendto_backend_def rd server_of_reply assms(1) fresh_storage_def)
qed

section \<open>The sign-in form\<close>

definition account_word :: "string \<Rightarrow> bool" where
  "account_word u \<longleftrightarrow> u \<noteq> [] \<and> length u \<le> 80 \<and> set u \<inter> {CHR ''&'', CHR ''='', CHR '' '', CHR 0x00} = {}"

definition account_form :: "string \<Rightarrow> string \<Rightarrow> string" where
  "account_form u p = ''username='' @ u @ ''&password='' @ p"

lemma strtok_whole: "x \<noteq> [] \<Longrightarrow> set x \<inter> set ds = {} \<Longrightarrow> strtok ds x = Some (x, [])"
proof -
  assume x: "x \<noteq> []" "set x \<inter> set ds = {}"
  then have n: "\<forall>c \<in> set x. c \<notin> set ds" by auto
  then have "dropWhile (\<lambda>c. c \<in> set ds) x = x" using x(1) by (cases x) simp_all
  moreover have "takeWhile (\<lambda>c. c \<notin> set ds) x = x" "dropWhile (\<lambda>c. c \<notin> set ds) x = []"
    using n by (simp_all add: takeWhile_eq_all_conv dropWhile_eq_Nil_conv)
  ultimately show ?thesis unfolding strtok_def Let_def by (simp only: x(1) if_False drop_Nil)
qed

lemma copy_short: "length s < n \<Longrightarrow> CHR 0x00 \<notin> set s \<Longrightarrow> copy_to n s = Ok s"
  by (simp add: copy_to_def)

text \<open>
  What the server takes for the password: \<open>strtok\<close> cuts the field at equal signs, so what follows the first
  one after the typed word is dropped. A browser writes a typed equal sign as \<open>%3D\<close>, which is not decoded here;
  any other client can send one.
\<close>

definition field_text :: "string \<Rightarrow> bool" where
  "field_text p \<longleftrightarrow> length p \<le> 80 \<and> set p \<inter> {CHR ''&'', CHR '' '', CHR 0x00} = {}"

definition password_heard :: "string \<Rightarrow> string" where
  "password_heard p = takeWhile (\<lambda>c. c \<noteq> CHR ''='') (dropWhile (\<lambda>c. c = CHR ''='') p)"

lemma account_word_heard: "account_word p \<Longrightarrow> field_text p \<and> password_heard p = p \<and> p \<noteq> []"
  by (cases p) (auto simp: account_word_def field_text_def password_heard_def takeWhile_eq_all_conv)

lemma token_password:
  "token (strtok ''='' p) = (if password_heard p = [] then Throw Null_deref
     else Ok (password_heard p, drop 1 (dropWhile (\<lambda>c. c \<noteq> CHR ''='') (dropWhile (\<lambda>c. c = CHR ''='') p))))"
proof (cases "dropWhile (\<lambda>c. c = CHR ''='') p")
  case Nil
  then show ?thesis by (simp only: token_def strtok_def password_heard_def) simp
next
  case (Cons x xs)
  then have "x \<noteq> CHR ''=''" using hd_dropWhile [of "\<lambda>c. c = CHR ''=''" p] by (metis list.sel(1) list.distinct(1))
  then show ?thesis by (simp add: token_def strtok_def password_heard_def Cons)
qed

lemma parse_account_form:
  assumes "account_word u" "field_text p"
  shows "parse_account (account_form u p) = (if password_heard p = [] then Throw Null_deref else Ok (u, password_heard p))"
proof -
  let ?a = "''username='' @ u" and ?b = "''password='' @ p"
  have w: "u \<noteq> []" "CHR ''='' \<notin> set u" "length u \<le> 80" "length p \<le> 80"
    using assms by (auto simp: account_word_def field_text_def)
  have n: "CHR 0x00 \<notin> set (account_form u p)" "CHR 0x00 \<notin> set ?a" "CHR 0x00 \<notin> set ?b"
    using assms by (auto simp: account_word_def field_text_def account_form_def)
  have c: "copy_to 256 (account_form u p) = Ok (account_form u p)" "copy_to 256 ?a = Ok ?a" "copy_to 256 ?b = Ok ?b"
    using n w(3,4) by (simp_all add: copy_short account_form_def)
  have a: "CHR ''&'' \<notin> set ?a" using assms by (auto simp: account_word_def)
  have t1: "token (strtok ''&'' (account_form u p)) = Ok (?a, ?b)"
    using strtok_word(1) [OF _ a, of ?b] by (simp add: account_form_def token_def)
  have b: "set ?b \<inter> {CHR '' '', CHR ''&''} = {}" using assms by (auto simp: field_text_def)
  have t2: "token (strtok '' &'' ?b) = Ok (?b, [])"
    unfolding token_def by (subst strtok_whole) (use b in simp_all)
  have s: "token (strtok ''='' ?a) = Ok (''username'', u)" "token (strtok ''='' u) = Ok (u, [])"
    "token (strtok ''='' ?b) = Ok (''password'', p)"
    using strtok_word(1) [of "''username''" "CHR ''=''" u] strtok_word(1) [of "''password''" "CHR ''=''" p]
      strtok_word(2) [OF w(1,2)] by (simp_all add: token_def)
  show ?thesis
    unfolding parse_account_def Let_def c t1 t2 s and_then.simps prod.case token_password [of p] by simp
qed


section \<open>Signing in\<close>

definition post :: "string \<Rightarrow> string \<Rightarrow> http_request" where
  "post path body = \<lparr>hr_method = ''POST'', hr_path = path, hr_version = ''HTTP/1.1'', hr_message = body, hr_cookies = []\<rparr>"

definition get_page :: "string \<Rightarrow> http_request" where
  "get_page path = \<lparr>hr_method = ''GET'', hr_path = path, hr_version = ''HTTP/1.1'', hr_message = [], hr_cookies = []\<rparr>"

definition web_response :: "string \<Rightarrow> response" where
  "web_response s = \<lparr>rs_status = s, rs_version = ''HTTP/1.1'', rs_header = []\<rparr>"

lemma methods: "\<not> strcasecmp_eq ''POST'' ''get''" "strcasecmp_eq ''POST'' ''post''" "strcasecmp_eq ''GET'' ''get''"
  by (simp_all add: strcasecmp_eq_def cstr_def lower_def char_of_def bit_Suc_0_iff)

lemma same_text [simp]: "strcasecmp_eq s s"
  by (simp add: strcasecmp_eq_def)

lemma respond_post:
  "decode_path path = Ok path' \<Longrightarrow> respond_http E (post path body) w = handle_post E (web_response ''200'') path' body [] w"
  by (simp add: respond_http_def post_def methods web_response_def set_status_def Let_def)

lemma respond_get:
  "decode_path path = Ok path' \<Longrightarrow> respond_http E (get_page path) w = handle_get E (web_response []) path' [] w"
  by (simp add: respond_http_def get_page_def methods web_response_def Let_def)

text \<open>The store that a user's account and files are in.\<close>

definition account :: "store \<Rightarrow> string \<Rightarrow> string \<Rightarrow> file_info list \<Rightarrow> bool" where
  "account s u p fs \<longleftrightarrow> name_small u \<and> snd s (u, ''password'') = Some (p @ crlf) \<and> text_ok p \<and> folder s u ''storage'' fs"

lemma enter_sign_in:
  assumes "files_env E = primary_env a" "addr_ok a" "fuel E = Suc m" "length u \<le> 80" "parse_account msg = Ok (u, p)"
    and "can_serve 2 (world w)" "account (abs_store (tbl (world w))) u p' fs"
  shows "\<exists>b st. abs_store (tbl b) = abs_store (tbl (world w)) \<and> can_serve (if p = p' then 0 else 1) b \<and>
    userName st = u \<and> peer st = Some b \<and> sock st = [] \<and> cur_path st = [root_folder] \<and>
    files_in_path st = foldl (\<lambda>m f. files_insert f m) [] fs \<and>
    enter E sign_in msg w = Ok (p = p',
      let w2 = w\<lparr>username := u, world := b\<rparr>
      in if p = p' then (insert_storage u st w2)\<lparr>sessions := map_insert u (asc_time E) (sessions w)\<rparr> else w2)"
proof -
  let ?s = "fresh_storage u (world w)" and ?E = "primary_env a"
  have E: "exchange ?E = worker_exchange" by (simp add: primary_env_def)
  have l: "linked ?s (world w)" "userName ?s = u" "map_at (files_in_path ?s) ''storage'' = Some root_folder" "cur_path ?s = []"
    by (simp_all add: fresh_storage_def linked_def)
  have n: "can_serve (Suc (Suc 0)) (world w)" using assms(6) by (simp add: numeral_2_eq_2)
  have acc: "name_small u" "snd (abs_store (tbl (world w))) (u, ''password'') = Some (p' @ crlf)" "text_ok p'"
    "folder (abs_store (tbl (world w))) u ''storage'' fs"
    using assms(7) by (simp_all add: account_def)
  obtain b where b: "sign_in ?E (Suc m) u p ?s =
      Ok (if p = p' then (True, (moved_to ?s b)\<lparr>cur_path := cur_path ?s @ [root_folder],
            files_in_path := foldl (\<lambda>m f. files_insert f m) [] fs\<rparr>)
          else (False, moved_to ?s b))" "can_serve (if p = p' then 0 else Suc 0) b" "abs_store (tbl b) = abs_store (tbl (world w))"
    using dataserver.sign_in_effect [OF E l(1) n acc(1) l(2) acc(2,3) l(3) acc(4), of m p] by blast
  let ?st = "(moved_to ?s b)\<lparr>cur_path := [root_folder], files_in_path := foldl (\<lambda>m f. files_insert f m) [] fs\<rparr>"
  have new: "new_Storage ?E u (world w) = Ok ?s" by (rule new_Storage_fresh [OF assms(2,4)])
  have "enter E sign_in msg w = Ok (p = p',
      let w2 = w\<lparr>username := u, world := b\<rparr>
      in if p = p' then (insert_storage u ?st w2)\<lparr>sessions := map_insert u (asc_time E) (sessions w)\<rparr> else w2)"
    unfolding enter_def assms(5) and_then.simps prod.case Let_def
    using b(1) l(4) new by (simp add: assms(1,3) world_of_def moved_to_def)
  moreover have "userName ?st = u \<and> peer ?st = Some b \<and> sock ?st = [] \<and> cur_path ?st = [root_folder] \<and>
      files_in_path ?st = foldl (\<lambda>m f. files_insert f m) [] fs"
    by (simp add: moved_to_def fresh_storage_def)
  moreover have "can_serve (if p = p' then 0 else 1) b" using b(2) by (cases "p = p'") simp_all
  ultimately show ?thesis using b(3) by blast
qed

lemma enter_word:
  assumes "files_env E = primary_env a" "addr_ok a" "fuel E = Suc m" "account_word u" "account_word p"
    and "can_serve 2 (world w)" "account (abs_store (tbl (world w))) u p' fs"
  shows "\<exists>b st. abs_store (tbl b) = abs_store (tbl (world w)) \<and> can_serve (if p = p' then 0 else 1) b \<and>
    userName st = u \<and> peer st = Some b \<and> sock st = [] \<and> cur_path st = [root_folder] \<and>
    files_in_path st = foldl (\<lambda>m f. files_insert f m) [] fs \<and>
    enter E sign_in (account_form u p) w = Ok (p = p',
      let w2 = w\<lparr>username := u, world := b\<rparr>
      in if p = p' then (insert_storage u st w2)\<lparr>sessions := map_insert u (asc_time E) (sessions w)\<rparr> else w2)"
proof -
  have "parse_account (account_form u p) = Ok (u, p)" "length u \<le> 80"
    using parse_account_form [OF assms(4)] account_word_heard [OF assms(5)] assms(4) by (simp_all add: account_word_def)
  from enter_sign_in [OF assms(1-3) this(2,1) assms(6,7)] show ?thesis .
qed

text \<open>
  C5. Signing in, without a session, over the model of the data server. The password that counts is the field
  up to an equal sign (\<open>password_heard\<close>, so \<open>secret=x\<close> is taken for \<open>secret\<close>); a field without one ends the server.
  Signing in succeeds exactly when it is the password in the user's cell: then the session is recorded, and a
  storage at the root folder with the user's files is put into the table, unless the user has one there, which
  stays as it is. Otherwise only the name of the current user changes (it does, although the password was
  wrong). The store stays as it is.
\<close>

theorem signin_exact:
  assumes "files_env E = primary_env a" "addr_ok a" "fuel E = Suc m" "account_word u" "field_text p"
    and "can_serve 2 (world w)" "account (abs_store (tbl (world w))) u p' fs"
  shows "\<exists>b st. abs_store (tbl b) = abs_store (tbl (world w)) \<and> userName st = u \<and> cur_path st = [root_folder] \<and>
    files_in_path st = foldl (\<lambda>m f. files_insert f m) [] fs \<and>
    respond_http E (post ''/'' (account_form u p)) w =
      (if password_heard p = [] then Throw Null_deref
       else if password_heard p = p' then user_page E (web_response ''200'')
         (w\<lparr>username := u, world := b,
           all_storages := (if map_has (all_storages w) u then all_storages w else map_insert u (Some st) (all_storages w)),
           sessions := map_insert u (asc_time E) (sessions w)\<rparr>)
         ''./html/signin_successful.html'' []
       else plain_page E (web_response ''200'') (w\<lparr>username := u, world := b\<rparr>) ''./html/signin_failed.html'')"
proof -
  have "decode_path ''/'' = Ok ''/''" by simp
  then have r: "respond_http E (post ''/'' (account_form u p)) w = handle_signin E (web_response ''200'') [] (account_form u p) w"
    by (simp add: respond_post handle_post_def path_is_def)
  note h = r handle_signin_def is_logged_in_def
  show ?thesis
  proof (cases "password_heard p = []")
    case True
    then have "enter E sign_in (account_form u p) w = Throw Null_deref"
      by (simp add: enter_def parse_account_form [OF assms(4,5)])
    then show ?thesis using True
      by (intro exI [of _ "world w"] exI [of _ "(fresh_storage u (world w))\<lparr>cur_path := [root_folder],
        files_in_path := foldl (\<lambda>m f. files_insert f m) [] fs\<rparr>"]) (simp add: h fresh_storage_def)
  next
    case False
    have u: "length u \<le> 80" using assms(4) by (simp add: account_word_def)
    have "parse_account (account_form u p) = Ok (u, password_heard p)"
      using False by (simp add: parse_account_form [OF assms(4,5)])
    from enter_sign_in [OF assms(1-3) u this assms(6,7)] obtain b st where b:
      "abs_store (tbl b) = abs_store (tbl (world w))" "userName st = u" "cur_path st = [root_folder]"
      "files_in_path st = foldl (\<lambda>m f. files_insert f m) [] fs"
      "enter E sign_in (account_form u p) w = Ok (password_heard p = p',
        let w2 = w\<lparr>username := u, world := b\<rparr>
        in if password_heard p = p' then (insert_storage u st w2)\<lparr>sessions := map_insert u (asc_time E) (sessions w)\<rparr> else w2)"
      by blast
    then show ?thesis using False
      by (intro exI [of _ b] exI [of _ st]) (simp add: h insert_storage_def Let_def)
  qed
qed


section \<open>Files of a user\<close>

definition online :: "'b web \<Rightarrow> string \<Rightarrow> 'b storage \<Rightarrow> bool" where
  "online w u st \<longleftrightarrow> map_at (all_storages w) u = Some (Some st) \<and> peer st \<noteq> None \<and> sock st = []"

lemma with_storage_run:
  assumes "online w (username w) st" "f (st\<lparr>peer := Some (world w)\<rparr>) = Ok (x, st')" "peer st' = Some b"
  shows "with_storage f w = Ok (x, w\<lparr>all_storages := map_insert (username w) (Some st') (all_storages w), world := b\<rparr>)"
proof -
  obtain b0 where "peer st = Some b0" using assms(1) by (auto simp: online_def)
  then show ?thesis using assms by (simp add: with_storage_def online_def)
qed

lemma online_linked: "online w u st \<Longrightarrow> linked (st\<lparr>peer := Some b\<rparr>) b"
  by (simp add: online_def linked_def)

definition file_reply :: "response \<Rightarrow> string \<Rightarrow> string \<Rightarrow> string" where
  "file_reply r y x =
     rs_version r @ '' '' @ rs_status r @ '' OK'' @ crlf @ ''Content-type: '' @ parse_type y @ crlf @
     ''Content-Disposition: attachment;filename=\"'' @ y @ ''\"'' @ crlf @ crlf @ x"

lemma download_served:
  assumes "files_env E = primary_env a" "fuel E = Suc m" "online w (username w) st" "can_serve 1 (world w)"
    and "map_at (files_in_path st) y = Some f" "put_key (username w, fi_id f @ '':content'')"
    and "snd (abs_store (tbl (world w))) (username w, fi_id f @ '':content'') = Some (convert_binary_to_str x @ crlf)"
    and "length x \<le> 950000" "x \<noteq> []"
  shows "\<exists>w'. reply_file E r y w = Ok (file_reply r y x, w')"
proof -
  let ?st = "st\<lparr>peer := Some (world w)\<rparr>"
  have E: "exchange (files_env E) = worker_exchange" by (simp add: assms(1) primary_env_def)
  have at: "map_at (files_in_path ?st) y = Some f" using assms(5) by simp
  have n: "can_serve (Suc 0) (world w)" using assms(4) by simp
  obtain b where b: "download_file (files_env E) (Suc m) (username w) y ?st = Ok (Some x, moved_to ?st b)"
    using dataserver.download_effect [OF E online_linked [OF assms(3)] n at assms(6,7) hex_text_ok [OF assms(8)] assms(9)]
    by blast
  have "with_storage (download_file (files_env E) (Suc m) (username w) y) w =
      Ok (Some x, w\<lparr>all_storages := map_insert (username w) (Some (moved_to ?st b)) (all_storages w), world := b\<rparr>)"
    by (rule with_storage_run [where f = "download_file (files_env E) (Suc m) (username w) y", OF assms(3) b]) (simp add: moved_to_def)
  then show ?thesis by (simp add: reply_file_def assms(2) file_reply_def)
qed

lemma get_download:
  assumes "decode_path path = Ok (''/download?'' @ y)"
  shows "respond_http E (get_page path) w = reply_file E (web_response ''200'') y w"
proof -
  let ?p = "''/download?'' @ y"
  have "\<not> path_is ?p ''/''" "\<not> path_is ?p ''/css/signin.css''" "\<not> path_is ?p ''/newemail''" "\<not> path_is ?p ''/files''"
    "\<not> path_is ?p ''/upload''"
    by (simp_all add: path_is_def strcasecmp_eq_def cstr_def lower_def char_of_def bit_Suc_0_iff)
  moreover have "path_begins ?p ''/download?''" "drop 10 ?p = y" by (simp_all add: path_begins_def)
  moreover have "set_status ''200'' (web_response []) = web_response ''200''" by (simp add: set_status_def web_response_def)
  ultimately show ?thesis
    unfolding respond_get [OF assms] handle_get_def by (simp only: if_False if_True)
qed

text \<open>
  A stranger without session or password gets the files of any user who is signed in: a failed
  attempt to sign in under the user's name makes the user the current one, and the download does not ask
  for a session.
\<close>

theorem stranger_download:
  assumes "files_env E = primary_env a" "addr_ok a" "fuel E = Suc m" "account_word u" "account_word p" "p \<noteq> p'"
    and "can_serve 2 (world w)" "account (abs_store (tbl (world w))) u p' fs" "online w u st"
    and "map_at (files_in_path st) y = Some f" "put_key (u, fi_id f @ '':content'')"
    and "snd (abs_store (tbl (world w))) (u, fi_id f @ '':content'') = Some (convert_binary_to_str x @ crlf)"
    and "length x \<le> 950000" "x \<noteq> []" "decode_path path = Ok (''/download?'' @ y)"
    and "respond_http E (post ''/'' (account_form u p)) w = Ok (page, w1)"
  shows "sessions w1 = sessions w \<and> (\<exists>w2. respond_http E (get_page path) w1 = Ok (file_reply (web_response ''200'') y x, w2))"
proof -
  obtain b where b: "abs_store (tbl b) = abs_store (tbl (world w))" "can_serve 1 b"
    "enter E sign_in (account_form u p) w = Ok (False, w\<lparr>username := u, world := b\<rparr>)"
    using enter_word [OF assms(1-5,7,8)] assms(6) by (auto simp: Let_def)
  have "decode_path ''/'' = Ok ''/''" by simp
  then have w1: "w1 = w\<lparr>username := u, world := b\<rparr>"
    using assms(16) b(3) by (auto simp: respond_post handle_post_def path_is_def handle_signin_def is_logged_in_def plain_page_def)
  have "\<exists>w'. reply_file E (web_response ''200'') y w1 = Ok (file_reply (web_response ''200'') y x, w')"
    by (rule download_served [OF assms(1,3), of _ st _ f]) (use assms(9-14) b w1 in \<open>simp_all add: online_def\<close>)
  then show ?thesis using w1 by (simp add: get_download [OF assms(15)])
qed


section \<open>Uploading over HTTP\<close>

lemma files_insert_at:
  "map_at (foldl (\<lambda>m f. files_insert f m) m0 fs) n = Some g \<Longrightarrow> map_at m0 n = Some g \<or> n \<in> fi_name ` set fs"
proof (induction fs arbitrary: m0)
  case (Cons f fs)
  then show ?case by (fastforce simp: files_insert_def split: if_splits)
qed simp

lemma files_of_listing:
  assumes "fi_name f \<notin> fi_name ` set fs"
  shows "map_at (foldl (\<lambda>m f. files_insert f m) [] (fs @ [f])) (fi_name f) = Some f"
proof -
  have "map_at (foldl (\<lambda>m f. files_insert f m) [] fs) (fi_name f) = None"
    using files_insert_at [of "[]" fs "fi_name f"] assms by (cases "map_at (foldl (\<lambda>m f. files_insert f m) [] fs) (fi_name f)") auto
  then show ?thesis by (simp add: files_insert_def map_has_def)
qed

definition new_file :: "'b web_env \<Rightarrow> string \<Rightarrow> string \<Rightarrow> file_info" where
  "new_file E y x = \<lparr>fi_name = y, fi_id = new_id E, fi_file = True, fi_time = new_time E, fi_size = content_size x\<rparr>"

lemma new_file_simps [simp]:
  "fi_name (new_file E y x) = y" "fi_id (new_file E y x) = new_id E" "fi_file (new_file E y x)"
  "fi_time (new_file E y x) = new_time E" "fi_size (new_file E y x) = content_size x"
  by (simp_all add: new_file_def)

lemma post_upload:
  "respond_http E (post ''/upload'' m) w = handle_upload E (web_response ''200'') m w"
proof -
  have d: "decode_path ''/upload'' = Ok ''/upload''" by simp
  have "\<not> path_is ''/upload'' ''/''" "path_is ''/upload'' ''/upload''"
    by (simp_all add: path_is_def) (simp add: strcasecmp_eq_def cstr_def)
  then show ?thesis by (simp add: respond_post [OF d] handle_post_def)
qed

lemma upload_served:
  assumes "files_env E = primary_env a" "fuel E = Suc m" "online w u st" "username w = u" "userName st = u" "can_serve 6 (world w)"
    and "users_only (abs_store (tbl (world w)))" "last_of_path st = Ok d" "folder (abs_store (tbl (world w))) u (fi_id d) fs"
    and "f = new_file E y x" "entry_ok f" "y \<notin> fi_name ` set fs" "text_ok (listing (fs @ [f]))" "text_ok y"
    and "put_key (u, new_id E @ '':name'')" "put_key (u, new_id E @ '':content'')" "new_id E \<noteq> fi_id d"
    and "x \<noteq> []" "length x \<le> 950000" "can_open E (cstr (''./Test/'' @ y))"
    and "find_filename msg = Ok y" "find_file_content msg = Ok x"
  shows "\<exists>w' st'. handle_upload E r msg w = see_other E r w' ''/files'' ''./html/files.html'' \<and> online w' u st' \<and> username w' = u \<and> can_serve 1 (world w') \<and> map_at (files_in_path st') y = Some f \<and>
    snd (abs_store (tbl (world w'))) = (snd (abs_store (tbl (world w))))((u, fi_id d @ '':content'') \<mapsto> listing (fs @ [f]) @ crlf,
      (u, new_id E @ '':name'') \<mapsto> y @ crlf, (u, new_id E @ '':content'') \<mapsto> convert_binary_to_str x @ crlf)"
proof -
  let ?w1 = "w\<lparr>disk := map_insert (cstr (''./Test/'' @ y)) x (disk w)\<rparr>"
  let ?st = "st\<lparr>peer := Some (world w)\<rparr>" and ?S = "abs_store (tbl (world w))"
  let ?F = "\<lambda>fs. foldl (\<lambda>m f. files_insert f m) [] fs"
  have n: "(6::nat) = Suc (Suc (Suc (Suc 2)))" "(2::nat) = Suc 1" by simp_all
  have E: "exchange (files_env E) = worker_exchange" by (simp add: assms(1) primary_env_def)
  have store: "store_file E ''./Test'' y x w = Ok ?w1" using assms(20) by (simp add: store_file_def)
  have o1: "online ?w1 (username ?w1) st" using assms(3,4) by (simp add: online_def)
  have cur: "current_folder ?w1 = Ok d" using assms(3,4,8) by (simp add: current_folder_def see_storage_def online_def)
  have f: "fi_file f" "fi_id f = new_id E" "fi_name f = y" "fi_time f = new_time E" "fi_size f = content_size x"
    by (simp_all add: assms(10))
  obtain b1 where b1: "upload_file (files_env E) (Suc m) (new_id E) (new_time E) u (fi_id d) y x (content_size x) ?st =
      Ok (True, (moved_to ?st b1)\<lparr>files_in_path := files_insert f (files_in_path ?st)\<rparr>)"
    "can_serve 2 b1" "snd (abs_store (tbl b1)) = (snd ?S)((u, fi_id d @ '':content'') \<mapsto> listing (fs @ [f]) @ crlf,
      (u, new_id E @ '':name'') \<mapsto> y @ crlf, (u, new_id E @ '':content'') \<mapsto> convert_binary_to_str x @ crlf)"
    using dataserver.upload_effect [OF E online_linked [OF assms(3)] assms(6) [unfolded n(1)] assms(7,9,11) f(1), unfolded f,
        OF assms(12,13,15,16,14) hex_text_ok [OF assms(19)], of m] by blast
  let ?st1 = "(moved_to ?st b1)\<lparr>files_in_path := files_insert f (files_in_path ?st)\<rparr>"
  let ?w2 = "?w1\<lparr>all_storages := map_insert u (Some ?st1) (all_storages w), world := b1\<rparr>"
  have up: "with_storage (upload_file (files_env E) (Suc m) (new_id E) (new_time E) (username ?w1) (fi_id d) y x (content_size x)) ?w1 =
      Ok (True, ?w2)"
    using with_storage_run [where w = ?w1 and f = "upload_file (files_env E) (Suc m) (new_id E) (new_time E) u (fi_id d) y x (content_size x)",
      OF o1, of True ?st1 b1] b1(1) assms(4) by (simp add: moved_to_def)
  have o2: "online ?w2 (username ?w2) ?st1" using assms(3,4) by (simp add: online_def moved_to_def)
  have st2: "?st1\<lparr>peer := Some (world ?w2)\<rparr> = ?st1" by (simp add: moved_to_def)
  have l2: "linked ?st1 b1" using assms(3) by (simp add: online_def linked_def moved_to_def)
  have "cur_path ?st1 = cur_path st" by (simp add: moved_to_def)
  then have last: "last_of_path ?st1 = Ok d" using assms(8) unfolding last_of_path_def path_at_def by (simp only:)
  have "folder (abs_store (tbl b1)) u (fi_id d) (fs @ [f])"
    using assms(9,11,13,17) b1(3) by (auto simp: folder_def)
  then have fold2: "folder (abs_store (tbl b1)) (userName ?st1) (fi_id d) (fs @ [f])" using assms(5) by (simp add: moved_to_def)
  obtain b2 where b2: "refresh_upload (files_env E) (Suc m) ?st1 = Ok (Some (fs @ [f]), (moved_to ?st1 b2)\<lparr>files_in_path := ?F (fs @ [f])\<rparr>)"
    "can_serve 1 b2" "abs_store (tbl b2) = abs_store (tbl b1)"
    using dataserver.refresh_effect [OF E l2 b1(2) [unfolded n(2)] last fold2, where m=m] by blast
  let ?st2 = "(moved_to ?st1 b2)\<lparr>files_in_path := ?F (fs @ [f])\<rparr>"
  let ?w3 = "?w2\<lparr>all_storages := map_insert (username ?w2) (Some ?st2) (all_storages ?w2), world := b2\<rparr>"
  have r2: "refresh_upload (files_env E) (Suc m) (?st1\<lparr>peer := Some (world ?w2)\<rparr>) = Ok (Some (fs @ [f]), ?st2)"
    unfolding st2 by (rule b2(1))
  have "with_storage (refresh_upload (files_env E) (Suc m)) ?w2 = Ok (Some (fs @ [f]), ?w3)"
    by (rule with_storage_run [where f = "refresh_upload (files_env E) (Suc m)", OF o2 r2]) (simp add: moved_to_def)
  then have "refreshed E ?w2 = Ok (fs @ [f], ?w3)" by (simp add: refreshed_def assms(2))
  then have "handle_upload E r msg w = see_other E r ?w3 ''/files'' ''./html/files.html''"
    unfolding handle_upload_def assms(21,22) and_then.simps store cur assms(2) up prod.case by simp
  moreover have "map_at (files_in_path ?st2) y = Some f" using files_of_listing [of f fs] assms(12) f(3) by simp
  ultimately show ?thesis
    using assms(3,4) b2(2,3) b1(3) by (intro exI [of _ ?w3] exI [of _ ?st2]) (simp add: online_def moved_to_def)
qed

text \<open>The body of an upload: one part with a name and a content, closed by a line of hyphens.\<close>

definition upload_body :: "string \<Rightarrow> string \<Rightarrow> string \<Rightarrow> string \<Rightarrow> string" where
  "upload_body pre y mid x =
     pre @ ''filename=\"'' @ y @ ''\"'' @ mid @ crlf @ crlf @ x @ crlf @ ''------''"

definition upload_body_ok :: "string \<Rightarrow> string \<Rightarrow> string \<Rightarrow> string \<Rightarrow> bool" where
  "upload_body_ok pre y mid x \<longleftrightarrow>
     sfind ''filename='' (pre @ ''filename='') = Some (length pre) \<and> CHR ''\"'' \<notin> set y \<and>
     sfind (crlf @ crlf) (pre @ ''filename=\"'' @ y @ ''\"'' @ mid @ crlf @ crlf) =
       Some (length (pre @ ''filename=\"'' @ y @ ''\"'' @ mid)) \<and>
     sfind ''------'' (x @ crlf @ ''------'') = Some (length x + 2) \<and> fits (upload_body pre y mid x)"

lemma upload_body_parts:
  assumes "upload_body_ok pre y mid x"
  shows "find_filename (upload_body pre y mid x) = Ok y" "find_file_content (upload_body pre y mid x) = Ok x"
proof -
  note a = assms [unfolded upload_body_ok_def]
  have "find_filename (upload_body pre y mid x) = Ok y \<and>
      find_file_content (upload_body pre y mid x) = Ok (take (length (x @ crlf) - 2) (x @ crlf))"
    by (rule upload_parts [where tail = "''------''"]) (use a in \<open>simp_all add: upload_body_def\<close>)
  then show "find_filename (upload_body pre y mid x) = Ok y" "find_file_content (upload_body pre y mid x) = Ok x"
    by simp_all
qed

text \<open>
  C1. A file uploaded over HTTP can be downloaded over HTTP: the form is cut into name and content, the
  content is stored under a new identifier in the cells of the data server, the listing of the current
  folder gets one entry, and a request for the encoded name is answered with exactly the bytes uploaded.
\<close>

theorem web_upload_download:
  assumes "files_env E = primary_env a" "fuel E = Suc m" "online w u st" "username w = u" "userName st = u" "can_serve 6 (world w)"
    and "users_only (abs_store (tbl (world w)))" "last_of_path st = Ok d" "folder (abs_store (tbl (world w))) u (fi_id d) fs"
    and "f = new_file E y x" "entry_ok f" "y \<notin> fi_name ` set fs" "text_ok (listing (fs @ [f]))" "text_ok y"
    and "put_key (u, new_id E @ '':name'')" "put_key (u, new_id E @ '':content'')" "new_id E \<noteq> fi_id d"
    and "x \<noteq> []" "length x \<le> 950000" "can_open E (cstr (''./Test/'' @ y))" "upload_body_ok pre y mid x"
    and "respond_http E (post ''/upload'' (upload_body pre y mid x)) w = Ok (page, w')" "\<not> safe (CHR ''%'')"
  shows "snd (abs_store (tbl (world w'))) = (snd (abs_store (tbl (world w))))((u, fi_id d @ '':content'') \<mapsto> listing (fs @ [f]) @ crlf,
      (u, new_id E @ '':name'') \<mapsto> y @ crlf, (u, new_id E @ '':content'') \<mapsto> convert_binary_to_str x @ crlf) \<and>
    (\<exists>w''. respond_http E (get_page (url_encode safe (''/download?'' @ y))) w' = Ok (file_reply (web_response ''200'') y x, w''))"
proof -
  note parts = upload_body_parts [OF assms(21)]
  obtain w1 st' where up: "handle_upload E (web_response ''200'') (upload_body pre y mid x) w =
      see_other E (web_response ''200'') w1 ''/files'' ''./html/files.html''" and st1: "online w1 u st'" "username w1 = u" "can_serve 1 (world w1)" "map_at (files_in_path st') y = Some f"
    "snd (abs_store (tbl (world w1))) = (snd (abs_store (tbl (world w))))((u, fi_id d @ '':content'') \<mapsto> listing (fs @ [f]) @ crlf,
      (u, new_id E @ '':name'') \<mapsto> y @ crlf, (u, new_id E @ '':content'') \<mapsto> convert_binary_to_str x @ crlf)"
    using upload_served [OF assms(1-20) parts, where r = "web_response ''200''"] by blast
  have "w1 = w'"
    using assms(22) unfolding post_upload up by (auto simp: see_other_def user_page_def)
  note st' = st1 [unfolded this]
  have "\<exists>w''. reply_file E (web_response ''200'') y w' = Ok (file_reply (web_response ''200'') y x, w'')"
    by (rule download_served [OF assms(1,2), of _ st' _ f]) (use st' assms(10,16,18,19) in simp_all)
  then show ?thesis using st'(5) unfolding get_download [OF decode_path_append [where safe = safe, OF assms(23)]] by blast
qed

section \<open>Mail over HTTP\<close>

text \<open>
  C27. The mail form leads to exactly the commands of the SMTP client for a mail whose sender is the current
  user, whose recipient is the one typed and whose text is the subject line followed by the text typed,
  whatever characters they contain. The reply sends the browser to the mailbox, whatever the SMTP server says.
\<close>

theorem web_mail_sent:
  assumes "form_safe safe" "CHR ''='' \<notin> set (n1 @ n2 @ n3)" "smtp_sock E" "smtp_conn E"
  shows "respond_http E (post ''/newemail'' (n1 @ ''='' @ form_encode safe recipient @ ''&'' @ n2 @ ''='' @ form_encode safe subject @
      ''&'' @ n3 @ ''='' @ form_encode safe content)) w =
    see_other E (web_response ''200'')
      (w\<lparr>world := smtp_write E (smtp_commands (username w @ ''@localhost'') [recipient]
         (''Subject: '' @ subject @ crlf @ content @ crlf)) (world w)\<rparr>) ''/email'' ''./html/email.html''"
proof -
  have d: "decode_path ''/newemail'' = Ok ''/newemail''" by simp
  have "\<not> path_is ''/newemail'' ''/''" "\<not> path_is ''/newemail'' ''/upload''" "path_is ''/newemail'' ''/newemail''"
    by (simp_all add: path_is_def) (simp_all add: strcasecmp_eq_def cstr_def lower_def char_of_def bit_Suc_0_iff)
  then show ?thesis
    unfolding respond_post [OF d] handle_post_def handle_send_email_def form_fields [OF assms(1,2)]
    by (simp add: sendto_smpt_server_def assms(3,4) Let_def)
qed


section \<open>Concrete servers\<close>

definition demo_env :: "worker web_env" where
  "demo_env = \<lparr>files_env = primary_env (localhost 5000),
     mail_env = \<lparr>contact = \<lambda>_ _ b. ([], b), digest = \<lambda>s. s, master_at = []\<rparr>, fuel = 1, templates = \<lambda>_. Some ''page'',
     walk = (\<lambda>m. m), asc_time = ''now'', new_id = ''9'', new_time = ''t'', can_open = (\<lambda>_. True), smtp_sock = True,
     smtp_conn = True, smtp_write = (\<lambda>_ b. b), servers_txt = None, server_up = (\<lambda>_ _. False), state_reply = (\<lambda>_. []),
     tell = (\<lambda>_ _ b. b), launch = (\<lambda>_ b. b)\<rparr>"

lemma demo_env_simps [simp]:
  "files_env demo_env = primary_env (localhost 5000)" "fuel demo_env = Suc 0" "templates demo_env = (\<lambda>_. Some ''page'')"
  "walk demo_env = (\<lambda>m. m)" "new_id demo_env = ''9''" "new_time demo_env = ''t''" "can_open demo_env = (\<lambda>_. True)"
  "smtp_sock demo_env" "smtp_conn demo_env" "asc_time demo_env = ''now''"
  by (simp_all add: demo_env_def)

definition demo_web :: "(string, worker storage option) smap \<Rightarrow> worker \<Rightarrow> worker web" where
  "demo_web ss c = \<lparr>sessions = map (\<lambda>(u, _). (u, ''now'')) ss, username = [], all_storages = ss, inbox = [], outbox = [],
     web_servers = [], server_info = [], disk = [], world = c\<rparr>"

lemma demo_web_simps [simp]:
  "all_storages (demo_web ss c) = ss" "world (demo_web ss c) = c" "sessions (demo_web ss c) = map (\<lambda>(u, _). (u, ''now'')) ss"
  by (simp_all add: demo_web_def)

lemma demo_pages [simp]:
  "plain_page demo_env (web_response ''200'') w ''./html/signin_failed.html'' =
     Ok (''HTTP/1.1 200 OK'' @ crlf @ ''Content-type: text/html'' @ crlf @ crlf @ ''page'', w)"
  by (simp add: plain_page_def reply_page_def getHtml_def getlines_def reply_head_def status_text_def add_headers_def html_type_def
      web_response_def copy_to_def crlf_def cstr_def)

abbreviation demo_account :: worker where
  "demo_account \<equiv> demo_files [((''al'', ''password''), ''secret''), ((''al'', ''storage:content''), listing [demo_file]),
     ((''al'', ''7:content''), ''78'')]"

lemma demo_account_ok:
  "account (abs_store (tbl demo_account)) ''al'' ''secret'' [demo_file]" "can_serve 1000 demo_account"
  by (simp_all add: account_def demo_files_store demo_defs entry_ok_def field_ok_def fits_def npos_def)


theorem signin_exact_witness:
  "\<exists>w. respond_http demo_env (post ''/'' (account_form ''al'' ''secret=x'')) (demo_web [] demo_account) =
      user_page demo_env (web_response ''200'') w ''./html/signin_successful.html'' [] \<and>
    sessions w = [(''al'', ''now'')] \<and> (\<exists>st. map_at (all_storages w) ''al'' = Some (Some st) \<and> cur_path st = [root_folder])"
proof -
  have c: "can_serve 2 demo_account" by simp
  have h: "password_heard ''secret=x'' = ''secret''" by (simp add: password_heard_def)
  obtain b st where b: "cur_path st = [root_folder]"
    "respond_http demo_env (post ''/'' (account_form ''al'' ''secret=x'')) (demo_web [] demo_account) =
      user_page demo_env (web_response ''200'')
        ((demo_web [] demo_account)\<lparr>username := ''al'', world := b,
          all_storages := map_insert ''al'' (Some st) [], sessions := map_insert ''al'' ''now'' []\<rparr>) ''./html/signin_successful.html'' []"
    using signin_exact [of demo_env "localhost 5000" 0 "''al''" "''secret=x''" "demo_web [] demo_account" "''secret''" "[demo_file]"]
      demo_account_ok(1) c by (auto simp: account_word_def field_text_def h map_has_def)
  show ?thesis
    by (rule exI, rule conjI, rule b(2)) (simp add: b(1))
qed

abbreviation demo_signed_in :: "worker web" where
  "demo_signed_in \<equiv> demo_web [(''al'', Some (demo_storage [root_folder] [demo_file] demo_account))] demo_account"

lemma demo_online: "online demo_signed_in ''al'' (demo_storage [root_folder] [demo_file] demo_account)"
  by (simp add: online_def demo_storage_def)

theorem stranger_download_witness:
  "\<exists>page w1 w2. respond_http demo_env (post ''/'' (account_form ''al'' ''guess'')) demo_signed_in = Ok (page, w1) \<and>
    respond_http demo_env (get_page ''/download?a.txt'') w1 = Ok (file_reply (web_response ''200'') ''a.txt'' ''x'', w2)"
proof -
  have E: "files_env demo_env = primary_env (localhost 5000)" "addr_ok (localhost 5000)" "fuel demo_env = Suc 0" by simp_all
  have words: "account_word ''al''" "account_word ''guess''" by (simp_all add: account_word_def)
  have c: "can_serve 2 (world demo_signed_in)" by simp
  have acc: "account (abs_store (tbl (world demo_signed_in))) ''al'' ''secret'' [demo_file]" using demo_account_ok(1) by simp
  obtain b where b: "enter demo_env sign_in (account_form ''al'' ''guess'') demo_signed_in =
      Ok (False, demo_signed_in\<lparr>username := ''al'', world := b\<rparr>)"
    using enter_word [OF E words c acc] by (auto simp: Let_def)
  have "decode_path ''/'' = Ok ''/''" by simp
  then have r: "\<exists>page w1. respond_http demo_env (post ''/'' (account_form ''al'' ''guess'')) demo_signed_in = Ok (page, w1)"
    using b by (simp add: respond_post handle_post_def path_is_def handle_signin_def is_logged_in_def)
  then obtain page w1 where w1: "respond_http demo_env (post ''/'' (account_form ''al'' ''guess'')) demo_signed_in = Ok (page, w1)"
    by blast
  have "sessions w1 = sessions demo_signed_in \<and>
    (\<exists>w2. respond_http demo_env (get_page ''/download?a.txt'') w1 = Ok (file_reply (web_response ''200'') ''a.txt'' ''x'', w2))"
    by (rule stranger_download [OF E words _ c acc demo_online _ _ _ _ _ _ w1, where f = demo_file])
      (simp_all add: demo_files_store demo_defs files_insert_def map_has_def convert_binary_to_str_def hex_byte_def hex_digit_def
        char_of_def bit_Suc_0_iff)
  then show ?thesis using w1 by blast
qed


lemma demo_user_page: "\<exists>s. user_page demo_env r w address [] = Ok (s, w)"
proof -
  have "str_replace ''page'' ''$user'' v = Ok ''page''" for v
    by (simp add: str_replace_def replace_loop.simps find_def npos_def)
  then show ?thesis
    by (simp add: user_page_def replace_reply_def replace_get_html_def getlines_def to_map_def)
qed

abbreviation demo_empty :: worker where
  "demo_empty \<equiv> demo_files [((''al'', ''storage:content''), [])]"

abbreviation demo_at_work :: "worker web" where
  "demo_at_work \<equiv> (demo_web [(''al'', Some (demo_storage [root_folder] [] demo_empty))] demo_empty)\<lparr>username := ''al''\<rparr>"

theorem web_upload_download_witness:
  "\<exists>page w' w''. respond_http demo_env (post ''/upload'' (upload_body [] ''b.txt'' [] ''xyz'')) demo_at_work = Ok (page, w') \<and>
    respond_http demo_env (get_page ''/download?b.txt'') w' = Ok (file_reply (web_response ''200'') ''b.txt'' ''xyz'', w'')"
proof -
  let ?w = demo_at_work and ?st = "demo_storage [root_folder] [] demo_empty" and ?f = "new_file demo_env ''b.txt'' ''xyz''"
  have E: "files_env demo_env = primary_env (localhost 5000)" "fuel demo_env = Suc 0" by simp_all
  have size: "content_size ''xyz'' = ''3B''"
    by (simp add: content_size_def show_nat.simps digit_char_def char_of_def bit_Suc_0_iff)
  have o: "online ?w ''al'' ?st" "username ?w = ''al''" "userName ?st = ''al''" "can_serve 6 (world ?w)"
    "users_only (abs_store (tbl (world ?w)))" "last_of_path ?st = Ok root_folder"
    by (simp_all add: online_def demo_storage_def demo_files_store users_only_def last_of_path_def path_at_def npos_def)
  have st: "folder (abs_store (tbl (world ?w))) ''al'' (fi_id root_folder) []"
    by (simp add: demo_files_store demo_defs root_folder_def)
  have f: "entry_ok ?f" "''b.txt'' \<notin> fi_name ` set []" "text_ok (listing ([] @ [?f]))" "text_ok ''b.txt''"
    "put_key (''al'', new_id demo_env @ '':name'')" "put_key (''al'', new_id demo_env @ '':content'')"
    "new_id demo_env \<noteq> fi_id root_folder" "''xyz'' \<noteq> []" "length ''xyz'' \<le> 950000" "can_open demo_env (cstr (''./Test/'' @ ''b.txt''))"
    by (simp_all add: entry_ok_def field_ok_def fits_def npos_def new_file_def file_line_def size demo_defs root_folder_def)
  have b: "upload_body_ok [] ''b.txt'' [] ''xyz''"
    by (simp add: upload_body_ok_def upload_body_def crlf_def fits_def npos_def)
  obtain w1 where "handle_upload demo_env (web_response ''200'') (upload_body [] ''b.txt'' [] ''xyz'') ?w =
      see_other demo_env (web_response ''200'') w1 ''/files'' ''./html/files.html''"
    using upload_served [OF E o st refl f upload_body_parts [OF b]] by blast
  then obtain page where p: "respond_http demo_env (post ''/upload'' (upload_body [] ''b.txt'' [] ''xyz'')) ?w = Ok (page, w1)"
    unfolding post_upload see_other_def using demo_user_page by metis
  have "\<exists>w''. respond_http demo_env (get_page (url_encode (\<lambda>c. c \<noteq> CHR ''%'') (''/download?'' @ ''b.txt''))) w1 =
      Ok (file_reply (web_response ''200'') ''b.txt'' ''xyz'', w'')"
    using web_upload_download [OF E o st refl f b p, where safe = "\<lambda>c. c \<noteq> CHR ''%''"] by blast
  then show ?thesis using p by (auto simp: url_encode_def)
qed

theorem web_mail_sent_witness:
  "\<exists>s w. respond_http demo_env (post ''/newemail'' ''email=bo@localhost&subject=hello+there&content=a%26b'') demo_at_work = Ok (s, w)"
proof -
  let ?safe = "\<lambda>c. c \<notin> {CHR ''%'', CHR ''+'', CHR ''&''}"
  have "form_safe ?safe" by (simp add: form_safe_def)
  from web_mail_sent [OF this, of "''email''" "''subject''" "''content''" demo_env "''bo@localhost''" "''hello there''" "''a&b''" demo_at_work]
  have "\<exists>w. respond_http demo_env (post ''/newemail'' ''email=bo@localhost&subject=hello+there&content=a%26b'') demo_at_work =
      see_other demo_env (web_response ''200'') w ''/email'' ''./html/email.html''"
    by (auto simp: form_encode_def url_byte_def url_digit_def char_of_def bit_Suc_0_iff)
  then show ?thesis unfolding see_other_def using demo_user_page by metis
qed


section \<open>Sequences of requests\<close>

definition web_start :: "'b \<Rightarrow> 'b web" where
  "web_start b = \<lparr>sessions = [], username = [], all_storages = [], inbox = [], outbox = [], web_servers = [], server_info = [],
     disk = [], world = b\<rparr>"

text \<open>What the invariant says of a signed-in client: the storage it is given is that of its own user.\<close>

lemma web_ok_session:
  assumes ok: "web_ok w" and c: "map_at cookies ''username'' = Some u" "map_has (sessions w) u"
  shows "(\<forall>v. map_has (all_storages w) v = map_has (sessions w) v) \<and>
    (\<exists>w1 st. is_logged_in cookies w = (True, w1) \<and> username w1 = u \<and> map_at (all_storages w1) u = Some (Some st) \<and> userName st = u)"
proof -
  obtain so where so: "map_at (all_storages w) u = Some so" using c(2) ok by (auto simp: web_ok_def map_has_def)
  then obtain st where "so = Some st" "userName st = u" using ok so unfolding web_ok_def by blast
  then show ?thesis using ok so c by (auto simp: is_logged_in_def web_ok_def)
qed

lemma web_ok_start: "web_ok (web_start b)"
  by (simp add: web_ok_def web_start_def map_has_def)

lemma demo_signs_in:
  "\<exists>s w. respond_http demo_env (post ''/'' (account_form ''al'' ''secret'')) (web_start demo_account) = Ok (s, w) \<and>
     map_has (sessions w) ''al''"
proof -
  have E: "files_env demo_env = primary_env (localhost 5000)" "addr_ok (localhost 5000)" "fuel demo_env = Suc 0" by simp_all
  have words: "account_word ''al''" "account_word ''secret''" by (simp_all add: account_word_def)
  have c: "can_serve 2 (world (web_start demo_account))" by (simp add: web_start_def)
  have acc: "account (abs_store (tbl (world (web_start demo_account)))) ''al'' ''secret'' [demo_file]"
    using demo_account_ok(1) by (simp add: web_start_def)
  obtain w2 where w2: "enter demo_env sign_in (account_form ''al'' ''secret'') (web_start demo_account) = Ok (True, w2)"
    "map_has (sessions w2) ''al''"
    using enter_word [OF E words c acc] by (auto simp: Let_def map_has_def)
  have d: "decode_path ''/'' = Ok ''/''" by simp
  obtain s where "user_page demo_env (web_response ''200'') w2 ''./html/signin_successful.html'' [] = Ok (s, w2)"
    using demo_user_page by blast
  then show ?thesis
    using w2 by (auto simp: respond_post [OF d] handle_post_def path_is_def handle_signin_def is_logged_in_def)
qed

text \<open>
  C40. Any client can end the server: a request for \<open>/kill\<close> at any time, a download before anybody has
  signed in (a null pointer), and a request for a mail of somebody whose mailbox has not been shown (an
  exception nobody catches).
\<close>

theorem stranger_ends_server:
  "respond_http E (get_page ''/kill'') w = Throw Killed \<and>
   respond_http E (get_page ''/download?a'') (web_start b) = Throw Null_deref \<and>
   respond_http E (get_page ''/showinbox?id=0'') (web_start b) = Throw Out_of_range"
proof -
  note txts = path_is_def path_begins_def strcasecmp_eq_def cstr_def lower_def char_of_def bit_Suc_0_iff
  have d: "decode_path ''/kill'' = Ok ''/kill''" "decode_path ''/showinbox?id=0'' = Ok ''/showinbox?id=0''" by simp_all
  have "respond_http E (get_page ''/kill'') w = Throw Killed"
    unfolding respond_get [OF d(1)] handle_get_def by (simp add: txts)
  moreover have "respond_http E (get_page ''/download?a'') (web_start b) = Throw Null_deref"
    using get_download [of "''/download?a''" "''a''" E "web_start b"]
    by (simp add: reply_file_def with_storage_def web_start_def)
  moreover have "respond_http E (get_page ''/showinbox?id=0'') (web_start b) = Throw Out_of_range"
    unfolding respond_get [OF d(2)] handle_get_def
    by (simp add: txts) (simp add: show_mail_def parse_mailid_def after_char_def email_at_def web_start_def)
  ultimately show ?thesis by blast
qed


end
