(* ===== verification/Accept_Loop.thy ===== *)
theory Accept_Loop
  imports Prelude "HOL-Library.Multiset"
begin

text \<open>
  The loop that accepts connections in \<open>frontendServer/frontend.cc\<close> and in \<open>webmail/server.cc\<close>. Every
  connection gets a thread of its own, which takes the descriptor from the local variable of the loop,
  whose address it was given. A run is a sequence of events: the loop accepts a connection, a thread
  reads the variable, a thread serves its connection. The operating system decides their order. A connection
  is served in one step, so what is stated of the shared state holds of runs that serve one connection
  after another; the threads' other steps come in any order. A failed \<open>accept\<close> is left out.
\<close>

section \<open>The loop and its threads\<close>

datatype loop_thread = Created | Has nat | Ended nat

record 'w accept_loop =
  client_fd :: nat
  loop_threads :: "loop_thread list"
  shared :: "'w"
  served :: "(nat \<times> string) list"

text \<open>
  The worker function is two steps: it copies the descriptor, then it serves the connection. \<open>serve\<close> is
  what serving does to the shared state and what it writes; it is one step, so interleavings inside it are
  left out. An uncaught exception ends the process, a connection that never ends only keeps its thread.
\<close>

datatype 'x loop_event =
    Accepts nat
  | Copies nat
  | Serves nat 'x

definition accept_step :: "nat \<Rightarrow> 'w accept_loop \<Rightarrow> 'w accept_loop" where
  "accept_step fd fe = fe\<lparr>client_fd := fd, loop_threads := loop_threads fe @ [Created]\<rparr>"

definition copy_step :: "nat \<Rightarrow> 'w accept_loop \<Rightarrow> 'w accept_loop" where
  "copy_step i fe =
     (if i < length (loop_threads fe) \<and> loop_threads fe ! i = Created
      then fe\<lparr>loop_threads := (loop_threads fe)[i := Has (client_fd fe)]\<rparr> else fe)"

definition serve_step :: "('x \<Rightarrow> 'w \<Rightarrow> (string \<times> 'w) res) \<Rightarrow> nat \<Rightarrow> 'x \<Rightarrow> 'w accept_loop \<Rightarrow> 'w accept_loop res" where
  "serve_step serve i x fe =
     (if i < length (loop_threads fe) then
        (case loop_threads fe ! i of
           Has fd \<Rightarrow>
             (case serve x (shared fe) of
                Ok (s, w) \<Rightarrow>
                  Ok (fe\<lparr>loop_threads := (loop_threads fe)[i := Ended fd], shared := w, served := served fe @ [(fd, s)]\<rparr>)
              | Throw e \<Rightarrow> Throw e
              | Block \<Rightarrow> Ok fe)
         | _ \<Rightarrow> Ok fe)
      else Ok fe)"

fun loop_step :: "('x \<Rightarrow> 'w \<Rightarrow> (string \<times> 'w) res) \<Rightarrow> 'x loop_event \<Rightarrow> 'w accept_loop \<Rightarrow> 'w accept_loop res" where
  "loop_step serve (Accepts fd) fe = Ok (accept_step fd fe)"
| "loop_step serve (Copies i) fe = Ok (copy_step i fe)"
| "loop_step serve (Serves i x) fe = serve_step serve i x fe"

fun loop_run :: "('x \<Rightarrow> 'w \<Rightarrow> (string \<times> 'w) res) \<Rightarrow> 'x loop_event list \<Rightarrow> 'w accept_loop \<Rightarrow> 'w accept_loop res" where
  "loop_run serve [] fe = Ok fe"
| "loop_run serve (ev # evs) fe = and_then (loop_step serve ev fe) (loop_run serve evs)"

definition loop_start :: "'w \<Rightarrow> 'w accept_loop" where
  "loop_start w = \<lparr>client_fd = 0, loop_threads = [], shared = w, served = []\<rparr>"

lemma loop_run_append:
  "loop_run serve (xs @ ys) fe = and_then (loop_run serve xs fe) (loop_run serve ys)"
proof (induction xs arbitrary: fe)
  case (Cons ev xs)
  then show ?case by (cases "loop_step serve ev fe") simp_all
qed simp

text \<open>The cases of a step that changes something.\<close>

lemma copy_step_cases:
  obtains "copy_step i fe = fe"
  | "i < length (loop_threads fe)" "loop_threads fe ! i = Created"
    "copy_step i fe = fe\<lparr>loop_threads := (loop_threads fe)[i := Has (client_fd fe)]\<rparr>"
  by (cases "i < length (loop_threads fe) \<and> loop_threads fe ! i = Created") (simp_all add: copy_step_def)

lemma serve_step_cases:
  assumes "serve_step serve i x fe = Ok fe'"
  obtains "fe' = fe"
  | fd s w where "i < length (loop_threads fe)" "loop_threads fe ! i = Has fd"
    "serve x (shared fe) = Ok (s, w)"
    "fe' = fe\<lparr>loop_threads := (loop_threads fe)[i := Ended fd], shared := w, served := served fe @ [(fd, s)]\<rparr>"
  using assms unfolding serve_step_def
  by (auto split: if_splits loop_thread.splits res.splits)

text \<open>A property that every event keeps holds after every run.\<close>

lemma loop_run_induct:
  assumes "loop_run serve evs fe = Ok fe'" "P fe"
    and "\<And>ev fe fe'. ev \<in> set evs \<Longrightarrow> P fe \<Longrightarrow> loop_step serve ev fe = Ok fe' \<Longrightarrow> P fe'"
  shows "P fe'"
  using assms
proof (induction evs arbitrary: fe)
  case Nil
  then show ?case by simp
next
  case (Cons ev evs)
  from Cons.prems(1) obtain fe1 where fe1: "loop_step serve ev fe = Ok fe1" "loop_run serve evs fe1 = Ok fe'"
    by auto
  have "P fe1" using Cons.prems(2,3) fe1(1) by (meson list.set_intros(1))
  then show ?case using Cons.IH [OF fe1(2)] Cons.prems(3) by (meson list.set_intros(2))
qed

section \<open>Which thread serves which connection\<close>

fun accepted :: "'x loop_event list \<Rightarrow> nat list" where
  "accepted [] = []"
| "accepted (Accepts fd # evs) = fd # accepted evs"
| "accepted (_ # evs) = accepted evs"

text \<open>A run in which the loop never accepts before the thread of the last connection has read the variable.\<close>

definition may_follow :: "'x loop_event \<Rightarrow> 'w accept_loop \<Rightarrow> bool" where
  "may_follow ev fe = (case ev of Accepts fd \<Rightarrow> Created \<notin> set (loop_threads fe) | _ \<Rightarrow> True)"

fun prompt :: "('x \<Rightarrow> 'w \<Rightarrow> (string \<times> 'w) res) \<Rightarrow> 'x loop_event list \<Rightarrow> 'w accept_loop \<Rightarrow> bool" where
  "prompt serve [] fe = True"
| "prompt serve (ev # evs) fe =
     (may_follow ev fe \<and> (case loop_step serve ev fe of Ok fe' \<Rightarrow> prompt serve evs fe' | _ \<Rightarrow> True))"

fun ended :: "loop_thread \<Rightarrow> nat list" where
  "ended (Ended fd) = [fd]"
| "ended _ = []"

definition own_thread :: "nat list \<Rightarrow> 'w accept_loop \<Rightarrow> bool" where
  "own_thread acc fe \<longleftrightarrow>
     length (loop_threads fe) = length acc \<and>
     (\<forall>i < length acc. loop_threads fe ! i \<in> {Has (acc ! i), Ended (acc ! i)} \<or>
        loop_threads fe ! i = Created \<and> Suc i = length acc \<and> client_fd fe = acc ! i) \<and>
     mset (map fst (served fe)) = mset (concat (map ended (loop_threads fe)))"

lemma ended_update:
  "i < length ts \<Longrightarrow> ended (ts ! i) = [] \<Longrightarrow>
     mset (concat (map ended (ts[i := t]))) = mset (concat (map ended ts)) + mset (ended t)"
proof (induction ts arbitrary: i)
  case Nil
  then show ?case by simp
next
  case (Cons x ts)
  then show ?case by (cases i) (simp_all add: add.commute add.left_commute)
qed

lemma own_thread_step:
  assumes "own_thread acc fe" "may_follow ev fe" "loop_step serve ev fe = Ok fe'"
  shows "own_thread (acc @ accepted [ev]) fe'"
proof (cases ev)
  case (Accepts fd)
  have "Created \<notin> set (loop_threads fe)" using assms(2) Accepts by (simp add: may_follow_def)
  then have "\<forall>i < length acc. loop_threads fe ! i \<noteq> Created"
    using assms(1) by (metis nth_mem own_thread_def)
  moreover have "fe' = accept_step fd fe" using assms(3) Accepts by simp
  ultimately show ?thesis
    using assms(1) Accepts by (auto simp: own_thread_def accept_step_def nth_append less_Suc_eq)
next
  case (Copies i)
  have "fe' = copy_step i fe" using assms(3) Copies by simp
  then show ?thesis
    using assms(1) Copies ended_update [of i "loop_threads fe" "Has (client_fd fe)"]
    by (cases rule: copy_step_cases [of i fe]) (auto simp: own_thread_def nth_list_update)
next
  case (Serves i x)
  then have "serve_step serve i x fe = Ok fe'" using assms(3) by simp
  then show ?thesis
  proof (cases rule: serve_step_cases)
    case 1
    then show ?thesis using assms(1) Serves by simp
  next
    case (2 fd s w)
    then show ?thesis
      using assms(1) Serves ended_update [of i "loop_threads fe" "Ended fd"]
      by (auto simp: own_thread_def nth_list_update)
  qed
qed

lemma accepted_Cons: "accepted (ev # evs) = accepted [ev] @ accepted evs"
  by (cases ev) simp_all

lemma own_thread_run:
  "loop_run serve evs fe = Ok fe' \<Longrightarrow> prompt serve evs fe \<Longrightarrow> own_thread acc fe \<Longrightarrow> own_thread (acc @ accepted evs) fe'"
proof (induction evs arbitrary: fe acc)
  case Nil
  then show ?case by simp
next
  case (Cons ev evs)
  from Cons.prems(1) obtain fe1 where fe1: "loop_step serve ev fe = Ok fe1" "loop_run serve evs fe1 = Ok fe'"
    by auto
  have "own_thread (acc @ accepted [ev]) fe1"
    using own_thread_step [OF Cons.prems(3) _ fe1(1)] Cons.prems(2) by simp
  moreover have "prompt serve evs fe1" using Cons.prems(2) fe1(1) by simp
  ultimately show ?case
    using Cons.IH [OF fe1(2), of "acc @ accepted [ev]"] unfolding accepted_Cons [of ev evs] by simp
qed

lemma loop_served:
  assumes "loop_run serve evs (loop_start w) = Ok fe" "prompt serve evs (loop_start w)"
  shows "length (loop_threads fe) = length (accepted evs) \<and>
    (\<forall>i < length (accepted evs). loop_threads fe ! i \<in> {Created, Has (accepted evs ! i), Ended (accepted evs ! i)}) \<and>
    mset (map fst (served fe)) = mset (concat (map ended (loop_threads fe)))"
proof -
  have "own_thread [] (loop_start w)" by (simp add: own_thread_def loop_start_def)
  then have "own_thread (accepted evs) fe" using own_thread_run [OF assms, of "[]"] by simp
  then show ?thesis by (auto simp: own_thread_def)
qed

definition lost :: "nat \<Rightarrow> nat \<Rightarrow> nat \<Rightarrow> 'w accept_loop \<Rightarrow> bool" where
  "lost a b n fe \<longleftrightarrow>
     client_fd fe \<noteq> a \<and> Has a \<notin> set (loop_threads fe) \<and> Suc n < length (loop_threads fe) \<and>
     loop_threads fe ! n \<in> {Has b, Ended b} \<and> loop_threads fe ! Suc n \<in> {Has b, Ended b}"

lemma lost_step:
  assumes "lost a b n fe" "a \<notin> set (accepted [ev])" "loop_step serve ev fe = Ok fe'"
  shows "lost a b n fe' \<and> filter (\<lambda>c. fst c = a) (served fe') = filter (\<lambda>c. fst c = a) (served fe)"
proof (cases ev)
  case (Accepts fd)
  then show ?thesis using assms by (auto simp: lost_def accept_step_def nth_append)
next
  case (Copies i)
  then have "fe' = copy_step i fe" using assms(3) by simp
  then show ?thesis
    using assms(1) set_update_subset_insert [of "loop_threads fe" i "Has (client_fd fe)"]
    by (cases rule: copy_step_cases [of i fe]) (auto simp: lost_def nth_list_update)
next
  case (Serves i x)
  then have "serve_step serve i x fe = Ok fe'" using assms(3) by simp
  then show ?thesis
  proof (cases rule: serve_step_cases)
    case 1
    then show ?thesis using assms(1) by simp
  next
    case (2 fd s w)
    have "fd \<noteq> a" using 2(1,2) assms(1) nth_mem [of i "loop_threads fe"] by (auto simp: lost_def)
    then show ?thesis
      using assms(1) 2 set_update_subset_insert [of "loop_threads fe" i "Ended fd"]
      by (auto simp: lost_def nth_list_update)
  qed
qed

lemma lost_run:
  "loop_run serve evs fe = Ok fe' \<Longrightarrow> lost a b n fe \<Longrightarrow> a \<notin> set (accepted evs) \<Longrightarrow>
     lost a b n fe' \<and> filter (\<lambda>c. fst c = a) (served fe') = filter (\<lambda>c. fst c = a) (served fe)"
proof (induction evs arbitrary: fe)
  case Nil
  then show ?case by simp
next
  case (Cons ev evs)
  from Cons.prems(1) obtain fe1 where fe1: "loop_step serve ev fe = Ok fe1" "loop_run serve evs fe1 = Ok fe'"
    by auto
  have "a \<notin> set (accepted [ev])" "a \<notin> set (accepted evs)"
    using Cons.prems(3) unfolding accepted_Cons [of ev evs] by simp_all
  then show ?case using lost_step [OF Cons.prems(2) _ fe1(1)] Cons.IH [OF fe1(2)] by auto
qed

lemma loop_lost:
  assumes "loop_run serve ([Accepts a, Accepts b, Copies n, Copies (Suc n)] @ evs) fe = Ok fe'"
    and "n = length (loop_threads fe)" "a \<noteq> b" "Has a \<notin> set (loop_threads fe)" "a \<notin> set (accepted evs)"
  shows "loop_threads fe' ! n \<in> {Has b, Ended b} \<and> loop_threads fe' ! Suc n \<in> {Has b, Ended b} \<and>
    filter (\<lambda>c. fst c = a) (served fe') = filter (\<lambda>c. fst c = a) (served fe)"
proof -
  let ?fe = "fe\<lparr>client_fd := b, loop_threads := loop_threads fe @ [Has b, Has b]\<rparr>"
  have "loop_run serve [Accepts a, Accepts b, Copies n, Copies (Suc n)] fe = Ok ?fe"
    using assms(2) by (simp add: accept_step_def copy_step_def nth_append list_update_append)
  then have "loop_run serve evs ?fe = Ok fe'"
    using assms(1) unfolding loop_run_append by simp
  moreover have "lost a b n ?fe" using assms(2-4) by (auto simp: lost_def nth_append)
  ultimately show ?thesis using lost_run [of serve evs ?fe fe' a b n] assms(5) by (auto simp: lost_def)
qed

section \<open>What serving keeps\<close>

locale loop_service =
  fixes serve :: "'x \<Rightarrow> 'w \<Rightarrow> (string \<times> 'w) res"
    and good :: "'w \<Rightarrow> bool"
  assumes serve_keeps: "good w \<Longrightarrow> serve x w = Ok (s, w') \<Longrightarrow> good w'"
begin

lemma step_keeps:
  assumes "good (shared fe)" "loop_step serve ev fe = Ok fe'"
  shows "good (shared fe')"
proof (cases ev)
  case (Accepts fd)
  then show ?thesis using assms by (auto simp: accept_step_def)
next
  case (Copies i)
  then show ?thesis using assms by (auto simp: copy_step_def split: if_splits)
next
  case (Serves i x)
  then have "serve_step serve i x fe = Ok fe'" using assms(2) by simp
  then show ?thesis
  proof (cases rule: serve_step_cases)
    case 1
    then show ?thesis using assms(1) by simp
  next
    case (2 fd s w)
    then show ?thesis using serve_keeps [OF assms(1)] by simp
  qed
qed

lemma run_keeps: "good (shared fe) \<Longrightarrow> loop_run serve evs fe = Ok fe' \<Longrightarrow> good (shared fe')"
  by (rule loop_run_induct [where P = "\<lambda>fe. good (shared fe)"]) (auto intro: step_keeps)

end

end
