(* ===== verification/Web_Frontend.thy ===== *)
theory Web_Frontend
  imports Web_Service Accept_Loop
begin

text \<open>
  \<open>frontendServer/frontend.cc\<close>: the options, the loop that accepts connections, and the threads that
  serve them, as an instance of \<open>Accept_Loop\<close> whose shared state is the web server's. The runs are those in
  which a request is served as a whole before the next one; \<open>Web_Races\<close> takes the sign-in and the sign-up apart.
\<close>

section \<open>Start\<close>

text \<open>\<open>getopt\<close> reports the options \<open>p\<close> with a value and \<open>v\<close>, and everything else as a question mark.\<close>

datatype web_option = Port_option string | Verbose_option | Bad_option

datatype started = Exit int | Listening nat bool

fun web_options :: "web_option list \<Rightarrow> int \<times> bool \<Rightarrow> (int \<times> bool) option" where
  "web_options [] s = Some s"
| "web_options (Port_option optarg # os) (port, debug) = web_options os (atoi optarg, debug)"
| "web_options (Verbose_option # os) (port, debug) = web_options os (port, True)"
| "web_options (Bad_option # os) s = None"

text \<open>
  The results of \<open>socket\<close>, \<open>bind\<close> and \<open>listen\<close> are inputs. \<open>htons\<close> keeps sixteen bits of
  the port.
\<close>

definition web_main :: "web_option list \<Rightarrow> int \<Rightarrow> int \<Rightarrow> int \<Rightarrow> started" where
  "web_main os socket_rc bind_rc listen_rc =
     (case web_options os (8080, False) of
        None \<Rightarrow> Exit 1
      | Some (portNumber, debugInfo) \<Rightarrow>
          if socket_rc < 0 then Exit (-1)
          else if bind_rc < 0 then Exit (-2)
          else if listen_rc < 0 then Exit (-3)
          else Listening (nat (portNumber mod 65536)) debugInfo)"

section \<open>Writing a reply\<close>

text \<open>\<open>do_write\<close> of \<open>util.cc\<close>; it is the same loop as in the data server.\<close>

definition web_do_write :: "string \<Rightarrow> int list \<Rightarrow> (bool \<times> string) res" where
  "web_do_write buffer rcs = write_loop buffer 0 rcs"

section \<open>The loop and its threads\<close>

text \<open>A connection: the environment of the request, the rounds of reading, the reader's array and what the reads bring.\<close>

type_synonym 'b web_connection = "'b web_env \<times> nat \<times> string \<times> rd list"

definition serve_connection :: "'b web_connection \<Rightarrow> 'b web \<Rightarrow> 'b handled" where
  "serve_connection x w = (case x of (E, n, junk, es) \<Rightarrow> handle_connection E n junk es w)"

definition frontend_run :: "'b web_connection loop_event list \<Rightarrow> 'b web accept_loop \<Rightarrow> 'b web accept_loop res" where
  "frontend_run evs fe = loop_run serve_connection evs fe"

definition frontend_start :: "'b \<Rightarrow> 'b web accept_loop" where
  "frontend_start b = loop_start (web_start b)"

lemma connection_safe: "web_ok w \<Longrightarrow> keeps_ok (handle_connection E n junk es w)"
  unfolding handle_connection_def by (rule pure_bind) (rule respond_safe)

interpretation web_loop: loop_service serve_connection web_ok
proof
  fix w w' and x :: "'b web_connection" and s :: string
  assume w: "web_ok w" and r: "serve_connection x w = Ok (s, w')"
  obtain E n junk es where "x = (E, n, junk, es)" by (cases x)
  then show "web_ok w'" using connection_safe [OF w, of E n junk es] r by (simp add: serve_connection_def)
qed

text \<open>A sign-in whose bytes arrive in two pieces.\<close>

definition demo_reads :: "rd list" where
  "demo_reads = map Bytes [''POST / HT'', ''TP/1.1'' @ crlf @ ''Host: x'' @ crlf @ crlf @ account_form ''al'' ''secret''] @ map Bytes [] @ []"

lemma demo_request:
  "read_request 20 [] demo_reads = Ok ((post ''/'' (account_form ''al'' ''secret''))\<lparr>hr_version := ''HTTP/1.1'' @ [CR]\<rparr>)"
proof -
  have "read_request 20 [] demo_reads = reference_reads [] ''POST / HTTP/1.1'' [''Host: x''] (account_form ''al'' ''secret'') []"
    unfolding demo_reads_def
    by (rule request_pieces)
       (simp_all add: pieces_ok_def head_line_def crlf_def sock_read_def npos_def account_form_def)
  moreover have "\<not> strcasecmp_eq ''POST'' ''get''"
    by (simp add: strcasecmp_eq_def cstr_def lower_def char_of_def bit_Suc_0_iff)
  ultimately show ?thesis
    by (simp add: reference_reads_def parse_request_line_def strtok_def token_def header_effect_def empty_request_def crlf_def post_def)
qed

lemma respond_version:
  "take 8 v = hr_version req \<Longrightarrow> length (hr_version req) \<le> 8 \<Longrightarrow>
     respond_http E (req\<lparr>hr_version := v\<rparr>) w = respond_http E req w"
  by (simp add: respond_http_def Let_def cong: if_cong)

lemma demo_connection:
  "\<exists>s w. handle_connection demo_env 20 [] demo_reads (web_start demo_account) = Ok (s, w) \<and> map_has (sessions w) ''al''"
proof -
  have "handle_connection demo_env 20 [] demo_reads (web_start demo_account) =
      respond_http demo_env (post ''/'' (account_form ''al'' ''secret'')) (web_start demo_account)"
    unfolding handle_connection_def demo_request and_then.simps
    by (rule respond_version) (simp_all add: post_def)
  then show ?thesis using demo_signs_in by simp
qed

text \<open>
  C28. When every thread reads the descriptor before the loop accepts again, thread number i serves the
  connection number i and no other, and the connections that were answered are exactly those whose
  thread has ended, each once.
\<close>

theorem connections_served:
  assumes "frontend_run evs (frontend_start b) = Ok fe" "prompt serve_connection evs (frontend_start b)"
  shows "length (loop_threads fe) = length (accepted evs) \<and>
    (\<forall>i < length (accepted evs). loop_threads fe ! i \<in> {Created, Has (accepted evs ! i), Ended (accepted evs ! i)}) \<and>
    mset (map fst (served fe)) = mset (concat (map ended (loop_threads fe)))"
  using loop_served [OF assms [unfolded frontend_run_def frontend_start_def]] .

text \<open>
  All threads are given the address of one variable. When the loop accepts a second connection before
  the first one's thread has read it, both threads serve the second connection, and the first is never
  served, whatever happens afterwards.
\<close>

theorem connection_lost:
  assumes "frontend_run ([Accepts a, Accepts b, Copies n, Copies (Suc n)] @ evs) fe = Ok fe'"
    and "n = length (loop_threads fe)" "a \<noteq> b" "Has a \<notin> set (loop_threads fe)" "a \<notin> set (accepted evs)"
  shows "loop_threads fe' ! n \<in> {Has b, Ended b} \<and> loop_threads fe' ! Suc n \<in> {Has b, Ended b} \<and>
    filter (\<lambda>c. fst c = a) (served fe') = filter (\<lambda>c. fst c = a) (served fe)"
  using loop_lost [OF assms(1) [unfolded frontend_run_def] assms(2-)] .



text \<open>
  C16. When the requests are served one after another, in whatever order and on whatever connections, a client
  whose cookie names a session gets a storage, and that storage belongs to the user the cookie names;
  storages and sessions are those of the same users. Here a request is served in one step; with two requests
  at work at the same time this fails, as \<open>signins_mixed\<close> in \<open>Web_Races\<close> shows of two sign-ins.
\<close>

theorem sessions_in_runs:
  assumes "frontend_run evs (frontend_start b) = Ok fe"
    and "map_at cookies ''username'' = Some u" "map_has (sessions (shared fe)) u"
  shows "(\<forall>v. map_has (all_storages (shared fe)) v = map_has (sessions (shared fe)) v) \<and>
    (\<exists>w st. is_logged_in cookies (shared fe) = (True, w) \<and> username w = u \<and>
       map_at (all_storages w) u = Some (Some st) \<and> userName st = u)"
proof (rule web_ok_session [OF _ assms(2,3)])
  have "web_ok (shared (frontend_start b))" by (simp add: frontend_start_def loop_start_def web_ok_start)
  then show "web_ok (shared fe)" using assms(1) unfolding frontend_run_def by (rule web_loop.run_keeps)
qed

section \<open>The properties on concrete runs\<close>

lemmas loop_defs = frontend_run_def frontend_start_def loop_start_def accept_step_def copy_step_def serve_step_def serve_connection_def

theorem connections_served_witness:
  "\<exists>fe. frontend_run [Accepts 4, Copies 0, Accepts 5, Copies 1, Serves 1 (demo_env, 20, [], demo_reads)] (frontend_start demo_account) = Ok fe \<and>
     loop_threads fe ! 0 \<in> {Created, Has 4, Ended 4} \<and> map fst (served fe) = [5]"
proof -
  obtain s w where "handle_connection demo_env 20 [] demo_reads (web_start demo_account) = Ok (s, w)"
    using demo_connection by blast
  then obtain fe where fe: "frontend_run [Accepts 4, Copies 0, Accepts 5, Copies 1, Serves 1 (demo_env, 20, [], demo_reads)] (frontend_start demo_account) = Ok fe"
    "loop_threads fe = [Has 4, Ended 5]" "served fe = [(5, s)]"
    by (simp add: loop_defs)
  have "prompt serve_connection [Accepts 4, Copies 0, Accepts 5, Copies 1, Serves 1 (demo_env, 20, [], demo_reads)] (frontend_start demo_account)"
    by (simp add: may_follow_def loop_defs split: res.splits)
  from connections_served [OF fe(1) this] show ?thesis using fe by auto
qed

theorem connection_lost_witness:
  "\<exists>fe. frontend_run ([Accepts 4, Accepts 5, Copies 0, Copies (Suc 0)] @ [Serves 0 (demo_env, 20, [], demo_reads)]) (frontend_start demo_account) = Ok fe \<and>
     loop_threads fe ! 0 \<in> {Has 5, Ended 5} \<and> filter (\<lambda>c. fst c = 4) (served fe) = []"
proof -
  obtain s w where "handle_connection demo_env 20 [] demo_reads (web_start demo_account) = Ok (s, w)"
    using demo_connection by blast
  then obtain fe where fe: "frontend_run ([Accepts 4, Accepts 5, Copies 0, Copies (Suc 0)] @ [Serves 0 (demo_env, 20, [], demo_reads)]) (frontend_start demo_account) = Ok fe"
    by (simp add: loop_defs)
  show ?thesis
    using connection_lost [OF fe] fe by (auto simp: loop_defs)
qed

theorem sessions_in_runs_witness:
  "\<exists>fe w st. frontend_run [Accepts 4, Copies 0, Serves 0 (demo_env, 20, [], demo_reads)] (frontend_start demo_account) = Ok fe \<and>
     is_logged_in [(''username'', ''al'')] (shared fe) = (True, w) \<and> map_at (all_storages w) ''al'' = Some (Some st) \<and>
     userName st = ''al''"
proof -
  obtain s w where w: "handle_connection demo_env 20 [] demo_reads (web_start demo_account) = Ok (s, w)" "map_has (sessions w) ''al''"
    using demo_connection by blast
  then obtain fe where fe: "frontend_run [Accepts 4, Copies 0, Serves 0 (demo_env, 20, [], demo_reads)] (frontend_start demo_account) = Ok fe"
    "shared fe = w"
    by (simp add: loop_defs)
  show ?thesis
    using sessions_in_runs [OF fe(1), of "[(''username'', ''al'')]" "''al''"] w(2) fe by auto
qed

end
