(* ===== verification/Web_Races.thy ===== *)
theory Web_Races
  imports Web_Frontend
begin

text \<open>
  Sign-ins and sign-ups of several threads of the web server, statement by statement. The name of the user is
  one global variable (\<open>username\<close> in \<open>frontendServer/response.cc\<close>): \<open>handle_signin\<close> and \<open>handle_signup\<close> write it
  and read it again after every call of the data server, without a lock, so the name a thread reads may be
  that of another one. The handlers of \<open>Web_Server\<close> are what these statements do when no other thread runs
  in between.
\<close>

section \<open>The statements\<close>

text \<open>
  Where a thread is: \<open>Waiting\<close> has the form, \<open>Named\<close> has written the name, \<open>Made\<close> has its \<open>Storage\<close>, \<open>Tried\<close> knows
  whether the account operation succeeded, \<open>First_done\<close> has changed the first of the two tables. Each step
  reads the name as it is then.
\<close>

datatype 'b entry_place =
    Waiting string
  | Named string
  | Made string "'b storage"
  | Tried bool "'b storage"
  | First_done "'b storage"
  | Entered bool

text \<open>The session that \<open>sessions[username] = get_time()\<close> records.\<close>

definition insert_session :: "'b web_env \<Rightarrow> 'b web \<Rightarrow> 'b web" where
  "insert_session E w = w\<lparr>sessions := map_insert (username w) (asc_time E) (sessions w)\<rparr>"

text \<open>
  \<open>signup\<close> says which handler it is: they differ in the account operation and in the order of the two
  tables. A storage acts on the data store as it is now.
\<close>

definition entry_section :: "'b web_env \<Rightarrow> bool \<Rightarrow> 'b entry_place \<Rightarrow> 'b web \<Rightarrow> ('b entry_place \<times> 'b web) res" where
  "entry_section E signup pl w =
     (case pl of
        Waiting message \<Rightarrow>
          and_then (parse_account message) (\<lambda>(u, password). Ok (Named password, w\<lparr>username := u\<rparr>))
      | Named password \<Rightarrow>
          and_then (new_Storage (files_env E) (username w) (world w)) (\<lambda>s. Ok (Made password s, world_of s w))
      | Made password s \<Rightarrow>
          and_then ((if signup then resgister else sign_in) (files_env E) (fuel E) (username w) password
              (s\<lparr>peer := map_option (\<lambda>_. world w) (peer s)\<rparr>)) (\<lambda>(ok, s1).
            Ok (Tried ok s1, world_of s1 w))
      | Tried ok s \<Rightarrow>
          if ok then Ok (First_done s, if signup then insert_session E w else insert_storage (username w) s w)
          else Ok (Entered False, w)
      | First_done s \<Rightarrow> Ok (Entered True, if signup then insert_storage (username w) s w else insert_session E w)
      | Entered ok \<Rightarrow> Ok (Entered ok, w))"

text \<open>The threads and which of them takes the next statement.\<close>

record 'b entries =
  entry_threads :: "(bool \<times> 'b entry_place) list"
  entry_web :: "'b web"

definition entry_step :: "'b web_env \<Rightarrow> nat \<Rightarrow> 'b entries \<Rightarrow> 'b entries res" where
  "entry_step E i en =
     (if i < length (entry_threads en) then
        (case entry_threads en ! i of (signup, pl) \<Rightarrow>
           and_then (entry_section E signup pl (entry_web en)) (\<lambda>(pl', w).
             Ok (en\<lparr>entry_threads := (entry_threads en)[i := (signup, pl')], entry_web := w\<rparr>)))
      else Ok en)"

fun entry_run :: "'b web_env \<Rightarrow> nat list \<Rightarrow> 'b entries \<Rightarrow> 'b entries res" where
  "entry_run E [] en = Ok en"
| "entry_run E (i # is) en = and_then (entry_step E i en) (entry_run E is)"

definition alone_entry :: "bool \<Rightarrow> string \<Rightarrow> 'b web \<Rightarrow> 'b entries" where
  "alone_entry signup message w = \<lparr>entry_threads = [(signup, Waiting message)], entry_web = w\<rparr>"

lemmas entry_defs = entry_section_def entry_step_def

lemma entry_cons:
  assumes "i < length (entry_threads en)" "entry_threads en ! i = (k, pl)" "entry_section E k pl (entry_web en) = Ok (pl', w)"
  shows "entry_run E (i # is) en = entry_run E is (en\<lparr>entry_threads := (entry_threads en)[i := (k, pl')], entry_web := w\<rparr>)"
  using assms by (simp add: entry_step_def)

declare entry_run.simps(2) [simp del]

text \<open>The statements of a thread one by one.\<close>

lemma entry_sections:
  "parse_account m = Ok (u, p) \<Longrightarrow> entry_section E k (Waiting m) w = Ok (Named p, w\<lparr>username := u\<rparr>)"
  "new_Storage (files_env E) (username w) (world w) = Ok s \<Longrightarrow> peer s = Some b \<Longrightarrow>
     entry_section E k (Named p) w = Ok (Made p s, w\<lparr>world := b\<rparr>)"
  "(if k then resgister else sign_in) (files_env E) (fuel E) (username w) p s = Ok (ok, s1) \<Longrightarrow>
     peer s = Some (world w) \<Longrightarrow> peer s1 = Some b \<Longrightarrow>
     entry_section E k (Made p s) w = Ok (Tried ok s1, w\<lparr>world := b\<rparr>)"
  "entry_section E k (Tried False s) w = Ok (Entered False, w)"
  "entry_section E False (Tried True s) w = Ok (First_done s, insert_storage (username w) s w)"
  "entry_section E False (First_done s) w = Ok (Entered True, insert_session E w)"
  "entry_section E True (Tried True s) w = Ok (First_done s, insert_session E w)"
  "entry_section E True (First_done s) w = Ok (Entered True, insert_storage (username w) s w)"
  "entry_section E k (Entered ok) w = Ok (Entered ok, w)"
proof -
  assume a: "(if k then resgister else sign_in) (files_env E) (fuel E) (username w) p s = Ok (ok, s1)"
    "peer s = Some (world w)" "peer s1 = Some b"
  have "s\<lparr>peer := map_option (\<lambda>_. world w) (peer s)\<rparr> = s" using a(2) by simp
  then show "entry_section E k (Made p s) w = Ok (Tried ok s1, w\<lparr>world := b\<rparr>)"
    using a(1,3) unfolding entry_section_def by (simp add: world_of_def)
qed (simp_all add: entry_section_def world_of_def)

section \<open>A thread that is not disturbed\<close>

text \<open>The five statements in a row are the atomic handler's \<open>enter\<close>, while the storage stays connected.\<close>

lemma entry_alone:
  assumes "parse_account message = Ok (u, p)" "new_Storage (files_env E) u (world w) = Ok s" "peer s = Some b"
    and "(if signup then resgister else sign_in) (files_env E) (fuel E) u p s = Ok (ok, s1)" "peer s1 = Some b1"
  shows "\<exists>w'. entry_run E [0, 0, 0, 0, 0] (alone_entry signup message w) =
      Ok \<lparr>entry_threads = [(signup, Entered ok)], entry_web = w'\<rparr> \<and>
    enter E (if signup then resgister else sign_in) message w = Ok (ok, w')"
proof -
  note one = entry_cons [OF _ _ entry_sections(1) [OF assms(1)]]
    entry_cons [OF _ _ entry_sections(2) [OF _ assms(3)]] entry_cons [OF _ _ entry_sections(3) [OF _ _ assms(5)]]
  have run: "entry_run E [0, 0, 0, 0, 0] (alone_entry signup message w) =
      entry_run E [0, 0] \<lparr>entry_threads = [(signup, Tried ok s1)], entry_web = w\<lparr>username := u, world := b1\<rparr>\<rparr>"
    using assms by (simp add: alone_entry_def one)
  have enter: "enter E (if signup then resgister else sign_in) message w =
      Ok (ok, if ok then (insert_storage u s1 (w\<lparr>username := u, world := b1\<rparr>))\<lparr>sessions := map_insert u (asc_time E) (sessions w)\<rparr>
        else w\<lparr>username := u, world := b1\<rparr>)"
    unfolding enter_def assms(1) and_then.simps Let_def prod.case using assms(2,4,5) by (simp add: world_of_def)
  show ?thesis
    unfolding run enter
    by (cases ok; cases signup) (simp_all add: entry_cons [OF _ _ entry_sections(4)] entry_cons [OF _ _ entry_sections(5)]
        entry_cons [OF _ _ entry_sections(6)] entry_cons [OF _ _ entry_sections(7)] entry_cons [OF _ _ entry_sections(8)]
        entry_cons [OF _ _ entry_sections(9)] insert_session_def insert_storage_def)
qed

section \<open>Two sign-ins\<close>

text \<open>
  Two sign-ins at the same time: when a second thread writes its user's name after the first one's
  password was found right and before the tables are changed, the first thread's \<open>Storage\<close> and its session
  are recorded for the user of the second, whose password nobody has looked at. From then on the client with
  that user's cookie is served with the files of the first user.
\<close>

theorem signins_mixed:
  assumes "files_env E = primary_env a" "addr_ok a" "fuel E = Suc m" "account_word u" "account_word p"
    and "account_word v" "account_word q" "u \<noteq> v" "\<not> map_has (all_storages w) v"
    and "can_serve 2 (world w)" "account (abs_store (tbl (world w))) u p fs"
  shows "\<exists>en st w'. entry_run E [0, 0, 0, 1, 0, 0] \<lparr>entry_threads = [(False, Waiting (account_form u p)),
        (False, Waiting (account_form v q))], entry_web = w\<rparr> = Ok en \<and>
    entry_threads en = [(False, Entered True), (False, Named q)] \<and>
    sessions (entry_web en) = map_insert v (asc_time E) (sessions w) \<and>
    is_logged_in [(''username'', v)] (entry_web en) = (True, w') \<and>
    map_at (all_storages w') (username w') = Some (Some st) \<and> username w' = v \<and> userName st = u \<and>
    files_in_path st = foldl (\<lambda>m f. files_insert f m) [] fs"
proof -
  let ?s = "fresh_storage u (world w)" and ?E = "primary_env a"
  have n: "length u \<le> 80" using assms(4) by (simp add: account_word_def)
  have E: "exchange ?E = worker_exchange" by (simp add: primary_env_def)
  have l: "linked ?s (world w)" "userName ?s = u" "map_at (files_in_path ?s) ''storage'' = Some root_folder"
    by (simp_all add: fresh_storage_def linked_def)
  have c: "can_serve (Suc (Suc 0)) (world w)" using assms(10) by (simp add: numeral_2_eq_2)
  have acc: "name_small u" "snd (abs_store (tbl (world w))) (u, ''password'') = Some (p @ crlf)" "text_ok p"
    "folder (abs_store (tbl (world w))) u ''storage'' fs"
    using assms(11) by (simp_all add: account_def)
  obtain b where b: "sign_in ?E (Suc m) u p ?s = Ok (True, (moved_to ?s b)\<lparr>cur_path := cur_path ?s @ [root_folder],
      files_in_path := foldl (\<lambda>m f. files_insert f m) [] fs\<rparr>)"
    using dataserver.sign_in_effect [OF E l(1) c acc(1) l(2) acc(2,3) l(3) acc(4), of m p] by auto
  let ?st = "(moved_to ?s b)\<lparr>cur_path := cur_path ?s @ [root_folder], files_in_path := foldl (\<lambda>m f. files_insert f m) [] fs\<rparr>"
  have form: "parse_account (account_form u p) = Ok (u, p)" "parse_account (account_form v q) = Ok (v, q)"
    using assms(4-7) account_word_heard by (simp_all add: parse_account_form)
  have new: "new_Storage ?E u (world w) = Ok ?s" by (rule new_Storage_fresh [OF assms(2) n])
  have st: "peer ?s = Some (world w)" "peer ?st = Some b" "userName ?st = u"
    "files_in_path ?st = foldl (\<lambda>m f. files_insert f m) [] fs" "?s\<lparr>peer := Some (world w)\<rparr> = ?s"
    by (simp_all add: fresh_storage_def moved_to_def)
  let ?w' = "w\<lparr>username := v, world := b, all_storages := map_insert v (Some ?st) (all_storages w),
      sessions := map_insert v (asc_time E) (sessions w)\<rparr>"
  note one = entry_cons [OF _ _ entry_sections(1) [OF form(1)]] entry_cons [OF _ _ entry_sections(1) [OF form(2)]]
    entry_cons [OF _ _ entry_sections(2) [OF _ st(1)]] entry_cons [OF _ _ entry_sections(3) [OF _ _ st(2)]]
    entry_cons [OF _ _ entry_sections(5)] entry_cons [OF _ _ entry_sections(6)]
  have "entry_run E [0, 0, 0, 1, 0, 0] \<lparr>entry_threads = [(False, Waiting (account_form u p)),
        (False, Waiting (account_form v q))], entry_web = w\<rparr> =
      Ok \<lparr>entry_threads = [(False, Entered True), (False, Named q)], entry_web = ?w'\<rparr>"
    using assms(1,3,9) new b st(1) by (simp add: one insert_storage_def insert_session_def)
  then show ?thesis using st
    by (intro exI [of _ "\<lparr>entry_threads = [(False, Entered True), (False, Named q)], entry_web = ?w'\<rparr>"]
        exI [of _ ?st] exI [of _ ?w']) (simp add: is_logged_in_def map_has_def)
qed

theorem signins_mixed_witness:
  "\<exists>en st w'. entry_run demo_env [0, 0, 0, 1, 0, 0] \<lparr>entry_threads = [(False, Waiting (account_form ''al'' ''secret'')),
        (False, Waiting (account_form ''bo'' ''guess''))], entry_web = demo_web [] demo_account\<rparr> = Ok en \<and>
    is_logged_in [(''username'', ''bo'')] (entry_web en) = (True, w') \<and>
    map_at (all_storages w') (username w') = Some (Some st) \<and> userName st = ''al''"
proof -
  have "can_serve 2 (world (demo_web [] demo_account))" by simp
  from signins_mixed [of demo_env "localhost 5000" 0 "''al''" "''secret''" "''bo''" "''guess''" "demo_web [] demo_account" "[demo_file]",
      OF _ _ _ _ _ _ _ _ _ this] demo_account_ok(1)
  show ?thesis by (fastforce simp: account_word_def map_has_def)
qed

end
