(* ===== verification/Load_Balancer_Process.thy ===== *)
theory Load_Balancer_Process
  imports Load_Balancer
begin

text \<open>
  The load balancer as a process (\<open>frontendServer/load_balancer.cc\<close>): options and address file, the loop
  over the connections, and the thread that asks one server after the other. Both go statement by statement
  over the one deque. The main loop holds the lock while it turns the deque, but not between the two turns;
  the thread holds it only while it writes a state, and reads the deque without it. What a read does while
  an element is being moved is taken to be the answer before or after the move.
\<close>

section \<open>Start\<close>

text \<open>The results of \<open>getopt\<close>: the options \<open>p\<close> and \<open>v\<close>, and the question mark.\<close>

datatype lb_option = LB_port string | LB_verbose | LB_bad

datatype 'a lb_started = LB_exit int | LB_serves 'a

fun lb_options :: "lb_option list \<Rightarrow> int \<times> bool \<Rightarrow> (int \<times> bool) option" where
  "lb_options [] s = Some s"
| "lb_options (LB_port optarg # os) (port, debug) = lb_options os (atoi optarg, debug)"
| "lb_options (LB_verbose # os) (port, debug) = lb_options os (port, True)"
| "lb_options (LB_bad # os) s = None"

text \<open>
  Where the main loop is: before \<open>accept\<close>; in the loop under the lock, with \<open>count\<close>, or with the server it has
  taken off; behind the lock with \<open>count\<close>; with the address of the front; under the lock again with the
  server taken off for the last turn. Where the checking thread is: before the test of the index, before the
  read of the port, of the address, before the reads for the output, before the write.
\<close>

datatype lb_place =
    Accepting
  | Skipping nat
  | Popped nat web_server
  | Chosen nat
  | Answering string int
  | Turning string int web_server

datatype lb_checker = Before nat | Tested nat | Ported nat int | Answered nat bool | Shown nat bool

record lb_process =
  lb_servers :: "web_server list"
  lb_at :: lb_place
  lb_checker :: lb_checker
  lb_replies :: "lb_reply list"

text \<open>
  \<open>file\<close> is the content of the address file named on the command line; a file that cannot be opened has no
  lines. The results of \<open>socket\<close>, \<open>bind\<close> and \<open>listen\<close> are inputs.
\<close>

definition lb_main :: "lb_option list \<Rightarrow> string option \<Rightarrow> (string \<Rightarrow> string option) \<Rightarrow> int \<Rightarrow> int \<Rightarrow> int \<Rightarrow>
    (nat \<times> lb_process) lb_started res" where
  "lb_main os filename fs socket_rc bind_rc listen_rc =
     (case lb_options os (8090, False) of
        None \<Rightarrow> Ok (LB_exit 1)
      | Some (portNumber, debugInfo) \<Rightarrow>
          (case filename of
             None \<Rightarrow> Ok (LB_exit 1)
           | Some f \<Rightarrow>
               and_then (parse_all_server (case fs f of None \<Rightarrow> [] | Some t \<Rightarrow> t) []) (\<lambda>(_, servers).
                 Ok (if socket_rc < 0 then LB_exit (-1)
                     else if bind_rc < 0 then LB_exit (-2)
                     else if listen_rc < 0 then LB_exit (-3)
                     else LB_serves (nat (portNumber mod 65536),
                            \<lparr>lb_servers = servers, lb_at = Accepting, lb_checker = Before 0, lb_replies = []\<rparr>)))))"

section \<open>Steps\<close>

text \<open>\<open>front()\<close> of an empty deque has no defined result. The response is written behind the last lock.\<close>

definition lb_main_step :: "lb_process \<Rightarrow> lb_process res" where
  "lb_main_step p =
     (let servers = lb_servers p
      in case lb_at p of
        Accepting \<Rightarrow> Ok (p\<lparr>lb_at := Skipping 0\<rparr>)
      | Skipping cnt \<Rightarrow>
          if servers = [] then Throw Bad_index
          else if w_running (hd servers) then Ok (p\<lparr>lb_at := Chosen cnt\<rparr>)
          else Ok (p\<lparr>lb_servers := tl servers, lb_at := Popped (cnt + 1) (hd servers)\<rparr>)
      | Popped cnt tmp \<Rightarrow>
          Ok (p\<lparr>lb_servers := servers @ [tmp], lb_at := (if cnt = length servers + 1 then Chosen cnt else Skipping cnt)\<rparr>)
      | Chosen cnt \<Rightarrow>
          if cnt = length servers then Ok (p\<lparr>lb_at := Accepting, lb_replies := lb_replies p @ [Unavailable]\<rparr>)
          else if servers = [] then Throw Bad_index
          else Ok (p\<lparr>lb_at := Answering (w_address (hd servers)) (w_port (hd servers))\<rparr>)
      | Answering a port \<Rightarrow>
          if servers = [] then Throw Bad_index
          else Ok (p\<lparr>lb_servers := tl servers, lb_at := Turning a port (hd servers)\<rparr>)
      | Turning a port tmp \<Rightarrow>
          Ok (p\<lparr>lb_servers := servers @ [tmp], lb_at := Accepting, lb_replies := lb_replies p @ [Redirect a port]\<rparr>))"

definition lb_locked :: "lb_process \<Rightarrow> bool" where
  "lb_locked p = (case lb_at p of Skipping _ \<Rightarrow> True | Popped _ _ \<Rightarrow> True | Turning _ _ _ \<Rightarrow> True | _ \<Rightarrow> False)"

text \<open>\<open>up\<close> says whether a \<open>connect\<close> to an address succeeds; \<open>at\<close> throws. The write waits for the lock.\<close>

definition lb_check_step :: "(string \<times> int \<Rightarrow> bool) \<Rightarrow> lb_process \<Rightarrow> lb_process res" where
  "lb_check_step up p =
     (let servers = lb_servers p
      in case lb_checker p of
        Before i \<Rightarrow> Ok (p\<lparr>lb_checker := (if i < length servers then Tested i else Before 0)\<rparr>)
      | Tested i \<Rightarrow>
          if i < length servers then Ok (p\<lparr>lb_checker := Ported i (w_port (servers ! i))\<rparr>) else Throw Out_of_range
      | Ported i port \<Rightarrow>
          if i < length servers then Ok (p\<lparr>lb_checker := Answered i (up (w_address (servers ! i), port))\<rparr>) else Throw Out_of_range
      | Answered i b \<Rightarrow> if i < length servers then Ok (p\<lparr>lb_checker := Shown i b\<rparr>) else Throw Out_of_range
      | Shown i b \<Rightarrow>
          if lb_locked p then Ok p
          else if i < length servers
          then Ok (p\<lparr>lb_servers := servers[i := (servers ! i)\<lparr>w_running := b\<rparr>], lb_checker := Before (i + 1)\<rparr>)
          else Throw Out_of_range)"

datatype lb_event = LB_main | LB_check "string \<times> int \<Rightarrow> bool"

fun lb_step :: "lb_event \<Rightarrow> lb_process \<Rightarrow> lb_process res" where
  "lb_step LB_main p = lb_main_step p"
| "lb_step (LB_check up) p = lb_check_step up p"

fun lb_run :: "lb_event list \<Rightarrow> lb_process \<Rightarrow> lb_process res" where
  "lb_run [] p = Ok p"
| "lb_run (e # es) p = and_then (lb_step e p) (lb_run es)"

lemma lb_run_append: "lb_run (es @ fs) p = and_then (lb_run es p) (lb_run fs)"
proof (induction es arbitrary: p)
  case (Cons e es)
  then show ?case by (cases "lb_step e p") simp_all
qed simp

section \<open>A connection that is not disturbed\<close>

text \<open>The statements of the loop under the lock are \<open>skip_down\<close>, and all of a connection's \<open>lb_accept\<close>.\<close>

lemma skipping_alone:
  "cnt < length ss \<Longrightarrow> lb_servers p = ss \<Longrightarrow> lb_at p = Skipping cnt \<Longrightarrow>
     \<exists>k. lb_run (replicate k LB_main) p = Ok (p\<lparr>lb_servers := snd (skip_down cnt ss), lb_at := Chosen (fst (skip_down cnt ss))\<rparr>)"
proof (induction cnt ss arbitrary: p rule: skip_down.induct)
  case (1 cnt ss)
  have ne: "ss \<noteq> []" "cnt < length ss" using 1(2) by auto
  show ?case
  proof (cases "w_running (hd ss)")
    case True
    then have "lb_run (replicate 1 LB_main) p = Ok (p\<lparr>lb_servers := ss, lb_at := Chosen cnt\<rparr>)"
      using 1(3,4) ne by (simp add: lb_main_step_def)
    moreover have "skip_down cnt ss = (cnt, ss)" using True by (subst skip_down.simps) simp
    ultimately show ?thesis by (metis fst_conv snd_conv)
  next
    case False
    have rot: "tl ss @ [hd ss] = rotate1 ss" "length (tl ss) + 1 = length ss" using ne by (cases ss; simp)+
    have two: "lb_run [LB_main, LB_main] p =
        Ok (p\<lparr>lb_servers := rotate1 ss, lb_at := (if cnt + 1 = length ss then Chosen (cnt + 1) else Skipping (cnt + 1))\<rparr>)"
      using 1(3,4) ne(1) False rot by (simp add: lb_main_step_def)
    show ?thesis
    proof (cases "cnt + 1 = length ss")
      case True
      then have "skip_down cnt ss = (cnt + 1, rotate1 ss)" using False ne by (subst skip_down.simps) simp
      then show ?thesis using two True by (intro exI [of _ 2]) (simp add: numeral_2_eq_2)
    next
      case more: False
      have sd: "skip_down cnt ss = skip_down (cnt + 1) (rotate1 ss)"
        using False more ne by (subst skip_down.simps) simp
      let ?p1 = "p\<lparr>lb_servers := rotate1 ss, lb_at := Skipping (cnt + 1)\<rparr>"
      obtain k where "lb_run (replicate k LB_main) ?p1 =
          Ok (?p1\<lparr>lb_servers := snd (skip_down (cnt + 1) (rotate1 ss)), lb_at := Chosen (fst (skip_down (cnt + 1) (rotate1 ss)))\<rparr>)"
        using 1(1) [of ?p1] False more ne by auto
      then have "lb_run ([LB_main, LB_main] @ replicate k LB_main) p =
          Ok (p\<lparr>lb_servers := snd (skip_down cnt ss), lb_at := Chosen (fst (skip_down cnt ss))\<rparr>)"
        using two more by (simp only: lb_run_append sd) simp
      then show ?thesis by (intro exI [of _ "Suc (Suc k)"]) simp
    qed
  qed
qed

lemma skip_down_length: "length (snd (skip_down cnt ss)) = length ss"
proof (induction cnt ss rule: skip_down.induct)
  case (1 cnt ss)
  then show ?case by (subst skip_down.simps) auto
qed

lemma connection_alone:
  assumes "lb_at p = Accepting" "lb_servers p \<noteq> []" "lb_accept (lb_servers p) = Ok (r, ss)"
  shows "\<exists>k. lb_run (replicate k LB_main) p = Ok (p\<lparr>lb_servers := ss, lb_replies := lb_replies p @ [r]\<rparr>)"
proof -
  let ?s = "lb_servers p"
  obtain cnt s1 where sd: "skip_down 0 ?s = (cnt, s1)" by (cases "skip_down 0 ?s")
  have start: "lb_run [LB_main] p = Ok (p\<lparr>lb_at := Skipping 0\<rparr>)" using assms(1) by (simp add: lb_main_step_def)
  obtain k where k: "lb_run (replicate k LB_main) (p\<lparr>lb_at := Skipping 0\<rparr>) = Ok (p\<lparr>lb_servers := s1, lb_at := Chosen cnt\<rparr>)"
    using skipping_alone [of 0 ?s "p\<lparr>lb_at := Skipping 0\<rparr>"] assms(2) sd by auto
  show ?thesis
  proof (cases "cnt = length s1")
    case True
    then have "lb_run ([LB_main] @ replicate k LB_main @ [LB_main]) p = Ok (p\<lparr>lb_servers := ss, lb_replies := lb_replies p @ [r]\<rparr>)"
      using assms sd by (simp only: lb_run_append start k and_then.simps) (auto simp: lb_main_step_def lb_accept_def)
    moreover have "[LB_main] @ replicate k LB_main @ [LB_main] = replicate (k + 2) LB_main"
      by (simp add: replicate_append_same)
    ultimately show ?thesis by metis
  next
    case False
    have l: "length s1 = length ?s" using skip_down_length [of 0 ?s] sd by simp
    then have ne: "s1 \<noteq> []" using assms(2) by auto
    then have "tl s1 @ [hd s1] = rotate1 s1" by (cases s1) simp_all
    then have "lb_run ([LB_main] @ replicate k LB_main @ replicate 3 LB_main) p = Ok (p\<lparr>lb_servers := ss, lb_replies := lb_replies p @ [r]\<rparr>)"
      using False ne assms sd by (simp only: lb_run_append start k and_then.simps numeral_3_eq_3 replicate_Suc replicate_0)
        (auto simp: lb_main_step_def lb_accept_def)
    moreover have "[LB_main] @ replicate k LB_main @ replicate 3 LB_main = replicate (1 + (k + 3)) LB_main"
      by (simp only: replicate_add One_nat_def replicate_Suc replicate_0)
    ultimately show ?thesis by metis
  qed
qed

section \<open>Every run\<close>

definition lb_addresses :: "web_server list \<Rightarrow> (string \<times> int) multiset" where
  "lb_addresses servers = mset (map (\<lambda>s. (w_address s, w_port s)) servers)"

fun lb_target :: "lb_reply \<Rightarrow> (string \<times> int) option" where
  "lb_target Unavailable = None"
| "lb_target (Redirect a p) = Some (a, p)"

text \<open>The server the main loop has taken off the deque and not yet put back.\<close>

fun lb_hand :: "lb_place \<Rightarrow> web_server list" where
  "lb_hand (Popped cnt s) = [s]"
| "lb_hand (Turning a port s) = [s]"
| "lb_hand _ = []"

text \<open>A run in which the checking thread does not read the deque while a server is taken off.\<close>

definition lb_reading :: "lb_process \<Rightarrow> bool" where
  "lb_reading p = (case lb_checker p of Tested _ \<Rightarrow> True | Ported _ _ \<Rightarrow> True | Answered _ _ \<Rightarrow> True | _ \<Rightarrow> False)"

definition lb_quiet :: "lb_event \<Rightarrow> lb_process \<Rightarrow> bool" where
  "lb_quiet e p = (case e of LB_main \<Rightarrow> True | LB_check up \<Rightarrow> \<not> (lb_reading p \<and> lb_hand (lb_at p) \<noteq> []))"

fun lb_calm :: "lb_event list \<Rightarrow> lb_process \<Rightarrow> bool" where
  "lb_calm [] p = True"
| "lb_calm (e # es) p = (lb_quiet e p \<and> (case lb_step e p of Ok p' \<Rightarrow> lb_calm es p' | _ \<Rightarrow> True))"

text \<open>The servers the main loop has passed over are down: nobody can write a state under its lock.\<close>

definition lb_place_ok :: "(string \<times> int) multiset \<Rightarrow> web_server list \<Rightarrow> lb_place \<Rightarrow> bool" where
  "lb_place_ok A servers pl \<longleftrightarrow>
     (case pl of
        Accepting \<Rightarrow> True
      | Skipping cnt \<Rightarrow> cnt < size A \<and> (\<forall>s \<in> set (drop (size A - cnt) servers). \<not> w_running s)
      | Popped cnt s \<Rightarrow> 0 < cnt \<and> cnt \<le> size A \<and> (\<forall>s \<in> set (drop (size A - cnt) servers). \<not> w_running s) \<and> \<not> w_running s
      | Chosen cnt \<Rightarrow> cnt \<le> size A
      | Answering a port \<Rightarrow> (a, port) \<in># A
      | Turning a port s \<Rightarrow> (a, port) \<in># A)"

definition lb_index :: "lb_checker \<Rightarrow> nat option" where
  "lb_index c = (case c of Before i \<Rightarrow> None | Tested i \<Rightarrow> Some i | Ported i port \<Rightarrow> Some i | Answered i b \<Rightarrow> Some i | Shown i b \<Rightarrow> Some i)"

definition lb_ok :: "(string \<times> int) multiset \<Rightarrow> lb_process \<Rightarrow> bool" where
  "lb_ok A p \<longleftrightarrow>
     A \<noteq> {#} \<and> lb_addresses (lb_servers p @ lb_hand (lb_at p)) = A \<and> lb_place_ok A (lb_servers p) (lb_at p) \<and>
     (\<forall>i. lb_index (lb_checker p) = Some i \<longrightarrow> i < size A) \<and>
     (\<forall>r \<in> set (lb_replies p). \<forall>t. lb_target r = Some t \<longrightarrow> t \<in># A)"

lemma lb_addresses_simps [simp]:
  "lb_addresses [] = {#}" "lb_addresses (xs @ ys) = lb_addresses xs + lb_addresses ys"
  "lb_addresses (x # xs) = add_mset (w_address x, w_port x) (lb_addresses xs)" "size (lb_addresses xs) = length xs"
  by (simp_all add: lb_addresses_def)

lemma lb_ok_size: "lb_ok A p \<Longrightarrow> size A = length (lb_servers p) + length (lb_hand (lb_at p)) \<and>
    0 < length (lb_servers p) + length (lb_hand (lb_at p))"
  by (metis lb_ok_def lb_addresses_simps(4) length_append nonempty_has_size)

lemma lb_main_ok:
  assumes "lb_ok A p"
  shows "\<exists>p'. lb_main_step p = Ok p' \<and> lb_ok A p'"
proof (cases "lb_at p")
  case Accepting
  then show ?thesis using assms lb_ok_size [OF assms] by (simp add: lb_main_step_def lb_ok_def lb_place_ok_def)
next
  case (Skipping cnt)
  then have sz: "size A = length (lb_servers p)" "0 < length (lb_servers p)" using lb_ok_size [OF assms] by simp_all
  then obtain s ss where s: "lb_servers p = s # ss" by (cases "lb_servers p") auto
  have down: "\<forall>s \<in> set (drop (size A - cnt) (s # ss)). \<not> w_running s" "cnt < size A"
    using assms Skipping s by (simp_all add: lb_ok_def lb_place_ok_def)
  have "size A - cnt = Suc (size A - Suc cnt)" using down(2) by simp
  then have "drop (size A - cnt) (s # ss) = drop (size A - Suc cnt) ss" by simp
  then show ?thesis using assms Skipping s down by (auto simp: lb_main_step_def Let_def lb_ok_def lb_place_ok_def)
next
  case (Popped cnt tmp)
  then have sz: "size A = Suc (length (lb_servers p))" using lb_ok_size [OF assms] by simp
  have "cnt \<le> size A" "0 < cnt" "\<forall>s \<in> set (drop (size A - cnt) (lb_servers p)). \<not> w_running s" "\<not> w_running tmp"
    using assms Popped by (simp_all add: lb_ok_def lb_place_ok_def)
  moreover from this have "drop (size A - cnt) (lb_servers p @ [tmp]) = drop (size A - cnt) (lb_servers p) @ [tmp]"
    using sz by simp
  ultimately have "\<forall>s \<in> set (drop (size A - cnt) (lb_servers p @ [tmp])). \<not> w_running s" "cnt \<le> size A" by simp_all
  then show ?thesis using assms Popped sz by (simp add: lb_main_step_def Let_def lb_ok_def lb_place_ok_def)
next
  case (Chosen cnt)
  then obtain s ss where "lb_servers p = s # ss" using lb_ok_size [OF assms] by (cases "lb_servers p") auto
  then show ?thesis using assms Chosen by (auto simp: lb_main_step_def Let_def lb_ok_def lb_place_ok_def)
next
  case (Answering a port)
  then obtain s ss where "lb_servers p = s # ss" using lb_ok_size [OF assms] by (cases "lb_servers p") auto
  then show ?thesis using assms Answering by (auto simp: lb_main_step_def Let_def lb_ok_def lb_place_ok_def)
next
  case (Turning a port s)
  then show ?thesis using assms by (auto simp: lb_main_step_def Let_def lb_ok_def lb_place_ok_def)
qed

lemma lb_addresses_state: "i < length ss \<Longrightarrow> lb_addresses (ss[i := (ss ! i)\<lparr>w_running := b\<rparr>]) = lb_addresses ss"
proof -
  assume i: "i < length ss"
  have "map (\<lambda>s. (w_address s, w_port s)) (ss[i := (ss ! i)\<lparr>w_running := b\<rparr>]) = map (\<lambda>s. (w_address s, w_port s)) ss"
    using i by (intro nth_equalityI) (auto simp: nth_list_update)
  then show ?thesis by (simp add: lb_addresses_def)
qed

lemma lb_check_ok:
  assumes "lb_ok A p" "lb_quiet (LB_check up) p"
  shows "\<exists>p'. lb_check_step up p = Ok p' \<and> lb_ok A p'"
proof (cases "lb_checker p")
  case (Shown i b)
  show ?thesis
  proof (cases "lb_locked p")
    case True
    then show ?thesis using assms(1) Shown by (simp add: lb_check_step_def)
  next
    case False
    then have "lb_hand (lb_at p) = []" by (cases "lb_at p") (simp_all add: lb_locked_def)
    then have i: "i < length (lb_servers p)" using assms(1) Shown lb_ok_size [OF assms(1)] by (simp add: lb_ok_def lb_index_def)
    then show ?thesis using False assms(1) Shown
      by (cases "lb_at p") (simp_all add: lb_check_step_def Let_def lb_ok_def lb_place_ok_def lb_index_def lb_addresses_state lb_locked_def)
  qed
qed (use assms lb_ok_size [OF assms(1)] in
  \<open>auto simp: lb_check_step_def Let_def lb_ok_def lb_index_def lb_quiet_def lb_reading_def\<close>)

lemma lb_run_ok: "lb_ok A p \<Longrightarrow> lb_calm es p \<Longrightarrow> \<exists>p'. lb_run es p = Ok p' \<and> lb_ok A p'"
proof (induction es arbitrary: p)
  case (Cons e es)
  obtain p1 where "lb_step e p = Ok p1" "lb_ok A p1"
  proof (cases e)
    case LB_main
    then show ?thesis using that lb_main_ok [OF Cons.prems(1)] by auto
  next
    case (LB_check up)
    then show ?thesis using that lb_check_ok [OF Cons.prems(1)] Cons.prems(2) by auto
  qed
  then show ?case using Cons.IH [of p1] Cons.prems by auto
qed simp

text \<open>What \<open>count\<close> says when the lock is released.\<close>

lemma choice_counts:
  assumes "lb_ok A p" "lb_main_step p = Ok p'" "lb_at p' = Chosen cnt"
  shows "cnt = length (lb_servers p') \<longleftrightarrow> running_ones (lb_servers p') = []"
proof (cases "lb_at p")
  case (Skipping c)
  then have "c < length (lb_servers p)" "lb_servers p \<noteq> []" using assms(1) lb_ok_size [OF assms(1)] by (auto simp: lb_ok_def lb_place_ok_def)
  then show ?thesis using Skipping assms(2,3)
    by (cases "lb_servers p") (auto simp: lb_main_step_def Let_def split: if_splits)
next
  case (Popped c s)
  then have "size A = Suc (length (lb_servers p))" using lb_ok_size [OF assms(1)] by simp
  then have "c = Suc (length (lb_servers p)) \<Longrightarrow> \<forall>s \<in> set (lb_servers p). \<not> w_running s" "\<not> w_running s"
    using Popped assms(1) by (simp_all add: lb_ok_def lb_place_ok_def)
  then show ?thesis using Popped assms(2,3) by (auto simp: lb_main_step_def Let_def filter_empty_conv split: if_splits)
qed (use assms in \<open>auto simp: lb_main_step_def Let_def split: if_splits\<close>)

lemma lb_accept_total:
  assumes "servers \<noteq> []"
  shows "\<exists>r servers'. lb_accept servers = Ok (r, servers') \<and> (r = Unavailable \<longleftrightarrow> running_ones servers = [])"
proof (cases "running_ones servers")
  case Nil
  then have "\<forall>s \<in> set servers. \<not> w_running s" by (simp add: filter_empty_conv)
  then obtain servers' where sk: "skip_down 0 servers = (length servers, servers')" "mset servers' = mset servers"
    using skip_down_none [of servers 0] assms by auto
  then have "length servers' = length servers" using mset_eq_length by blast
  then show ?thesis using sk assms Nil by (simp add: lb_accept_def)
next
  case (Cons r rs)
  then show ?thesis using lb_accept_running [OF Cons] by auto
qed

text \<open>
  C29. From any address file with a server on, in every interleaving of the statements of the main loop and of
  the checking thread in which the thread does not read the deque while a server is taken off it: there
  is no error, no server is lost or doubled although the deque turns under the check, every redirection goes
  to a server of the file, and when the main loop releases the lock it has counted all servers as down
  exactly when none is marked running. A connection that is not disturbed is answered as \<open>lb_accept\<close> says.
  The condition is needed: see \<open>lb_check_throws\<close>.
\<close>

theorem lb_runs:
  assumes "lb_servers p \<noteq> []" "lb_at p = Accepting" "lb_checker p = Before i" "lb_replies p = []" "lb_calm es p"
  shows "\<exists>p'. lb_run es p = Ok p' \<and>
    lb_addresses (lb_servers p' @ lb_hand (lb_at p')) = lb_addresses (lb_servers p) \<and>
    (\<forall>r \<in> set (lb_replies p'). \<forall>t. lb_target r = Some t \<longrightarrow> t \<in># lb_addresses (lb_servers p)) \<and>
    (\<forall>p'' cnt. lb_main_step p' = Ok p'' \<and> lb_at p'' = Chosen cnt \<longrightarrow>
       (cnt = length (lb_servers p'') \<longleftrightarrow> running_ones (lb_servers p'') = [])) \<and>
    (lb_at p' = Accepting \<longrightarrow> (\<exists>r ss k. lb_accept (lb_servers p') = Ok (r, ss) \<and>
       (r = Unavailable \<longleftrightarrow> running_ones (lb_servers p') = []) \<and>
       lb_run (replicate k LB_main) p' = Ok (p'\<lparr>lb_servers := ss, lb_replies := lb_replies p' @ [r]\<rparr>)))"
proof -
  have "lb_addresses (lb_servers p) \<noteq> {#}" using assms(1) by (simp add: lb_addresses_def)
  then have "lb_ok (lb_addresses (lb_servers p)) p" using assms by (simp add: lb_ok_def lb_place_ok_def lb_index_def)
  then obtain p' where p': "lb_run es p = Ok p'" "lb_ok (lb_addresses (lb_servers p)) p'" using lb_run_ok assms(5) by blast
  have "\<exists>r ss k. lb_accept (lb_servers p') = Ok (r, ss) \<and> (r = Unavailable \<longleftrightarrow> running_ones (lb_servers p') = []) \<and>
       lb_run (replicate k LB_main) p' = Ok (p'\<lparr>lb_servers := ss, lb_replies := lb_replies p' @ [r]\<rparr>)"
    if at: "lb_at p' = Accepting"
  proof -
    have ne: "lb_servers p' \<noteq> []" using lb_ok_size [OF p'(2)] at by auto
    obtain r ss where "lb_accept (lb_servers p') = Ok (r, ss)" "r = Unavailable \<longleftrightarrow> running_ones (lb_servers p') = []"
      using lb_accept_total [OF ne] by blast
    then show ?thesis using connection_alone [OF at ne] by blast
  qed
  then show ?thesis
    by (intro exI [of _ p'] conjI impI allI) (use p' choice_counts [OF p'(2)] in \<open>auto simp: lb_ok_def\<close>)
qed

definition demo_lb :: lb_process where
  "demo_lb = \<lparr>lb_servers = demo_web, lb_at = Accepting, lb_checker = Before 0, lb_replies = []\<rparr>"

theorem lb_runs_witness:
  "\<exists>p'. lb_run [LB_check (\<lambda>a. True), LB_main, LB_check (\<lambda>a. True), LB_main, LB_main] demo_lb = Ok p' \<and>
    lb_addresses (lb_servers p' @ lb_hand (lb_at p')) = {#(''a'', 1), (''b'', 2), (''c'', 3)#} \<and> lb_replies p' = []"
proof -
  let ?es = "[LB_check (\<lambda>a. True), LB_main, LB_check (\<lambda>a. True), LB_main, LB_main]"
  have a: "lb_addresses demo_web = {#(''a'', 1), (''b'', 2), (''c'', 3)#}" by (simp add: lb_addresses_def demo_web_def new_server_def)
  have calm: "lb_calm ?es demo_lb"
    by (simp add: demo_lb_def demo_web_def new_server_def lb_quiet_def lb_reading_def lb_check_step_def lb_main_step_def Let_def)
  obtain p' where p': "lb_run ?es demo_lb = Ok p'"
    "lb_addresses (lb_servers p' @ lb_hand (lb_at p')) = lb_addresses (lb_servers demo_lb)"
    using lb_runs [OF _ _ _ _ calm, of 0] by (auto simp: demo_lb_def demo_web_def)
  moreover have "lb_replies p' = []"
    using p'(1) by (auto simp: demo_lb_def demo_web_def new_server_def lb_check_step_def lb_main_step_def Let_def)
  moreover have "lb_servers demo_lb = demo_web" by (simp add: demo_lb_def)
  ultimately show ?thesis using a by metis
qed

text \<open>
  The test of the index and the reads are outside the lock: when the thread is about to read the last place
  and the main loop has taken the server in front off, the read throws, and the process ends, since nobody
  catches the exception. A connection to a running server is enough.
\<close>

theorem lb_check_throws:
  assumes "lb_servers p = s # ss" "w_running s" "lb_at p = Accepting" "lb_checker p = Tested (length ss)"
  shows "lb_run [LB_main, LB_main, LB_main, LB_main, LB_check up] p = Throw Out_of_range"
  using assms by (simp add: lb_main_step_def lb_check_step_def)

text \<open>
  The deque turns between the reads and the write of a check: when a connection is served in between, the
  answer of one server is written to its successor. A server that has gone down stays marked running, and
  the next one is marked down although it runs.
\<close>

theorem lb_check_race:
  assumes "lb_servers p = s # t # ss" "w_running s" "lb_at p = Accepting" "lb_checker p = Before 0"
    and "\<not> up (w_address s, w_port s)"
  shows "\<exists>p'. lb_run (replicate 4 (LB_check up) @ replicate 5 LB_main @ [LB_check up]) p = Ok p' \<and>
    lb_servers p' = t\<lparr>w_running := False\<rparr> # ss @ [s]"
  using assms by (simp add: lb_main_step_def lb_check_step_def lb_locked_def eval_nat_numeral)

end
