(* ===== verification/Smtp_Main.thy ===== *)
theory Smtp_Main
  imports Smtp_Props Accept_Loop
begin

text \<open>
  The SMTP server as a process (\<open>webmail/server.cc\<close>): options, the accept loop with a thread for each
  connection, an instance of \<open>Accept_Loop\<close> whose shared state is the data server, the queue file and the
  mail handed to other hosts, and the signal handler.
\<close>

section \<open>Start\<close>

datatype smtp_option = Smtp_port string | Smtp_author | Smtp_verbose | Smtp_bad

datatype smtp_started = Smtp_exit int | Smtp_listens nat string

fun smtp_options :: "smtp_option list \<Rightarrow> int \<Rightarrow> int option" where
  "smtp_options [] port = Some port"
| "smtp_options (Smtp_port optarg # os) port = smtp_options os (atoi optarg)"
| "smtp_options (Smtp_author # os) port = None"
| "smtp_options (Smtp_verbose # os) port = smtp_options os port"
| "smtp_options (Smtp_bad # os) port = None"

text \<open>The results of \<open>bind\<close> and \<open>listen\<close> are not looked at.\<close>

definition smtp_main :: "smtp_option list \<Rightarrow> string option \<Rightarrow> int \<Rightarrow> smtp_started" where
  "smtp_main os addr socket_rc =
     (case smtp_options os 7000 of
        None \<Rightarrow> Smtp_exit 1
      | Some port \<Rightarrow>
          (case addr of
             None \<Rightarrow> Smtp_exit 1
           | Some a \<Rightarrow> if socket_rc < 0 then Smtp_exit 2 else Smtp_listens (nat (port mod 65536)) a))"

section \<open>Connections\<close>

record 'b smtp_site =
  site_back :: 'b
  site_queue :: "string option"
  site_sent :: "(string \<times> string list) list"

type_synonym 'b smtp_connection = "'b smtp_env \<times> nat \<times> rd list"

text \<open>A session from the greeting to the end of the worker; what it writes and what is left behind.\<close>

definition serve_session :: "'b smtp_connection \<Rightarrow> 'b smtp_site \<Rightarrow> (string \<times> 'b smtp_site) res" where
  "serve_session x w =
     (case x of (E, n, es) \<Rightarrow>
        and_then (worker_thread E n [] es (new_session (site_back w) (site_queue w))) (\<lambda>s.
          Ok (concat (s_out s), \<lparr>site_back = s_back s, site_queue = s_queue s, site_sent = site_sent w @ s_sent s\<rparr>)))"

definition smtp_run :: "'b smtp_connection loop_event list \<Rightarrow> 'b smtp_site accept_loop \<Rightarrow> 'b smtp_site accept_loop res" where
  "smtp_run evs fe = loop_run serve_session evs fe"

definition SERVICE_NA :: string where
  "SERVICE_NA = ''421 localhost service not available, closing transmission channel'' @ crlf"

text \<open>Every connection ever accepted is written to and closed, also those that have ended; then the process ends.\<close>

definition smtp_signal_handler :: "nat list \<Rightarrow> (nat \<times> string) list \<times> int" where
  "smtp_signal_handler sockets = (map (\<lambda>fd. (fd, SERVICE_NA)) sockets, 3)"

section \<open>A mail through the loop\<close>

text \<open>
  The client's session over a connection of its own: the mail is finished with exactly the sender, the
  recipients and the text of the client, and the state it leaves is that of the process.
\<close>

theorem smtp_connection_served:
  assumes "local_box u sender" "rcpts \<noteq> []" "\<forall>r \<in> set rcpts. plain_box r" "\<forall>l \<in> set ls. whole_line l \<and> l \<noteq> ''.'' @ crlf"
    and "k = length (loop_threads fe)"
    and "finish_mail E n \<lparr>s_state = 4, s_sender = sender, s_rcpts = add_rcpts rcpts [], s_data = concat ls,
        s_out = [SERVER_READY, HELO_REPLY, OK_REPLY] @ replicate (length rcpts) OK_REPLY @ [START_MAIL],
        s_back = site_back (shared fe), s_queue = site_queue (shared fe), s_sent = []\<rparr> = Ok s"
  shows "\<exists>fe'. smtp_run [Accepts fd, Copies k, Serves k (E, n, map Bytes (smtp_commands sender rcpts (concat ls)))] fe = Ok fe' \<and>
    shared fe' = \<lparr>site_back = s_back s, site_queue = s_queue s, site_sent = site_sent (shared fe) @ s_sent s\<rparr> \<and>
    served fe' = served fe @ [(fd, concat (s_out s) @ SERVICE_CLOSE)]"
proof -
  have "worker_thread E n [] (map Bytes (smtp_commands sender rcpts (concat ls))) (new_session (site_back (shared fe)) (site_queue (shared fe))) =
      Ok (respond SERVICE_CLOSE (s\<lparr>s_state := 6\<rparr>))"
    using smtp_session_runs [OF assms(1-4), of E n "[]" "site_back (shared fe)" "site_queue (shared fe)"] assms(6) by simp
  then show ?thesis
    using assms(5)
    by (simp add: smtp_run_def accept_step_def copy_step_def serve_step_def serve_session_def nth_append respond_def)
qed

end
