(* ===== verification/Primary_Clients.thy ===== *)
theory Primary_Clients
  imports Service Recovery
begin

text \<open>
  Several clients of one primary (\<open>kvstore/Worker.cc\<close>). The handlers take the lock of the table only for a
  part of their work: the log record and the change of the table. The test of a CPUT for the existence of its
  cell comes before, the update for the replicas and the reply come after. Here every handler is cut at
  these places, and the table holds pointers, as in the code: to a \<open>Cell\<close>, which points to its contents. What
  was fetched before the lock may be out of date, and what was stored may be freed before it is sent.
\<close>

section \<open>The heap\<close>

text \<open>
  \<open>ps_server\<close> has everything but the table, which is \<open>ps_table\<close>, a map of addresses of cells. An address
  without a value is a freed object.
\<close>

record primary_store =
  ps_server :: worker
  ps_table :: "nat rows"
  ps_cells :: "nat \<Rightarrow> nat option"
  ps_texts :: "nat \<Rightarrow> string option"
  ps_next :: nat

definition new_text :: "string \<Rightarrow> primary_store \<Rightarrow> nat \<times> primary_store" where
  "new_text v p = (ps_next p, p\<lparr>ps_texts := (ps_texts p)(ps_next p \<mapsto> v), ps_next := Suc (ps_next p)\<rparr>)"

definition new_Cell :: "nat \<Rightarrow> primary_store \<Rightarrow> nat \<times> primary_store" where
  "new_Cell x p = (ps_next p, p\<lparr>ps_cells := (ps_cells p)(ps_next p \<mapsto> x), ps_next := Suc (ps_next p)\<rparr>)"

definition delete_text :: "nat \<Rightarrow> primary_store \<Rightarrow> primary_store res" where
  "delete_text x p =
     (if ps_texts p x = None then Throw Dangling else Ok (p\<lparr>ps_texts := (ps_texts p)(x := None)\<rparr>))"

text \<open>The destructor of a cell deletes its contents.\<close>

definition delete_Cell :: "nat \<Rightarrow> primary_store \<Rightarrow> primary_store res" where
  "delete_Cell a p =
     (case ps_cells p a of
        None \<Rightarrow> Throw Dangling
      | Some x \<Rightarrow> and_then (delete_text x p) (\<lambda>p. Ok (p\<lparr>ps_cells := (ps_cells p)(a := None)\<rparr>)))"

definition set_contents :: "nat \<Rightarrow> nat \<Rightarrow> primary_store \<Rightarrow> primary_store res" where
  "set_contents a x p =
     (case ps_cells p a of
        None \<Rightarrow> Throw Dangling
      | Some old \<Rightarrow> and_then (delete_text old p) (\<lambda>p. Ok (p\<lparr>ps_cells := (ps_cells p)(a \<mapsto> x)\<rparr>)))"

definition contents :: "primary_store \<Rightarrow> nat \<Rightarrow> string res" where
  "contents p a =
     (case ps_cells p a of
        None \<Rightarrow> Throw Dangling
      | Some x \<Rightarrow> (case ps_texts p x of None \<Rightarrow> Throw Dangling | Some v \<Rightarrow> Ok v))"

text \<open>The table with the contents of its cells, and the server as the other theories have it.\<close>

definition map_cells :: "('v \<Rightarrow> 'w) \<Rightarrow> 'v rows \<Rightarrow> 'w rows" where
  "map_cells f t = map (\<lambda>(r, m). (r, map (\<lambda>(c, v). (c, f v)) m)) t"

definition table_view :: "primary_store \<Rightarrow> bmap" where
  "table_view p = map_cells (\<lambda>a. case contents p a of Ok v \<Rightarrow> v | _ \<Rightarrow> []) (ps_table p)"

definition server_view :: "primary_store \<Rightarrow> worker" where
  "server_view p = (ps_server p)\<lparr>tbl := table_view p\<rparr>"

section \<open>The sections of the handlers\<close>

text \<open>
  Where a thread is with the request of its client: it has read it; it has found no cell for a CPUT; it has
  found one, and keeps the pointer; it has stored the contents at an address or erased a cell, and the
  update is still to be sent; it has replied.
\<close>

datatype place =
    At_rest
  | Received request
  | Absent key string
  | Found key string string nat
  | Stored key nat int
  | Erased key int
  | Answer string

definition log_put :: "key \<Rightarrow> string \<Rightarrow> primary_store \<Rightarrow> int \<times> primary_store" where
  "log_put k v p = (case putToLog v (fst k) (snd k) (ps_server p) of (seq, c) \<Rightarrow> (seq, p\<lparr>ps_server := c\<rparr>))"

definition log_delete :: "key \<Rightarrow> primary_store \<Rightarrow> int \<times> primary_store" where
  "log_delete k p = (case deleteToLog (fst k) (snd k) (ps_server p) of (seq, c) \<Rightarrow> (seq, p\<lparr>ps_server := c\<rparr>))"

definition put_section :: "key \<Rightarrow> string \<Rightarrow> primary_store \<Rightarrow> (place \<times> primary_store) res" where
  "put_section k v p =
     (case new_text v p of (x, p1) \<Rightarrow>
      case log_put k v p1 of (seq, p2) \<Rightarrow>
        if \<not> map_has (ps_table p2) (fst k) \<or> \<not> map_has (ps_table p2) (snd k) then
          (case new_Cell x p2 of (a, p3) \<Rightarrow> Ok (Stored k x seq, p3\<lparr>ps_table := cell_put k a (ps_table p3)\<rparr>))
        else
          (case cell_get (ps_table p2) k of
             None \<Rightarrow> Throw Null_deref
           | Some a \<Rightarrow> and_then (set_contents a x p2) (\<lambda>p3. Ok (Stored k x seq, p3))))"

definition get_section :: "key \<Rightarrow> primary_store \<Rightarrow> (place \<times> primary_store) res" where
  "get_section k p =
     (if \<not> map_has (ps_table p) (fst k) then Ok (Answer (''-ERR NULL row'' @ crlf), p)
      else (case cell_get (ps_table p) k of
              None \<Rightarrow> Ok (Answer (''-ERR NULL colmn'' @ crlf), p)
            | Some a \<Rightarrow> and_then (contents p a) (\<lambda>v. Ok (Answer (''DATA'' @ crlf @ v @ ''.'' @ crlf), p))))"

definition delete_section :: "key \<Rightarrow> primary_store \<Rightarrow> (place \<times> primary_store) res" where
  "delete_section k p =
     (case log_delete k p of (seq, p1) \<Rightarrow>
        if \<not> map_has (ps_table p1) (fst k) then Ok (Answer (''-ERR NULL row'' @ crlf), p1)
        else (case cell_get (ps_table p1) k of
                None \<Rightarrow> Ok (Answer (''-ERR NULL colmn'' @ crlf), p1)
              | Some a \<Rightarrow> and_then (delete_Cell a p1) (\<lambda>p2.
                  Ok (Erased k seq, p2\<lparr>ps_table := cell_erase k (ps_table p2)\<rparr>))))"

text \<open>A CPUT looks for its cell before it takes the lock.\<close>

definition cput_test :: "key \<Rightarrow> string \<Rightarrow> string \<Rightarrow> primary_store \<Rightarrow> place" where
  "cput_test k old new p =
     (case cell_get (ps_table p) k of
        None \<Rightarrow> if old = ''NULL'' @ crlf then Absent k new else Answer (''-ERR'' @ crlf)
      | Some a \<Rightarrow> Found k old new a)"

definition create_section :: "key \<Rightarrow> string \<Rightarrow> primary_store \<Rightarrow> (place \<times> primary_store) res" where
  "create_section k new p =
     (case new_text new p of (x, p1) \<Rightarrow>
      case log_put k new p1 of (seq, p2) \<Rightarrow>
      case new_Cell x p2 of (a, p3) \<Rightarrow> Ok (Stored k x seq, p3\<lparr>ps_table := cell_put k a (ps_table p3)\<rparr>))"

text \<open>Under the lock it compares what the table has now, but changes the cell it had found.\<close>

definition compare_section ::
    "key \<Rightarrow> string \<Rightarrow> string \<Rightarrow> nat \<Rightarrow> primary_store \<Rightarrow> (place \<times> primary_store) res" where
  "compare_section k old new a p =
     (case cell_get (ps_table p) k of
        None \<Rightarrow> Throw Null_deref
      | Some b \<Rightarrow> and_then (contents p b) (\<lambda>v.
          if v = old then
            (case new_text new p of (x, p1) \<Rightarrow>
             case log_put k new p1 of (seq, p2) \<Rightarrow>
               and_then (set_contents a x p2) (\<lambda>p3. Ok (Stored k x seq, p3)))
          else Ok (Answer (''-ERR'' @ crlf), p)))"

text \<open>After the lock is released the contents are read again from their address.\<close>

definition push_section :: "key \<Rightarrow> nat \<Rightarrow> int \<Rightarrow> primary_store \<Rightarrow> (place \<times> primary_store) res" where
  "push_section k x seq p =
     (if primary (sstate (ps_server p)) then
        (case ps_texts p x of
           None \<Rightarrow> Throw Dangling
         | Some v \<Rightarrow> and_then (push_update (fst k) (snd k) v seq (ps_server p)) (\<lambda>c.
             Ok (Answer (''+OK'' @ crlf), p\<lparr>ps_server := c\<rparr>)))
      else Ok (Answer (''+OK'' @ crlf), p))"

definition poll_section :: "key \<Rightarrow> int \<Rightarrow> primary_store \<Rightarrow> (place \<times> primary_store) res" where
  "poll_section k seq p =
     (if primary (sstate (ps_server p)) then
        (case bstore (ps_server p) of
           None \<Rightarrow> Throw Null_deref
         | Some bs \<Rightarrow> Ok (Answer (''+OK deleted'' @ crlf),
             p\<lparr>ps_server := (ps_server p)\<lparr>bstore := Some (bs_poll (fst k) (snd k) seq bs)\<rparr>\<rparr>))
      else Ok (Answer (''+OK deleted'' @ crlf), p))"

fun section_step :: "place \<Rightarrow> primary_store \<Rightarrow> (place \<times> primary_store) res" where
  "section_step At_rest p = Ok (At_rest, p)"
| "section_step (Received (RPut k v)) p = put_section k v p"
| "section_step (Received (RGet k)) p = get_section k p"
| "section_step (Received (RDelete k)) p = delete_section k p"
| "section_step (Received (RCput k old new)) p = Ok (cput_test k old new p, p)"
| "section_step (Absent k new) p = create_section k new p"
| "section_step (Found k old new a) p = compare_section k old new a p"
| "section_step (Stored k x seq) p = push_section k x seq p"
| "section_step (Erased k seq) p = poll_section k seq p"
| "section_step (Answer s) p = Ok (Answer s, p)"

section \<open>Runs\<close>

text \<open>
  One thread for each client: it reads a request, or it does its next section. The checkpoint thread takes the
  lock too, so a checkpoint falls between sections.
\<close>

record primary_run =
  pr_store :: primary_store
  pr_place :: "nat \<Rightarrow> place"

datatype primary_event = Sends nat request | Steps nat | Checkpoints

fun resting :: "place \<Rightarrow> bool" where
  "resting At_rest = True"
| "resting (Answer s) = True"
| "resting _ = False"

fun primary_step :: "primary_event \<Rightarrow> primary_run \<Rightarrow> primary_run res" where
  "primary_step (Sends i q) p =
     Ok (if resting (pr_place p i) then p\<lparr>pr_place := (pr_place p)(i := Received q)\<rparr> else p)"
| "primary_step (Steps i) p =
     and_then (section_step (pr_place p i) (pr_store p)) (\<lambda>(pl, s).
       Ok (p\<lparr>pr_store := s, pr_place := (pr_place p)(i := pl)\<rparr>))"
| "primary_step Checkpoints p =
     Ok (p\<lparr>pr_store := (pr_store p)\<lparr>ps_server := checkPointingThread (server_view (pr_store p))\<rparr>\<rparr>)"

fun primary_runs :: "primary_event list \<Rightarrow> primary_run \<Rightarrow> primary_run res" where
  "primary_runs [] p = Ok p"
| "primary_runs (e # es) p = and_then (primary_step e p) (primary_runs es)"

section \<open>What the heap keeps\<close>

text \<open>Values of a table replaced one by one.\<close>

lemma map_at_values: "map_at (map (\<lambda>(c, v). (c, f v)) m) k = map_option f (map_at m k)"
  by (induction m k rule: map_at.induct) auto

lemma map_at_rows: "map_at (map_cells f t) r = map_option (map (\<lambda>(c, v). (c, f v))) (map_at t r)"
  unfolding map_cells_def by (rule map_at_values)

lemma cell_get_map [simp]: "cell_get (map_cells f t) k = map_option f (cell_get t k)"
  by (simp add: cell_get_def row_of_def map_at_rows map_at_values split: option.split)

lemma map_has_map [simp]: "map_has (map_cells f t) r = map_has t r"
  by (simp add: map_has_def map_at_rows)

lemma map_ok_values: "map_ok (map (\<lambda>(c, v). (c, f v)) m) = map_ok m"
  by (induction m) auto

lemma table_ok_map [simp]: "table_ok (map_cells f t) = table_ok t"
  by (force simp: table_ok_def map_cells_def map_ok_values)

text \<open>The address of the contents of a cell. Addresses in the table are alive and no two cells share their contents.\<close>

definition text_at :: "primary_store \<Rightarrow> key \<Rightarrow> nat option" where
  "text_at p k = (case cell_get (ps_table p) k of None \<Rightarrow> None | Some a \<Rightarrow> ps_cells p a)"

definition cell_alive :: "primary_store \<Rightarrow> nat \<Rightarrow> bool" where
  "cell_alive p a \<longleftrightarrow> a < ps_next p \<and> (\<exists>x. ps_cells p a = Some x \<and> x < ps_next p \<and> ps_texts p x \<noteq> None)"

definition heap_ok :: "primary_store \<Rightarrow> bool" where
  "heap_ok p \<longleftrightarrow> table_ok (ps_table p) \<and> (\<forall>k a. cell_get (ps_table p) k = Some a \<longrightarrow> cell_alive p a) \<and>
     (\<forall>k k' x. text_at p k = Some x \<longrightarrow> text_at p k' = Some x \<longrightarrow> k = k')"

lemma heap_cell:
  assumes "heap_ok p" "cell_get (ps_table p) k = Some a"
  obtains x v where "ps_cells p a = Some x" "ps_texts p x = Some v" "a < ps_next p" "x < ps_next p"
    "text_at p k = Some x" "contents p a = Ok v"
proof -
  have "cell_alive p a" using assms unfolding heap_ok_def by blast
  then obtain x v where x: "ps_cells p a = Some x" "ps_texts p x = Some v" "a < ps_next p" "x < ps_next p"
    by (auto simp: cell_alive_def)
  show thesis by (rule that [OF x]) (simp_all add: x assms(2) text_at_def contents_def)
qed

lemma heap_same_text:
  "heap_ok p \<Longrightarrow> text_at p k = Some x \<Longrightarrow> text_at p k' = Some x \<Longrightarrow> k = k'"
  unfolding heap_ok_def by blast

definition heap_store :: "primary_store \<Rightarrow> store" where
  "heap_store p = ({r. map_has (ps_table p) r}, \<lambda>k. Option.bind (text_at p k) (ps_texts p))"

lemma view_store: "heap_ok p \<Longrightarrow> abs_store (table_view p) = heap_store p"
proof -
  assume h: "heap_ok p"
  have "cell_get (table_view p) k = Option.bind (text_at p k) (ps_texts p)" for k
  proof (cases "cell_get (ps_table p) k")
    case None
    then show ?thesis by (simp add: table_view_def text_at_def)
  next
    case (Some a)
    obtain x v where "ps_texts p x = Some v" "text_at p k = Some x" "contents p a = Ok v"
      using h Some by (rule heap_cell)
    then show ?thesis using Some by (simp add: table_view_def)
  qed
  moreover have "map_has (table_view p) r = map_has (ps_table p) r" for r by (simp add: table_view_def)
  ultimately show ?thesis by (simp add: abs_store_def heap_store_def fun_eq_iff set_eq_iff)
qed

lemma heap_server [simp]:
  "text_at (p\<lparr>ps_server := c\<rparr>) = text_at p" "contents (p\<lparr>ps_server := c\<rparr>) = contents p"
  "heap_store (p\<lparr>ps_server := c\<rparr>) = heap_store p" "heap_ok (p\<lparr>ps_server := c\<rparr>) = heap_ok p"
proof -
  show t: "text_at (p\<lparr>ps_server := c\<rparr>) = text_at p"
    by (rule ext) (simp add: text_at_def split: option.split)
  show "contents (p\<lparr>ps_server := c\<rparr>) = contents p"
    by (rule ext) (simp add: contents_def split: option.split)
  show "heap_store (p\<lparr>ps_server := c\<rparr>) = heap_store p" by (simp add: heap_store_def t)
  show "heap_ok (p\<lparr>ps_server := c\<rparr>) = heap_ok p" by (simp add: heap_ok_def t cell_alive_def)
qed

lemma own_text:
  assumes "\<And>k'. k' \<noteq> k \<Longrightarrow> T' k' = T k' \<and> (\<forall>y. T k' = Some y \<longrightarrow> Some y \<noteq> T' k)"
    and "\<And>k1 k2 y. T k1 = Some y \<Longrightarrow> T k2 = Some y \<Longrightarrow> k1 = k2" "T' k1 = Some y" "T' k2 = Some y"
  shows "k1 = k2"
proof (cases "k1 = k")
  case True
  then show ?thesis using assms(1) [of k2] assms(3,4) by force
next
  case False
  note k1 = assms(1) [OF this]
  show ?thesis
  proof (cases "k2 = k")
    case True
    then show ?thesis using k1 assms(3,4) by auto
  next
    case False
    then have "T k1 = Some y" "T k2 = Some y" using k1 assms(1) [of k2] assms(3,4) by simp_all
    then show ?thesis by (rule assms(2))
  qed
qed

text \<open>A change of one cell leaves the others and their addresses alone.\<close>

definition untouched :: "key \<Rightarrow> primary_store \<Rightarrow> primary_store \<Rightarrow> bool" where
  "untouched k p p' \<longleftrightarrow>
     (\<forall>k'. k' \<noteq> k \<longrightarrow> cell_get (ps_table p') k' = cell_get (ps_table p) k' \<and> text_at p' k' = text_at p k')"

lemma untouchedD:
  assumes "untouched k p p'" "k' \<noteq> k"
  shows "cell_get (ps_table p') k' = cell_get (ps_table p) k'" "text_at p' k' = text_at p k'"
  using assms unfolding untouched_def by blast+

text \<open>A new cell in the table.\<close>

lemma heap_new_cell:
  fixes v :: string and k :: key and c :: worker and p :: primary_store
  assumes "heap_ok p"
  defines "p' \<equiv> p\<lparr>ps_server := c, ps_texts := (ps_texts p)(ps_next p \<mapsto> v), ps_next := Suc (Suc (ps_next p)),
      ps_cells := (ps_cells p)(Suc (ps_next p) \<mapsto> ps_next p),
      ps_table := cell_put k (Suc (ps_next p)) (ps_table p)\<rparr>"
  shows "heap_ok p'" "heap_store p' = (insert (fst k) (fst (heap_store p)), (snd (heap_store p))(k \<mapsto> v))"
    and "text_at p' k = Some (ps_next p)" "untouched k p p'"
proof -
  have old: "text_at p' k' = text_at p k' \<and> (\<forall>x. text_at p k' = Some x \<longrightarrow> x < ps_next p)" if "k' \<noteq> k" for k'
  proof (cases "cell_get (ps_table p) k'")
    case None
    then show ?thesis using that by (simp add: p'_def text_at_def)
  next
    case (Some a)
    obtain x where "ps_cells p a = Some x" "a < ps_next p" "x < ps_next p" using assms(1) Some by (rule heap_cell)
    then show ?thesis using that Some by (simp add: p'_def text_at_def)
  qed
  show new: "text_at p' k = Some (ps_next p)" by (simp add: p'_def text_at_def)
  show "untouched k p p'" using old by (simp add: untouched_def) (simp add: p'_def)
  have alive: "cell_alive p' a" if "cell_get (ps_table p') k' = Some a" for k' a
  proof (cases "k' = k")
    case True
    then show ?thesis using that by (simp add: p'_def cell_alive_def)
  next
    case False
    then have "cell_get (ps_table p) k' = Some a" using that by (simp add: p'_def)
    with assms(1) obtain x v where "ps_cells p a = Some x" "ps_texts p x = Some v" "a < ps_next p" "x < ps_next p"
      by (rule heap_cell)
    then show ?thesis by (simp add: p'_def cell_alive_def)
  qed
  have tab: "table_ok (ps_table p')" using assms(1) by (simp add: p'_def heap_ok_def table_ok_put)
  have "k1 = k2" if "text_at p' k1 = Some x" "text_at p' k2 = Some x" for k1 k2 x
    by (rule own_text [where T = "text_at p" and T' = "text_at p'" and k = k and y = x])
       (use that old new heap_same_text [OF assms(1)] in auto)
  with alive tab show "heap_ok p'" unfolding heap_ok_def by blast
  have "Option.bind (text_at p' k') (ps_texts p') = ((\<lambda>k. Option.bind (text_at p k) (ps_texts p))(k \<mapsto> v)) k'" for k'
  proof (cases "k' = k")
    case True
    then show ?thesis using new by (simp add: p'_def)
  next
    case False
    then show ?thesis using old [OF False] by (cases "text_at p k'") (simp_all add: p'_def)
  qed
  moreover have "{r. map_has (ps_table p') r} = insert (fst k) {r. map_has (ps_table p) r}"
    by (auto simp: p'_def cell_put_def map_has_def)
  ultimately show "heap_store p' = (insert (fst k) (fst (heap_store p)), (snd (heap_store p))(k \<mapsto> v))"
    by (simp add: heap_store_def fun_eq_iff)
qed

text \<open>The other cells of the table, when one is changed.\<close>

lemma heap_other:
  assumes "heap_ok p" "cell_get (ps_table p) k = Some a" "ps_cells p a = Some x" "k' \<noteq> k" "cell_get (ps_table p) k' = Some b"
  shows "b \<noteq> a \<and> (\<exists>y. ps_cells p b = Some y \<and> y < ps_next p \<and> y \<noteq> x \<and> b < ps_next p \<and> ps_texts p y \<noteq> None \<and>
    text_at p k' = Some y)"
proof -
  obtain y w where y: "ps_cells p b = Some y" "ps_texts p y = Some w" "b < ps_next p" "y < ps_next p"
    "text_at p k' = Some y" using assms(1,5) by (rule heap_cell)
  have "text_at p k = Some x" using assms(2,3) by (simp add: text_at_def)
  then have "y \<noteq> x" using heap_same_text [OF assms(1)] y(5) assms(4) by blast
  then show ?thesis using assms(3) y by auto
qed

text \<open>New contents for a cell of the table, whose old contents are freed.\<close>

lemma heap_new_contents:
  fixes v :: string and k :: key and c :: worker and p :: primary_store
  assumes "heap_ok p" "cell_get (ps_table p) k = Some a"
  obtains p' where "set_contents a (ps_next p) (p\<lparr>ps_texts := (ps_texts p)(ps_next p \<mapsto> v),
      ps_next := Suc (ps_next p), ps_server := c\<rparr>) = Ok p'"
    "heap_ok p'" "heap_store p' = (fst (heap_store p), (snd (heap_store p))(k \<mapsto> v))" "ps_server p' = c"
    "text_at p' k = Some (ps_next p)" "untouched k p p'" "\<forall>x. text_at p k = Some x \<longrightarrow> ps_texts p' x = None"
proof -
  obtain x u where x: "ps_cells p a = Some x" "ps_texts p x = Some u" "a < ps_next p" "x < ps_next p"
    "text_at p k = Some x" using assms by (rule heap_cell)
  let ?p' = "p\<lparr>ps_server := c, ps_texts := ((ps_texts p)(ps_next p \<mapsto> v))(x := None), ps_next := Suc (ps_next p),
      ps_cells := (ps_cells p)(a \<mapsto> ps_next p)\<rparr>"
  have run: "set_contents a (ps_next p) (p\<lparr>ps_texts := (ps_texts p)(ps_next p \<mapsto> v),
      ps_next := Suc (ps_next p), ps_server := c\<rparr>) = Ok ?p'"
    using x by (simp add: set_contents_def delete_text_def)
  note apart = heap_other [OF assms x(1)]
  have new: "text_at ?p' k = Some (ps_next p)" by (simp add: text_at_def assms(2))
  have old: "text_at ?p' k' = text_at p k' \<and> (\<forall>y. text_at p k' = Some y \<longrightarrow> y < ps_next p \<and> y \<noteq> x)" if "k' \<noteq> k" for k'
  proof (cases "cell_get (ps_table p) k'")
    case None
    then show ?thesis by (simp add: text_at_def)
  next
    case (Some b)
    with apart [OF that] obtain y where "b \<noteq> a" "ps_cells p b = Some y" "y < ps_next p" "y \<noteq> x" by blast
    then show ?thesis using Some by (simp add: text_at_def)
  qed
  have alive: "cell_alive ?p' b" if "cell_get (ps_table ?p') k' = Some b" for k' b
  proof (cases "k' = k")
    case True
    then show ?thesis using that x assms(2) by (simp add: cell_alive_def)
  next
    case False
    have "cell_get (ps_table p) k' = Some b" using that by simp
    with apart [OF False] obtain y where "b \<noteq> a" "ps_cells p b = Some y" "y < ps_next p" "y \<noteq> x" "b < ps_next p"
      "ps_texts p y \<noteq> None" by blast
    then show ?thesis by (simp add: cell_alive_def)
  qed
  have tab: "table_ok (ps_table ?p')" using assms(1) by (simp add: heap_ok_def)
  have "k1 = k2" if "text_at ?p' k1 = Some y" "text_at ?p' k2 = Some y" for k1 k2 y
    by (rule own_text [where T = "text_at p" and T' = "text_at ?p'" and k = k and y = y])
       (use that old new heap_same_text [OF assms(1)] in auto)
  with alive tab have "heap_ok ?p'" unfolding heap_ok_def by blast
  moreover have "Option.bind (text_at ?p' k') (ps_texts ?p') = ((\<lambda>k. Option.bind (text_at p k) (ps_texts p))(k \<mapsto> v)) k'" for k'
  proof (cases "k' = k")
    case True
    then show ?thesis using new x by simp
  next
    case False
    then show ?thesis using old [OF False] by (cases "text_at p k'") simp_all
  qed
  then have "heap_store ?p' = (fst (heap_store p), (snd (heap_store p))(k \<mapsto> v))"
    by (simp add: heap_store_def fun_eq_iff)
  moreover have "untouched k p ?p'" using old by (simp add: untouched_def)
  ultimately show thesis using that [OF run] new x(5) by simp
qed

text \<open>A cell taken out of the table and freed with its contents.\<close>

lemma heap_delete:
  fixes k :: key and c :: worker and p :: primary_store
  assumes "heap_ok p" "cell_get (ps_table p) k = Some a"
  obtains p' where "delete_Cell a p = Ok p'" "ps_table p' = ps_table p" "ps_server p' = ps_server p"
    "heap_ok (p'\<lparr>ps_table := cell_erase k (ps_table p)\<rparr>)"
    "heap_store (p'\<lparr>ps_table := cell_erase k (ps_table p)\<rparr>) = (fst (heap_store p), (snd (heap_store p))(k := None))"
    "untouched k p (p'\<lparr>ps_table := cell_erase k (ps_table p)\<rparr>)"
proof -
  obtain x u where x: "ps_cells p a = Some x" "ps_texts p x = Some u" "text_at p k = Some x"
    using assms by (rule heap_cell)
  let ?d = "p\<lparr>ps_texts := (ps_texts p)(x := None), ps_cells := (ps_cells p)(a := None)\<rparr>"
  let ?p' = "?d\<lparr>ps_table := cell_erase k (ps_table p)\<rparr>"
  have run: "delete_Cell a p = Ok ?d" using x by (simp add: delete_Cell_def delete_text_def)
  have tok: "table_ok (ps_table p)" using assms(1) by (simp add: heap_ok_def)
  note get = cell_get_erase [OF tok, of k]
  note apart = heap_other [OF assms x(1)]
  have old: "text_at ?p' k' = text_at p k' \<and> text_at p k' \<noteq> Some x" if "k' \<noteq> k" for k'
  proof (cases "cell_get (ps_table p) k'")
    case None
    then show ?thesis using that by (simp add: text_at_def get)
  next
    case (Some b)
    with apart [OF that] obtain y where "b \<noteq> a" "ps_cells p b = Some y" "y \<noteq> x" by blast
    then show ?thesis using Some that by (simp add: text_at_def get)
  qed
  have new: "text_at ?p' k = None" by (simp add: text_at_def get)
  have alive: "cell_alive ?p' b" if "cell_get (ps_table ?p') k' = Some b" for k' b
  proof -
    have k: "k' \<noteq> k" using that by (auto simp: get)
    then have "cell_get (ps_table p) k' = Some b" using that by (simp add: get)
    with apart [OF k] obtain y where "b \<noteq> a" "ps_cells p b = Some y" "y < ps_next p" "y \<noteq> x" "b < ps_next p"
      "ps_texts p y \<noteq> None" by blast
    then show ?thesis by (simp add: cell_alive_def)
  qed
  have tab: "table_ok (ps_table ?p')" using tok by (simp add: table_ok_erase)
  have "k1 = k2" if "text_at ?p' k1 = Some y" "text_at ?p' k2 = Some y" for k1 k2 y
    by (rule own_text [where T = "text_at p" and T' = "text_at ?p'" and k = k and y = y])
       (use that old new heap_same_text [OF assms(1)] in auto)
  with alive tab have ok: "heap_ok ?p'" unfolding heap_ok_def by blast
  have "Option.bind (text_at ?p' k') (ps_texts ?p') = ((\<lambda>k. Option.bind (text_at p k) (ps_texts p))(k := None)) k'" for k'
  proof (cases "k' = k")
    case True
    then show ?thesis using new by simp
  next
    case False
    then show ?thesis using old [OF False] by (cases "text_at p k'") simp_all
  qed
  moreover have "{r. map_has (cell_erase k (ps_table p)) r} = {r. map_has (ps_table p) r}"
    using assms(2) cell_has_row [of "ps_table p" "fst k" "snd k"] by (auto simp: cell_erase_def map_has_def)
  ultimately have "heap_store ?p' = (fst (heap_store p), (snd (heap_store p))(k := None))"
    by (simp add: heap_store_def fun_eq_iff)
  moreover have "untouched k p ?p'" using old by (simp add: untouched_def get)
  ultimately show thesis using that [OF run] ok by simp
qed

end
