(* ===== verification/Clients_Props.thy ===== *)
theory Clients_Props
  imports Primary_Clients
begin

text \<open>
  What the clients of one primary see (\<open>Primary_Clients\<close>): every section changes the cells as the abstract store
  does; runs in which no thread is disturbed are linearizable and durable; a client alone is served as by a
  round of the worker; clients of different cells do not disturb each other.
\<close>

section \<open>The effect of a section\<close>

text \<open>A primary that serves: the log and the file of the next checkpoint can be written.\<close>

definition serves :: "worker \<Rightarrow> bool" where
  "serves c \<longleftrightarrow> primary (sstate c) \<and> log_open c \<and> 0 \<le> seqID (sstate c) \<and> paths_ok (sstate c) \<and>
     fs_open (disk c) (FILE_PATH (sstate c) @ ''/tem.txt'') \<and> (\<exists>bs. bstore c = Some bs \<and> bs_ok bs)"

definition logged_put :: "key \<Rightarrow> string \<Rightarrow> worker \<Rightarrow> worker" where
  "logged_put k v c =
     (logged (put_record (fst k) (snd k) (seqID (sstate c) + 1) v) c)\<lparr>sstate := (sstate c)\<lparr>seqID := seqID (sstate c) + 1\<rparr>\<rparr>"

lemma logged_put_simps [simp]:
  "sstate (logged_put k v c) = (sstate c)\<lparr>seqID := seqID (sstate c) + 1\<rparr>" "bstore (logged_put k v c) = bstore c"
  by (simp_all add: logged_put_def)

lemma dele_numbered_simps [simp]:
  "sstate (dele_numbered r k c) = (sstate c)\<lparr>seqID := seqID (sstate c) + 1\<rparr>" "bstore (dele_numbered r k c) = bstore c"
  by (simp_all add: dele_numbered_def)

lemma serves_logged:
  assumes "serves c"
  shows "serves (logged_put k v c)" "serves (dele_numbered r l c)"
  using assms
  by (simp_all add: serves_def log_open_def paths_ok_def logged_put_def dele_numbered_def logged_def) auto

lemma serves_seq: "serves c \<Longrightarrow> seqID (sstate c) < long_max \<Longrightarrow> log_open c \<and> seq_ok c"
  by (simp add: serves_def seq_ok_def)

lemma log_put_ok:
  "serves (ps_server p) \<Longrightarrow> seqID (sstate (ps_server p)) < long_max \<Longrightarrow>
     log_put k v p = (seqID (sstate (ps_server p)) + 1, p\<lparr>ps_server := logged_put k v (ps_server p)\<rparr>)"
  by (simp add: log_put_def putToLog_eq serves_seq logged_put_def)

lemma log_delete_ok:
  "serves (ps_server p) \<Longrightarrow> seqID (sstate (ps_server p)) < long_max \<Longrightarrow>
     log_delete k p = (seqID (sstate (ps_server p)) + 1, p\<lparr>ps_server := dele_numbered (fst k) (snd k) (ps_server p)\<rparr>)"
  by (simp add: log_delete_def deleteToLog_eq serves_seq dele_numbered_def)

lemma create_section_ok:
  assumes "heap_ok p" "serves (ps_server p)" "seqID (sstate (ps_server p)) < long_max"
  obtains p' where "create_section k v p = Ok (Stored k (ps_next p) (seqID (sstate (ps_server p)) + 1), p')" "heap_ok p'"
    "heap_store p' = (insert (fst k) (fst (heap_store p)), (snd (heap_store p))(k \<mapsto> v))"
    "ps_server p' = logged_put k v (ps_server p)" "text_at p' k = Some (ps_next p)" "untouched k p p'"
    "ps_texts p' = (ps_texts p)(ps_next p \<mapsto> v)" "ps_next p < ps_next p'"
proof -
  note new = heap_new_cell [OF assms(1), where v = v and k = k and c = "logged_put k v (ps_server p)"]
  show thesis
    by (rule that [OF _ new(1,2) _ new(3,4)]) (simp_all add: create_section_def new_text_def log_put_ok assms(2,3) new_Cell_def)
qed

lemma put_section_ok:
  assumes "\<not> map_has (ps_table p) (snd k)"
  shows "put_section k v p = create_section k v p"
  using assms by (simp add: put_section_def create_section_def new_text_def log_put_def split: prod.split)

lemma compare_section_ok:
  assumes "heap_ok p" "serves (ps_server p)" "seqID (sstate (ps_server p)) < long_max" "cell_get (ps_table p) k = Some a"
    and "snd (heap_store p) k = Some old"
  obtains p' where "compare_section k old new a p = Ok (Stored k (ps_next p) (seqID (sstate (ps_server p)) + 1), p')" "heap_ok p'"
    "heap_store p' = (fst (heap_store p), (snd (heap_store p))(k \<mapsto> new))" "ps_server p' = logged_put k new (ps_server p)"
    "text_at p' k = Some (ps_next p)" "untouched k p p'" "\<forall>x. text_at p k = Some x \<longrightarrow> ps_texts p' x = None"
proof -
  obtain x where "text_at p k = Some x" "ps_texts p x = Some old" "contents p a = Ok old"
  proof -
    obtain x v where "ps_texts p x = Some v" "text_at p k = Some x" "contents p a = Ok v"
      using assms(1,4) by (rule heap_cell)
    then show thesis using assms(5) that by (simp add: heap_store_def)
  qed
  note c = this(3)
  let ?c = "logged_put k new (ps_server p)"
  obtain p' where p': "set_contents a (ps_next p) (p\<lparr>ps_texts := (ps_texts p)(ps_next p \<mapsto> new),
      ps_next := Suc (ps_next p), ps_server := ?c\<rparr>) = Ok p'" "heap_ok p'"
    "heap_store p' = (fst (heap_store p), (snd (heap_store p))(k \<mapsto> new))" "ps_server p' = ?c"
    "text_at p' k = Some (ps_next p)" "untouched k p p'" "\<forall>x. text_at p k = Some x \<longrightarrow> ps_texts p' x = None"
    using assms(1,4) by (rule heap_new_contents [where v = new and c = ?c])
  show thesis
    by (rule that [OF _ p'(2-7)]) (simp add: compare_section_def assms c new_text_def log_put_ok p'(1))
qed

lemma compare_section_refused:
  assumes "heap_ok p" "cell_get (ps_table p) k = Some a" "snd (heap_store p) k \<noteq> Some old"
  shows "compare_section k old new a p = Ok (Answer (''-ERR'' @ crlf), p)"
proof -
  obtain x v where "ps_texts p x = Some v" "text_at p k = Some x" "contents p a = Ok v"
    using assms(1,2) by (rule heap_cell)
  then show ?thesis using assms(2,3) by (auto simp: compare_section_def heap_store_def)
qed

lemma heap_store_cell:
  assumes "heap_ok p"
  shows "snd (heap_store p) k = None \<longleftrightarrow> cell_get (ps_table p) k = None"
proof (cases "cell_get (ps_table p) k")
  case None
  then show ?thesis by (simp add: heap_store_def text_at_def)
next
  case (Some a)
  obtain x v where "ps_texts p x = Some v" "text_at p k = Some x" using assms Some by (rule heap_cell)
  then show ?thesis using Some by (simp add: heap_store_def)
qed

lemma heap_store_row: "fst k \<in> fst (heap_store p) \<longleftrightarrow> map_has (ps_table p) (fst k)"
  by (simp add: heap_store_def)

lemma heap_store_has_row:
  assumes "heap_ok p" "snd (heap_store p) k \<noteq> None"
  shows "fst k \<in> fst (heap_store p)"
proof -
  obtain a where "cell_get (ps_table p) k = Some a" using assms heap_store_cell [OF assms(1), of k] by auto
  then show ?thesis using cell_has_row [of "ps_table p" "fst k" "snd k"] by (simp add: heap_store_row)
qed

lemma get_section_ok:
  assumes "heap_ok p"
  shows "get_section k p = Ok (Answer (fst (serve (RGet k) (heap_store p))), p)"
proof (cases "cell_get (ps_table p) k")
  case None
  then have "snd (heap_store p) k = None" using heap_store_cell [OF assms] by simp
  then show ?thesis
    using None by (cases "heap_store p") (simp add: get_section_def missing_def heap_store_row [symmetric])
next
  case (Some a)
  obtain x v where x: "ps_texts p x = Some v" "text_at p k = Some x" "contents p a = Ok v"
    using assms Some by (rule heap_cell)
  then have v: "snd (heap_store p) k = Some v" by (simp add: heap_store_def)
  then have "map_has (ps_table p) (fst k)" using heap_store_has_row [OF assms] by (simp add: heap_store_row)
  then show ?thesis using Some x v by (cases "heap_store p") (simp add: get_section_def)
qed

lemma delete_section_ok:
  assumes "heap_ok p" "serves (ps_server p)" "seqID (sstate (ps_server p)) < long_max"
  obtains pl p' where "delete_section k p = Ok (pl, p')" "heap_ok p'" "heap_store p' = snd (serve (RDelete k) (heap_store p))"
    "ps_server p' = dele_numbered (fst k) (snd k) (ps_server p)"
    "pl = (if snd (heap_store p) k = None then Answer (fst (serve (RDelete k) (heap_store p)))
       else Erased k (seqID (sstate (ps_server p)) + 1))"
    "fst (serve (RDelete k) (heap_store p)) = (if snd (heap_store p) k = None then missing k (heap_store p) else ''+OK deleted'' @ crlf)"
    "untouched k p p'"
proof (cases "cell_get (ps_table p) k")
  case None
  then have "snd (heap_store p) k = None" using heap_store_cell [OF assms(1)] by simp
  then show thesis
    using assms(1) None
    by (intro that [of "Answer (missing k (heap_store p))" "p\<lparr>ps_server := dele_numbered (fst k) (snd k) (ps_server p)\<rparr>"];
        cases "heap_store p")
       (auto simp: delete_section_def log_delete_ok assms(2,3) missing_def heap_store_row [symmetric] untouched_def)
next
  case (Some a)
  let ?p = "p\<lparr>ps_server := dele_numbered (fst k) (snd k) (ps_server p)\<rparr>"
  have s: "snd (heap_store p) k \<noteq> None" using Some heap_store_cell [OF assms(1)] by simp
  then have row: "map_has (ps_table p) (fst k)" using heap_store_has_row [OF assms(1)] by (simp add: heap_store_row)
  have "heap_ok ?p" "cell_get (ps_table ?p) k = Some a" using assms(1) Some by simp_all
  then obtain p' where p': "delete_Cell a ?p = Ok p'" "ps_table p' = ps_table ?p" "ps_server p' = ps_server ?p"
    "heap_ok (p'\<lparr>ps_table := cell_erase k (ps_table ?p)\<rparr>)"
    "heap_store (p'\<lparr>ps_table := cell_erase k (ps_table ?p)\<rparr>) = (fst (heap_store ?p), (snd (heap_store ?p))(k := None))"
    "untouched k ?p (p'\<lparr>ps_table := cell_erase k (ps_table ?p)\<rparr>)"
    by (rule heap_delete)
  show thesis
  proof (rule that)
    show "delete_section k p = Ok (Erased k (seqID (sstate (ps_server p)) + 1), p'\<lparr>ps_table := cell_erase k (ps_table p)\<rparr>)"
      using row Some p'(1,2) by (simp add: delete_section_def log_delete_ok assms(2,3))
    show "untouched k p (p'\<lparr>ps_table := cell_erase k (ps_table p)\<rparr>)" using p'(6) by (simp add: untouched_def)
  qed (use p' s in \<open>cases "heap_store p"; auto\<close>)+
qed


section \<open>One step of a thread\<close>

text \<open>The request a thread has not decided yet, and the answer it has decided on.\<close>

fun pending :: "place \<Rightarrow> request option" where
  "pending (Received q) = Some q"
| "pending (Absent k new) = Some (RCput k (''NULL'' @ crlf) new)"
| "pending (Found k old new a) = Some (RCput k old new)"
| "pending _ = None"

fun promise :: "place \<Rightarrow> string option" where
  "promise (Stored k x seq) = Some (''+OK'' @ crlf)"
| "promise (Erased k seq) = Some (''+OK deleted'' @ crlf)"
| "promise (Answer s) = Some s"
| "promise _ = None"

text \<open>
  What a thread found before the lock still holds: the cell is still missing, or still the same, or the
  contents it has stored are not freed. (For a PUT: its column is not the name of a row.)
\<close>

fun undisturbed_at :: "place \<Rightarrow> primary_store \<Rightarrow> bool" where
  "undisturbed_at (Received (RPut k v)) p \<longleftrightarrow> \<not> map_has (ps_table p) (snd k)"
| "undisturbed_at (Absent k new) p \<longleftrightarrow> cell_get (ps_table p) k = None"
| "undisturbed_at (Found k old new a) p \<longleftrightarrow> cell_get (ps_table p) k = Some a"
| "undisturbed_at (Stored k x seq) p \<longleftrightarrow> ps_texts p x \<noteq> None"
| "undisturbed_at _ p \<longleftrightarrow> True"

text \<open>
  A section either leaves the cells alone, or it decides the request: then it changes the cells and
  promises the answer exactly as the abstract store does.
\<close>

definition decides :: "place \<Rightarrow> primary_store \<Rightarrow> place \<Rightarrow> primary_store \<Rightarrow> bool" where
  "decides pl p pl' p' \<longleftrightarrow>
     (case pending pl of
        None \<Rightarrow> pending pl' = None \<and> promise pl' = promise pl \<and> heap_store p' = heap_store p
      | Some q \<Rightarrow>
          pending pl' = Some q \<and> promise pl' = None \<and> heap_store p' = heap_store p \<or>
          pending pl' = None \<and> promise pl' = Some (fst (serve q (heap_store p))) \<and>
            heap_store p' = snd (serve q (heap_store p)))"

text \<open>What is written to the log, if anything.\<close>

definition logs :: "request option \<Rightarrow> primary_store \<Rightarrow> primary_store \<Rightarrow> bool" where
  "logs q p p' \<longleftrightarrow>
     (\<exists>bs. ps_server p' = (ps_server p)\<lparr>bstore := bs\<rparr> \<and> heap_store p' = heap_store p) \<or>
     (\<exists>r v. q = Some r \<and> v \<in> set (req_values r) \<and> ps_server p' = logged_put (req_key r) v (ps_server p) \<and>
        snd (heap_store p') = (snd (heap_store p))(req_key r \<mapsto> v)) \<or>
     (\<exists>r. q = Some r \<and> \<not> loggable r)"

lemma logs_nothing: "logs q p p"
  unfolding logs_def by (rule disjI1) (rule exI [of _ "bstore (ps_server p)"], simp)

lemma logs_value:
  "v \<in> set (req_values r) \<Longrightarrow> ps_server p' = logged_put (req_key r) v (ps_server p) \<Longrightarrow>
     snd (heap_store p') = (snd (heap_store p))(req_key r \<mapsto> v) \<Longrightarrow> logs (Some r) p p'"
  unfolding logs_def by blast

lemma push_section_ok:
  assumes "serves (ps_server p)" "ps_texts p x \<noteq> None"
  obtains bs where "push_section k x seq p = Ok (Answer (''+OK'' @ crlf), p\<lparr>ps_server := (ps_server p)\<lparr>bstore := Some bs\<rparr>\<rparr>)"
    "bs_ok bs"
proof -
  obtain v where v: "ps_texts p x = Some v" using assms(2) by blast
  obtain bs where bs: "bstore (ps_server p) = Some bs" "bs_ok bs" "primary (sstate (ps_server p))"
    using assms(1) by (auto simp: serves_def)
  obtain bs' where "bs_push (fst k) (snd k) v seq bs = Ok bs'" "bs_ok bs'" using bs_push_ok [OF bs(2)] by blast
  then show thesis using that bs v by (simp add: push_section_def push_update_def)
qed

lemma poll_section_ok:
  assumes "serves (ps_server p)"
  obtains bs where "poll_section k seq p = Ok (Answer (''+OK deleted'' @ crlf), p\<lparr>ps_server := (ps_server p)\<lparr>bstore := Some bs\<rparr>\<rparr>)"
    "bs_ok bs"
proof -
  obtain bs where "bstore (ps_server p) = Some bs" "bs_ok bs" "primary (sstate (ps_server p))"
    using assms by (auto simp: serves_def)
  then show thesis using that [of "bs_poll (fst k) (snd k) seq bs"] by (simp add: poll_section_def bs_poll_ok)
qed

lemma serves_bstore: "serves c \<Longrightarrow> bs_ok bs \<Longrightarrow> serves (c\<lparr>bstore := Some bs\<rparr>)"
  by (simp add: serves_def log_open_def)

definition section_ok :: "place \<Rightarrow> primary_store \<Rightarrow> bool" where
  "section_ok pl p \<longleftrightarrow>
     (\<exists>pl' p'. section_step pl p = Ok (pl', p') \<and> heap_ok p' \<and> serves (ps_server p') \<and>
        seqID (sstate (ps_server p')) \<le> seqID (sstate (ps_server p)) + 1 \<and>
        decides pl p pl' p' \<and> logs (pending pl) p p')"

lemma section_okI:
  "section_step pl p = Ok (pl', p') \<Longrightarrow> heap_ok p' \<Longrightarrow> serves (ps_server p') \<Longrightarrow>
     seqID (sstate (ps_server p')) \<le> seqID (sstate (ps_server p)) + 1 \<Longrightarrow> decides pl p pl' p' \<Longrightarrow>
     logs (pending pl) p p' \<Longrightarrow> section_ok pl p"
  unfolding section_ok_def by blast

lemma section_ok_put:
  assumes "heap_ok p" "serves (ps_server p)" "seqID (sstate (ps_server p)) < long_max" "\<not> map_has (ps_table p) (snd k)"
  shows "section_ok (Received (RPut k v)) p"
proof -
  obtain p' where p': "create_section k v p = Ok (Stored k (ps_next p) (seqID (sstate (ps_server p)) + 1), p')" "heap_ok p'"
    "heap_store p' = (insert (fst k) (fst (heap_store p)), (snd (heap_store p))(k \<mapsto> v))"
    "ps_server p' = logged_put k v (ps_server p)" using assms(1-3) by (rule create_section_ok)
  have "section_step (Received (RPut k v)) p = Ok (Stored k (ps_next p) (seqID (sstate (ps_server p)) + 1), p')"
    using p'(1) assms(4) by (simp add: put_section_ok)
  moreover have "logs (pending (Received (RPut k v))) p p'" unfolding pending.simps by (rule logs_value) (simp_all add: p'(3,4))
  moreover have "decides (Received (RPut k v)) p (Stored k (ps_next p) (seqID (sstate (ps_server p)) + 1)) p'"
    using p'(3) by (cases "heap_store p") (simp add: decides_def)
  ultimately show ?thesis using p'(2,4) serves_logged [OF assms(2)] by (intro section_okI) simp_all
qed

lemma section_ok_create:
  assumes "heap_ok p" "serves (ps_server p)" "seqID (sstate (ps_server p)) < long_max" "cell_get (ps_table p) k = None"
  shows "section_ok (Absent k new) p"
proof -
  obtain p' where p': "create_section k new p = Ok (Stored k (ps_next p) (seqID (sstate (ps_server p)) + 1), p')" "heap_ok p'"
    "heap_store p' = (insert (fst k) (fst (heap_store p)), (snd (heap_store p))(k \<mapsto> new))"
    "ps_server p' = logged_put k new (ps_server p)" using assms(1-3) by (rule create_section_ok)
  have n: "snd (heap_store p) k = None" using assms(4) heap_store_cell [OF assms(1)] by simp
  have "logs (pending (Absent k new)) p p'" unfolding pending.simps by (rule logs_value) (simp_all add: p'(3,4))
  moreover have "decides (Absent k new) p (Stored k (ps_next p) (seqID (sstate (ps_server p)) + 1)) p'"
    using p'(3) n by (cases "heap_store p") (simp add: decides_def cput_match_def)
  ultimately show ?thesis using p'(1,2,4) serves_logged [OF assms(2)] by (intro section_okI) simp_all
qed

lemma section_ok_compare:
  assumes "heap_ok p" "serves (ps_server p)" "seqID (sstate (ps_server p)) < long_max" "cell_get (ps_table p) k = Some a"
  shows "section_ok (Found k old new a) p"
proof (cases "snd (heap_store p) k = Some old")
  case True
  obtain p' where p': "compare_section k old new a p = Ok (Stored k (ps_next p) (seqID (sstate (ps_server p)) + 1), p')" "heap_ok p'"
    "heap_store p' = (fst (heap_store p), (snd (heap_store p))(k \<mapsto> new))" "ps_server p' = logged_put k new (ps_server p)"
    using assms True by (rule compare_section_ok)
  have "insert (fst k) (fst (heap_store p)) = fst (heap_store p)"
    using heap_store_has_row [OF assms(1), of k] True by auto
  then have "decides (Found k old new a) p (Stored k (ps_next p) (seqID (sstate (ps_server p)) + 1)) p'"
    using p'(3) True by (cases "heap_store p") (simp add: decides_def cput_match_def)
  moreover have "logs (pending (Found k old new a)) p p'" unfolding pending.simps by (rule logs_value) (simp_all add: p'(3,4))
  ultimately show ?thesis using p'(1,2,4) serves_logged [OF assms(2)] by (intro section_okI) simp_all
next
  case False
  have "snd (heap_store p) k \<noteq> None" using assms(4) heap_store_cell [OF assms(1)] by simp
  then have "decides (Found k old new a) p (Answer (''-ERR'' @ crlf)) p"
    using False by (cases "heap_store p") (auto simp: decides_def cput_match_def)
  then show ?thesis
    using compare_section_refused [OF assms(1,4) False] assms(1,2) logs_nothing by (intro section_okI) simp_all
qed


lemma section_ok_delete:
  assumes "heap_ok p" "serves (ps_server p)" "seqID (sstate (ps_server p)) < long_max"
  shows "section_ok (Received (RDelete k)) p"
proof -
  obtain pl p' where p': "delete_section k p = Ok (pl, p')" "heap_ok p'" "heap_store p' = snd (serve (RDelete k) (heap_store p))"
    "ps_server p' = dele_numbered (fst k) (snd k) (ps_server p)"
    "pl = (if snd (heap_store p) k = None then Answer (fst (serve (RDelete k) (heap_store p)))
       else Erased k (seqID (sstate (ps_server p)) + 1))"
    "fst (serve (RDelete k) (heap_store p)) = (if snd (heap_store p) k = None then missing k (heap_store p) else ''+OK deleted'' @ crlf)"
    using assms by (rule delete_section_ok)
  have "decides (Received (RDelete k)) p pl p'" using p'(3,5,6) by (simp add: decides_def split: if_splits)
  moreover have "logs (pending (Received (RDelete k))) p p'" by (simp add: logs_def loggable_def)
  ultimately show ?thesis using p'(1,2,4) serves_logged [OF assms(2)] by (intro section_okI) simp_all
qed

lemma section_ok_test:
  assumes "heap_ok p" "serves (ps_server p)"
  shows "section_ok (Received (RCput k old new)) p"
proof -
  have "decides (Received (RCput k old new)) p (cput_test k old new p) p"
    using heap_store_cell [OF assms(1), of k]
    by (cases "heap_store p") (auto simp: decides_def cput_test_def cput_match_def split: option.splits)
  then show ?thesis using assms logs_nothing by (intro section_okI) simp_all
qed

lemma section_ok_push:
  assumes "heap_ok p" "serves (ps_server p)" "ps_texts p x \<noteq> None"
  shows "section_ok (Stored k x seq) p"
proof -
  obtain bs where bs: "push_section k x seq p = Ok (Answer (''+OK'' @ crlf), p\<lparr>ps_server := (ps_server p)\<lparr>bstore := Some bs\<rparr>\<rparr>)"
    "bs_ok bs" using assms(2,3) by (rule push_section_ok)
  then show ?thesis
    using assms(1) serves_bstore [OF assms(2) bs(2)]
    by (intro section_okI [of _ _ "Answer (''+OK'' @ crlf)" "p\<lparr>ps_server := (ps_server p)\<lparr>bstore := Some bs\<rparr>\<rparr>"])
       (auto simp: decides_def logs_def)
qed

lemma section_ok_poll:
  assumes "heap_ok p" "serves (ps_server p)"
  shows "section_ok (Erased k seq) p"
proof -
  obtain bs where bs: "poll_section k seq p = Ok (Answer (''+OK deleted'' @ crlf), p\<lparr>ps_server := (ps_server p)\<lparr>bstore := Some bs\<rparr>\<rparr>)"
    "bs_ok bs" using assms(2) by (rule poll_section_ok)
  then show ?thesis
    using assms(1) serves_bstore [OF assms(2) bs(2)]
    by (intro section_okI [of _ _ "Answer (''+OK deleted'' @ crlf)" "p\<lparr>ps_server := (ps_server p)\<lparr>bstore := Some bs\<rparr>\<rparr>"])
       (auto simp: decides_def logs_def)
qed

lemma section_ok_idle:
  assumes "heap_ok p" "serves (ps_server p)" "resting pl"
  shows "section_ok pl p"
proof -
  have "section_step pl p = Ok (pl, p)" "pending pl = None" using assms(3) by (cases pl; simp)+
  then show ?thesis using assms(1,2) logs_nothing by (intro section_okI) (simp_all add: decides_def)
qed

lemma section_ok_all:
  assumes "heap_ok p" "serves (ps_server p)" "seqID (sstate (ps_server p)) < long_max" "undisturbed_at pl p"
  shows "section_ok pl p"
proof (cases pl)
  case (Received q)
  show ?thesis
  proof (cases q)
    case (RGet k)
    have "decides (Received (RGet k)) p (Answer (fst (serve (RGet k) (heap_store p)))) p"
      by (cases "heap_store p") (simp add: decides_def)
    then have "section_ok (Received (RGet k)) p"
      using assms(1,2) get_section_ok logs_nothing by (intro section_okI) simp_all
    then show ?thesis using Received RGet by simp
  qed (use assms Received section_ok_put section_ok_delete section_ok_test in auto)
qed (use assms section_ok_create section_ok_compare section_ok_push section_ok_poll section_ok_idle in auto)

section \<open>What is on the disk\<close>

text \<open>Checkpoint and log of the disk together hold the cells, and every cell can be written to a checkpoint.\<close>

definition cell_clean :: "key \<Rightarrow> string \<Rightarrow> bool" where
  "cell_clean k v \<longleftrightarrow> name_ok (fst k) \<and> name_ok (snd k) \<and> dump_safe v \<and> fits (cell_record (k, v))"

definition recorded :: "primary_store \<Rightarrow> bool" where
  "recorded p \<longleftrightarrow> durable (server_view p) \<and> (\<forall>k v. snd (heap_store p) k = Some v \<longrightarrow> cell_clean k v)"

lemma view_cells: "heap_ok p \<Longrightarrow> cell_get (table_view p) = snd (heap_store p)"
  using view_store [of p] by (simp add: abs_store_def) (metis snd_conv)

lemma view_clean:
  assumes "heap_ok p" "\<forall>k v. snd (heap_store p) k = Some v \<longrightarrow> cell_clean k v"
  shows "table_ok (table_view p)" "table_clean (table_view p)"
proof -
  show t: "table_ok (table_view p)" using assms(1) by (simp add: table_view_def heap_ok_def)
  have "cell_clean k v" if "(k, v) \<in> set (cells (table_view p))" for k v
    using that table.get_cells [OF t] table.distinct_cells [OF t] view_cells [OF assms(1)] assms(2)
    by (metis map_of_is_SomeI)
  then show "table_clean (table_view p)" by (auto simp: table_clean_def cell_clean_def)
qed

lemma durable_same:
  "durable c \<Longrightarrow> cell_get (tbl c') = cell_get (tbl c) \<Longrightarrow> disk c' = disk c \<Longrightarrow>
     CHECKPOINTING_PATH (sstate c') = CHECKPOINTING_PATH (sstate c) \<Longrightarrow> LOG_PATH (sstate c') = LOG_PATH (sstate c) \<Longrightarrow> durable c'"
  by (simp add: durable_def)

lemma value_clean:
  assumes "req_ok q" "v \<in> set (req_values q)" "dump_safe v"
  shows "cell_clean (req_key q) v"
proof -
  have "length (fst (req_key q)) + length (snd (req_key q)) + length v \<le> rlen"
    using assms(1,2) by (cases q) (auto simp: req_ok_def req_text_def command_line_def put_wire_def cput_wire_def)
  then have "fits (cell_record (req_key q, v))"
    by (cases "req_key q") (simp add: fits_def cell_record_def rlen_def npos_def)
  then show ?thesis using assms(1,3) by (simp add: cell_clean_def req_ok_def plain_name_def)
qed

lemma recorded_step:
  assumes "recorded p" "heap_ok p" "heap_ok p'" "serves (ps_server p)" "seqID (sstate (ps_server p)) < long_max" "logs q p p'"
    and "\<And>r. q = Some r \<Longrightarrow> req_ok r \<and> loggable r"
  shows "recorded p'"
  using assms(6) unfolding logs_def
proof (elim disjE exE conjE)
  fix bs
  assume bs: "ps_server p' = (ps_server p)\<lparr>bstore := bs\<rparr>" "heap_store p' = heap_store p"
  have "durable (server_view p')"
    by (rule durable_same [of "server_view p"])
       (use assms(1-3) bs in \<open>simp_all add: recorded_def server_view_def view_cells\<close>)
  then show ?thesis using assms(1) bs(2) by (simp add: recorded_def)
next
  fix r v
  assume r: "q = Some r" "v \<in> set (req_values r)" "ps_server p' = logged_put (req_key r) v (ps_server p)"
    "snd (heap_store p') = (snd (heap_store p))(req_key r \<mapsto> v)"
  have ok: "req_ok r" "dump_safe v" using assms(7) [OF r(1)] r(2) by (cases r; auto simp: loggable_def)+
  have "0 \<le> seqID (sstate (ps_server p)) + 1" "seqID (sstate (ps_server p)) + 1 \<le> long_max"
    using assms(4,5) by (simp_all add: serves_def)
  then have entry: "log_entry_ok (req_key r, seqID (sstate (server_view p)) + 1, v)"
    using log_entry_short [OF ok(1) r(2) ok(2)] by (simp add: server_view_def)
  let ?d = "put_done (fst (req_key r)) (snd (req_key r)) v [] (the (bstore (ps_server p))) ((server_view p)\<lparr>inp := []\<rparr>)"
  have "durable ?d"
    by (rule durable_put) (use assms(1,4) entry in \<open>simp_all add: recorded_def serves_def server_view_def\<close>)
  then have "durable (server_view p')"
    by (rule durable_same)
       (use assms(2,3) r in \<open>simp_all add: server_view_def view_cells logged_put_def logged_def\<close>)
  moreover have "cell_clean k u" if "snd (heap_store p') k = Some u" for k u
  proof (cases "k = req_key r")
    case True
    then show ?thesis using that r(4) value_clean [OF ok(1) r(2) ok(2)] by simp
  next
    case False
    then have "snd (heap_store p) k = Some u" using that r(4) by simp
    then show ?thesis using assms(1) unfolding recorded_def by blast
  qed
  ultimately show ?thesis by (simp add: recorded_def)
next
  fix r
  assume "q = Some r" "\<not> loggable r"
  then show ?thesis using assms(7) by blast
qed

text \<open>A checkpoint writes the view of the table and empties the log.\<close>

lemma checkpoint_ok:
  assumes "heap_ok p" "serves (ps_server p)"
  defines "p' \<equiv> p\<lparr>ps_server := checkPointingThread (server_view p)\<rparr>"
  shows "heap_ok p'" "serves (ps_server p')" "heap_store p' = heap_store p"
    and "seqID (sstate (ps_server p')) = seqID (sstate (ps_server p))" "recorded p \<Longrightarrow> recorded p'"
proof -
  let ?s = "sstate (ps_server p)"
  obtain b fs where w: "writeToDisk ?s (table_view p) (disk (ps_server p)) = (b, fs)" by (cases "writeToDisk ?s (table_view p) (disk (ps_server p))")
  have fs: "fs_file fs (CHECKPOINTING_PATH ?s) = Some (checkpoint_text (seqID ?s) (table_view p))"
    "fs_file fs (LOG_PATH ?s) = Some []" "fs_open fs = fs_open (disk (ps_server p))"
    using writeToDisk_files [OF _ _ w] assms(2) by (simp_all add: serves_def log_open_def)
  show h: "heap_ok p'" "heap_store p' = heap_store p" using assms(1) by (simp_all add: p'_def)
  have server: "ps_server p' = (if canCheckpoint ?s then (server_view p)\<lparr>disk := fs\<rparr> else server_view p)"
    by (simp add: p'_def checkPointingThread_def server_view_def w)
  show "serves (ps_server p')" using assms(2) fs(3) by (simp add: server serves_def server_view_def log_open_def)
  show "seqID (sstate (ps_server p')) = seqID (sstate (ps_server p))" by (simp add: server server_view_def)
  assume r: "recorded p"
  have cells: "cell_get (table_view p') = cell_get (table_view p)"
    using view_cells [OF assms(1)] view_cells [OF h(1)] h(2) by simp
  have clean: "table_ok (table_view p)" "table_clean (table_view p)"
    using view_clean [OF assms(1)] r by (simp_all add: recorded_def)
  have "durable (server_view p')"
  proof (cases "canCheckpoint ?s")
    case True
    show ?thesis
      unfolding durable_def
      by (rule exI [of _ "table_view p"], rule exI [of _ "seqID ?s"], rule exI [of _ "[]"])
         (use clean fs cells server True in \<open>simp add: server_view_def put_log_def\<close>)
  next
    case False
    show ?thesis
      by (rule durable_same [of "server_view p"]) (use r cells server False in \<open>simp_all add: recorded_def server_view_def\<close>)
  qed
  then show "recorded p'" using r h(2) by (simp add: recorded_def)
qed


section \<open>Every interleaving\<close>

text \<open>The requests in the order in which they are decided, with their threads and answers.\<close>

fun decided_at :: "primary_event \<Rightarrow> primary_run \<Rightarrow> primary_run \<Rightarrow> (nat \<times> request \<times> string) list" where
  "decided_at (Steps i) p p' =
     (case (pending (pr_place p i), promise (pr_place p' i)) of (Some q, Some a) \<Rightarrow> [(i, q, a)] | _ \<Rightarrow> [])"
| "decided_at _ p p' = []"

fun history :: "primary_event list \<Rightarrow> primary_run \<Rightarrow> (nat \<times> request \<times> string) list" where
  "history [] p = []"
| "history (e # es) p = (case primary_step e p of Ok p' \<Rightarrow> decided_at e p p' @ history es p' | _ \<Rightarrow> [])"

text \<open>The requests that thread \<open>i\<close> has read, and its part of a history.\<close>

fun read_at :: "nat \<Rightarrow> primary_event \<Rightarrow> primary_run \<Rightarrow> request list" where
  "read_at i (Sends j q) p = (if j = i \<and> resting (pr_place p i) then [q] else [])"
| "read_at i _ p = []"

fun read_by :: "nat \<Rightarrow> primary_event list \<Rightarrow> primary_run \<Rightarrow> request list" where
  "read_by i [] p = []"
| "read_by i (e # es) p = read_at i e p @ (case primary_step e p of Ok p' \<Rightarrow> read_by i es p' | _ \<Rightarrow> [])"

definition requests_of :: "(nat \<times> request \<times> string) list \<Rightarrow> request list" where
  "requests_of h = map (\<lambda>x. fst (snd x)) h"

definition answers_of :: "(nat \<times> request \<times> string) list \<Rightarrow> string list" where
  "answers_of h = map (\<lambda>x. snd (snd x)) h"

definition of_thread :: "nat \<Rightarrow> (nat \<times> request \<times> string) list \<Rightarrow> (nat \<times> request \<times> string) list" where
  "of_thread i h = filter (\<lambda>x. fst x = i) h"

lemma history_parts [simp]:
  "requests_of [] = []" "requests_of (x # h) = fst (snd x) # requests_of h" "requests_of (h @ h') = requests_of h @ requests_of h'"
  "answers_of [] = []" "answers_of (x # h) = snd (snd x) # answers_of h" "answers_of (h @ h') = answers_of h @ answers_of h'"
  "of_thread i [] = []" "of_thread i (x # h) = (if fst x = i then x # of_thread i h else of_thread i h)"
  "of_thread i (h @ h') = of_thread i h @ of_thread i h'"
  by (simp_all add: requests_of_def answers_of_def of_thread_def)

fun store_answers :: "request list \<Rightarrow> store \<Rightarrow> string list" where
  "store_answers [] st = []"
| "store_answers (q # qs) st = fst (serve q st) # store_answers qs (snd (serve q st))"

definition store_after :: "request list \<Rightarrow> store \<Rightarrow> store" where
  "store_after qs st = snd (serve_all qs st)"

lemma store_after_simps [simp]: "store_after [] st = st" "store_after (q # qs) st = store_after qs (snd (serve q st))"
  by (simp_all add: store_after_def split: prod.split)

text \<open>The runs in which no thread is disturbed by another between its sections.\<close>

fun harmless :: "primary_event \<Rightarrow> primary_run \<Rightarrow> bool" where
  "harmless (Steps i) p \<longleftrightarrow> undisturbed_at (pr_place p i) (pr_store p)"
| "harmless _ p \<longleftrightarrow> True"

fun undisturbed :: "primary_event list \<Rightarrow> primary_run \<Rightarrow> bool" where
  "undisturbed [] p \<longleftrightarrow> True"
| "undisturbed (e # es) p \<longleftrightarrow> harmless e p \<and> (case primary_step e p of Ok p' \<Rightarrow> undisturbed es p' | _ \<Rightarrow> True)"

definition run_ok :: "primary_run \<Rightarrow> bool" where
  "run_ok p \<longleftrightarrow> heap_ok (pr_store p) \<and> serves (ps_server (pr_store p))"

abbreviation seq_of :: "primary_run \<Rightarrow> int" where
  "seq_of p \<equiv> seqID (sstate (ps_server (pr_store p)))"

text \<open>All requests that are or will be at work can be replayed from the log.\<close>

definition replayable :: "primary_event list \<Rightarrow> primary_run \<Rightarrow> bool" where
  "replayable es p \<longleftrightarrow>
     (\<forall>i q. pending (pr_place p i) = Some q \<or> Sends i q \<in> set es \<longrightarrow> req_ok q \<and> loggable q)"

primrec as_list :: "'a option \<Rightarrow> 'a list" where
  "as_list None = []"
| "as_list (Some x) = [x]"

text \<open>
  A run agrees with the store: the decided requests have the store's answers and effect; every thread decides
  its requests in its order, each once; and what it replies, or is going to, is its last answer.
\<close>

definition agrees :: "primary_event list \<Rightarrow> primary_run \<Rightarrow> primary_run \<Rightarrow> bool" where
  "agrees es p p' \<longleftrightarrow>
     answers_of (history es p) = store_answers (requests_of (history es p)) (heap_store (pr_store p)) \<and>
     heap_store (pr_store p') = store_after (requests_of (history es p)) (heap_store (pr_store p)) \<and>
     (\<forall>i. as_list (pending (pr_place p i)) @ read_by i es p =
        requests_of (of_thread i (history es p)) @ as_list (pending (pr_place p' i))) \<and>
     (\<forall>i a. promise (pr_place p' i) = Some a \<longrightarrow>
        (\<exists>as. as_list (promise (pr_place p i)) @ answers_of (of_thread i (history es p)) = as @ [a]))"

lemma store_answers_append:
  "store_answers (xs @ ys) st = store_answers xs st @ store_answers ys (store_after xs st)"
  by (induction xs arbitrary: st) simp_all

lemma store_after_append: "store_after (xs @ ys) st = store_after ys (store_after xs st)"
  by (induction xs arbitrary: st) simp_all

lemma agrees_Nil: "agrees [] p p"
  by (auto simp: agrees_def)

lemma agrees_Cons:
  assumes "primary_step e p = Ok p1" "agrees [e] p p1" "agrees es p1 p'"
  shows "agrees (e # es) p p'"
proof -
  let ?h = "decided_at e p p1" and ?g = "history es p1" and ?st = "heap_store (pr_store p)"
  have h: "answers_of ?h = store_answers (requests_of ?h) ?st" "heap_store (pr_store p1) = store_after (requests_of ?h) ?st"
    and ht: "\<And>i. as_list (pending (pr_place p i)) @ read_at i e p = requests_of (of_thread i ?h) @ as_list (pending (pr_place p1 i))"
    and hp: "\<And>i a. promise (pr_place p1 i) = Some a \<Longrightarrow>
        \<exists>as. as_list (promise (pr_place p i)) @ answers_of (of_thread i ?h) = as @ [a]"
    using assms(1,2) by (simp_all add: agrees_def)
  have g: "answers_of ?g = store_answers (requests_of ?g) (heap_store (pr_store p1))"
      "heap_store (pr_store p') = store_after (requests_of ?g) (heap_store (pr_store p1))"
    and gt: "\<And>i. as_list (pending (pr_place p1 i)) @ read_by i es p1 = requests_of (of_thread i ?g) @ as_list (pending (pr_place p' i))"
    and gp: "\<And>i a. promise (pr_place p' i) = Some a \<Longrightarrow>
        \<exists>as. as_list (promise (pr_place p1 i)) @ answers_of (of_thread i ?g) = as @ [a]"
    using assms(3) by (simp_all add: agrees_def)
  have "as_list (pending (pr_place p i)) @ read_at i e p @ read_by i es p1 =
      requests_of (of_thread i ?h) @ requests_of (of_thread i ?g) @ as_list (pending (pr_place p' i))" for i
    using ht [of i] gt [of i] by (metis append.assoc)
  moreover have "\<exists>as. as_list (promise (pr_place p i)) @ answers_of (of_thread i ?h) @ answers_of (of_thread i ?g) = as @ [a]"
    if a: "promise (pr_place p' i) = Some a" for i a
  proof (cases "answers_of (of_thread i ?g)" rule: rev_exhaust)
    case Nil
    then have "promise (pr_place p1 i) = Some a" using gp [OF a] by (cases "promise (pr_place p1 i)") auto
    then show ?thesis using hp Nil by simp
  next
    case (snoc bs b)
    then have "b = a" using gp [OF a] by (metis append.assoc append1_eq_conv)
    then show ?thesis using snoc by (metis append.assoc)
  qed
  ultimately show ?thesis
    using assms(1) h g by (simp add: agrees_def store_answers_append store_after_append)
qed

text \<open>One event.\<close>

lemma sends_agrees:
  assumes "primary_step (Sends i q) p = Ok p'"
  shows "agrees [Sends i q] p p'"
proof -
  have "pending (pr_place p i) = None" if "resting (pr_place p i)" using that by (cases "pr_place p i") simp_all
  then show ?thesis using assms by (auto simp: agrees_def split: if_splits)
qed

lemma step_agrees:
  assumes "section_step (pr_place p i) (pr_store p) = Ok (pl', s')" "decides (pr_place p i) (pr_store p) pl' s'"
  shows "agrees [Steps i] p (p\<lparr>pr_store := s', pr_place := (pr_place p)(i := pl')\<rparr>)"
  using assms by (auto simp: agrees_def decides_def split: option.splits)

lemma event_ok:
  assumes "run_ok p" "harmless e p" "seq_of p < long_max"
  obtains p' where "primary_step e p = Ok p'" "run_ok p'" "seq_of p' \<le> seq_of p + 1" "agrees [e] p p'"
    "\<And>es. replayable (e # es) p \<Longrightarrow> recorded (pr_store p) \<Longrightarrow> recorded (pr_store p') \<and> replayable es p'"
proof (cases e)
  case (Sends i q)
  let ?p' = "if resting (pr_place p i) then p\<lparr>pr_place := (pr_place p)(i := Received q)\<rparr> else p"
  show thesis
  proof (rule that [of ?p'])
    show step: "primary_step e p = Ok ?p'" using Sends by simp
    show "agrees [e] p ?p'" using sends_agrees step Sends by simp
    show "run_ok ?p'" using assms(1) by (simp add: run_ok_def)
    show "recorded (pr_store ?p') \<and> replayable es ?p'" if "replayable (e # es) p" "recorded (pr_store p)" for es
      using that Sends by (auto simp: replayable_def split: if_splits)
  qed simp
next
  case (Steps i)
  have "section_ok (pr_place p i) (pr_store p)"
    using assms Steps by (intro section_ok_all) (simp_all add: run_ok_def)
  then obtain pl' s' where s: "section_step (pr_place p i) (pr_store p) = Ok (pl', s')" "heap_ok s'" "serves (ps_server s')"
    "seqID (sstate (ps_server s')) \<le> seq_of p + 1" "decides (pr_place p i) (pr_store p) pl' s'"
    "logs (pending (pr_place p i)) (pr_store p) s'"
    unfolding section_ok_def by blast
  let ?p' = "p\<lparr>pr_store := s', pr_place := (pr_place p)(i := pl')\<rparr>"
  have pend: "pending pl' = Some q \<Longrightarrow> pending (pr_place p i) = Some q" for q
    using s(5) by (auto simp: decides_def split: option.splits)
  show thesis
  proof (rule that [of ?p'])
    show "primary_step e p = Ok ?p'" using Steps s(1) by simp
    show "run_ok ?p'" using s(2,3) by (simp add: run_ok_def)
    show "seq_of ?p' \<le> seq_of p + 1" using s(4) by simp
    show "agrees [e] p ?p'" using step_agrees [OF s(1,5)] Steps by simp
    fix es
    assume r: "replayable (e # es) p" "recorded (pr_store p)"
    have "recorded s'"
      by (rule recorded_step [OF r(2) _ s(2) _ assms(3) s(6)])
         (use assms(1) r(1) in \<open>auto simp: run_ok_def replayable_def\<close>)
    moreover have "replayable es ?p'" using r(1) pend unfolding replayable_def by (auto split: if_splits)
    ultimately show "recorded (pr_store ?p') \<and> replayable es ?p'" by simp
  qed
next
  case Checkpoints
  have ok: "heap_ok (pr_store p)" "serves (ps_server (pr_store p))" using assms(1) by (simp_all add: run_ok_def)
  note c = checkpoint_ok [OF ok]
  let ?p' = "p\<lparr>pr_store := (pr_store p)\<lparr>ps_server := checkPointingThread (server_view (pr_store p))\<rparr>\<rparr>"
  show thesis
  proof (rule that [of ?p'])
    show "primary_step e p = Ok ?p'" using Checkpoints by simp
    show "run_ok ?p'" using c(1,2) by (simp add: run_ok_def)
    show "seq_of ?p' \<le> seq_of p + 1" using c(4) by simp
    show "agrees [e] p ?p'" using Checkpoints c(3) by (auto simp: agrees_def)
    show "recorded (pr_store ?p') \<and> replayable es ?p'" if "replayable (e # es) p" "recorded (pr_store p)" for es
      using that c(5) by (simp add: replayable_def)
  qed
qed

lemma runs_ok:
  "run_ok p \<Longrightarrow> undisturbed es p \<Longrightarrow> seq_of p + int (length es) \<le> long_max \<Longrightarrow>
     \<exists>p'. primary_runs es p = Ok p' \<and> run_ok p' \<and> agrees es p p' \<and>
       (replayable es p \<longrightarrow> recorded (pr_store p) \<longrightarrow> recorded (pr_store p'))"
proof (induction es arbitrary: p)
  case Nil
  then show ?case by (simp add: agrees_Nil)
next
  case (Cons e es)
  have "harmless e p" "seq_of p < long_max" using Cons.prems by simp_all
  then obtain p1 where p1: "primary_step e p = Ok p1" "run_ok p1" "seq_of p1 \<le> seq_of p + 1" "agrees [e] p p1"
    "\<And>es. replayable (e # es) p \<Longrightarrow> recorded (pr_store p) \<Longrightarrow> recorded (pr_store p1) \<and> replayable es p1"
    using Cons.prems(1) event_ok by blast
  have "undisturbed es p1" "seq_of p1 + int (length es) \<le> long_max" using Cons.prems p1(1,3) by simp_all
  then obtain p' where p': "primary_runs es p1 = Ok p'" "run_ok p'" "agrees es p1 p'"
    "replayable es p1 \<longrightarrow> recorded (pr_store p1) \<longrightarrow> recorded (pr_store p')"
    using Cons.IH [OF p1(2)] by blast
  then show ?case using p1 agrees_Cons [OF p1(1,4) p'(3)] by auto
qed


section \<open>The clients see the store\<close>

definition all_at_rest :: "primary_run \<Rightarrow> bool" where
  "all_at_rest p \<longleftrightarrow> (\<forall>i. pr_place p i = At_rest)"

text \<open>
  C3. Linearizability. In every interleaving of the sections of any number of clients, and of checkpoints, in which no
  thread is disturbed between its sections, nothing fails; there is one order of the requests in which the
  abstract store gives exactly the answers the clients get and exactly the cells of the table; and each client's
  requests are in this order as it sent them, each once, at a moment between its arrival and its answer.
\<close>

theorem clients_linearizable:
  assumes "run_ok p" "all_at_rest p" "undisturbed es p" "seq_of p + int (length es) \<le> long_max"
  shows "\<exists>p'. primary_runs es p = Ok p' \<and>
    answers_of (history es p) = store_answers (requests_of (history es p)) (abs_store (table_view (pr_store p))) \<and>
    abs_store (table_view (pr_store p')) = store_after (requests_of (history es p)) (abs_store (table_view (pr_store p))) \<and>
    (\<forall>i. read_by i es p = requests_of (of_thread i (history es p)) @ as_list (pending (pr_place p' i))) \<and>
    (\<forall>i a. promise (pr_place p' i) = Some a \<longrightarrow> (\<exists>as. answers_of (of_thread i (history es p)) = as @ [a]))"
proof -
  obtain p' where p': "primary_runs es p = Ok p'" "run_ok p'" "agrees es p p'"
    using runs_ok [OF assms(1,3,4)] by blast
  have "abs_store (table_view (pr_store p)) = heap_store (pr_store p)" "abs_store (table_view (pr_store p')) = heap_store (pr_store p')"
    using assms(1) p'(2) by (simp_all add: run_ok_def view_store)
  with p'(1,3) assms(2) show ?thesis by (simp add: agrees_def all_at_rest_def)
qed

text \<open>
  C8. In a run of C3 in which no request is a DELETE and no value written has a line of a single dot,
  checkpoint and log on the disk together hold at every moment, also between two sections and whenever the
  checkpoint thread has run, the cells of the store: a primary restarted there recovers every change the
  sections have made so far. The two exceptions are those of the code's log: the replay does not apply a
  logged DELETE, and it ends a value at a line of a single dot, in the log as in the checkpoint.
\<close>

theorem clients_durable:
  assumes "run_ok p" "all_at_rest p" "undisturbed es p" "seq_of p + int (length es) \<le> long_max"
    and "recorded (pr_store p)" "\<forall>i q. Sends i q \<in> set es \<longrightarrow> req_ok q \<and> loggable q"
  shows "\<exists>p' t. primary_runs es p = Ok p' \<and>
    recover_files (sstate (ps_server (pr_store p'))) (disk (ps_server (pr_store p'))) = Ok t \<and>
    cell_get t = snd (store_after (requests_of (history es p)) (abs_store (table_view (pr_store p))))"
proof -
  have "replayable es p" using assms(2,6) by (simp add: replayable_def all_at_rest_def)
  then obtain p' where p': "primary_runs es p = Ok p'" "run_ok p'" "agrees es p p'" "recorded (pr_store p')"
    using runs_ok [OF assms(1,3,4)] assms(5) by blast
  have "durable (server_view (pr_store p'))" using p'(4) by (simp add: recorded_def)
  then obtain t where t: "recover_files (sstate (server_view (pr_store p'))) (disk (server_view (pr_store p'))) = Ok t"
    "cell_get t = cell_get (tbl (server_view (pr_store p')))" using durable_recovers by blast
  have "cell_get (table_view (pr_store p')) = snd (heap_store (pr_store p'))" using p'(2) by (simp add: run_ok_def view_cells)
  moreover have "heap_store (pr_store p') = store_after (requests_of (history es p)) (abs_store (table_view (pr_store p)))"
    using p'(3) assms(1) by (simp add: agrees_def run_ok_def view_store)
  ultimately show ?thesis using p'(1) t by (auto simp: server_view_def)
qed

section \<open>One client alone\<close>

text \<open>
  A client that is not interrupted is served by the sections exactly as by a round of the worker's loop: the
  same answer, cells, sequence number, log and updates for the replicas.
\<close>

definition alone :: "nat \<Rightarrow> request \<Rightarrow> primary_event list" where
  "alone i q = [Sends i q, Steps i, Steps i, Steps i]"

definition same_server :: "worker \<Rightarrow> worker \<Rightarrow> bool" where
  "same_server c d \<longleftrightarrow> abs_store (tbl c) = abs_store (tbl d) \<and> sstate c = sstate d \<and> disk c = disk d \<and> bstore c = bstore d"

lemma push_section_eq:
  assumes "primary (sstate (ps_server p))" "ps_texts p x = Some v" "bstore (ps_server p) = Some bs"
    and "bs_push (fst k) (snd k) v seq bs = Ok bs'"
  shows "push_section k x seq p = Ok (Answer (''+OK'' @ crlf), p\<lparr>ps_server := (ps_server p)\<lparr>bstore := Some bs'\<rparr>\<rparr>)"
  using assms by (simp add: push_section_def push_update_def)

lemma same_put:
  assumes "ps_server s = c" "heap_ok s'" "heap_store s' = (insert (fst k) (fst (abs_store (tbl c))), (snd (abs_store (tbl c)))(k \<mapsto> v))"
    and "ps_server s' = logged_put k v c"
  shows "same_server (server_view (s'\<lparr>ps_server := (ps_server s')\<lparr>bstore := Some bs\<rparr>\<rparr>)) (put_done (fst k) (snd k) v [] bs (c\<lparr>inp := es\<rparr>))"
proof -
  have "abs_store (table_view (s'\<lparr>ps_server := (ps_server s')\<lparr>bstore := Some bs\<rparr>\<rparr>)) = heap_store s'"
    using assms(2) by (simp add: view_store)
  then show ?thesis
    using assms(3,4) by (simp add: same_server_def server_view_def abs_put logged_put_def logged_def)
qed


definition served_alike :: "request \<Rightarrow> primary_store \<Rightarrow> worker \<Rightarrow> bool" where
  "served_alike q s c \<longleftrightarrow>
     (\<exists>pl1 s1 pl2 s2 s3 a c'. section_step (Received q) s = Ok (pl1, s1) \<and> section_step pl1 s1 = Ok (pl2, s2) \<and>
        section_step pl2 s2 = Ok (Answer a, s3) \<and> run_step c = Ok c' \<and> sent (task c') = sent (task c) @ a \<and>
        same_server (server_view s3) c')"

lemma served_alikeI:
  "section_step (Received q) s = Ok (pla, sa) \<Longrightarrow> section_step pla sa = Ok (plb, sb) \<Longrightarrow>
     section_step plb sb = Ok (Answer a, sc) \<Longrightarrow> run_step c = Ok c' \<Longrightarrow> sent (task c') = sent (task c) @ a \<Longrightarrow>
     same_server (server_view sc) c' \<Longrightarrow> served_alike q s c"
  unfolding served_alike_def by blast

text \<open>What the sections and the round start from.\<close>

definition same_start :: "primary_store \<Rightarrow> worker \<Rightarrow> bool" where
  "same_start s c \<longleftrightarrow> heap_ok s \<and> serves c \<and> ready c \<and> ps_server s = c \<and> heap_store s = abs_store (tbl c) \<and>
     seqID (sstate c) < long_max"

lemma alike_put:
  assumes "same_start s c" "req_ok (RPut k v)" "inp c = Bytes (req_text (RPut k v)) # es" "put_safe (RPut k v) (abs_store (tbl c))"
  shows "served_alike (RPut k v) s c"
proof -
  have s: "heap_ok s" "serves (ps_server s)" "seqID (sstate (ps_server s)) < long_max" "ready c" "ps_server s = c"
    "heap_store s = abs_store (tbl c)" using assms(1) by (simp_all add: same_start_def)
  have so: "store_ok (tbl c) (fst k) (snd k)" using assms(4) by (simp add: put_safe_def abs_store_def store_ok_def)
  have "seqID (sstate c) < long_max" using s(3,5) by simp
  from step_put [OF s(4) assms(2,3) this so] obtain bs bs0 where bs:
    "run_step c = Ok (put_done (fst k) (snd k) v [] bs (c\<lparr>inp := es\<rparr>))" "bstore c = Some bs0"
    "bs_push (fst k) (snd k) v (seqID (sstate c) + 1) bs0 = Ok bs" by blast
  have "snd k \<notin> fst (heap_store s)" using assms(4) s(6) by (simp add: put_safe_def)
  then have row: "\<not> map_has (ps_table s) (snd k)" by (simp add: heap_store_def)
  obtain s' where s': "create_section k v s = Ok (Stored k (ps_next s) (seqID (sstate (ps_server s)) + 1), s')" "heap_ok s'"
    "heap_store s' = (insert (fst k) (fst (heap_store s)), (snd (heap_store s))(k \<mapsto> v))"
    "ps_server s' = logged_put k v (ps_server s)" "ps_texts s' = (ps_texts s)(ps_next s \<mapsto> v)"
    using s(1-3) by (rule create_section_ok)
  have "push_section k (ps_next s) (seqID (sstate c) + 1) s' =
      Ok (Answer (''+OK'' @ crlf), s'\<lparr>ps_server := (ps_server s')\<lparr>bstore := Some bs\<rparr>\<rparr>)"
    by (rule push_section_eq [OF _ _ _ bs(3)]) (use s s' bs(2) in \<open>simp_all add: serves_def\<close>)
  moreover have "same_server (server_view (s'\<lparr>ps_server := (ps_server s')\<lparr>bstore := Some bs\<rparr>\<rparr>)) (put_done (fst k) (snd k) v [] bs (c\<lparr>inp := es\<rparr>))"
    by (rule same_put [OF s(5) s'(2)]) (use s s' in simp_all)
  ultimately show ?thesis
    using s(4,5) s'(1) row bs(1)
    by (intro served_alikeI [where sa = s' and pla = "Stored k (ps_next s) (seqID (sstate c) + 1)" and plb = "Answer (''+OK'' @ crlf)"
          and sb = "s'\<lparr>ps_server := (ps_server s')\<lparr>bstore := Some bs\<rparr>\<rparr>"])
       (simp_all add: put_section_ok ready_def)
qed

lemma alike_get:
  assumes "same_start s c" "req_ok (RGet k)" "inp c = Bytes (req_text (RGet k)) # es"
  shows "served_alike (RGet k) s c"
proof -
  have s: "heap_ok s" "ready c" "ps_server s = c" "heap_store s = abs_store (tbl c)" using assms(1) by (simp_all add: same_start_def)
  let ?c' = "c\<lparr>inp := es, task := (task c)\<lparr>sent := sent (task c) @ fst (serve (RGet k) (abs_store (tbl c)))\<rparr>\<rparr>"
  have "run_step c = Ok ?c'" using step_get [OF s(2) assms(2,3)] by simp
  moreover have "same_server (server_view s) ?c'" using view_store [OF s(1)] s(3,4) by (simp add: same_server_def server_view_def)
  ultimately show ?thesis using get_section_ok [OF s(1), of k] s(4)
    by (intro served_alikeI [where pla = "Answer (fst (serve (RGet k) (abs_store (tbl c))))" and sa = s
          and plb = "Answer (fst (serve (RGet k) (abs_store (tbl c))))" and sb = s]) simp_all
qed

lemma same_erased:
  assumes "heap_ok s'" "heap_store s' = abs_store t" "ps_server s' = dele_numbered r l c"
    and "sstate c' = sstate (dele_numbered r l c)" "disk c' = disk (dele_numbered r l c)" "tbl c' = t" "bstore c' = Some bs"
  shows "same_server (server_view (s'\<lparr>ps_server := (ps_server s')\<lparr>bstore := Some bs\<rparr>\<rparr>)) c'"
proof -
  have "abs_store (table_view (s'\<lparr>ps_server := (ps_server s')\<lparr>bstore := Some bs\<rparr>\<rparr>)) = heap_store s'"
    using assms(1) by (simp add: view_store)
  then show ?thesis using assms(2-) by (simp add: same_server_def server_view_def)
qed

lemma alike_delete:
  assumes "same_start s c" "req_ok (RDelete k)" "inp c = Bytes (req_text (RDelete k)) # es"
  shows "served_alike (RDelete k) s c"
proof -
  have s: "heap_ok s" "serves (ps_server s)" "seqID (sstate (ps_server s)) < long_max" "ready c" "ps_server s = c"
    "heap_store s = abs_store (tbl c)" using assms(1) by (simp_all add: same_start_def)
  have "seqID (sstate c) < long_max" using s(3,5) by simp
  from step_delete [OF s(4) assms(2,3) this] obtain bs where bs: "bstore c = Some bs"
    "run_step c = Ok (if cell_get (tbl c) k = None
        then reply (missing k (abs_store (tbl c))) (dele_numbered (fst k) (snd k) (c\<lparr>inp := es\<rparr>))
        else dele_done k bs (c\<lparr>inp := es\<rparr>))" by blast
  obtain pl s' where s': "delete_section k s = Ok (pl, s')" "heap_ok s'" "heap_store s' = snd (serve (RDelete k) (heap_store s))"
    "ps_server s' = dele_numbered (fst k) (snd k) (ps_server s)"
    "pl = (if snd (heap_store s) k = None then Answer (fst (serve (RDelete k) (heap_store s)))
       else Erased k (seqID (sstate (ps_server s)) + 1))"
    "fst (serve (RDelete k) (heap_store s)) = (if snd (heap_store s) k = None then missing k (heap_store s) else ''+OK deleted'' @ crlf)"
    using s(1-3) by (rule delete_section_ok)
  have cell: "snd (heap_store s) k = cell_get (tbl c) k" using s(6) by (simp add: abs_store_def)
  have tab: "table_ok (tbl c)" using s(4) by (simp add: ready_def server_ok_def)
  have al: "alive (task c)" using s(4) by (simp add: ready_def)
  have num: "dele_numbered (fst k) (snd k) (c\<lparr>inp := es\<rparr>) = (dele_numbered (fst k) (snd k) c)\<lparr>inp := es\<rparr>"
    by (simp add: dele_numbered_def logged_def)
  have task: "task (dele_numbered (fst k) (snd k) c) = task c" "tbl (dele_numbered (fst k) (snd k) c) = tbl c"
    by (simp_all add: dele_numbered_def)
  show ?thesis
  proof (cases "cell_get (tbl c) k")
    case None
    then have "heap_store s' = abs_store (tbl c)" using s'(3) s(6) cell by (cases "abs_store (tbl c)") simp
    then have "same_server (server_view s') (reply (missing k (abs_store (tbl c))) ((dele_numbered (fst k) (snd k) c)\<lparr>inp := es\<rparr>))"
      using s'(4) s(5) view_store [OF s'(2)] task by (simp add: same_server_def server_view_def reply_def)
    then show ?thesis
      using None cell s' s(6) bs(2) al task
      by (intro served_alikeI [where sa = s' and pla = pl and sb = s' and plb = pl]) (simp_all add: num reply_def)
  next
    case (Some v)
    let ?b = "bs_poll (fst k) (snd k) (seqID (sstate c) + 1) bs"
    let ?s2 = "s'\<lparr>ps_server := (ps_server s')\<lparr>bstore := Some ?b\<rparr>\<rparr>"
    have "poll_section k (seqID (sstate c) + 1) s' = Ok (Answer (''+OK deleted'' @ crlf), ?s2)"
      using s'(4) s(2,5) bs(1) by (simp add: poll_section_def serves_def)
    moreover have "heap_store s' = abs_store (cell_erase k (tbl c))"
      using s'(3) s(6) cell Some tab by (cases "abs_store (tbl c)") (simp add: abs_erase)
    then have "same_server (server_view ?s2) (dele_done k bs (c\<lparr>inp := es\<rparr>))"
      by (rule same_erased [OF s'(2)]) (use s'(4) s(5) in \<open>simp_all add: dele_done_def num reply_def\<close>)
    ultimately show ?thesis
      using Some cell s'(1,5) s(5) bs(2) al task
      by (intro served_alikeI [where sa = s' and pla = "Erased k (seqID (sstate c) + 1)" and sb = ?s2
            and plb = "Answer (''+OK deleted'' @ crlf)"])
         (simp_all add: dele_done_def num reply_def)
  qed
qed

lemma alike_cput:
  assumes "same_start s c" "req_ok (RCput k old new)" "inp c = Bytes (req_text (RCput k old new)) # es"
  shows "served_alike (RCput k old new) s c"
proof -
  have s: "heap_ok s" "serves (ps_server s)" "seqID (sstate (ps_server s)) < long_max" "ready c" "ps_server s = c"
    "heap_store s = abs_store (tbl c)" using assms(1) by (simp_all add: same_start_def)
  have "seqID (sstate c) < long_max" using s(3,5) by simp
  from step_cput [OF s(4) assms(2,3) this] obtain bs bs0 where bs:
    "run_step c = Ok (if cput_match (cell_get (tbl c) k) old then put_done (fst k) (snd k) new [] bs (c\<lparr>inp := es\<rparr>)
        else reply (''-ERR'' @ crlf) (c\<lparr>inp := es\<rparr>))" "bstore c = Some bs0"
    "bs_push (fst k) (snd k) new (seqID (sstate c) + 1) bs0 = Ok bs" by blast
  have cell: "snd (heap_store s) k = cell_get (tbl c) k" using s(6) by (simp add: abs_store_def)
  have al: "alive (task c)" using s(4) by (simp add: ready_def)
  have written: "served_alike (RCput k old new) s c"
    if m: "cput_match (cell_get (tbl c) k) old" and pl: "cput_test k old new s = pl1" and step: "section_step pl1 s = Ok (Stored k x (seqID (sstate c) + 1), s')"
      and h: "heap_ok s'" "heap_store s' = (insert (fst k) (fst (heap_store s)), (snd (heap_store s))(k \<mapsto> new))"
        "ps_server s' = logged_put k new c" "ps_texts s' x = Some new" for pl1 s' x
  proof -
    have "push_section k x (seqID (sstate c) + 1) s' = Ok (Answer (''+OK'' @ crlf), s'\<lparr>ps_server := (ps_server s')\<lparr>bstore := Some bs\<rparr>\<rparr>)"
      by (rule push_section_eq [OF _ _ _ bs(3)]) (use s(2,5) h(3,4) bs(2) in \<open>simp_all add: serves_def\<close>)
    moreover have "same_server (server_view (s'\<lparr>ps_server := (ps_server s')\<lparr>bstore := Some bs\<rparr>\<rparr>)) (put_done (fst k) (snd k) new [] bs (c\<lparr>inp := es\<rparr>))"
      by (rule same_put [OF s(5) h(1)]) (use s(6) h in simp_all)
    ultimately show ?thesis
      using m pl step bs(1) al
      by (intro served_alikeI [where sa = s and pla = pl1 and sb = s' and plb = "Stored k x (seqID (sstate c) + 1)"]) simp_all
  qed
  have refused: "served_alike (RCput k old new) s c"
    if m: "\<not> cput_match (cell_get (tbl c) k) old" and pl: "cput_test k old new s = pl1" and step: "section_step pl1 s = Ok (Answer (''-ERR'' @ crlf), s)" for pl1
  proof -
    have "same_server (server_view s) (reply (''-ERR'' @ crlf) (c\<lparr>inp := es\<rparr>))"
      using view_store [OF s(1)] s(5,6) by (simp add: same_server_def server_view_def reply_def)
    then show ?thesis
      using m pl step bs(1) al
      by (intro served_alikeI [where sa = s and pla = pl1 and sb = s and plb = "Answer (''-ERR'' @ crlf)"]) (simp_all add: reply_def)
  qed
  show ?thesis
  proof (cases "cell_get (ps_table s) k")
    case None
    then have n: "cell_get (tbl c) k = None" using heap_store_cell [OF s(1), of k] cell by simp
    show ?thesis
    proof (cases "old = ''NULL'' @ crlf")
      case True
      obtain s' where s': "create_section k new s = Ok (Stored k (ps_next s) (seqID (sstate (ps_server s)) + 1), s')" "heap_ok s'"
        "heap_store s' = (insert (fst k) (fst (heap_store s)), (snd (heap_store s))(k \<mapsto> new))"
        "ps_server s' = logged_put k new (ps_server s)" "ps_texts s' = (ps_texts s)(ps_next s \<mapsto> new)"
        using s(1-3) by (rule create_section_ok)
      show ?thesis
        by (rule written [of "Absent k new" "ps_next s" s']) (use None n True s' s(5) in \<open>simp_all add: cput_test_def cput_match_def\<close>)
    next
      case False
      show ?thesis
        by (rule refused [of "Answer (''-ERR'' @ crlf)"]) (use None n False in \<open>simp_all add: cput_test_def cput_match_def\<close>)
    qed
  next
    case (Some a)
    then obtain w where w: "cell_get (tbl c) k = Some w" using heap_store_cell [OF s(1), of k] cell by auto
    show ?thesis
    proof (cases "w = old")
      case True
      have st: "snd (heap_store s) k = Some old" using w cell True by simp
      obtain s' where s': "compare_section k old new a s = Ok (Stored k (ps_next s) (seqID (sstate (ps_server s)) + 1), s')" "heap_ok s'"
        "heap_store s' = (fst (heap_store s), (snd (heap_store s))(k \<mapsto> new))" "ps_server s' = logged_put k new (ps_server s)"
        "text_at s' k = Some (ps_next s)"
        using s(1-3) Some st by (rule compare_section_ok)
      have "snd (heap_store s') k = Some new" by (simp add: s'(3))
      then have "ps_texts s' (ps_next s) = Some new" using s'(5) by (simp add: heap_store_def)
      moreover have "insert (fst k) (fst (heap_store s)) = fst (heap_store s)"
        using heap_store_has_row [OF s(1), of k] st by auto
      ultimately show ?thesis
        by (intro written [of "Found k old new a" "ps_next s" s']) (use Some w True s' s(5) in \<open>simp_all add: cput_test_def cput_match_def\<close>)
    next
      case False
      then have "compare_section k old new a s = Ok (Answer (''-ERR'' @ crlf), s)"
        using w cell by (intro compare_section_refused [OF s(1) Some]) simp
      then show ?thesis
        by (intro refused [of "Found k old new a"]) (use Some w False in \<open>simp_all add: cput_test_def cput_match_def\<close>)
    qed
  qed
qed

text \<open>
  C10. One client alone is served by the sections exactly as by one round of the worker's loop.
\<close>

theorem sections_alone:
  assumes "run_ok p" "resting (pr_place p i)" "ps_server (pr_store p) = c" "abs_store (table_view (pr_store p)) = abs_store (tbl c)"
    and "ready c" "req_ok q" "inp c = Bytes (req_text q) # es" "seqID (sstate c) < long_max" "put_safe q (abs_store (tbl c))"
  shows "\<exists>p' c' a. primary_runs (alone i q) p = Ok p' \<and> run_step c = Ok c' \<and> pr_place p' i = Answer a \<and>
    sent (task c') = sent (task c) @ a \<and> same_server (server_view (pr_store p')) c'"
proof -
  have st: "same_start (pr_store p) c" using assms by (simp add: same_start_def run_ok_def view_store)
  then have "served_alike q (pr_store p) c"
    using alike_put alike_get alike_delete alike_cput assms(6,7,9) by (cases q) blast+
  then obtain pl1 s1 pl2 s2 s3 a c' where "section_step (Received q) (pr_store p) = Ok (pl1, s1)" "section_step pl1 s1 = Ok (pl2, s2)"
      "section_step pl2 s2 = Ok (Answer a, s3)" and r: "run_step c = Ok c'" "sent (task c') = sent (task c) @ a"
      "same_server (server_view s3) c'"
    unfolding served_alike_def by blast
  then have "primary_runs (alone i q) p = Ok (p\<lparr>pr_store := s3, pr_place := (pr_place p)(i := Answer a)\<rparr>)"
    using assms(2) by (simp add: alone_def)
  with r show ?thesis by (intro exI [of _ "p\<lparr>pr_store := s3, pr_place := (pr_place p)(i := Answer a)\<rparr>"] exI [of _ c'] exI [of _ a]) simp
qed


section \<open>Clients of different cells\<close>

fun place_key :: "place \<Rightarrow> key option" where
  "place_key (Received q) = Some (req_key q)"
| "place_key (Absent k new) = Some k"
| "place_key (Found k old new a) = Some k"
| "place_key (Stored k x seq) = Some k"
| "place_key (Erased k seq) = Some k"
| "place_key _ = None"

text \<open>
  A client starts a request only when no other client has an unfinished one for the same cell. (As before, the
  column of a PUT is not the name of a row.)
\<close>

fun apart_at :: "primary_event \<Rightarrow> primary_run \<Rightarrow> bool" where
  "apart_at (Sends i q) p \<longleftrightarrow> (\<forall>j. j \<noteq> i \<longrightarrow> place_key (pr_place p j) \<noteq> Some (req_key q))"
| "apart_at (Steps i) p \<longleftrightarrow>
     (case pr_place p i of Received (RPut k v) \<Rightarrow> \<not> map_has (ps_table (pr_store p)) (snd k) | _ \<Rightarrow> True)"
| "apart_at Checkpoints p \<longleftrightarrow> True"

fun apart :: "primary_event list \<Rightarrow> primary_run \<Rightarrow> bool" where
  "apart [] p \<longleftrightarrow> True"
| "apart (e # es) p \<longleftrightarrow> apart_at e p \<and> (case primary_step e p of Ok p' \<Rightarrow> apart es p' | _ \<Rightarrow> True)"

text \<open>What a thread remembers is still what the table has.\<close>

fun up_to_date :: "place \<Rightarrow> primary_store \<Rightarrow> bool" where
  "up_to_date (Absent k new) p \<longleftrightarrow> cell_get (ps_table p) k = None"
| "up_to_date (Found k old new a) p \<longleftrightarrow> cell_get (ps_table p) k = Some a"
| "up_to_date (Stored k x seq) p \<longleftrightarrow> text_at p k = Some x"
| "up_to_date _ p \<longleftrightarrow> True"

definition settled :: "primary_run \<Rightarrow> bool" where
  "settled p \<longleftrightarrow> (\<forall>i. up_to_date (pr_place p i) (pr_store p)) \<and>
     (\<forall>i j k. place_key (pr_place p i) = Some k \<longrightarrow> place_key (pr_place p j) = Some k \<longrightarrow> i = j)"

lemma up_to_date_untouched:
  "up_to_date pl p \<Longrightarrow> untouched k p p' \<Longrightarrow> place_key pl \<noteq> Some k \<Longrightarrow> up_to_date pl p'"
  by (cases pl) (simp_all add: untouchedD)

lemma up_to_date_undisturbed:
  assumes "heap_ok p" "up_to_date pl p" "\<And>k v. pl = Received (RPut k v) \<Longrightarrow> \<not> map_has (ps_table p) (snd k)"
  shows "undisturbed_at pl p"
proof (cases pl)
  case (Received q)
  then show ?thesis using assms(3) by (cases q) simp_all
next
  case (Stored k x seq)
  then have "text_at p k = Some x" using assms(2) by simp
  then obtain a where "cell_get (ps_table p) k = Some a" by (cases "cell_get (ps_table p) k") (simp_all add: text_at_def)
  with assms(1) obtain y v where "ps_texts p y = Some v" "text_at p k = Some y" by (rule heap_cell)
  then show ?thesis using Stored \<open>text_at p k = Some x\<close> by simp
qed (use assms(2) in simp_all)

text \<open>A section keeps to the cell of its request and leaves its thread up to date.\<close>

lemma section_keeps_cell:
  assumes "heap_ok p" "serves (ps_server p)" "seqID (sstate (ps_server p)) < long_max" "undisturbed_at pl p"
    and "section_step pl p = Ok (pl', p')" "place_key pl = Some k"
  shows "untouched k p p' \<and> up_to_date pl' p' \<and> (place_key pl' = Some k \<or> place_key pl' = None)"
proof -
  have created: ?thesis if "section_step pl p = create_section k v p" for v
  proof -
    obtain p1 where "create_section k v p = Ok (Stored k (ps_next p) (seqID (sstate (ps_server p)) + 1), p1)"
      "text_at p1 k = Some (ps_next p)" "untouched k p p1" using assms(1-3) by (rule create_section_ok)
    then show ?thesis using assms(5) that by auto
  qed
  have same: ?thesis if "section_step pl p = Ok (pl1, p\<lparr>ps_server := c\<rparr>)" "place_key pl1 = None" "up_to_date pl1 p" for pl1 c
  proof -
    have "up_to_date pl1 (p\<lparr>ps_server := c\<rparr>)" using that(2) by (cases pl1) simp_all
    then show ?thesis using that assms(5) by (auto simp: untouched_def)
  qed
  show ?thesis
  proof (cases pl)
    case (Received q)
    show ?thesis
    proof (cases q)
      case (RPut k' v)
      then show ?thesis using created [of v] assms(4,6) Received by (simp add: put_section_ok)
    next
      case (RGet k')
      then show ?thesis
        using same [of "Answer (fst (serve (RGet k) (heap_store p)))" "ps_server p"] get_section_ok [OF assms(1), of k] assms(6) Received
        by simp
    next
      case (RDelete k')
      obtain pl1 p1 where "delete_section k p = Ok (pl1, p1)" "untouched k p p1"
        "pl1 = (if snd (heap_store p) k = None then Answer (fst (serve (RDelete k) (heap_store p)))
           else Erased k (seqID (sstate (ps_server p)) + 1))" using assms(1-3) by (rule delete_section_ok)
      then show ?thesis using RDelete Received assms(5,6) by (auto split: if_splits)
    next
      case (RCput k' old new)
      then show ?thesis
        using Received assms(5,6) by (auto simp: cput_test_def untouched_def split: option.splits if_splits)
    qed
  next
    case (Absent k' new)
    then show ?thesis using created [of new] assms(6) by simp
  next
    case (Found k' old new a)
    then have k: "k' = k" "cell_get (ps_table p) k = Some a" using assms(4,6) by simp_all
    show ?thesis
    proof (cases "snd (heap_store p) k = Some old")
      case True
      obtain p1 where "compare_section k old new a p = Ok (Stored k (ps_next p) (seqID (sstate (ps_server p)) + 1), p1)"
        "text_at p1 k = Some (ps_next p)" "untouched k p p1"
        using assms(1-3) k(2) True by (rule compare_section_ok)
      then show ?thesis using Found k assms(5) by auto
    next
      case False
      then show ?thesis
        using same [of "Answer (''-ERR'' @ crlf)" "ps_server p"] compare_section_refused [OF assms(1) k(2)] Found k by simp
    qed
  next
    case (Stored k' x seq)
    then have "ps_texts p x \<noteq> None" using assms(4) by simp
    then obtain bs where "push_section k' x seq p = Ok (Answer (''+OK'' @ crlf), p\<lparr>ps_server := (ps_server p)\<lparr>bstore := Some bs\<rparr>\<rparr>)"
      using push_section_ok [OF assms(2), of x k' seq] by blast
    then show ?thesis using same Stored by simp
  next
    case (Erased k' seq)
    then obtain bs where "poll_section k' seq p = Ok (Answer (''+OK deleted'' @ crlf), p\<lparr>ps_server := (ps_server p)\<lparr>bstore := Some bs\<rparr>\<rparr>)"
      using poll_section_ok [OF assms(2)] by blast
    then show ?thesis using same Erased by simp
  qed (use assms(6) in simp_all)
qed

lemma settled_step:
  assumes "run_ok p" "seq_of p < long_max" "settled p" "apart_at e p" "primary_step e p = Ok p'"
  shows "harmless e p \<and> settled p'"
proof (cases e)
  case (Sends i q)
  have keys: "place_key (pr_place p j) \<noteq> Some (req_key q)" if "j \<noteq> i" for j using assms(4) Sends that by simp
  show ?thesis
  proof (cases "resting (pr_place p i)")
    case True
    then have "p' = p\<lparr>pr_place := (pr_place p)(i := Received q)\<rparr>" using assms(5) Sends by simp
    then show ?thesis using assms(3) keys Sends unfolding settled_def by (auto split: if_splits)
  next
    case False
    then show ?thesis using assms(3,5) Sends by simp
  qed
next
  case (Steps i)
  let ?pl = "pr_place p i"
  have h: "heap_ok (pr_store p)" "serves (ps_server (pr_store p))" using assms(1) by (simp_all add: run_ok_def)
  have date: "up_to_date (pr_place p j) (pr_store p)" for j using assms(3) by (simp add: settled_def)
  have und: "undisturbed_at ?pl (pr_store p)"
    by (rule up_to_date_undisturbed [OF h(1) date]) (use assms(4) Steps in simp)
  obtain pl' s' where s: "section_step ?pl (pr_store p) = Ok (pl', s')" "p' = p\<lparr>pr_store := s', pr_place := (pr_place p)(i := pl')\<rparr>"
    using assms(5) Steps by auto
  have "settled p'"
  proof (cases "place_key ?pl")
    case None
    then have "pl' = ?pl \<and> s' = pr_store p" using s(1) by (cases ?pl) simp_all
    then have "p' = p" using s(2) by simp
    then show ?thesis using assms(3) by simp
  next
    case (Some k)
    have keeps: "untouched k (pr_store p) s'" "up_to_date pl' s'" "place_key pl' = Some k \<or> place_key pl' = None"
      using section_keeps_cell [OF h assms(2) und s(1) Some] by simp_all
    have one: "j = l" if "place_key (pr_place p j) = Some k'" "place_key (pr_place p l) = Some k'" for j l k'
      using assms(3) that unfolding settled_def by blast
    have "up_to_date (pr_place p j) s'" if "j \<noteq> i" for j
      by (rule up_to_date_untouched [OF date keeps(1)]) (use one [OF _ Some] that in blast)
    then have "up_to_date (pr_place p' j) (pr_store p')" for j using keeps(2) s(2) by simp
    moreover have "j = l" if "place_key (pr_place p' j) = Some k'" "place_key (pr_place p' l) = Some k'" for j l k'
      using that one Some keeps(3) s(2) by (auto split: if_splits)
    ultimately show ?thesis unfolding settled_def by blast
  qed
  then show ?thesis using und Steps by simp
next
  case Checkpoints
  have "up_to_date pl (s\<lparr>ps_server := c\<rparr>) = up_to_date pl s" for pl s c by (cases pl) simp_all
  then show ?thesis using assms(3,5) Checkpoints by (auto simp: settled_def)
qed

lemma settled_runs:
  "run_ok p \<Longrightarrow> settled p \<Longrightarrow> apart es p \<Longrightarrow> seq_of p + int (length es) \<le> long_max \<Longrightarrow> undisturbed es p"
proof (induction es arbitrary: p)
  case (Cons e es)
  have "seq_of p < long_max" "apart_at e p" using Cons.prems by simp_all
  show ?case
  proof (cases "harmless e p")
    case True
    obtain p1 where p1: "primary_step e p = Ok p1" "run_ok p1" "seq_of p1 \<le> seq_of p + 1"
      using event_ok [OF Cons.prems(1) True \<open>seq_of p < long_max\<close>] by blast
    then show ?thesis
      using Cons.IH [OF p1(2)] Cons.prems True settled_step [OF Cons.prems(1) \<open>seq_of p < long_max\<close> Cons.prems(2) \<open>apart_at e p\<close> p1(1)]
      by simp
  next
    case False
    have "harmless e p"
    proof (cases e)
      case (Steps i)
      have "undisturbed_at (pr_place p i) (pr_store p)"
        by (rule up_to_date_undisturbed)
           (use Cons.prems(1,2) \<open>apart_at e p\<close> Steps in \<open>simp_all add: run_ok_def settled_def\<close>)
      then show ?thesis using Steps by simp
    qed simp_all
    then show ?thesis using False by simp
  qed
qed simp

text \<open>
  C9. When no two requests for one cell are at work at the same time, no thread disturbs another: what each has
  found before it took the lock, and what it is going to send after it, stays as it was.
\<close>

theorem apart_undisturbed:
  assumes "run_ok p" "all_at_rest p" "apart es p" "seq_of p + int (length es) \<le> long_max"
  shows "undisturbed es p"
  by (rule settled_runs [OF assms(1) _ assms(3,4)]) (use assms(2) in \<open>simp add: settled_def all_at_rest_def\<close>)


section \<open>The properties on a small server\<close>

definition demo_primary :: "worker \<Rightarrow> primary_run" where
  "demo_primary c =
     \<lparr>pr_store = \<lparr>ps_server = c, ps_table = [], ps_cells = Map.empty, ps_texts = Map.empty, ps_next = 0\<rparr>,
      pr_place = (\<lambda>i. At_rest)\<rparr>"

lemma demo_place [simp]: "pr_place (demo_primary c) i = At_rest" "ps_server (pr_store (demo_primary c)) = c"
  "ps_table (pr_store (demo_primary c)) = []" "ps_texts (pr_store (demo_primary c)) = Map.empty" "ps_next (pr_store (demo_primary c)) = 0"
  by (simp_all add: demo_primary_def)

lemma no_cells [simp]: "cell_get [] k = None" "map_has [] r = False"
  by (simp_all add: cell_get_def row_of_def map_has_def)

lemma demo_view: "table_view (pr_store (demo_primary c)) = []"
  by (simp add: table_view_def map_cells_def)

lemma no_store [simp]: "abs_store [] = ({}, Map.empty)"
  by (simp add: abs_store_def fun_eq_iff)

lemma demo_serves: "serves (fresh_primary es)"
  using fresh_primary_facts(3,6) [of es] by (simp add: serves_def log_open_def fresh_primary_def demo_server_def bs_ok_def)

lemma demo_run_ok: "serves c \<Longrightarrow> run_ok (demo_primary c)" "all_at_rest (demo_primary c)"
  by (simp_all add: run_ok_def heap_ok_def text_at_def all_at_rest_def)

lemma demo_recorded: "recorded (pr_store (demo_primary (fresh_primary es)))"
proof -
  have "durable (server_view (pr_store (demo_primary (fresh_primary es))))"
    by (rule durable_same [OF fresh_primary_facts(2) [of es]]) (simp_all add: server_view_def demo_view fresh_primary_facts)
  then show ?thesis by (simp add: recorded_def heap_store_def text_at_def)
qed

definition demo_run :: "primary_event list" where
  "demo_run = [Sends 0 (RPut (''r'', ''c'') (''1'' @ crlf)), Sends 1 (RGet (''s'', ''c'')), Steps 1, Steps 0, Checkpoints, Steps 0]"

lemma demo_apart: "apart demo_run (demo_primary (fresh_primary []))"
  by (simp add: demo_run_def get_section_def put_section_def new_text_def log_put_ok demo_serves fresh_primary_facts
      long_max_def new_Cell_def) (simp split: res.split)

lemma demo_undisturbed: "undisturbed demo_run (demo_primary (fresh_primary []))"
proof -
  let ?p = "demo_primary (fresh_primary [])"
  have "settled ?p" by (simp add: settled_def)
  then show ?thesis
    using demo_run_ok(1) [OF demo_serves] demo_apart by (intro settled_runs) (simp_all add: demo_run_def fresh_primary_facts long_max_def)
qed

lemma demo_bound: "seq_of (demo_primary (fresh_primary es)) + int (length demo_run) \<le> long_max"
  by (simp add: demo_run_def fresh_primary_facts long_max_def)

theorem clients_linearizable_witness:
  "\<exists>p'. primary_runs demo_run (demo_primary (fresh_primary [])) = Ok p' \<and>
     abs_store (table_view (pr_store p')) =
       store_after (requests_of (history demo_run (demo_primary (fresh_primary [])))) ({}, Map.empty)"
  using clients_linearizable [OF demo_run_ok(1) [OF demo_serves] demo_run_ok(2) demo_undisturbed demo_bound]
  by (auto simp: demo_view)

theorem clients_durable_witness:
  "\<exists>p' t. primary_runs demo_run (demo_primary (fresh_primary [])) = Ok p' \<and>
     recover_files (sstate (ps_server (pr_store p'))) (disk (ps_server (pr_store p'))) = Ok t \<and>
     cell_get t = snd (store_after (requests_of (history demo_run (demo_primary (fresh_primary [])))) ({}, Map.empty))"
proof -
  have "req_ok (RPut (''r'', ''c'') (''1'' @ crlf)) \<and> loggable (RPut (''r'', ''c'') (''1'' @ crlf))"
    "req_ok (RGet (''s'', ''c'')) \<and> loggable (RGet (''s'', ''c''))"
    by (simp_all add: req_ok_def plain_name_def name_ok_def wire_safe_def terminator_def crlf_def
        req_text_def command_line_def put_wire_def rlen_def loggable_def dump_safe_def)
  then have "\<forall>i q. Sends i q \<in> set demo_run \<longrightarrow> req_ok q \<and> loggable q" by (auto simp: demo_run_def)
  from clients_durable [OF demo_run_ok(1) [OF demo_serves] demo_run_ok(2) demo_undisturbed demo_bound demo_recorded this]
  show ?thesis by (simp add: demo_view)
qed

theorem apart_undisturbed_witness:
  "undisturbed demo_run (demo_primary (fresh_primary []))"
  by (rule apart_undisturbed [OF demo_run_ok(1) [OF demo_serves] demo_run_ok(2) demo_apart demo_bound])

theorem sections_alone_witness:
  "\<exists>p' c' a. primary_runs (alone 0 (RPut (''r'', ''c'') (''1'' @ crlf)))
       (demo_primary (fresh_primary [Bytes (req_text (RPut (''r'', ''c'') (''1'' @ crlf)))])) = Ok p' \<and>
     run_step (fresh_primary [Bytes (req_text (RPut (''r'', ''c'') (''1'' @ crlf)))]) = Ok c' \<and>
     pr_place p' 0 = Answer a \<and> same_server (server_view (pr_store p')) c'"
proof -
  let ?q = "RPut (''r'', ''c'') (''1'' @ crlf)"
  let ?c = "fresh_primary [Bytes (req_text ?q)]"
  have "req_ok ?q"
    by (simp add: req_ok_def plain_name_def name_ok_def wire_safe_def terminator_def crlf_def
        req_text_def command_line_def put_wire_def rlen_def)
  then have "\<exists>p' c' a. primary_runs (alone 0 ?q) (demo_primary ?c) = Ok p' \<and> run_step ?c = Ok c' \<and> pr_place p' 0 = Answer a \<and>
      sent (task c') = sent (task ?c) @ a \<and> same_server (server_view (pr_store p')) c'"
    by (intro sections_alone [where es = "[]"])
       (simp_all add: demo_run_ok(1) [OF demo_serves] demo_view fresh_primary_facts long_max_def put_safe_def)
  then show ?thesis by blast
qed

end
