(* ===== verification/Clients_Races.thy ===== *)
theory Clients_Races
  imports Clients_Props
begin

text \<open>
  Clients of the same cell at the same time (\<open>Primary_Clients\<close>): what goes wrong between the test of a CPUT and
  the lock, and between the lock and the update for the replicas.
\<close>

section \<open>Threads that disturb each other\<close>

text \<open>
  C31. Two clients that both want to create the same cell with a CPUT: when both look for it before one of them has
  the lock, both are told that they have created it, and the second one's contents stay. No order of the two
  requests gives these answers: the store refuses the later one.
\<close>

theorem both_created:
  assumes "run_ok p" "resting (pr_place p i)" "resting (pr_place p j)" "i \<noteq> j"
    and "cell_get (table_view (pr_store p)) k = None" "seq_of p + 2 \<le> long_max"
  shows "\<exists>p'. primary_runs [Sends i (RCput k (''NULL'' @ crlf) v), Sends j (RCput k (''NULL'' @ crlf) w),
        Steps i, Steps j, Steps i, Steps j, Steps i, Steps j] p = Ok p' \<and>
      pr_place p' i = Answer (''+OK'' @ crlf) \<and> pr_place p' j = Answer (''+OK'' @ crlf) \<and>
      cell_get (table_view (pr_store p')) k = Some w \<and>
      (v \<noteq> ''NULL'' @ crlf \<longrightarrow>
        store_answers [RCput k (''NULL'' @ crlf) v, RCput k (''NULL'' @ crlf) w] (abs_store (table_view (pr_store p))) =
          [''+OK'' @ crlf, ''-ERR'' @ crlf])"
proof -
  let ?s = "pr_store p" and ?n = "seqID (sstate (ps_server (pr_store p)))"
  have h: "heap_ok ?s" "serves (ps_server ?s)" "?n < long_max" using assms(1,6) by (simp_all add: run_ok_def)
  have none: "cell_get (ps_table ?s) k = None" using assms(5) by (simp add: table_view_def)
  obtain s1 where s1: "create_section k v ?s = Ok (Stored k (ps_next ?s) (?n + 1), s1)" "heap_ok s1"
    "ps_server s1 = logged_put k v (ps_server ?s)" "ps_texts s1 = (ps_texts ?s)(ps_next ?s \<mapsto> v)" "ps_next ?s < ps_next s1"
    using h by (rule create_section_ok)
  have h1: "serves (ps_server s1)" "seqID (sstate (ps_server s1)) < long_max"
    using serves_logged [OF h(2)] s1(3) assms(6) by simp_all
  obtain s2 where s2: "create_section k w s1 = Ok (Stored k (ps_next s1) (seqID (sstate (ps_server s1)) + 1), s2)" "heap_ok s2"
    "heap_store s2 = (insert (fst k) (fst (heap_store s1)), (snd (heap_store s1))(k \<mapsto> w))"
    "ps_server s2 = logged_put k w (ps_server s1)" "ps_texts s2 = (ps_texts s1)(ps_next s1 \<mapsto> w)"
    using s1(2) h1 by (rule create_section_ok)
  have h2: "serves (ps_server s2)" using serves_logged [OF h1(1)] s2(4) by simp
  have "ps_texts s2 (ps_next ?s) \<noteq> None" using s1(4,5) s2(5) by simp
  with h2 obtain bs where bs: "push_section k (ps_next ?s) (?n + 1) s2 =
      Ok (Answer (''+OK'' @ crlf), s2\<lparr>ps_server := (ps_server s2)\<lparr>bstore := Some bs\<rparr>\<rparr>)" "bs_ok bs"
    by (rule push_section_ok)
  let ?s3 = "s2\<lparr>ps_server := (ps_server s2)\<lparr>bstore := Some bs\<rparr>\<rparr>"
  have "serves (ps_server ?s3)" "ps_texts ?s3 (ps_next s1) \<noteq> None" using serves_bstore [OF h2 bs(2)] s2(5) by simp_all
  then obtain bs' where bs': "push_section k (ps_next s1) (seqID (sstate (ps_server s1)) + 1) ?s3 =
      Ok (Answer (''+OK'' @ crlf), ?s3\<lparr>ps_server := (ps_server ?s3)\<lparr>bstore := Some bs'\<rparr>\<rparr>)"
    by (rule push_section_ok)
  let ?s4 = "?s3\<lparr>ps_server := (ps_server ?s3)\<lparr>bstore := Some bs'\<rparr>\<rparr>"
  have test: "cput_test k (''NULL'' @ crlf) new ?s = Absent k new" for new by (simp add: cput_test_def none)
  have "cell_get (table_view ?s4) k = Some w" using view_cells [of ?s4] s2(2,3) by simp
  moreover have "store_answers [RCput k (''NULL'' @ crlf) v, RCput k (''NULL'' @ crlf) w] (abs_store (table_view ?s)) =
      [''+OK'' @ crlf, ''-ERR'' @ crlf]" if "v \<noteq> ''NULL'' @ crlf"
    using that assms(5) by (simp add: abs_store_def cput_match_def)
  ultimately show ?thesis
    using assms(2-4) s1(1) s2(1) bs(1) bs' test by simp
qed

text \<open>
  C32. The updates for the replicas are sent after the lock is released. When two clients store the same cell and the
  second one's update is sent first, a replica that applies what it gets in order ends with the first one's
  contents, while the primary keeps the second one's.
\<close>

theorem replicas_diverge:
  assumes "run_ok p" "resting (pr_place p i)" "resting (pr_place p j)" "i \<noteq> j" "seq_of p + 2 \<le> long_max"
    and "\<not> map_has (table_view (pr_store p)) (snd k)" "fst k \<noteq> snd k"
    and "bstore (ps_server (pr_store p)) = Some bs" "node_at bs a = Some r" "r_state r = 1" "connection r = Some t" "alive t"
  shows "\<exists>p' bs' us. primary_runs [Sends i (RPut k v), Sends j (RPut k w), Steps i, Steps j, Steps j, Steps i] p = Ok p' \<and>
      pr_place p' i = Answer (''+OK'' @ crlf) \<and> pr_place p' j = Answer (''+OK'' @ crlf) \<and>
      bstore (ps_server (pr_store p')) = Some bs' \<and>
      node_at bs' a = Some (r\<lparr>connection := Some (t\<lparr>sent := sent t @ concat (map update_command us)\<rparr>)\<rparr>) \<and>
      cell_get (table_view (pr_store p')) k = Some w \<and> cell_get (fold follow us table) k = Some v"
proof -
  let ?s = "pr_store p" and ?n = "seqID (sstate (ps_server (pr_store p)))"
  have h: "heap_ok ?s" "serves (ps_server ?s)" "?n < long_max" using assms(1,5) by (simp_all add: run_ok_def)
  have row: "\<not> map_has (ps_table ?s) (snd k)" using assms(6) by (simp add: table_view_def)
  obtain s1 where s1: "create_section k v ?s = Ok (Stored k (ps_next ?s) (?n + 1), s1)" "heap_ok s1"
    "heap_store s1 = (insert (fst k) (fst (heap_store ?s)), (snd (heap_store ?s))(k \<mapsto> v))"
    "ps_server s1 = logged_put k v (ps_server ?s)" "ps_texts s1 = (ps_texts ?s)(ps_next ?s \<mapsto> v)" "ps_next ?s < ps_next s1"
    using h by (rule create_section_ok)
  have h1: "serves (ps_server s1)" "seqID (sstate (ps_server s1)) < long_max"
    using serves_logged [OF h(2)] s1(4) assms(5) by simp_all
  have "snd k \<notin> fst (heap_store s1)" using row assms(7) s1(3) by (simp add: heap_store_def)
  then have row1: "\<not> map_has (ps_table s1) (snd k)" by (simp add: heap_store_def)
  obtain s2 where s2: "create_section k w s1 = Ok (Stored k (ps_next s1) (seqID (sstate (ps_server s1)) + 1), s2)" "heap_ok s2"
    "heap_store s2 = (insert (fst k) (fst (heap_store s1)), (snd (heap_store s1))(k \<mapsto> w))"
    "ps_server s2 = logged_put k w (ps_server s1)" "ps_texts s2 = (ps_texts s1)(ps_next s1 \<mapsto> w)"
    using s1(2) h1 by (rule create_section_ok)
  have prim: "primary (sstate (ps_server s2))" "bstore (ps_server s2) = Some bs" "bs_ok bs"
    using h(2) s1(4) s2(4) assms(8) by (auto simp: serves_def)
  let ?us = "[Put (fst k) (snd k) w (?n + 2), Put (fst k) (snd k) v (?n + 1)]"
  obtain bs1 where bs1: "bs_push (fst k) (snd k) w (?n + 2) bs = Ok bs1" "bs_ok bs1" using bs_push_ok [OF prim(3)] by blast
  obtain bs2 where bs2: "bs_push (fst k) (snd k) v (?n + 1) bs1 = Ok bs2" using bs_push_ok [OF bs1(2)] by blast
  have "bs_updates ?us bs = Ok bs2" using bs1(1) bs2 by simp
  from updates_running [OF this assms(9-12)]
  have node: "node_at bs2 a = Some (r\<lparr>connection := Some (t\<lparr>sent := sent t @ concat (map update_command ?us)\<rparr>)\<rparr>)" .
  have seq: "seqID (sstate (ps_server s1)) + 1 = ?n + 2" using s1(4) by simp
  let ?s3 = "s2\<lparr>ps_server := (ps_server s2)\<lparr>bstore := Some bs1\<rparr>\<rparr>"
  have push2: "push_section k (ps_next s1) (?n + 2) s2 = Ok (Answer (''+OK'' @ crlf), ?s3)"
    by (rule push_section_eq [OF prim(1) _ prim(2) bs1(1)]) (simp add: s2(5))
  let ?s4 = "?s3\<lparr>ps_server := (ps_server ?s3)\<lparr>bstore := Some bs2\<rparr>\<rparr>"
  have push1: "push_section k (ps_next ?s) (?n + 1) ?s3 = Ok (Answer (''+OK'' @ crlf), ?s4)"
    by (rule push_section_eq [OF _ _ _ bs2]) (use prim(1) s1(5,6) s2(5) in simp_all)
  have "cell_get (table_view ?s4) k = Some w" using view_cells [of ?s4] s2(2,3) by simp
  moreover have "cell_get (fold follow ?us table) k = Some v" by simp
  ultimately show ?thesis
    using assms(2-4) s1(1) s2(1) put_section_ok [OF row] put_section_ok [OF row1] push1 push2 node seq
    by (intro exI [of _ "p\<lparr>pr_store := ?s4, pr_place := (pr_place p)(i := Answer (''+OK'' @ crlf), j := Answer (''+OK'' @ crlf))\<rparr>"]
          exI [of _ bs2] exI [of _ ?us]) (simp add: fun_upd_twist)
qed

text \<open>
  C33. The update is built from the contents where they were stored. When another client has replaced them with a
  CPUT before, they are freed, and the primary reads freed memory.
\<close>

theorem freed_before_push:
  assumes "run_ok p" "resting (pr_place p i)" "resting (pr_place p j)" "i \<noteq> j" "seq_of p + 2 \<le> long_max"
    and "\<not> map_has (table_view (pr_store p)) (snd k)"
  shows "primary_runs [Sends i (RPut k v), Steps i, Sends j (RCput k v w), Steps j, Steps j, Steps i] p = Throw Dangling"
proof -
  let ?s = "pr_store p" and ?n = "seqID (sstate (ps_server (pr_store p)))"
  have h: "heap_ok ?s" "serves (ps_server ?s)" "?n < long_max" using assms(1,5) by (simp_all add: run_ok_def)
  have row: "\<not> map_has (ps_table ?s) (snd k)" using assms(6) by (simp add: table_view_def)
  obtain s1 where s1: "create_section k v ?s = Ok (Stored k (ps_next ?s) (?n + 1), s1)" "heap_ok s1"
    "heap_store s1 = (insert (fst k) (fst (heap_store ?s)), (snd (heap_store ?s))(k \<mapsto> v))"
    "ps_server s1 = logged_put k v (ps_server ?s)" "text_at s1 k = Some (ps_next ?s)"
    using h by (rule create_section_ok)
  have h1: "serves (ps_server s1)" "seqID (sstate (ps_server s1)) < long_max"
    using serves_logged [OF h(2)] s1(4) assms(5) by simp_all
  obtain a where a: "cell_get (ps_table s1) k = Some a"
    using s1(5) by (cases "cell_get (ps_table s1) k") (simp_all add: text_at_def)
  have v: "snd (heap_store s1) k = Some v" by (simp add: s1(3))
  obtain s2 where s2: "compare_section k v w a s1 = Ok (Stored k (ps_next s1) (seqID (sstate (ps_server s1)) + 1), s2)"
    "ps_server s2 = logged_put k w (ps_server s1)" "\<forall>x. text_at s1 k = Some x \<longrightarrow> ps_texts s2 x = None"
    using s1(2) h1 a v by (rule compare_section_ok)
  have "ps_texts s2 (ps_next ?s) = None" using s2(3) s1(5) by simp
  moreover have "primary (sstate (ps_server s2))" using h(2) s1(4) s2(2) by (simp add: serves_def)
  ultimately have "push_section k (ps_next ?s) (?n + 1) s2 = Throw Dangling" by (simp add: push_section_def)
  then show ?thesis
    using assms(2-4) s1(1) s2(1) put_section_ok [OF row] a by (simp add: cput_test_def)
qed


section \<open>The races on a small server\<close>

theorem both_created_witness:
  "\<exists>p'. primary_runs [Sends 0 (RCput (''r'', ''c'') (''NULL'' @ crlf) ''a''), Sends 1 (RCput (''r'', ''c'') (''NULL'' @ crlf) ''b''),
       Steps 0, Steps 1, Steps 0, Steps 1, Steps 0, Steps 1] (demo_primary (fresh_primary [])) = Ok p' \<and>
     pr_place p' 0 = Answer (''+OK'' @ crlf) \<and> pr_place p' 1 = Answer (''+OK'' @ crlf) \<and>
     cell_get (table_view (pr_store p')) (''r'', ''c'') = Some ''b''"
  using both_created [OF demo_run_ok(1) [OF demo_serves [of "[]"]], of 0 1 "(''r'', ''c'')" "''a''" "''b''"]
  by (auto simp: demo_view fresh_primary_facts long_max_def)

definition demo_replicated :: worker where
  "demo_replicated = (fresh_primary [])\<lparr>bstore := Some
     \<lparr>nodes = [\<lparr>r_addr = localhost 5000, r_state = 1, holdBack = [], connection = Some new_conn\<rparr>], myID = 0\<rparr>\<rparr>"

theorem replicas_diverge_witness:
  "\<exists>p' bs' us. primary_runs [Sends 0 (RPut (''r'', ''c'') ''a''), Sends 1 (RPut (''r'', ''c'') ''b''), Steps 0, Steps 1, Steps 1, Steps 0]
       (demo_primary demo_replicated) = Ok p' \<and>
     bstore (ps_server (pr_store p')) = Some bs' \<and>
     node_at bs' (ip_to_string (localhost 5000)) =
       Some \<lparr>r_addr = localhost 5000, r_state = 1, holdBack = [], connection = Some \<lparr>alive = True, sent = concat (map update_command us)\<rparr>\<rparr> \<and>
     cell_get (table_view (pr_store p')) (''r'', ''c'') = Some ''b'' \<and> cell_get (fold follow us []) (''r'', ''c'') = Some ''a''"
proof -
  let ?r = "\<lparr>r_addr = localhost 5000, r_state = 1, holdBack = [], connection = Some new_conn\<rparr>"
  let ?bs = "\<lparr>nodes = [?r], myID = 0\<rparr>"
  have c: "serves demo_replicated" "bstore demo_replicated = Some ?bs" "seqID (sstate demo_replicated) = 0"
    using serves_bstore [OF demo_serves [of "[]"], of ?bs] fresh_primary_facts(6) [of "[]"]
    by (simp_all add: demo_replicated_def bs_ok_def node_ok_def)
  have "node_at ?bs (ip_to_string (localhost 5000)) = Some ?r" by (simp add: node_at_def)
  then have "\<exists>p' bs' us. primary_runs [Sends 0 (RPut (''r'', ''c'') ''a''), Sends 1 (RPut (''r'', ''c'') ''b''), Steps 0, Steps 1, Steps 1, Steps 0]
       (demo_primary demo_replicated) = Ok p' \<and>
      pr_place p' 0 = Answer (''+OK'' @ crlf) \<and> pr_place p' 1 = Answer (''+OK'' @ crlf) \<and> bstore (ps_server (pr_store p')) = Some bs' \<and>
      node_at bs' (ip_to_string (localhost 5000)) = Some (?r\<lparr>connection := Some (new_conn\<lparr>sent := sent new_conn @ concat (map update_command us)\<rparr>)\<rparr>) \<and>
      cell_get (table_view (pr_store p')) (''r'', ''c'') = Some ''b'' \<and> cell_get (fold follow us []) (''r'', ''c'') = Some ''a''"
    by (intro replicas_diverge [where bs = ?bs])
       (simp_all add: demo_run_ok(1) [OF c(1)] c(2,3) demo_view long_max_def new_conn_def)
  then show ?thesis by (simp add: new_conn_def) blast
qed

theorem freed_before_push_witness:
  "primary_runs [Sends 0 (RPut (''r'', ''c'') ''a''), Steps 0, Sends 1 (RCput (''r'', ''c'') ''a'' ''b''), Steps 1, Steps 1, Steps 0]
     (demo_primary (fresh_primary [])) = Throw Dangling"
  by (rule freed_before_push [OF demo_run_ok(1) [OF demo_serves]]) (simp_all add: demo_view fresh_primary_facts long_max_def)


end
