(* ===== verification/Data_Process.thy ===== *)
theory Data_Process
  imports Clients_Props Thread_Pool
begin

text \<open>
  A data server as a process (\<open>kvstore/dataserver.cc\<close>): the loop that accepts connections, the pool of threads
  (\<open>Thread_Pool\<close>), of which each runs a worker on the connection it has taken, and the checkpoint thread, all
  over one primary (\<open>Primary_Clients\<close>). Thread \<open>i\<close> of the pool is client \<open>i\<close> of the primary. A worker knows its
  connection only by the number of a descriptor, so the descriptors in use are part of the state: what a
  worker reads is what the peer behind that number sends now.
\<close>

section \<open>The process\<close>

text \<open>A connection as the pool has it: its place in the order of arrival, the descriptor and the number.\<close>

type_synonym dconn = "nat \<times> int \<times> int"

text \<open>
  \<open>dp_open\<close> says which connection (by its place in the order of arrival) is behind an open descriptor; \<open>dp_heard\<close>
  collects the requests read: from which connection, on account of which one, and the request.
\<close>

record data_process =
  dp_pool :: "dconn pool"
  dp_count :: int
  dp_arrivals :: nat
  dp_open :: "int \<Rightarrow> nat option"
  dp_heard :: "(nat \<times> nat \<times> request) list"
  dp_run :: primary_run

definition d_start :: "primary_run \<Rightarrow> data_process" where
  "d_start r = \<lparr>dp_pool = new_ThreadPool, dp_count = 0, dp_arrivals = 0, dp_open = (\<lambda>_. None), dp_heard = [], dp_run = r\<rparr>"

text \<open>
  The system gives out a descriptor that is not in use, or a negative number when \<open>accept\<close> fails, which the code
  does not test. A connection from the master is closed as soon as it has been put into its \<open>Connection\<close>,
  which is queued all the same.
\<close>

definition d_keeps :: "sockaddr_in \<Rightarrow> data_process \<Rightarrow> bool" where
  "d_keeps client p = snd (fst (accept_task (sstate (ps_server (pr_store (dp_run p)))) client (dp_count p)))"

definition d_task :: "int \<Rightarrow> sockaddr_in \<Rightarrow> data_process \<Rightarrow> dconn" where
  "d_task fd client p =
     (dp_arrivals p, fd, fst (fst (accept_task (sstate (ps_server (pr_store (dp_run p)))) client (dp_count p))))"

definition d_accept :: "int \<Rightarrow> sockaddr_in \<Rightarrow> data_process \<Rightarrow> data_process" where
  "d_accept fd client p =
     (if dp_open p fd = None then
        p\<lparr>dp_count := snd (accept_task (sstate (ps_server (pr_store (dp_run p)))) client (dp_count p)),
          dp_arrivals := Suc (dp_arrivals p), dp_pool := addTask (d_task fd client p) (dp_pool p),
          dp_open := (dp_open p)(fd := (if 0 \<le> fd \<and> d_keeps client p then Some (dp_arrivals p) else None))\<rparr>
      else p)"

text \<open>
  The events: the loop accepts; a thread takes a connection, begins to serve it, ends; its worker reads a
  request or does a section; a checkpoint. An event that cannot happen changes nothing. A worker ends only
  between requests; deleting its \<open>Connection\<close> closes the descriptor's number, whatever is behind it.
\<close>

datatype d_event =
    D_accept int sockaddr_in
  | D_take nat
  | D_begin nat
  | D_finish nat
  | D_request nat request
  | D_section nat
  | D_checkpoint

definition task_of :: "nat \<Rightarrow> data_process \<Rightarrow> dconn option" where
  "task_of i p = (case threads (dp_pool p) i of Running t \<Rightarrow> Some t | _ \<Rightarrow> None)"

definition pool_does :: "nat \<Rightarrow> dconn event \<Rightarrow> data_process \<Rightarrow> data_process" where
  "pool_does n ev p = (case pool_step n ev (dp_pool p) of None \<Rightarrow> p | Some q \<Rightarrow> p\<lparr>dp_pool := q\<rparr>)"

definition clients_do :: "primary_event \<Rightarrow> data_process \<Rightarrow> data_process res" where
  "clients_do ev p = and_then (primary_step ev (dp_run p)) (\<lambda>r. Ok (p\<lparr>dp_run := r\<rparr>))"

definition d_finish :: "nat \<Rightarrow> nat \<Rightarrow> data_process \<Rightarrow> data_process" where
  "d_finish n i p =
     (case task_of i p of
        None \<Rightarrow> p
      | Some t \<Rightarrow>
          if resting (pr_place (dp_run p) i)
          then pool_does n (Finish i) (p\<lparr>dp_open := (dp_open p)(fst (snd t) := None)\<rparr>) else p)"

text \<open>The connection whose bytes the worker of thread \<open>i\<close> reads now; a read of a closed descriptor fails and is tried again.\<close>

definition reads_from :: "nat \<Rightarrow> data_process \<Rightarrow> nat option" where
  "reads_from i p = (case task_of i p of None \<Rightarrow> None | Some t \<Rightarrow> dp_open p (fst (snd t)))"

definition d_request :: "nat \<Rightarrow> request \<Rightarrow> data_process \<Rightarrow> data_process res" where
  "d_request i q p =
     (case (task_of i p, reads_from i p) of
        (Some t, Some k) \<Rightarrow>
          clients_do (Sends i q) (if resting (pr_place (dp_run p) i) then p\<lparr>dp_heard := dp_heard p @ [(k, fst t, q)]\<rparr> else p)
      | _ \<Rightarrow> Ok p)"

fun d_step :: "nat \<Rightarrow> d_event \<Rightarrow> data_process \<Rightarrow> data_process res" where
  "d_step n (D_accept fd client) p = Ok (d_accept fd client p)"
| "d_step n (D_take i) p = Ok (pool_does n (Take i) p)"
| "d_step n (D_begin i) p = Ok (pool_does n (Begin i) p)"
| "d_step n (D_finish i) p = Ok (d_finish n i p)"
| "d_step n (D_request i q) p = d_request i q p"
| "d_step n (D_section i) p = (if task_of i p \<noteq> None then clients_do (Steps i) p else Ok p)"
| "d_step n D_checkpoint p = clients_do Checkpoints p"

fun d_run :: "nat \<Rightarrow> d_event list \<Rightarrow> data_process \<Rightarrow> data_process res" where
  "d_run n [] p = Ok p"
| "d_run n (e # es) p = and_then (d_step n e p) (d_run n es)"

text \<open>The signal handler: the connections in service are told, and the process ends with status 0.\<close>

definition d_signalHandler :: "dconn list \<Rightarrow> data_process \<Rightarrow> (dconn \<times> string) list \<times> int" where
  "d_signalHandler order p =
     (if closed (dp_pool p) then [] else map (\<lambda>t. (t, ''-ERR Server shutting down '' @ crlf)) order, 0)"

section \<open>Its parts\<close>

text \<open>What the clients of the primary do in a run of the process.\<close>

fun client_event :: "d_event \<Rightarrow> data_process \<Rightarrow> primary_event list" where
  "client_event (D_request i q) p = (if reads_from i p \<noteq> None then [Sends i q] else [])"
| "client_event (D_section i) p = (if task_of i p \<noteq> None then [Steps i] else [])"
| "client_event D_checkpoint p = [Checkpoints]"
| "client_event _ p = []"

fun client_events :: "nat \<Rightarrow> d_event list \<Rightarrow> data_process \<Rightarrow> primary_event list" where
  "client_events n [] p = []"
| "client_events n (e # es) p = client_event e p @ (case d_step n e p of Ok p' \<Rightarrow> client_events n es p' | _ \<Rightarrow> [])"

lemma client_events_length: "length (client_events n es p) \<le> length es"
proof (induction es arbitrary: p)
  case (Cons e es)
  have "length (client_event e p) \<le> 1" by (cases e) simp_all
  show ?case
  proof (cases "d_step n e p")
    case (Ok p1)
    then show ?thesis using \<open>length (client_event e p) \<le> 1\<close> Cons.IH [of p1] by simp
  qed (use \<open>length (client_event e p) \<le> 1\<close> in simp_all)
qed simp

lemma pool_does_run [simp]: "dp_run (pool_does n ev p) = dp_run p"
  by (simp add: pool_does_def split: option.split)

lemma d_accept_run [simp]: "dp_run (d_accept fd client p) = dp_run p"
  by (simp add: d_accept_def)

lemma d_finish_run [simp]: "dp_run (d_finish n i p) = dp_run p"
  by (simp add: d_finish_def split: option.split)

lemma clients_do_Ok:
  assumes "clients_do ev p = Ok p'"
  obtains r where "primary_step ev (dp_run p) = Ok r" "p' = p\<lparr>dp_run := r\<rparr>"
  using assms by (cases "primary_step ev (dp_run p)") (auto simp: clients_do_def)

lemma d_request_cases:
  assumes "d_request i q p = Ok p'"
  obtains "reads_from i p = None" "p' = p"
  | t k where "task_of i p = Some t" "reads_from i p = Some k" "clients_do (Sends i q) p = Ok (p\<lparr>dp_run := dp_run p'\<rparr>)"
      "p' = p\<lparr>dp_run := dp_run p', dp_heard := dp_heard p @ (if resting (pr_place (dp_run p) i) then [(k, fst t, q)] else [])\<rparr>"
  using assms by (cases "task_of i p"; cases "reads_from i p") (auto simp: d_request_def clients_do_def reads_from_def)

text \<open>The primary part of a step is a step of its clients.\<close>

lemma d_step_total:
  assumes "primary_runs (client_event e p @ evs) (dp_run p) = Ok r"
  obtains p' where "d_step n e p = Ok p'" "primary_runs evs (dp_run p') = Ok r"
proof -
  have "\<exists>p'. d_step n e p = Ok p' \<and> primary_runs evs (dp_run p') = Ok r"
  proof (cases e)
    case (D_request i q)
    then show ?thesis using assms
      by (cases "task_of i p"; cases "reads_from i p") (auto simp: d_request_def clients_do_def reads_from_def)
  qed (use assms in \<open>auto simp: clients_do_def split: if_splits\<close>)
  then show thesis using that by blast
qed

lemma d_run_clients:
  "primary_runs (client_events n es p) (dp_run p) = Ok r \<Longrightarrow> \<exists>p'. d_run n es p = Ok p' \<and> dp_run p' = r"
proof (induction es arbitrary: p)
  case (Cons e es)
  show ?case
  proof (cases "d_step n e p")
    case (Ok p1)
    then have "primary_runs (client_event e p @ client_events n es p1) (dp_run p) = Ok r" using Cons.prems by simp
    then obtain p' where "d_step n e p = Ok p'" "primary_runs (client_events n es p1) (dp_run p') = Ok r" by (rule d_step_total)
    then show ?thesis using Ok Cons.IH [of p1] by simp
  next
    case (Throw x)
    then have "primary_runs (client_event e p @ []) (dp_run p) = Ok r" using Cons.prems by simp
    then show ?thesis using Throw d_step_total by (metis res.distinct(1))
  next
    case Block
    then have "primary_runs (client_event e p @ []) (dp_run p) = Ok r" using Cons.prems by simp
    then show ?thesis using Block d_step_total by (metis res.distinct(3))
  qed
qed simp

text \<open>The pool part: the tasks in the pool are the connections in the order of their arrival.\<close>

definition pool_part :: "nat \<Rightarrow> data_process \<Rightarrow> bool" where
  "pool_part n p \<longleftrightarrow> (\<exists>es. pool_reach n es (dp_pool p) \<and> map fst (added es) = [0..<dp_arrivals p]) \<and> \<not> closed (dp_pool p)"

lemma pool_part_event:
  assumes "pool_part n p" "pool_step n ev (dp_pool p) = Some q" "added [ev] = []" "\<not> closed q"
  shows "pool_part n (p\<lparr>dp_pool := q\<rparr>)"
proof -
  obtain es where es: "pool_reach n es (dp_pool p)" "map fst (added es) = [0..<dp_arrivals p]" using assms(1) by (auto simp: pool_part_def)
  show ?thesis unfolding pool_part_def
    using pool_reach.event [OF es(1) assms(2)] es(2) assms(3,4) by (auto intro!: exI [of _ "es @ [ev]"])
qed

lemma pool_does_part:
  assumes "pool_part n p" "ev \<in> {Take i, Begin i, Finish i}"
  shows "pool_part n (pool_does n ev p)"
proof (cases "pool_step n ev (dp_pool p)")
  case None
  then show ?thesis using assms(1) by (simp add: pool_does_def)
next
  case (Some q)
  have "added [ev] = []" using assms(2) by auto
  moreover have "\<not> closed q" using assms Some by (auto simp: pool_part_def split: if_splits thread.splits option.splits)
  ultimately show ?thesis using pool_part_event [OF assms(1) Some] Some by (simp add: pool_does_def)
qed

lemma pool_part_same: "pool_part n p \<Longrightarrow> dp_pool p' = dp_pool p \<Longrightarrow> dp_arrivals p' = dp_arrivals p \<Longrightarrow> pool_part n p'"
  by (simp add: pool_part_def)

lemma pool_part_step:
  assumes "pool_part n p" "d_step n e p = Ok p'"
  shows "pool_part n p'"
proof (cases e)
  case (D_accept fd client)
  show ?thesis
  proof (cases "dp_open p fd = None")
    case True
    obtain es where es: "pool_reach n es (dp_pool p)" "map fst (added es) = [0..<dp_arrivals p]"
      using assms(1) by (auto simp: pool_part_def)
    have "pool_reach n (es @ [Add (d_task fd client p)]) (addTask (d_task fd client p) (dp_pool p))"
      by (rule pool_reach.event [OF es(1)]) simp
    moreover have "fst (d_task fd client p) = dp_arrivals p" by (simp add: d_task_def)
    ultimately have "\<exists>es. pool_reach n es (dp_pool p') \<and> map fst (added es) = [0..<dp_arrivals p']"
      using assms(2) D_accept es(2) True by (intro exI [of _ "es @ [Add (d_task fd client p)]"]) (auto simp: d_accept_def)
    then show ?thesis using assms D_accept True by (auto simp: pool_part_def d_accept_def addTask_def)
  qed (use assms D_accept in \<open>auto simp: d_accept_def\<close>)
next
  case (D_take i)
  then show ?thesis using assms pool_does_part [of n p "Take i" i] by auto
next
  case (D_begin i)
  then show ?thesis using assms pool_does_part [of n p "Begin i" i] by auto
next
  case (D_finish i)
  have "pool_part n (p\<lparr>dp_open := f\<rparr>)" for f using pool_part_same [OF assms(1)] by simp
  from pool_does_part [OF this] show ?thesis using assms D_finish by (auto simp: d_finish_def split: option.split)
next
  case (D_request i q)
  then have "d_request i q p = Ok p'" using assms(2) by simp
  then show ?thesis
  proof (cases rule: d_request_cases)
    case (2 t k)
    have "dp_pool p' = dp_pool p" "dp_arrivals p' = dp_arrivals p" by (subst 2(4), simp)+
    then show ?thesis using pool_part_same [OF assms(1)] by simp
  qed (use assms(1) in simp)
next
  case (D_section i)
  then show ?thesis using assms by (auto split: if_splits elim!: clients_do_Ok intro: pool_part_same)
next
  case D_checkpoint
  then show ?thesis using assms by (auto elim!: clients_do_Ok intro: pool_part_same)
qed

lemma pool_part_run: "d_run n es p = Ok p' \<Longrightarrow> pool_part n p \<Longrightarrow> pool_part n p'"
proof (induction es arbitrary: p)
  case (Cons e es)
  then obtain p1 where "d_step n e p = Ok p1" "d_run n es p1 = Ok p'" by auto
  then show ?case using Cons.IH pool_part_step [OF Cons.prems(2)] by blast
qed simp

lemma pool_part_start: "pool_part n (d_start r)"
  using pool_reach.start [of n]
  by (auto simp: pool_part_def d_start_def new_ThreadPool_def intro!: exI [of _ "[]"])

text \<open>Two different tasks in the pool are different connections, and a task in service is in no other place.\<close>

definition in_pool :: "dconn \<Rightarrow> data_process \<Rightarrow> bool" where
  "in_pool t p \<longleftrightarrow> t \<in> set (workQueue (dp_pool p)) \<or> (\<exists>i. held (threads (dp_pool p) i) = Some t)"

lemma pool_part_facts:
  assumes "pool_part n p"
  shows "map fst (started (dp_pool p) @ workQueue (dp_pool p)) = [0..<dp_arrivals p]"
    "held (threads (dp_pool p) i) = Some t \<Longrightarrow> held (threads (dp_pool p) j) = Some t \<Longrightarrow> i = j"
    "held (threads (dp_pool p) i) = Some t \<Longrightarrow> t \<notin> set (workQueue (dp_pool p))"
    "in_pool t p \<Longrightarrow> in_pool t' p \<Longrightarrow> t \<noteq> t' \<Longrightarrow> fst t \<noteq> fst t'"
    "in_pool t p \<Longrightarrow> fst t < dp_arrivals p"
proof -
  obtain es where es: "pool_reach n es (dp_pool p)" "map fst (added es) = [0..<dp_arrivals p]" using assms by (auto simp: pool_part_def)
  have "distinct (added es)" using es(2) by (metis distinct_map distinct_upt)
  then have ok: "pool_ok es (dp_pool p)" using pool_invariant [OF es(1)] by blast
  then have all: "started (dp_pool p) @ workQueue (dp_pool p) = added es"
    and st: "\<And>i t. held (threads (dp_pool p) i) = Some t \<Longrightarrow> t \<in> set (started (dp_pool p))"
    by (auto simp: pool_ok_def)
  show m: "map fst (started (dp_pool p) @ workQueue (dp_pool p)) = [0..<dp_arrivals p]" using all es(2) by simp
  show "held (threads (dp_pool p) i) = Some t \<Longrightarrow> held (threads (dp_pool p) j) = Some t \<Longrightarrow> i = j"
    using ok unfolding pool_ok_def by blast
  have d: "distinct (map fst (started (dp_pool p) @ workQueue (dp_pool p)))" unfolding m by simp
  then have "distinct (started (dp_pool p) @ workQueue (dp_pool p))" by (metis distinct_map)
  then show "held (threads (dp_pool p) i) = Some t \<Longrightarrow> t \<notin> set (workQueue (dp_pool p))"
    using st [of i t] by (meson disjoint_iff distinct_append)
  have mem: "t \<in> set (started (dp_pool p) @ workQueue (dp_pool p))" if "in_pool t p" for t
    using that st unfolding in_pool_def set_append by blast
  have inj: "inj_on fst (set (started (dp_pool p) @ workQueue (dp_pool p)))" using d by (simp only: distinct_map)
  show "in_pool t p \<Longrightarrow> in_pool t' p \<Longrightarrow> t \<noteq> t' \<Longrightarrow> fst t \<noteq> fst t'" using inj mem by (meson inj_onD)
  assume t: "in_pool t p"
  have "fst t \<in> fst ` set (started (dp_pool p) @ workQueue (dp_pool p))" by (rule imageI) (rule mem [OF t])
  then have "fst t \<in> set (map fst (started (dp_pool p) @ workQueue (dp_pool p)))" by (simp only: set_map)
  then show "fst t < dp_arrivals p" unfolding m by simp
qed

section \<open>Descriptors\<close>

text \<open>A run in which no connection comes from the master.\<close>

fun no_master :: "nat \<Rightarrow> d_event list \<Rightarrow> data_process \<Rightarrow> bool" where
  "no_master n [] p = True"
| "no_master n (e # es) p =
     ((case e of D_accept fd client \<Rightarrow> d_keeps client p | _ \<Rightarrow> True) \<and> (case d_step n e p of Ok p' \<Rightarrow> no_master n es p' | _ \<Rightarrow> True))"

text \<open>Every descriptor in the pool is that of its own connection, and every request came from there.\<close>

definition own_descriptors :: "data_process \<Rightarrow> bool" where
  "own_descriptors p \<longleftrightarrow>
     (\<forall>t. in_pool t p \<and> 0 \<le> fst (snd t) \<longrightarrow> dp_open p (fst (snd t)) = Some (fst t)) \<and>
     (\<forall>fd < 0. dp_open p fd = None) \<and> (\<forall>x \<in> set (dp_heard p). fst x = fst (snd x))"

lemma in_pool_moves:
  assumes "pool_step n ev (dp_pool p) = Some q" "ev \<in> {Take i, Begin i, Finish i}" "in_pool t (p\<lparr>dp_pool := q\<rparr>)"
  shows "in_pool t p"
proof (cases "ev = Take i")
  case True
  then obtain u w where u: "take_front (workQueue (dp_pool p)) = Some (u, w)" "q = (dp_pool p)\<lparr>workQueue := w,
      threads := (threads (dp_pool p))(i := Popped u), started := started (dp_pool p) @ [u]\<rparr>"
    using assms(1) by (auto split: if_splits option.splits)
  have w: "workQueue (dp_pool p) = u # w" using u(1) by (cases "workQueue (dp_pool p)") (auto simp: take_front_def)
  have "held (threads q j) = held (threads (dp_pool p) j) \<or> held (threads q j) = Some u" "workQueue q = w" for j
    by (simp_all add: u(2))
  moreover have "t \<in> set (workQueue q) \<or> (\<exists>j. held (threads q j) = Some t)" using assms(3) by (simp add: in_pool_def)
  ultimately show ?thesis using w unfolding in_pool_def by (metis list.set_intros option.inject)
next
  case False
  then have "ev = Begin i \<or> ev = Finish i" using assms(2) by blast
  then have h: "held (threads q j) = held (threads (dp_pool p) j) \<or> held (threads q j) = None" "workQueue q = workQueue (dp_pool p)" for j
    using assms(1) by (auto split: if_splits thread.splits)
  have "t \<in> set (workQueue q) \<or> (\<exists>j. held (threads q j) = Some t)" using assms(3) by (simp add: in_pool_def)
  then show ?thesis using h unfolding in_pool_def by (metis option.distinct(1))
qed

lemma finish_leaves:
  assumes "pool_part n p" "task_of i p = Some t" "pool_step n (Finish i) (dp_pool p) = Some q"
  shows "\<not> in_pool t (p\<lparr>dp_pool := q\<rparr>)"
proof -
  have h: "threads (dp_pool p) i = Running t" using assms(2) by (auto simp: task_of_def split: thread.splits)
  then have held: "held (threads (dp_pool p) i) = Some t" by simp
  have q: "workQueue q = workQueue (dp_pool p)" "threads q = (threads (dp_pool p))(i := threads q i)" "held (threads q i) = None"
    using assms(3) h by (auto split: if_splits)
  have "held (threads q j) \<noteq> Some t" for j
  proof (cases "j = i")
    case False
    then have "threads q j = threads (dp_pool p) j" using q(2) by (metis fun_upd_other)
    then show ?thesis using pool_part_facts(2) [OF assms(1) held] False by metis
  qed (use q(3) in simp)
  then show ?thesis using pool_part_facts(3) [OF assms(1) held] q(1) by (simp add: in_pool_def)
qed

lemma own_pool:
  assumes "own_descriptors p" "\<And>t. in_pool t p' \<Longrightarrow> in_pool t p" "dp_open p' = dp_open p" "dp_heard p' = dp_heard p"
  shows "own_descriptors p'"
  using assms(1,2) unfolding own_descriptors_def assms(3,4) by blast

lemma own_pool_does:
  assumes "own_descriptors p" "ev \<in> {Take i, Begin i, Finish i}"
  shows "own_descriptors (pool_does n ev p)"
proof (cases "pool_step n ev (dp_pool p)")
  case (Some q)
  then show ?thesis using own_pool [OF assms(1), of "p\<lparr>dp_pool := q\<rparr>"] in_pool_moves [OF Some assms(2)] by (simp add: pool_does_def)
qed (use assms(1) in \<open>simp add: pool_does_def\<close>)

lemma own_step:
  assumes "own_descriptors p" "pool_part n p" "d_step n e p = Ok p'" "case e of D_accept fd client \<Rightarrow> d_keeps client p | _ \<Rightarrow> True"
  shows "own_descriptors p'"
proof (cases e)
  case (D_accept fd client)
  show ?thesis
  proof (cases "dp_open p fd = None")
    case True
    have p': "p' = d_accept fd client p" using assms(3) D_accept by simp
    have pool: "in_pool t p' \<longleftrightarrow> in_pool t p \<or> t = d_task fd client p" for t
      using True by (auto simp: p' d_accept_def in_pool_def addTask_def push_back_def)
    have "dp_open p' (fst (snd t)) = Some (fst t)" if "in_pool t p'" "0 \<le> fst (snd t)" for t
    proof (cases "t = d_task fd client p")
      case True
      then show ?thesis using that(2) assms(4) D_accept \<open>dp_open p fd = None\<close> by (simp add: p' d_accept_def d_task_def)
    next
      case False
      then have "dp_open p (fst (snd t)) = Some (fst t)" using that pool assms(1) unfolding own_descriptors_def by blast
      then show ?thesis using True by (auto simp: p' d_accept_def)
    qed
    then show ?thesis using assms(1) True by (auto simp: own_descriptors_def p' d_accept_def)
  qed (use assms D_accept in \<open>auto simp: d_accept_def\<close>)
next
  case (D_take i)
  then show ?thesis using own_pool_does [OF assms(1), of "Take i" i n] assms(3) by auto
next
  case (D_begin i)
  then show ?thesis using own_pool_does [OF assms(1), of "Begin i" i n] assms(3) by auto
next
  case (D_finish i)
  show ?thesis
  proof (cases "task_of i p")
    case None
    then show ?thesis using assms(1,3) D_finish by (simp add: d_finish_def)
  next
    case (Some t)
    have held: "held (threads (dp_pool p) i) = Some t" using Some by (auto simp: task_of_def split: thread.splits)
    then have t: "in_pool t p" by (auto simp: in_pool_def)
    have "\<exists>q. pool_step n (Finish i) (dp_pool p) = Some q" using Some by (auto simp: task_of_def split: thread.splits)
    then obtain q where q: "pool_step n (Finish i) (dp_pool p) = Some q" by blast
    show ?thesis
    proof (cases "resting (pr_place (dp_run p) i)")
      case True
      have p': "p' = p\<lparr>dp_open := (dp_open p)(fst (snd t) := None), dp_pool := q\<rparr>"
        using assms(3) D_finish Some True q by (simp add: d_finish_def pool_does_def)
      have "dp_open p' (fst (snd u)) = Some (fst u)" if u: "in_pool u p'" "0 \<le> fst (snd u)" for u
      proof -
        have up: "in_pool u (p\<lparr>dp_pool := q\<rparr>)" using u(1) by (simp add: p' in_pool_def)
        then have uin: "in_pool u p" using in_pool_moves [OF q] by blast
        have o: "dp_open p (fst (snd u)) = Some (fst u)" using assms(1) uin u(2) unfolding own_descriptors_def by blast
        have "u \<noteq> t" using up finish_leaves [OF assms(2) Some q] by blast
        then have "fst u \<noteq> fst t" using pool_part_facts(4) [OF assms(2) uin t] by blast
        then have "fst (snd u) \<noteq> fst (snd t)"
          using o assms(1) t u(2) unfolding own_descriptors_def by (metis option.inject)
        then show ?thesis using o by (simp add: p')
      qed
      then show ?thesis using assms(1) by (auto simp: own_descriptors_def p')
    qed (use assms(1,3) D_finish Some in \<open>simp add: d_finish_def\<close>)
  qed
next
  case (D_request i q)
  then have "d_request i q p = Ok p'" using assms(3) by simp
  then show ?thesis
  proof (cases rule: d_request_cases)
    case 1
    then show ?thesis using assms(1) by simp
  next
    case (2 t k)
    have "in_pool t p" using 2(1) by (auto simp: task_of_def in_pool_def split: thread.splits) (metis held.simps(2))
    moreover have o: "dp_open p (fst (snd t)) = Some k" using 2(1,2) by (simp add: reads_from_def)
    moreover have "0 \<le> fst (snd t)" using o assms(1) unfolding own_descriptors_def by (metis not_less option.distinct(1))
    ultimately have "k = fst t" using assms(1) unfolding own_descriptors_def by (metis option.inject)
    moreover have "dp_pool p' = dp_pool p" "dp_open p' = dp_open p"
      "dp_heard p' = dp_heard p @ (if resting (pr_place (dp_run p) i) then [(k, fst t, q)] else [])"
      by (subst 2(4), simp)+
    ultimately show ?thesis using assms(1) by (auto simp: own_descriptors_def in_pool_def)
  qed
next
  case (D_section i)
  then have "p' = p \<or> (\<exists>r. p' = p\<lparr>dp_run := r\<rparr>)" using assms(3) by (auto split: if_splits elim!: clients_do_Ok)
  then show ?thesis using own_pool [OF assms(1), of p'] assms(1) by (auto simp: in_pool_def)
next
  case D_checkpoint
  then have "\<exists>r. p' = p\<lparr>dp_run := r\<rparr>" using assms(3) by (auto elim!: clients_do_Ok)
  then show ?thesis using own_pool [OF assms(1), of p'] by (auto simp: in_pool_def)
qed

lemma own_run: "d_run n es p = Ok p' \<Longrightarrow> no_master n es p \<Longrightarrow> pool_part n p \<Longrightarrow> own_descriptors p \<Longrightarrow> own_descriptors p'"
proof (induction es arbitrary: p)
  case (Cons e es)
  then obtain p1 where p1: "d_step n e p = Ok p1" "d_run n es p1 = Ok p'" by auto
  have "case e of D_accept fd client \<Rightarrow> d_keeps client p | _ \<Rightarrow> True" using Cons.prems(2) by simp
  then show ?case using Cons.IH [OF p1(2)] Cons.prems(2,3) p1(1) pool_part_step [OF Cons.prems(3) p1(1)] own_step [OF Cons.prems(4,3) p1(1)] by simp
qed simp

lemma own_start: "own_descriptors (d_start r)"
  by (simp add: own_descriptors_def d_start_def in_pool_def new_ThreadPool_def)

section \<open>The server as a whole\<close>

text \<open>
  C7. A run of the whole process in which no thread is disturbed between its sections and no connection comes
  from the master: it does not fail; connections are taken in the order of their arrival, each by one
  thread; although descriptors are closed and given out again, every request that a thread reads while it
  serves a connection comes from that connection; and the answers on all connections together, and the
  table, are those of the abstract store in one order. With a connection from the master a thread may
  read another client's requests: \<open>stale_descriptor\<close>.
\<close>

theorem data_server_serves:
  assumes "run_ok r" "all_at_rest r" "seq_of r + int (length es) \<le> long_max"
    and "undisturbed (client_events n es (d_start r)) r" "no_master n es (d_start r)"
  shows "\<exists>p h. d_run n es (d_start r) = Ok p \<and>
    map fst (started (dp_pool p) @ workQueue (dp_pool p)) = [0..<dp_arrivals p] \<and>
    (\<forall>i j t. held (threads (dp_pool p) i) = Some t \<longrightarrow> held (threads (dp_pool p) j) = Some t \<longrightarrow> i = j) \<and>
    (\<forall>x \<in> set (dp_heard p). fst x = fst (snd x)) \<and>
    (\<forall>i t k. task_of i p = Some t \<and> reads_from i p = Some k \<longrightarrow> k = fst t) \<and>
    answers_of h = store_answers (requests_of h) (abs_store (table_view (pr_store r))) \<and>
    abs_store (table_view (pr_store (dp_run p))) = store_after (requests_of h) (abs_store (table_view (pr_store r))) \<and>
    (\<forall>i. read_by i (client_events n es (d_start r)) r = requests_of (of_thread i h) @ as_list (pending (pr_place (dp_run p) i)))"
proof -
  let ?evs = "client_events n es (d_start r)" and ?h = "history (client_events n es (d_start r)) r"
  have "seq_of r + int (length ?evs) \<le> long_max" using assms(3) client_events_length [of n es "d_start r"] by linarith
  then obtain r' where r': "primary_runs ?evs r = Ok r'" "run_ok r'" "agrees ?evs r r'"
    using runs_ok [OF assms(1,4)] by blast
  have "primary_runs ?evs (dp_run (d_start r)) = Ok r'" using r'(1) by (simp add: d_start_def)
  from d_run_clients [OF this] obtain p where p: "d_run n es (d_start r) = Ok p" "dp_run p = r'" by blast
  have part: "pool_part n p" by (rule pool_part_run [OF p(1) pool_part_start])
  have own: "own_descriptors p" by (rule own_run [OF p(1) assms(5) pool_part_start own_start])
  have reads: "k = fst t" if "task_of i p = Some t" "reads_from i p = Some k" for i t k
  proof -
    have "in_pool t p" using that(1) by (auto simp: task_of_def in_pool_def split: thread.splits) (metis held.simps(2))
    moreover have o: "dp_open p (fst (snd t)) = Some k" using that by (simp add: reads_from_def)
    moreover have "0 \<le> fst (snd t)" using o own unfolding own_descriptors_def by (metis not_less option.distinct(1))
    ultimately show ?thesis using own unfolding own_descriptors_def by (metis option.inject)
  qed
  have heard: "\<forall>x \<in> set (dp_heard p). fst x = fst (snd x)" using own by (simp add: own_descriptors_def)
  have views: "abs_store (table_view (pr_store r)) = heap_store (pr_store r)" "abs_store (table_view (pr_store r')) = heap_store (pr_store r')"
    using assms(1) r'(2) by (simp_all add: run_ok_def view_store)
  show ?thesis
    by (intro exI [of _ p] exI [of _ ?h] conjI)
       (use p pool_part_facts(1,2) [OF part] heard reads r'(3) views assms(2) in \<open>auto simp: agrees_def all_at_rest_def simp del: map_append\<close>)
qed

text \<open>Two connections, the second one still in the queue, and a request in its first section.\<close>

definition demo_process :: "d_event list" where
  "demo_process = [D_accept 4 (localhost 9), D_accept 5 (localhost 9), D_take 0, D_begin 0,
     D_request 0 (RGet (''r'', ''c'')), D_section 0]"

lemmas d_defs = d_start_def d_accept_def d_task_def pool_does_def addTask_def push_back_def take_front_def
  new_ThreadPool_def task_of_def reads_from_def d_request_def clients_do_def

lemma demo_clients:
  "undisturbed (client_events 2 demo_process (d_start (demo_primary (fresh_primary [])))) (demo_primary (fresh_primary []))"
  by (simp add: demo_process_def d_defs get_section_def split: prod.split res.split)

lemma demo_addresses: "ip_to_string (localhost 9) \<noteq> ip_to_string (master_addr (sstate (fresh_primary [])))"
proof
  assume "ip_to_string (localhost 9) = ip_to_string (master_addr (sstate (fresh_primary [])))"
  then have "ip_to_string (localhost 9) = ip_to_string (localhost 1)" by (simp add: fresh_primary_def demo_server_def setFilePath_def new_ServerState_def)
  moreover have "addr_ok (localhost 9)" "addr_ok (localhost 1)" by simp_all
  ultimately have "localhost 9 = localhost 1"
    using string_to_ip_shown by (metis res.inject(1))
  then show False by (simp add: localhost_def)
qed

theorem data_server_serves_witness:
  "\<exists>p. d_run 2 demo_process (d_start (demo_primary (fresh_primary []))) = Ok p \<and>
     map fst (started (dp_pool p) @ workQueue (dp_pool p)) = [0..<dp_arrivals p]"
proof -
  have "seq_of (demo_primary (fresh_primary [])) + int (length demo_process) \<le> long_max"
    by (simp add: demo_process_def fresh_primary_facts long_max_def)
  moreover have "no_master 2 demo_process (d_start (demo_primary (fresh_primary [])))"
    by (simp add: demo_process_def d_defs get_section_def d_keeps_def accept_task_def demo_addresses split: prod.split res.split)
  ultimately show ?thesis
    using data_server_serves [OF demo_run_ok(1) [OF demo_serves] demo_run_ok(2) _ demo_clients] by blast
qed

text \<open>
  The descriptor of a connection from the master is closed and given out again: the thread that has taken
  the master's connection reads the next client's requests, while that client still waits in the queue.
\<close>

theorem stale_descriptor:
  assumes "ip_to_string m = ip_to_string (master_addr (sstate (ps_server (pr_store r))))"
    and "ip_to_string client \<noteq> ip_to_string (master_addr (sstate (ps_server (pr_store r))))"
    and "0 < n" "resting (pr_place r 0)" "0 \<le> fd"
  shows "\<exists>p. d_run n [D_accept fd m, D_take 0, D_begin 0, D_accept fd client, D_request 0 q] (d_start r) = Ok p \<and>
    dp_heard p = [(1, 0, q)] \<and> pr_place (dp_run p) 0 = Received q \<and> map fst (workQueue (dp_pool p)) = [1]"
  using assms by (simp add: d_defs d_keeps_def accept_task_def)

end
