(* ===== verification/File_Clock.thy ===== *)
theory File_Clock
  imports File_Store_Props Checkpoint
begin

text \<open>
  The clock of the file library (\<open>Storage.cc\<close>): identifiers and times of new files and folders are printed
  from the calendar time. They are fit for a line of a folder, and an identifier tells the millisecond, and
  nothing more.
\<close>

section \<open>Printing\<close>

text \<open>\<open>%0wd\<close> for a number that is not negative.\<close>

definition zero_padded :: "nat \<Rightarrow> int \<Rightarrow> string" where
  "zero_padded w n = replicate (w - length (show_int n)) CHR ''0'' @ show_int n"

text \<open>The fields of \<open>struct tm\<close> that are printed: years since 1900, months from 0.\<close>

record calendar =
  tm_year :: int
  tm_mon :: int
  tm_mday :: int
  tm_hour :: int
  tm_min :: int
  tm_sec :: int

definition getTime_as_ID :: "calendar \<Rightarrow> int \<Rightarrow> string" where
  "getTime_as_ID tm tv_usec =
     zero_padded 4 (tm_year tm + 1900) @ '':'' @ zero_padded 2 (tm_mon tm + 1) @ '':'' @ zero_padded 2 (tm_mday tm) @ '':'' @
     zero_padded 2 (tm_hour tm) @ '':'' @ zero_padded 2 (tm_min tm) @ '':'' @ zero_padded 2 (tm_sec tm) @ ''.'' @
     zero_padded 6 (tv_usec div 1000)"

definition create_time :: "calendar \<Rightarrow> string" where
  "create_time tm =
     zero_padded 4 (tm_year tm + 1900) @ ''-'' @ zero_padded 2 (tm_mon tm + 1) @ ''-'' @ zero_padded 2 (tm_mday tm) @ '' '' @
     zero_padded 2 (tm_hour tm) @ '':'' @ zero_padded 2 (tm_min tm) @ '':'' @ zero_padded 2 (tm_sec tm)"

section \<open>What is printed\<close>

definition calendar_ok :: "calendar \<Rightarrow> bool" where
  "calendar_ok t \<longleftrightarrow> 0 \<le> tm_year t \<and> tm_year t < 8100 \<and> 0 \<le> tm_mon t \<and> tm_mon t < 12 \<and> 0 \<le> tm_mday t \<and> tm_mday t < 32 \<and>
     0 \<le> tm_hour t \<and> tm_hour t < 24 \<and> 0 \<le> tm_min t \<and> tm_min t < 60 \<and> 0 \<le> tm_sec t \<and> tm_sec t < 61"

lemma digits_val_zeros: "digits_val (replicate k CHR ''0'' @ s) = digits_val s"
proof -
  have "foldl (\<lambda>v c. 10 * v + digit_val c) 0 (replicate k CHR ''0'') = 0"
    by (induction k) (simp_all add: digit_val_def)
  then show ?thesis by (simp add: digits_val_def)
qed

lemma zero_padded_val: "0 \<le> n \<Longrightarrow> digits_val (zero_padded w n) = nat n"
  by (simp add: zero_padded_def digits_val_zeros show_int_def)

lemma zero_padded_length:
  assumes "0 \<le> n" "n < 10 ^ w" "0 < w"
  shows "length (zero_padded w n) = w"
proof -
  have "nat n < 10 ^ w" using assms(1,2) by (metis nat_less_eq_zless nat_power_eq nat_numeral zero_le_numeral)
  then have "length (show_nat (nat n)) \<le> w" using assms(3) by (rule show_nat_short)
  then show ?thesis using assms(1) by (simp add: zero_padded_def show_int_def)
qed

lemma zero_padded_digits: "0 \<le> n \<Longrightarrow> c \<in> set (zero_padded w n) \<Longrightarrow> is_digit c"
  by (auto simp: zero_padded_def show_int_def is_digit_def dest: show_nat_digits)

lemma zero_padded_chars:
  assumes "0 \<le> n" "\<not> is_digit c"
  shows "c \<notin> set (zero_padded w n)"
  using zero_padded_digits [OF assms(1)] assms(2) by blast

text \<open>Fields of fixed width can be told apart.\<close>

lemma zero_padded_append:
  assumes "0 \<le> n" "n < 10 ^ w" "0 \<le> m" "m < 10 ^ w" "0 < w"
  shows "zero_padded w n @ xs = zero_padded w m @ ys \<longleftrightarrow> n = m \<and> xs = ys"
proof
  assume "zero_padded w n @ xs = zero_padded w m @ ys"
  then have e: "zero_padded w n = zero_padded w m" "xs = ys"
    using zero_padded_length [OF assms(1,2,5)] zero_padded_length [OF assms(3,4,5)] by simp_all
  have "nat n = nat m" using e(1) zero_padded_val [OF assms(1)] zero_padded_val [OF assms(3)] by metis
  then show "n = m \<and> xs = ys" using e(2) assms(1,3) by simp
qed simp

lemma clock_bounds:
  assumes "calendar_ok t"
  shows "0 \<le> tm_year t + 1900" "tm_year t + 1900 < 10 ^ 4" "0 \<le> tm_mon t + 1" "tm_mon t + 1 < 10 ^ 2" "0 \<le> tm_mday t"
    "tm_mday t < 10 ^ 2" "0 \<le> tm_hour t" "tm_hour t < 10 ^ 2" "0 \<le> tm_min t" "tm_min t < 10 ^ 2" "0 \<le> tm_sec t" "tm_sec t < 10 ^ 2"
  using assms by (simp_all add: calendar_ok_def)

theorem clock_fields:
  assumes "calendar_ok t" "0 \<le> u" "u < 1000000"
  shows "field_ok (getTime_as_ID t u)" "field_ok (create_time t)" "length (getTime_as_ID t u) = 26" "length (create_time t) = 19"
proof -
  note b = clock_bounds [OF assms(1)]
  have u: "0 \<le> u div 1000" "u div 1000 < 10 ^ 6" using assms(2,3) by auto
  note chars = zero_padded_chars [OF b(1)] zero_padded_chars [OF b(3)] zero_padded_chars [OF b(5)] zero_padded_chars [OF b(7)]
    zero_padded_chars [OF b(9)] zero_padded_chars [OF b(11)] zero_padded_chars [OF u(1)]
  note lens = zero_padded_length [OF b(1,2)] zero_padded_length [OF b(3,4)] zero_padded_length [OF b(5,6)]
    zero_padded_length [OF b(7,8)] zero_padded_length [OF b(9,10)] zero_padded_length [OF b(11,12)] zero_padded_length [OF u]
  show "field_ok (getTime_as_ID t u)" "field_ok (create_time t)"
    by (simp_all add: field_ok_def getTime_as_ID_def create_time_def chars is_digit_def)
  show "length (getTime_as_ID t u) = 26" "length (create_time t) = 19"
    by (simp_all add: getTime_as_ID_def create_time_def lens)
qed

text \<open>
  The identifier of a new file is that of another one exactly when both are made in the same millisecond.
\<close>

theorem id_milliseconds:
  assumes "calendar_ok t" "0 \<le> u" "u < 1000000" "calendar_ok t'" "0 \<le> u'" "u' < 1000000"
  shows "getTime_as_ID t u = getTime_as_ID t' u' \<longleftrightarrow> t = t' \<and> u div 1000 = u' div 1000"
proof -
  note b = clock_bounds [OF assms(1)] and b' = clock_bounds [OF assms(4)]
  have u: "0 \<le> u div 1000" "u div 1000 < 10 ^ 6" "0 \<le> u' div 1000" "u' div 1000 < 10 ^ 6" using assms(2,3,5,6) by auto
  have last: "zero_padded 6 (u div 1000) = zero_padded 6 (u' div 1000) \<longleftrightarrow> u div 1000 = u' div 1000"
    using zero_padded_append [OF u, of "[]" "[]"] by simp
  show ?thesis
    by (simp add: getTime_as_ID_def zero_padded_append [OF b(1,2) b'(1,2)] zero_padded_append [OF b(3,4) b'(3,4)]
        zero_padded_append [OF b(5,6) b'(5,6)] zero_padded_append [OF b(7,8) b'(7,8)] zero_padded_append [OF b(9,10) b'(9,10)]
        zero_padded_append [OF b(11,12) b'(11,12)] last)
       (auto intro: calendar.equality)
qed

theorem id_milliseconds_witness:
  "getTime_as_ID \<lparr>tm_year = 118, tm_mon = 3, tm_mday = 10, tm_hour = 9, tm_min = 8, tm_sec = 7\<rparr> 2100 =
   getTime_as_ID \<lparr>tm_year = 118, tm_mon = 3, tm_mday = 10, tm_hour = 9, tm_min = 8, tm_sec = 7\<rparr> 2900"
  by (subst id_milliseconds) (simp_all add: calendar_ok_def)

end
