(* ===== verification/Spec2Isabelle.thy ===== *)
theory Spec2Isabelle
  imports Recovery Master_Process Mail_Service Web_Races Load_Balancer_Process Smtp_Main Clients_Races Data_Process File_Clock
begin

text \<open>
  A verification library for a small cloud system in C++: a replicated key-value store, a file library
  and a mail system on top of it, and web servers behind a load balancer. Every theory below models one
  part of \<open>src/\<close>; this one imports them all.

  THE PROGRAM. The data servers (\<open>src/kvstore\<close>) keep a table of cells, (row, column) to text. The
  servers of a node hold the same rows; one is the primary. It writes every change to a log, sends it to
  the replicas and answers the client; every 30 seconds the table is written to a checkpoint. A server
  that restarts reads its checkpoint and log and fetches what it missed from the primary. The master
  (\<open>src/kvstore/master\<close>) assigns rows to nodes, watches the primaries and promotes a replica when one
  is down. The file library (\<open>src/storage\<close>) keeps a user's folders in the user's row: a folder is a cell
  with one line for each entry, a file is two cells, its name and its content in hexadecimal digits. The
  mail library and the SMTP server (\<open>src/webmail\<close>) keep a mailbox as a cell with a list of hashes and a
  cell for each mail; mail for other hosts waits in a queue file. The web server (\<open>src/frontendServer\<close>)
  translates HTTP requests into calls of the file and mail libraries; the load balancer redirects clients
  to the web servers that run; \<open>src/state\<close> asks master and servers for the administration page.

  VOCABULARY. \<open>Prelude\<close>: a C++ call gives a value (\<open>Ok\<close>), ends the process (\<open>Throw\<close>: an exception
  nobody catches, a null pointer, an index out of range, a signal) or never returns (\<open>Block\<close>);
  \<open>and_then\<close> puts calls in sequence, \<open>on_Ok\<close> states what holds of a value. Positions are \<open>size_t\<close>:
  \<open>npos\<close>, \<open>szadd\<close> and \<open>szsub\<close> wrap around as the code relies on. \<open>Cpp_String\<close>: \<open>std::string\<close>, C strings,
  \<open>atoi\<close>, \<open>stol\<close>, \<open>getline\<close>, printing of numbers. \<open>Cpp_Map\<close>: the contract of \<open>std::map\<close> as the locale
  \<open>cpp_map\<close>, interpreted on sorted association lists. \<open>Net_Connection\<close> (\<open>Connection.cc\<close>,
  \<open>masterConnection.cc\<close>): a socket is the list of what its reads bring; partial reads and writes.
  \<open>File_Tool\<close> (\<open>filetool.cc\<close>): the file system as a map.

  THE STORE. \<open>Kv_Table\<close> (\<open>server.h\<close>, \<open>cell.h\<close>): the table, locale \<open>kv_store\<close>. \<open>Server_State\<close>
  (\<open>serverState.cc\<close>): configuration and sequence numbers. \<open>Checkpoint\<close> (\<open>checkpointing.cc\<close>): checkpoint,
  log and both replays. \<open>Back_Store\<close> (\<open>backStore.cc\<close>): the replicas, running or recovering. \<open>Worker\<close>
  (\<open>Worker.cc\<close>): every command; \<open>run_step\<close> is one round of the loop (a read and the commands in it),
  \<open>run\<close> a session. \<open>Worker_Props\<close>: the invariant \<open>server_ok\<close> and what single commands do. \<open>Service\<close>: an
  abstract store of cells; on requests that come one in a read the primary answers like it
  (\<open>primary_refines_store\<close>), what it acknowledged is rebuilt from checkpoint and log
  (\<open>acknowledged_writes_durable\<close>), and replicas follow (\<open>replica_follows\<close>). \<open>Primary_Clients\<close>: several
  clients at once, with every handler cut where the code takes and releases the lock of the table, and a
  heap of cells and contents behind the table. \<open>Clients_Props\<close>: such runs are linearizable and durable, with
  checkpoints in between, as long as no thread is disturbed between its sections, for which it is enough
  that requests at work together concern different cells; \<open>Clients_Races\<close>: what happens otherwise. \<open>Recovery\<close>
  (\<open>dataserver.cc\<close>): start and recovery. \<open>Thread_Pool\<close> (\<open>ThreadPool.cc\<close>): the pool as a transition
  system, with the queue behind the locale \<open>fifo\<close>. \<open>Data_Process\<close> (\<open>dataserver.cc\<close>): accept loop, pool and
  clients together, over the table of descriptors, whose numbers are given out again
  (\<open>stale_descriptor\<close>: a thread that comes late to a closed connection reads from another client).
  \<open>Master\<close> (\<open>master.h\<close>, \<open>masterWorker.cc\<close>): nodes, heartbeat, promotion and every request.
  \<open>Master_Process\<close> (\<open>master.cc\<close>, \<open>masterThreadPool.cc\<close>): the whole process, connections, threads,
  heartbeats and the critical sections of the workers (\<open>m_read_section\<close>, \<open>m_work_section\<close>) in any
  interleaving; a row keeps its node as long as no two threads assign the same row at once
  (\<open>where_apart\<close>), and \<open>where_race\<close> in \<open>Master\<close> is what happens when two do.

  FILES AND MAIL. \<open>File_Store\<close> (\<open>Storage.cc\<close>, \<open>fileHandler.cc\<close>, \<open>masterConnect.cc\<close>): the object of a user,
  with the commands it sends and the recovery after a failure. \<open>File_Clock\<close>: identifiers and times as they are
  printed from the clock, fit for a listing. \<open>File_Store_Props\<close> states the interface
  to a data server as the locale \<open>kv_service\<close> and proves in it what uploading, downloading, moving,
  renaming and deleting do. \<open>File_Service\<close> interprets the locale on \<open>run_step\<close> of the worker model (and on
  a pair of servers, one of which has failed), so the theorems hold of the two programs together.
  \<open>Mail_Client\<close> (\<open>utils.cc\<close>, \<open>client.cc\<close>), \<open>Mail_Queue\<close> (\<open>deliver.cc\<close>), \<open>Smtp_Server\<close>
  (\<open>server.cc\<close>): the mail programs, for the queue with a specification of which records of the
  file a pass sends and drops (\<open>mail_goes\<close>); \<open>Smtp_Props\<close>: client and server together, line by line;
  \<open>Smtp_Main\<close>: the SMTP server as a process, with its accept loop and its signal handler.
  \<open>Mail_Service\<close> extends the interface to \<open>mail_service\<close> (the way through the master) and shows that
  delivering, reading and deleting implement a list of mails; \<open>mail_site\<close> is the site it is interpreted on.

  THE WEB. \<open>Load_Balancer\<close> (\<open>load_balancer.cc\<close>): the single operations; \<open>Load_Balancer_Process\<close>: start, and
  connections and state checks in any interleaving, cut at every place where the lock is free; \<open>lb_calm\<close>
  says that the thread that checks does not read the list of servers while one of them is taken out, and
  \<open>lb_check_throws\<close> is what happens when it does. \<open>State_Check\<close> (\<open>StateCheck.cc\<close>). \<open>Http_Request\<close>
  (\<open>request.cc\<close>): the buffered reader, equal to one that parses line by line and takes the body read by
  read. \<open>Web_Text\<close> and
  \<open>Web_Page\<close> (\<open>util.cc\<close>, the functions behind the class in \<open>response.cc\<close>): templates, decoding, HTML.
  \<open>Web_Text_Props\<close>: replacement against a reference, round trips of forms and paths, numbers in paths.
  \<open>Web_Server\<close> (\<open>response.cc\<close>): the globals as the record \<open>web\<close>, one definition for each handler, \<open>respond_http\<close>
  for the constructor; what is outside (the data server, the master, the SMTP server, templates, clock, the
  order of hash tables) is the record \<open>web_env\<close>. \<open>Web_Server_Props\<close>: the invariant \<open>web_ok\<close> over all handlers.
  \<open>Web_Service\<close>: the handlers over the models of the libraries and of the data server, from the bytes of a request
  to the cells and back. \<open>Accept_Loop\<close>: the accept loop of the web and the SMTP server and its threads, which
  share one variable; the locale \<open>loop_service\<close> lifts what serving one connection keeps to all serial runs, in
  which a connection is served before the next one is begun. \<open>Web_Frontend\<close> (\<open>frontend.cc\<close>) interprets it
  on \<open>handle_connection\<close>. \<open>Web_Races\<close> cuts sign-in and sign-up at the call to the data server: two at once
  store the storage of one user under the name of the other.

  BOUNDS AND FUEL. Loops whose end depends on other processes (retries of a compare-and-swap, recovery
  after a failure, reading a request) take fuel; out of fuel is \<open>Block\<close>. The theorems that such a call
  returns fix the fuel: one round for every operation on a data server that serves (\<open>fuel E = Suc m\<close>), one
  round for each piece and line of a request. Sequence numbers are \<open>long\<close>: \<open>can_serve n\<close> says that \<open>n\<close> more fit.
  The row counts of the master and the numbers of connections are bounded likewise.

  NOT MODELLED. The creation of sockets (their results are inputs), signals apart from the one that ends
  a process, debug output, the console program \<open>client_test.cc\<close>, HTML, CSS and scripts (templates are a
  parameter). Mutexes: an operation under a lock is one step. What threads do at the same time is modelled
  at the grain of critical sections in \<open>Primary_Clients\<close> (where a GET, which takes no lock, is one step),
  \<open>Master_Process\<close>, \<open>Load_Balancer_Process\<close> and, for sign-in and sign-up, \<open>Web_Races\<close>; in \<open>Data_Process\<close> a
  round of a worker and in \<open>Accept_Loop\<close> and its two users a whole connection is one step. A failed
  accept is modelled for the data server and left out for the web and the mail server. The result of a
  write is not looked at where the code does not look at it, and the two or three writes in which
  \<open>Storage.cc\<close> sends a PUT or CPUT are one message, so the theorems about requests that come one in a
  read say nothing of a network that delivers them apart. Undefined behaviour (an index behind the end,
  an array that is too short) is an error value where the code can reach it; integer overflow is taken
  to wrap around.
\<close>

end
